(* ===== verification/Prelude.thy ===== *)
theory Prelude
  imports Main "HOL-Library.Word"
begin

text \<open>
  Shared vocabulary of the development: machine integers, the outcome type of a kernel routine
  (\<open>kres\<close>: it returns, it goes to sleep, or it calls \<^verbatim>\<open>panic\<close>) with its sequencing operator and
  its two Hoare-style judgements, little-endian access to byte arrays, and the generic facts on
  lists and words the components use. C arrays whose index is always in range are functions from
  their index (\<open>bytes\<close>); tables indexed by untrusted numbers are lists.
\<close>

unbundle bit_operations_syntax

named_theorems okr_intros \<open>introduction rules for total outcomes\<close>
named_theorems enc_simps \<open>little-endian reads over writes\<close>

section \<open>Machine integers and byte arrays\<close>

type_synonym u8 = "8 word"
type_synonym u16 = "16 word"
type_synonym u32 = "32 word"
type_synonym bytes = "nat \<Rightarrow> u8"

lemma unat_less_u32: "unat (x :: u32) < 4294967296"
  by (rule order_less_le_trans [OF unsigned_less]) simp

section \<open>Outcomes of kernel routines\<close>

text \<open>
  The addresses of the kernel objects that carry a sleep lock, and the wait channels handed to
  \<^verbatim>\<open>sleep\<close> and \<^verbatim>\<open>wakeup\<close>. In the C code both are addresses; distinct objects have distinct
  addresses, which the constructors reflect.
\<close>

datatype slid = BufLock nat | InodeLock nat

datatype chan =
    ChanProc nat           \<comment> \<open>a \<^verbatim>\<open>struct proc\<close>, used by \<^verbatim>\<open>wait\<close>\<close>
  | ChanTicks              \<comment> \<open>\<^verbatim>\<open>&ticks\<close>\<close>
  | ChanLog                \<comment> \<open>\<^verbatim>\<open>&log\<close>\<close>
  | ChanLock slid          \<comment> \<open>a sleep lock\<close>
  | ChanBuf nat            \<comment> \<open>a \<^verbatim>\<open>struct buf\<close> queued at the disk\<close>
  | ChanPipeRead u32       \<comment> \<open>\<^verbatim>\<open>&p->nread\<close> of the pipe at this address\<close>
  | ChanPipeWrite u32      \<comment> \<open>\<^verbatim>\<open>&p->nwrite\<close>\<close>
  | ChanInput              \<comment> \<open>\<^verbatim>\<open>&input.r\<close>\<close>

text \<open>
  \<open>Ret a s\<close>: the routine returns \<open>a\<close> in state \<open>s\<close>. \<open>Sleeping c s\<close>: it has called \<^verbatim>\<open>sleep\<close> on
  channel \<open>c\<close> and the CPU has left the thread. \<open>Exited s\<close>: the process has exited and the CPU is
  back in the scheduler. \<open>Panic m\<close>: it has called \<^verbatim>\<open>panic(m)\<close>, which never returns.
\<close>

datatype ('a, 's) kres = Ret 'a 's | Sleeping chan 's | Exited 's | Panic string

primrec bindr :: "('a, 's) kres \<Rightarrow> ('a \<Rightarrow> 's \<Rightarrow> ('b, 's) kres) \<Rightarrow> ('b, 's) kres" where
  "bindr (Ret a s) f = f a s"
| "bindr (Sleeping c s) f = Sleeping c s"
| "bindr (Exited s) f = Exited s"
| "bindr (Panic m) f = Panic m"

text \<open>Total correctness of an outcome: it is a return, and the result satisfies \<open>P\<close>.\<close>

primrec okr :: "('a, 's) kres \<Rightarrow> ('a \<Rightarrow> 's \<Rightarrow> bool) \<Rightarrow> bool" where
  "okr (Ret a s) P = P a s"
| "okr (Sleeping c s) P = False"
| "okr (Exited s) P = False"
| "okr (Panic m) P = False"

text \<open>Partial correctness: if the outcome is a return, the result satisfies \<open>P\<close>.\<close>

primrec ifr :: "('a, 's) kres \<Rightarrow> ('a \<Rightarrow> 's \<Rightarrow> bool) \<Rightarrow> bool" where
  "ifr (Ret a s) P = P a s"
| "ifr (Sleeping c s) P = True"
| "ifr (Exited s) P = True"
| "ifr (Panic m) P = True"

lemma bindr_cong [fundef_cong]:
  assumes "m = m'" and "\<And>a s. m' = Ret a s \<Longrightarrow> f a s = g a s"
  shows "bindr m f = bindr m' g"
  using assms by (cases m') auto

lemma bindr_assoc [simp]: "bindr (bindr m f) g = bindr m (\<lambda>a s. bindr (f a s) g)"
  by (cases m) auto

lemma bindr_eq_Ret: "bindr m f = Ret b t \<longleftrightarrow> (\<exists>a s. m = Ret a s \<and> f a s = Ret b t)"
  by (cases m) auto

lemma okr_iff: "okr m P \<longleftrightarrow> (\<exists>a s. m = Ret a s \<and> P a s)"
  by (cases m) auto

lemma okr_bindr [simp]: "okr (bindr m f) P \<longleftrightarrow> okr m (\<lambda>a s. okr (f a s) P)"
  by (cases m) auto

lemma okr_mono: "okr m P \<Longrightarrow> (\<And>a s. m = Ret a s \<Longrightarrow> P a s \<Longrightarrow> Q a s) \<Longrightarrow> okr m Q"
  by (cases m) auto

lemma okr_conj: "okr m (\<lambda>a s. P a s \<and> Q a s) \<longleftrightarrow> okr m P \<and> okr m Q"
  by (cases m) auto

lemma okrE: "okr m P \<Longrightarrow> (\<And>a s. m = Ret a s \<Longrightarrow> P a s \<Longrightarrow> R) \<Longrightarrow> R"
  by (cases m) auto

lemma ifr_bindr [simp]: "ifr (bindr m f) P \<longleftrightarrow> ifr m (\<lambda>a s. ifr (f a s) P)"
  by (cases m) auto

lemma ifr_mono: "ifr m P \<Longrightarrow> (\<And>a s. m = Ret a s \<Longrightarrow> P a s \<Longrightarrow> Q a s) \<Longrightarrow> ifr m Q"
  by (cases m) auto

lemma ifr_iff: "ifr m P \<longleftrightarrow> (\<forall>a s. m = Ret a s \<longrightarrow> P a s)"
  by (cases m) auto

lemma okr_imp_ifr: "okr m P \<Longrightarrow> ifr m P"
  by (cases m) auto

text \<open>A \<^verbatim>\<open>for\<close> loop whose body neither breaks nor returns: the body runs once per element.\<close>

primrec foreach :: "'i list \<Rightarrow> ('i \<Rightarrow> 's \<Rightarrow> (unit, 's) kres) \<Rightarrow> 's \<Rightarrow> (unit, 's) kres" where
  "foreach [] f s = Ret () s"
| "foreach (i # is) f s = bindr (f i s) (\<lambda>_ s. foreach is f s)"

lemma foreach_append: "foreach (xs @ ys) f s = bindr (foreach xs f s) (\<lambda>_ s. foreach ys f s)"
  by (induction xs arbitrary: s) auto

text \<open>The loop rule for a counter that runs up to \<open>n\<close>.\<close>

lemma foreach_upt:
  assumes "I 0 s" and "\<And>k s. k < n \<Longrightarrow> I k s \<Longrightarrow> okr (f k s) (\<lambda>_ t. I (Suc k) t)"
  shows "okr (foreach [0..<n] f s) (\<lambda>_ t. I n t)"
  using assms(2)
proof (induction n)
  case 0
  then show ?case using assms(1) by simp
next
  case (Suc n)
  have "okr (foreach [0..<n] f s) (\<lambda>_ t. I n t)"
    by (rule Suc.IH) (use Suc.prems in auto)
  then show ?case
    by (auto simp: foreach_append intro: Suc.prems elim!: okr_mono)
qed

text \<open>A loop that searches: it stops at the first element whose body returns a value.\<close>

primrec firstr :: "'i list \<Rightarrow> ('i \<Rightarrow> 's \<Rightarrow> ('a option, 's) kres) \<Rightarrow> 's \<Rightarrow> ('a option, 's) kres" where
  "firstr [] f s = Ret None s"
| "firstr (i # is) f s = bindr (f i s) (\<lambda>r s. case r of Some a \<Rightarrow> Ret (Some a) s | None \<Rightarrow> firstr is f s)"

text \<open>Fewer than \<open>M\<close> consecutive positions of a ring of \<open>M\<close> slots are in different slots.\<close>

lemma slots_differ:
  fixes a k n M :: nat
  assumes "k < n" "n < M"
  shows "(a + k) mod M \<noteq> (a + n) mod M"
proof
  assume "(a + k) mod M = (a + n) mod M"
  then have "M dvd (a + n) - (a + k)"
    using assms by (subst mod_eq_dvd_iff_nat [symmetric]) auto
  then have "M \<le> n - k"
    using assms by (intro dvd_imp_le) auto
  then show False
    using assms by simp
qed

section \<open>Little-endian access to byte arrays\<close>

text \<open>
  \<open>byte_of v k\<close> is byte \<open>k\<close> of a word, least significant first. \<open>rd16\<close>, \<open>rd32\<close>, \<open>wr16\<close>
  and \<open>wr32\<close> are loads and stores of \<^verbatim>\<open>short\<close> and \<^verbatim>\<open>int\<close> at a byte offset.
\<close>

definition byte_of :: "'a::len word \<Rightarrow> nat \<Rightarrow> u8" where
  "byte_of v k = ucast (drop_bit (8 * k) v)"

definition rd16 :: "bytes \<Rightarrow> nat \<Rightarrow> u16" where
  "rd16 d i = ucast (d i) OR push_bit 8 (ucast (d (i + 1)))"

definition rd32 :: "bytes \<Rightarrow> nat \<Rightarrow> u32" where
  "rd32 d i = ucast (d i) OR push_bit 8 (ucast (d (i + 1))) OR
              push_bit 16 (ucast (d (i + 2))) OR push_bit 24 (ucast (d (i + 3)))"

definition wr16 :: "bytes \<Rightarrow> nat \<Rightarrow> u16 \<Rightarrow> bytes" where
  "wr16 d i v = (\<lambda>j. if i \<le> j \<and> j < i + 2 then byte_of v (j - i) else d j)"

definition wr32 :: "bytes \<Rightarrow> nat \<Rightarrow> u32 \<Rightarrow> bytes" where
  "wr32 d i v = (\<lambda>j. if i \<le> j \<and> j < i + 4 then byte_of v (j - i) else d j)"

text \<open>Copy \<open>n\<close> bytes of \<open>src\<close> from \<open>so\<close> to \<open>dst\<close> at \<open>d\<close>: \<^verbatim>\<open>memmove\<close> between distinct arrays.\<close>

definition blit :: "bytes \<Rightarrow> nat \<Rightarrow> bytes \<Rightarrow> nat \<Rightarrow> nat \<Rightarrow> bytes" where
  "blit dst d src so n = (\<lambda>j. if d \<le> j \<and> j < d + n then src (j - d + so) else dst j)"

lemma bytes32_assemble:
  fixes v :: u32
  shows "ucast (byte_of v 0) OR push_bit 8 (ucast (byte_of v 1)) OR
         push_bit 16 (ucast (byte_of v 2)) OR push_bit 24 (ucast (byte_of v 3)) = v"
proof (rule bit_word_eqI)
  fix n assume "n < LENGTH(32)"
  then have "n < 8 \<or> (8 \<le> n \<and> n < 16) \<or> (16 \<le> n \<and> n < 24) \<or> (24 \<le> n \<and> n < 32)"
    by auto
  then show "bit (ucast (byte_of v 0) OR push_bit 8 (ucast (byte_of v 1)) OR
         push_bit 16 (ucast (byte_of v 2)) OR push_bit 24 (ucast (byte_of v 3)) :: u32) n = bit v n"
    by (elim disjE conjE) (simp_all add: byte_of_def bit_simps, auto)
qed

lemma bytes16_assemble:
  fixes v :: u16
  shows "ucast (byte_of v 0) OR push_bit 8 (ucast (byte_of v 1)) = v"
proof (rule bit_word_eqI)
  fix n assume "n < LENGTH(16)"
  then have "n < 8 \<or> (8 \<le> n \<and> n < 16)"
    by auto
  then show "bit (ucast (byte_of v 0) OR push_bit 8 (ucast (byte_of v 1)) :: u16) n = bit v n"
    by (elim disjE conjE) (simp_all add: byte_of_def bit_simps, auto)
qed

lemma rd32_wr32 [simp, enc_simps]: "rd32 (wr32 d i v) i = v"
  using bytes32_assemble [of v] by (simp add: rd32_def wr32_def)

lemma rd16_wr16 [simp, enc_simps]: "rd16 (wr16 d i v) i = v"
  using bytes16_assemble [of v] by (simp add: rd16_def wr16_def)

lemma rd32_cong: "(\<And>k. i \<le> k \<Longrightarrow> k < i + 4 \<Longrightarrow> d k = e k) \<Longrightarrow> rd32 d i = rd32 e i"
  by (simp add: rd32_def)

lemma rd16_cong: "(\<And>k. i \<le> k \<Longrightarrow> k < i + 2 \<Longrightarrow> d k = e k) \<Longrightarrow> rd16 d i = rd16 e i"
  by (simp add: rd16_def)

lemma wr32_outside [simp, enc_simps]: "j < i \<or> i + 4 \<le> j \<Longrightarrow> wr32 d i v j = d j"
  by (auto simp: wr32_def)

lemma wr16_outside [simp, enc_simps]: "j < i \<or> i + 2 \<le> j \<Longrightarrow> wr16 d i v j = d j"
  by (auto simp: wr16_def)

lemma rd32_wr32_disjoint [simp, enc_simps]:
  "i + 4 \<le> j \<or> j + 4 \<le> i \<Longrightarrow> rd32 (wr32 d j v) i = rd32 d i"
  by (rule rd32_cong) auto

lemma rd32_wr16_disjoint [simp, enc_simps]:
  "i + 4 \<le> j \<or> j + 2 \<le> i \<Longrightarrow> rd32 (wr16 d j v) i = rd32 d i"
  by (rule rd32_cong) auto

lemma rd16_wr32_disjoint [simp, enc_simps]:
  "i + 2 \<le> j \<or> j + 4 \<le> i \<Longrightarrow> rd16 (wr32 d j v) i = rd16 d i"
  by (rule rd16_cong) auto

lemma rd16_wr16_disjoint [simp, enc_simps]:
  "i + 2 \<le> j \<or> j + 2 \<le> i \<Longrightarrow> rd16 (wr16 d j v) i = rd16 d i"
  by (rule rd16_cong) auto

lemma blit_inside [simp]: "d \<le> j \<Longrightarrow> j < d + n \<Longrightarrow> blit dst d src so n j = src (j - d + so)"
  by (simp add: blit_def)

lemma blit_outside [simp]: "j < d \<or> d + n \<le> j \<Longrightarrow> blit dst d src so n j = dst j"
  by (auto simp: blit_def)

section \<open>Searching a table\<close>

text \<open>
  \<open>first_index P xs\<close> is the least index of \<open>xs\<close> whose element satisfies \<open>P\<close>: the C idiom
  \<^verbatim>\<open>for(p = tab; p < &tab[N]; p++) if(P(*p)) ...\<close>.
\<close>

primrec first_index :: "('a \<Rightarrow> bool) \<Rightarrow> 'a list \<Rightarrow> nat option" where
  "first_index P [] = None"
| "first_index P (x # xs) = (if P x then Some 0 else map_option Suc (first_index P xs))"

lemma first_index_Some:
  "first_index P xs = Some i \<longleftrightarrow> i < length xs \<and> P (xs ! i) \<and> (\<forall>j<i. \<not> P (xs ! j))"
proof (induction xs arbitrary: i)
  case (Cons x xs)
  show ?case
    by (cases i) (auto simp: Cons.IH less_Suc_eq_0_disj)
qed simp

lemma first_index_None: "first_index P xs = None \<longleftrightarrow> (\<forall>x\<in>set xs. \<not> P x)"
  by (induction xs) auto

lemma first_indexD:
  assumes "first_index P xs = Some i"
  shows "i < length xs" "P (xs ! i)"
  using assms by (simp_all add: first_index_Some)

lemma nth_upd: "j < length xs \<Longrightarrow> xs[i := x] ! j = (if i = j then x else xs ! j)"
  by (cases "i = j") auto

lemma all_set_update:
  "i < length xs \<Longrightarrow> (\<forall>x\<in>set xs. P x) \<Longrightarrow> P y \<Longrightarrow> (\<forall>x\<in>set (xs[i := y]). P x)"
  using set_update_subset_insert [of xs i y] by blast

end
