(* ===== verification/Layout.thy ===== *)
theory Layout
  imports Prelude
begin

text \<open>
  Compile-time constants and address macros of the kernel: \<^verbatim>\<open>param.h\<close>, \<^verbatim>\<open>memlayout.h\<close>,
  \<^verbatim>\<open>mmu.h\<close> and \<^verbatim>\<open>fs.h\<close>. Plain numbers are abbreviations, function-like macros are definitions
  on 32-bit words. The lemmas split a virtual address into its page-directory index, its page-table
  index and its page offset, and characterise the rounding macros.
\<close>

section \<open>Constants\<close>

abbreviation (input) NPROC :: nat where "NPROC \<equiv> 64"
abbreviation (input) KSTACKSIZE :: u32 where "KSTACKSIZE \<equiv> 4096"
abbreviation (input) NCPU :: nat where "NCPU \<equiv> 8"
abbreviation (input) NOFILE :: nat where "NOFILE \<equiv> 16"
abbreviation (input) NFILE :: nat where "NFILE \<equiv> 100"
abbreviation (input) NINODE :: nat where "NINODE \<equiv> 50"
abbreviation (input) NDEV :: nat where "NDEV \<equiv> 10"
abbreviation (input) ROOTDEV :: u32 where "ROOTDEV \<equiv> 1"
abbreviation (input) MAXARG :: nat where "MAXARG \<equiv> 32"
abbreviation (input) MAXOPBLOCKS :: nat where "MAXOPBLOCKS \<equiv> 10"
abbreviation (input) LOGSIZE :: nat where "LOGSIZE \<equiv> 30"
abbreviation (input) NBUF :: nat where "NBUF \<equiv> 30"
abbreviation (input) FSSIZE :: nat where "FSSIZE \<equiv> 1000"

abbreviation (input) EXTMEM :: u32 where "EXTMEM \<equiv> 0x100000"
abbreviation (input) PHYSTOP :: u32 where "PHYSTOP \<equiv> 0xE000000"
abbreviation (input) DEVSPACE :: u32 where "DEVSPACE \<equiv> 0xFE000000"
abbreviation (input) KERNBASE :: u32 where "KERNBASE \<equiv> 0x80000000"
abbreviation (input) KERNLINK :: u32 where "KERNLINK \<equiv> 0x80100000"

abbreviation (input) PGSIZE :: u32 where "PGSIZE \<equiv> 4096"
abbreviation (input) NPDENTRIES :: nat where "NPDENTRIES \<equiv> 1024"
abbreviation (input) NPTENTRIES :: nat where "NPTENTRIES \<equiv> 1024"
abbreviation (input) PTE_P :: u32 where "PTE_P \<equiv> 1"
abbreviation (input) PTE_W :: u32 where "PTE_W \<equiv> 2"
abbreviation (input) PTE_U :: u32 where "PTE_U \<equiv> 4"

section \<open>Address macros\<close>

definition V2P :: "u32 \<Rightarrow> u32" where
  "V2P a = a - KERNBASE"

definition P2V :: "u32 \<Rightarrow> u32" where
  "P2V a = a + KERNBASE"

definition PGROUNDUP :: "u32 \<Rightarrow> u32" where
  "PGROUNDUP sz = (sz + PGSIZE - 1) AND NOT (PGSIZE - 1)"

definition PGROUNDDOWN :: "u32 \<Rightarrow> u32" where
  "PGROUNDDOWN a = a AND NOT (PGSIZE - 1)"

definition PDX :: "u32 \<Rightarrow> u32" where
  "PDX va = drop_bit 22 va AND 0x3FF"

definition PTX :: "u32 \<Rightarrow> u32" where
  "PTX va = drop_bit 12 va AND 0x3FF"

definition PGADDR :: "u32 \<Rightarrow> u32 \<Rightarrow> u32 \<Rightarrow> u32" where
  "PGADDR d t off = push_bit 22 d OR push_bit 12 t OR off"

definition PTE_ADDR :: "u32 \<Rightarrow> u32" where
  "PTE_ADDR pte = pte AND NOT 0xFFF"

definition PTE_FLAGS :: "u32 \<Rightarrow> u32" where
  "PTE_FLAGS pte = pte AND 0xFFF"

section \<open>Facts about the macros\<close>

lemma mask_10_u32: "(0x3FF :: u32) = mask 10"
  by (simp add: mask_eq_exp_minus_1)

lemma mask_12_u32: "(0xFFF :: u32) = mask 12"
  by (simp add: mask_eq_exp_minus_1)

lemma V2P_P2V [simp]: "V2P (P2V a) = a"
  by (simp add: V2P_def P2V_def)

lemma P2V_V2P [simp]: "P2V (V2P a) = a"
  by (simp add: V2P_def P2V_def)

text \<open>An address is the concatenation of its directory index, table index and page offset.\<close>

lemma PGADDR_split: "PGADDR (PDX va) (PTX va) (PTE_FLAGS va) = va"
proof (rule bit_word_eqI)
  fix n assume "n < LENGTH(32)"
  then have "n < 32"
    by simp
  then consider "n < 12" | "12 \<le> n" "n < 22" | "22 \<le> n" "n < 32"
    by linarith
  then show "bit (PGADDR (PDX va) (PTX va) (PTE_FLAGS va)) n = bit va n"
    by cases (auto simp: PGADDR_def PDX_def PTX_def PTE_FLAGS_def mask_10_u32 mask_12_u32 bit_simps)
qed

lemma unat_and_mask: "unat (x AND mask n :: 'a::len word) = unat x mod 2 ^ n"
proof -
  have "unat (take_bit n x) = take_bit n (unat x)"
    by (rule unsigned_take_bit_eq)
  then show ?thesis
    by (simp only: take_bit_eq_mask [symmetric] take_bit_eq_mod [where ?'a = nat])
qed

lemma unat_PDX: "unat (PDX va) = unat va div 2 ^ 22"
proof -
  have "unat va div 2 ^ 22 < 2 ^ 10"
    using unat_less_u32 [of va] by (simp add: less_mult_imp_div_less)
  then show ?thesis
    unfolding PDX_def mask_10_u32 unat_and_mask unat_drop_bit_eq drop_bit_eq_div [where ?'a = nat] by simp
qed

lemma unat_PTX: "unat (PTX va) = unat va div 2 ^ 12 mod 2 ^ 10"
  unfolding PTX_def mask_10_u32 unat_and_mask unat_drop_bit_eq drop_bit_eq_div [where ?'a = nat] by simp

lemma PDX_less: "unat (PDX va) < NPDENTRIES"
  unfolding PDX_def mask_10_u32 unat_and_mask by simp

lemma PTX_less: "unat (PTX va) < NPTENTRIES"
  unfolding PTX_def mask_10_u32 unat_and_mask by simp

lemma and_not_mask_eq: "a AND NOT (mask n) = a - (a AND mask n)" for a :: "'a::len word"
proof -
  have "(a AND NOT (mask n)) + (a AND mask n) = (a AND NOT (mask n)) OR (a AND mask n)"
    by (rule disjunctive_add) (auto simp: bit_simps)
  also have "\<dots> = a"
    by (rule bit_word_eqI) (auto simp: bit_simps)
  finally show ?thesis
    by (simp add: eq_diff_eq)
qed

lemma unat_and_not_mask: "unat (a AND NOT (mask n)) = unat a - unat a mod 2 ^ n"
  for a :: "'a::len word"
proof -
  have "a AND mask n \<le> a"
    by (rule word_and_le2)
  then have "unat (a - (a AND mask n)) = unat a - unat (a AND mask n)"
    by (rule unat_sub)
  then show ?thesis
    by (simp only: and_not_mask_eq unat_and_mask)
qed

lemma unat_PGROUNDDOWN: "unat (PGROUNDDOWN a) = unat a - unat a mod 4096"
  using unat_and_not_mask [of a 12] by (simp add: PGROUNDDOWN_def mask_12_u32)

lemma PGROUNDDOWN_aligned: "PGROUNDDOWN a mod PGSIZE = 0"
  by (rule word_unat_eq_iff [THEN iffD2])
     (simp add: unat_mod_distrib unat_PGROUNDDOWN minus_mod_eq_mult_div)

text \<open>Rounding up is the least page boundary not below the size, unless the sum wraps.\<close>

lemma unat_PGROUNDUP:
  assumes "unat sz + 4095 < 2 ^ 32"
  shows "unat (PGROUNDUP sz) = (unat sz + 4095) div 4096 * 4096"
proof -
  have eq: "sz + PGSIZE - 1 = sz + 4095"
    by simp
  have "unat (sz + 4095) = unat sz + 4095"
    using assms by (simp add: unat_word_ariths)
  then show ?thesis
    using unat_and_not_mask [of "sz + 4095" 12]
    unfolding PGROUNDUP_def eq by (simp add: mask_12_u32 minus_mod_eq_div_mult)
qed

lemma PGROUNDUP_aligned: "PGROUNDUP sz mod PGSIZE = 0"
  using PGROUNDDOWN_aligned [of "sz + PGSIZE - 1"] by (simp add: PGROUNDUP_def PGROUNDDOWN_def)

lemma PTE_split: "PTE_ADDR p OR PTE_FLAGS p = p"
  by (rule bit_word_eqI) (auto simp: PTE_ADDR_def PTE_FLAGS_def mask_12_u32 bit_simps)

end
