(* ===== verification/Memory.thy ===== *)
theory Memory
  imports Layout
begin

text \<open>
  Byte-addressed memory and the block routines of \<^verbatim>\<open>string.c\<close>. Memory is a function from 32-bit
  addresses to bytes; \<open>ld32\<close> and \<open>st32\<close> are the C loads and stores of a word. \<^verbatim>\<open>memset\<close>,
  \<^verbatim>\<open>memcmp\<close> and \<^verbatim>\<open>memmove\<close> are modelled loop by loop; each is proved equal to a one-line
  description (\<open>mem_fill\<close>, \<open>mem_move\<close>), which the rest of the kernel then uses.
\<close>

type_synonym mem = "u32 \<Rightarrow> u8"

section \<open>Word access\<close>

definition ld32 :: "mem \<Rightarrow> u32 \<Rightarrow> u32" where
  "ld32 m a = rd32 (\<lambda>i. m (a + of_nat i)) 0"

definition st32 :: "mem \<Rightarrow> u32 \<Rightarrow> u32 \<Rightarrow> mem" where
  "st32 m a v = (\<lambda>x. if unat (x - a) < 4 then byte_of v (unat (x - a)) else m x)"

text \<open>Reference descriptions of filling and copying a range of memory.\<close>

definition mem_fill :: "mem \<Rightarrow> u32 \<Rightarrow> u8 \<Rightarrow> nat \<Rightarrow> mem" where
  "mem_fill m a c n = (\<lambda>x. if unat (x - a) < n then c else m x)"

definition mem_move :: "mem \<Rightarrow> u32 \<Rightarrow> u32 \<Rightarrow> nat \<Rightarrow> mem" where
  "mem_move m d s n = (\<lambda>x. if unat (x - d) < n then m (s + (x - d)) else m x)"

lemma ld32_st32 [simp, enc_simps]: "ld32 (st32 m a v) a = v"
  using bytes32_assemble [of v] by (simp add: ld32_def st32_def rd32_def)

lemma ld32_cong: "(\<And>k. k < 4 \<Longrightarrow> m (a + of_nat k) = m' (a + of_nat k)) \<Longrightarrow> ld32 m a = ld32 m' a"
  unfolding ld32_def by (rule rd32_cong) simp

lemma unat_add_of_nat_u32:
  "unat (a :: u32) + k < 4294967296 \<Longrightarrow> unat (a + of_nat k) = unat a + k"
  by (simp add: unat_word_ariths unat_of_nat)

lemma unat_diff_u32:
  "unat (b - a :: u32) = (if a \<le> b then unat b - unat a else unat b + 4294967296 - unat a)"
  by (simp add: unat_sub_if' word_le_nat_alt)

text \<open>Two blocks aligned to their size are the same block or do not overlap.\<close>

lemma aligned_disjoint:
  fixes a b :: u32
  assumes "P dvd 4294967296" "unat a mod P = 0" "unat b mod P = 0" "a \<noteq> b" "k < P"
  shows "P \<le> unat (b + of_nat k - a)"
proof -
  obtain i j q where i: "unat a = P * i" and j: "unat b = P * j" and q: "4294967296 = P * q"
    using assms(1-3) unfolding mod_eq_0_iff_dvd by (elim dvdE) blast
  have "i \<noteq> j"
    using assms(4) i j by (auto simp: word_unat_eq_iff)
  have "P * i < P * q" "P * j < P * q"
    using unat_less_u32 [of a] unat_less_u32 [of b] by (simp_all flip: i j q)
  then have "i < q" "j < q"
    by auto
  have "P * Suc j \<le> P * q" "P * Suc i \<le> P * q"
    using \<open>j < q\<close> \<open>i < q\<close> by (intro mult_le_mono2; simp)+
  then have bk: "unat (b + of_nat k) = P * j + k"
    using assms(5) by (subst unat_add_of_nat_u32) (simp_all add: j q)
  show ?thesis
  proof (cases "i < j")
    case True
    then have "P * Suc i \<le> P * j"
      by (intro mult_le_mono2) simp
    then show ?thesis
      by (simp add: unat_diff_u32 word_le_nat_alt bk i)
  next
    case False
    with \<open>i \<noteq> j\<close> have "P * Suc j \<le> P * i"
      by (intro mult_le_mono2) simp
    then show ?thesis
      using assms(5) \<open>P * Suc i \<le> P * q\<close>
      by (simp add: unat_diff_u32 word_le_nat_alt bk i q)
  qed
qed

lemma aligned4_disjoint:
  fixes a b :: u32
  assumes "a mod 4 = 0" "b mod 4 = 0" "a \<noteq> b" "k < 4"
  shows "\<not> unat (b + of_nat k - a) < 4"
  using aligned_disjoint [of 4 a b k] assms
  by (simp add: word_unat_eq_iff unat_mod_distrib not_less)

lemma page_disjoint:
  fixes a b :: u32
  assumes "a mod 4096 = 0" "b mod 4096 = 0" "a \<noteq> b" "k < 4096"
  shows "4096 \<le> unat (b + of_nat k - a)"
  using aligned_disjoint [of 4096 a b k] assms
  by (simp add: word_unat_eq_iff unat_mod_distrib)

lemma ld32_st32_other [enc_simps]:
  assumes "a mod 4 = 0" "b mod 4 = 0" "a \<noteq> b"
  shows "ld32 (st32 m a v) b = ld32 m b"
  by (rule ld32_cong) (use aligned4_disjoint [OF assms] in \<open>simp add: st32_def\<close>)

section \<open>memset\<close>

text \<open>\<^verbatim>\<open>rep stosb\<close> and \<^verbatim>\<open>rep stosl\<close>: store a byte, or a word, \<open>n\<close> times at ascending addresses.\<close>

primrec stosb :: "nat \<Rightarrow> mem \<Rightarrow> u32 \<Rightarrow> u8 \<Rightarrow> mem" where
  "stosb 0 m a c = m"
| "stosb (Suc n) m a c = stosb n (m(a := c)) (a + 1) c"

primrec stosl :: "nat \<Rightarrow> mem \<Rightarrow> u32 \<Rightarrow> u32 \<Rightarrow> mem" where
  "stosl 0 m a v = m"
| "stosl (Suc n) m a v = stosl n (st32 m a v) (a + 4) v"

definition memset :: "mem \<Rightarrow> u32 \<Rightarrow> u32 \<Rightarrow> u32 \<Rightarrow> mem" where
  "memset m dst c n =
     (if dst mod 4 = 0 \<and> n mod 4 = 0
      then let c = c AND 0xFF
           in stosl (unat (n div 4)) m dst (push_bit 24 c OR push_bit 16 c OR push_bit 8 c OR c)
      else stosb (unat n) m dst (ucast c))"

lemma mem_fill_Suc:
  assumes "n < 4294967296"
  shows "mem_fill (m(a := c)) (a + 1) c n = mem_fill m a c (Suc n)"
proof
  fix x
  show "mem_fill (m(a := c)) (a + 1) c n x = mem_fill m a c (Suc n) x"
  proof (cases "x = a")
    case True
    then show ?thesis by (simp add: mem_fill_def)
  next
    case False
    then have "x - a \<noteq> 0"
      by simp
    then have "unat (x - a) = Suc (unat (x - a - 1))"
      by (simp add: unat_minus_one unat_gt_0)
    moreover have "x - a - 1 = x - (a + 1)"
      by simp
    ultimately have "unat (x - a) = Suc (unat (x - (a + 1)))"
      by simp
    then show ?thesis
      using False by (simp add: mem_fill_def)
  qed
qed

lemma stosb_eq_fill: "n < 4294967296 \<Longrightarrow> stosb n m a c = mem_fill m a c n"
proof (induction n arbitrary: m a)
  case 0
  then show ?case by (simp add: mem_fill_def)
next
  case (Suc n)
  then show ?case by (simp add: mem_fill_Suc)
qed

lemma byte_of_spread:
  fixes c :: u32
  assumes "k < 4"
  shows "byte_of (push_bit 24 (c AND 0xFF) OR push_bit 16 (c AND 0xFF) OR
                  push_bit 8 (c AND 0xFF) OR (c AND 0xFF)) k = (ucast c :: u8)"
proof -
  have m: "(0xFF :: u32) = mask 8"
    by (simp add: mask_eq_exp_minus_1)
  have "k = 0 \<or> k = 1 \<or> k = 2 \<or> k = 3"
    using assms by linarith
  then show ?thesis
    unfolding m byte_of_def by (elim disjE) (rule bit_word_eqI, auto simp: bit_simps)+
qed

lemma st32_fill:
  assumes "\<And>k. k < 4 \<Longrightarrow> byte_of v k = c" and "n < 4294967292"
  shows "mem_fill (st32 m a v) (a + 4) c n = mem_fill m a c (4 + n)"
proof
  fix x
  have "unat (x - a) < 4 + n \<longleftrightarrow> unat (x - (a + 4)) < n \<or> unat (x - a) < 4"
  proof (cases "unat (x - a) < 4")
    case False
    then have "4 \<le> x - a"
      by (simp add: word_le_nat_alt)
    then have "unat (x - a - 4) = unat (x - a) - 4"
      by (simp add: unat_sub)
    moreover have "x - a - 4 = x - (a + 4)"
      by simp
    ultimately show ?thesis
      using False by auto
  qed simp
  then show "mem_fill (st32 m a v) (a + 4) c n x = mem_fill m a c (4 + n) x"
    using assms(1) by (auto simp: mem_fill_def st32_def)
qed

lemma stosl_eq_fill:
  assumes "\<And>k. k < 4 \<Longrightarrow> byte_of v k = c"
  shows "4 * n < 4294967296 \<Longrightarrow> stosl n m a v = mem_fill m a c (4 * n)"
proof (induction n arbitrary: m a)
  case 0
  then show ?case by (simp add: mem_fill_def)
next
  case (Suc n)
  then have "mem_fill (st32 m a v) (a + 4) c (4 * n) = mem_fill m a c (4 + 4 * n)"
    by (intro st32_fill assms) auto
  with Suc show ?case by simp
qed

text \<open>Both code paths of \<^verbatim>\<open>memset\<close> fill the range with the low byte of \<open>c\<close>.\<close>

lemma memset_eq_fill: "memset m dst c n = mem_fill m dst (ucast c) (unat n)"
proof (cases "dst mod 4 = 0 \<and> n mod 4 = 0")
  case True
  then have "unat n mod 4 = 0"
    by (simp add: word_unat_eq_iff unat_mod_distrib)
  then have n: "4 * unat (n div 4) = unat n"
    by (simp add: unat_div_distrib) presburger
  show ?thesis
    using True stosl_eq_fill [OF byte_of_spread [of _ c], of "unat (n div 4)" m dst]
      unat_less_u32 [of n]
    by (simp add: memset_def n Let_def)
next
  case False
  then show ?thesis
    using stosb_eq_fill [OF unat_less_u32 [of n]] by (auto simp: memset_def)
qed

section \<open>memmove\<close>

text \<open>The ascending and the descending copy loop; in the latter the pointers are the ends.\<close>

primrec move_up :: "nat \<Rightarrow> mem \<Rightarrow> u32 \<Rightarrow> u32 \<Rightarrow> mem" where
  "move_up 0 m d s = m"
| "move_up (Suc n) m d s = move_up n (m(d := m s)) (d + 1) (s + 1)"

primrec move_down :: "nat \<Rightarrow> mem \<Rightarrow> u32 \<Rightarrow> u32 \<Rightarrow> mem" where
  "move_down 0 m d s = m"
| "move_down (Suc n) m d s = move_down n (m(d - 1 := m (s - 1))) (d - 1) (s - 1)"

definition memmove :: "mem \<Rightarrow> u32 \<Rightarrow> u32 \<Rightarrow> u32 \<Rightarrow> mem" where
  "memmove m dst src n =
     (if src < dst \<and> dst < src + n
      then move_down (unat n) m (dst + n) (src + n)
      else move_up (unat n) m dst src)"

lemma mem_move_0 [simp]: "mem_move m d s 0 = m"
  by (simp add: mem_move_def)

lemma word_offset: "(x :: u32) = d + of_nat (unat (x - d))"
  by simp

lemma move_up_eq:
  assumes "n < 4294967296" "\<And>k j. k < n \<Longrightarrow> j < k \<Longrightarrow> s + of_nat k \<noteq> d + of_nat j"
  shows "move_up n m d s = mem_move m d s n"
  using assms
proof (induction n arbitrary: m d s)
  case (Suc n)
  have step: "s + 1 + of_nat k \<noteq> d + 1 + of_nat j" if "k < n" "j < k" for k j
    using Suc.prems(2) [of "Suc k" "Suc j"] that by (simp add: ac_simps)
  have "move_up (Suc n) m d s = mem_move (m(d := m s)) (d + 1) (s + 1) n"
    using Suc.IH [OF _ step] Suc.prems(1) by simp
  also have "\<dots> = mem_move m d s (Suc n)"
  proof
    fix x
    show "mem_move (m(d := m s)) (d + 1) (s + 1) n x = mem_move m d s (Suc n) x"
    proof (cases "x = d")
      case True
      moreover have "unat (-1 :: u32) = 4294967295"
        by (simp add: unsigned_minus_1_eq_mask mask_eq_exp_minus_1)
      ultimately show ?thesis
        using Suc.prems(1) by (simp add: mem_move_def)
    next
      case False
      then have "x - d \<noteq> 0"
        by simp
      then have "unat (x - d) = Suc (unat (x - d - 1))"
        by (simp add: unat_minus_one unat_gt_0)
      then have u: "unat (x - d) = Suc (unat (x - (d + 1)))"
        by (simp add: algebra_simps)
      have "s + (x - d) \<noteq> d" if "unat (x - d) < Suc n"
        using Suc.prems(2) [of "unat (x - d)" 0] that u by simp
      then show ?thesis
        using False u by (simp add: mem_move_def algebra_simps)
    qed
  qed
  finally show ?case .
qed simp

lemma move_down_eq:
  assumes "n < 4294967296" "\<And>k j. j < n \<Longrightarrow> k < j \<Longrightarrow> s + of_nat k \<noteq> d + of_nat j"
  shows "move_down n m (d + of_nat n) (s + of_nat n) = mem_move m d s n"
  using assms
proof (induction n arbitrary: m)
  case (Suc n)
  let ?m = "m(d + of_nat n := m (s + of_nat n))"
  have "move_down (Suc n) m (d + of_nat (Suc n)) (s + of_nat (Suc n)) =
        move_down n ?m (d + of_nat n) (s + of_nat n)"
    by (simp add: algebra_simps)
  also have "\<dots> = mem_move ?m d s n"
    using Suc.IH Suc.prems by simp
  also have "\<dots> = mem_move m d s (Suc n)"
  proof
    fix x
    have n: "unat (of_nat n :: u32) = n"
      using Suc.prems(1) by (simp add: unat_of_nat)
    consider "unat (x - d) < n" | "x = d + of_nat n" | "n < unat (x - d)"
      by (metis linorder_neqE_nat word_offset)
    then show "mem_move ?m d s n x = mem_move m d s (Suc n) x"
    proof cases
      case 1
      then have "s + (x - d) \<noteq> d + of_nat n"
        using Suc.prems(2) [of n "unat (x - d)"] by simp
      with 1 show ?thesis by (simp add: mem_move_def)
    next
      case 2
      with n show ?thesis by (simp add: mem_move_def)
    next
      case 3
      with n show ?thesis by (auto simp: mem_move_def)
    qed
  qed
  finally show ?case .
qed simp

text \<open>
  \<^verbatim>\<open>memmove\<close> copies the source range as it was before the call, also when the ranges overlap,
  provided neither range wraps around the end of the address space.
\<close>

lemma memmove_eq_move:
  assumes "unat src + unat n < 4294967296" "unat dst + unat n < 4294967296"
  shows "memmove m dst src n = mem_move m dst src (unat n)"
proof (cases "src < dst \<and> dst < src + n")
  case True
  have ne: "src + of_nat k \<noteq> dst + of_nat j" if "j < unat n" "k < j" for k j
  proof -
    have "unat (src + of_nat k) = unat src + k" "unat (dst + of_nat j) = unat dst + j"
      using assms that by (auto intro!: unat_add_of_nat_u32)
    then show ?thesis
      using True that by (auto simp: word_less_nat_alt word_unat_eq_iff)
  qed
  show ?thesis
    using True move_down_eq [OF unat_less_u32 ne, where m = m] by (simp add: memmove_def)
next
  case False
  have sn: "unat (src + n) = unat src + unat n"
    using unat_add_of_nat_u32 [of src "unat n"] assms(1) by simp
  have ne: "src + of_nat k \<noteq> dst + of_nat j" if "k < unat n" "j < k" for k j
  proof -
    have "unat (src + of_nat k) = unat src + k" "unat (dst + of_nat j) = unat dst + j"
      using assms that by (auto intro!: unat_add_of_nat_u32)
    then show ?thesis
      using False that sn by (auto simp: word_less_nat_alt word_unat_eq_iff)
  qed
  show ?thesis
    using False move_up_eq [OF unat_less_u32 ne, where m = m] by (auto simp: memmove_def)
qed

section \<open>memcmp\<close>

primrec memcmp_loop :: "nat \<Rightarrow> mem \<Rightarrow> u32 \<Rightarrow> u32 \<Rightarrow> int" where
  "memcmp_loop 0 m s1 s2 = 0"
| "memcmp_loop (Suc n) m s1 s2 =
     (if m s1 \<noteq> m s2 then uint (m s1) - uint (m s2) else memcmp_loop n m (s1 + 1) (s2 + 1))"

definition memcmp :: "mem \<Rightarrow> u32 \<Rightarrow> u32 \<Rightarrow> u32 \<Rightarrow> int" where
  "memcmp m v1 v2 n = memcmp_loop (unat n) m v1 v2"

lemma memcmp_loop_0:
  "memcmp_loop n m s1 s2 = 0 \<longleftrightarrow> (\<forall>k<n. m (s1 + of_nat k) = m (s2 + of_nat k))"
proof (induction n arbitrary: s1 s2)
  case (Suc n)
  have "(\<forall>k<Suc n. m (s1 + of_nat k) = m (s2 + of_nat k)) \<longleftrightarrow>
        m s1 = m s2 \<and> (\<forall>k<n. m (s1 + 1 + of_nat k) = m (s2 + 1 + of_nat k))"
    by (simp add: All_less_Suc2 ac_simps)
  then show ?case
    using Suc.IH by (simp add: word_uint_eq_iff)
qed simp

lemma memcmp_eq_0: "memcmp m v1 v2 n = 0 \<longleftrightarrow> (\<forall>k<unat n. m (v1 + of_nat k) = m (v2 + of_nat k))"
  by (simp add: memcmp_def memcmp_loop_0)

section \<open>Memory outside a written range\<close>

lemma mem_fill_outside: "n \<le> unat (x - a) \<Longrightarrow> mem_fill m a c n x = m x"
  by (simp add: mem_fill_def)

lemma ld32_mem_fill_outside:
  assumes "\<And>k. k < 4 \<Longrightarrow> n \<le> unat (b + of_nat k - a)"
  shows "ld32 (mem_fill m a c n) b = ld32 m b"
  by (rule ld32_cong) (simp add: mem_fill_outside assms)

text \<open>Writes at an offset inside a page leave the rest of memory alone.\<close>

lemma offset_in_page:
  fixes x a :: u32
  assumes "4096 \<le> unat (x - a)" "off + n \<le> 4096"
  shows "n \<le> unat (x - (a + of_nat off))"
proof (rule ccontr)
  assume "\<not> n \<le> unat (x - (a + of_nat off))"
  then have lt: "unat (x - (a + of_nat off)) + off < 4096"
    using assms(2) by simp
  have "unat ((x - (a + of_nat off)) + of_nat off) = unat (x - (a + of_nat off)) + off"
    by (rule unat_add_of_nat_u32) (use lt in simp)
  moreover have "(x - (a + of_nat off)) + of_nat off = x - a"
    by simp
  ultimately have "unat (x - a) < 4096"
    using lt by simp
  with assms(1) show False by simp
qed

lemma st32_in_page:
  "4096 \<le> unat (x - a) \<Longrightarrow> off + 4 \<le> 4096 \<Longrightarrow> st32 m (a + of_nat off) v x = m x"
  using offset_in_page [of x a off 4] by (simp add: st32_def)

lemma mem_fill_in_page:
  "4096 \<le> unat (x - a) \<Longrightarrow> off + n \<le> 4096 \<Longrightarrow> mem_fill m (a + of_nat off) c n x = m x"
  using offset_in_page [of x a off n] by (simp add: mem_fill_def)

lemma other_page:
  fixes x p a :: u32
  assumes "p mod 4096 = 0" "a mod 4096 = 0" "p \<noteq> a" "unat (x - p) < 4096"
  shows "4096 \<le> unat (x - a)"
  using page_disjoint [of a p "unat (x - p)"] assms by simp

section \<open>Properties of the block routines\<close>

text \<open>
  C13: \<^verbatim>\<open>memmove\<close> copies correctly even when the two ranges overlap, as long as neither wraps
  around the end of the address space: afterwards the destination holds the bytes the source held
  before the call, and no other byte has changed.
\<close>

theorem memmove_overlap_safe:
  assumes "unat src + unat n < 4294967296" "unat dst + unat n < 4294967296"
  shows "(\<forall>k<unat n. memmove m dst src n (dst + of_nat k) = m (src + of_nat k)) \<and>
         (\<forall>x. unat n \<le> unat (x - dst) \<longrightarrow> memmove m dst src n x = m x)"
proof -
  have "unat (of_nat k :: u32) = k" if "k < unat n" for k
    using that unat_less_u32 [of n] by (simp add: unat_of_nat)
  then show ?thesis
    by (auto simp: memmove_eq_move [OF assms] mem_move_def)
qed

definition count_mem :: mem where
  "count_mem a = ucast a"

theorem memmove_overlap_safe_witness:
  "memmove count_mem 0x1002 0x1000 4 0x1005 = 3 \<and> memmove count_mem 0x1000 0x1002 4 0x1000 = 2"
proof -
  have "\<forall>k<unat (4 :: u32). memmove count_mem 0x1002 0x1000 4 (0x1002 + of_nat k) = count_mem (0x1000 + of_nat k)"
    by (rule memmove_overlap_safe [THEN conjunct1]) simp_all
  then have up: "memmove count_mem 0x1002 0x1000 4 (0x1002 + of_nat 3) = count_mem (0x1000 + of_nat 3)"
    by (rule allE [of _ 3]) simp
  have "\<forall>k<unat (4 :: u32). memmove count_mem 0x1000 0x1002 4 (0x1000 + of_nat k) = count_mem (0x1002 + of_nat k)"
    by (rule memmove_overlap_safe [THEN conjunct1]) simp_all
  then have down: "memmove count_mem 0x1000 0x1002 4 (0x1000 + of_nat 0) = count_mem (0x1002 + of_nat 0)"
    by (rule allE [of _ 0]) simp
  show ?thesis
    using up down by (simp add: count_mem_def)
qed

end
