(* ===== verification/CString.thy ===== *)
theory CString
  imports Memory
begin

text \<open>
  The string routines of \<^verbatim>\<open>string.c\<close> and of the user library \<^verbatim>\<open>ulib.c\<close>. A \<^verbatim>\<open>char*\<close> is the
  array of bytes from the pointer on (\<open>bytes\<close>), so \<^verbatim>\<open>p++\<close> is \<open>\<lambda>i. p (Suc i)\<close>. \<open>cstr n p\<close> is the
  text a bounded C string holds: the bytes of \<open>p\<close> before the first NUL, at most \<open>n\<close> of them. The
  lemmas describe each routine by its effect on that text and say which bytes it leaves alone.
\<close>

definition cstr :: "nat \<Rightarrow> bytes \<Rightarrow> u8 list" where
  "cstr n p = takeWhile (\<lambda>c. c \<noteq> 0) (map p [0..<n])"

definition as_bytes :: "u8 list \<Rightarrow> bytes" where
  "as_bytes cs = (\<lambda>i. if i < length cs then cs ! i else 0)"

definition inc :: "bytes \<Rightarrow> bytes" where
  "inc p = (\<lambda>i. p (Suc i))"

lemma cstr_0 [simp]: "cstr 0 p = []"
  by (simp add: cstr_def)

lemma cstr_Suc: "cstr (Suc n) p = (if p 0 = 0 then [] else p 0 # cstr n (inc p))"
  by (simp add: cstr_def inc_def map_upt_Suc del: upt_Suc)

lemma length_cstr: "length (cstr n p) \<le> n"
  unfolding cstr_def by (rule order_trans [OF length_takeWhile_le]) simp

lemma cstr_no_nul: "c \<in> set (cstr n p) \<Longrightarrow> c \<noteq> 0"
  by (auto simp: cstr_def dest: set_takeWhileD)

lemma cstr_cong: "(\<And>i. i < n \<Longrightarrow> p i = q i) \<Longrightarrow> cstr n p = cstr n q"
  unfolding cstr_def by (rule arg_cong [where f = "takeWhile _"]) simp

section \<open>Comparison\<close>

primrec strncmp :: "nat \<Rightarrow> bytes \<Rightarrow> bytes \<Rightarrow> int" where
  "strncmp 0 p q = 0"
| "strncmp (Suc n) p q =
     (if p 0 \<noteq> 0 \<and> p 0 = q 0 then strncmp n (inc p) (inc q) else uint (p 0) - uint (q 0))"

lemma strncmp_eq_0: "strncmp n p q = 0 \<longleftrightarrow> cstr n p = cstr n q"
proof (induction n arbitrary: p q)
  case (Suc n)
  show ?case
    by (auto simp: Suc.IH cstr_Suc word_uint_eq_iff)
qed simp

text \<open>\<^verbatim>\<open>strcmp\<close> has no bound; it returns exactly when it meets a difference or a NUL.\<close>

partial_function (option) strcmp :: "bytes \<Rightarrow> bytes \<Rightarrow> int option" where
  "strcmp p q =
     (if p 0 \<noteq> 0 \<and> p 0 = q 0 then strcmp (inc p) (inc q) else Some (uint (p 0) - uint (q 0)))"

lemma strcmp_returns:
  "p n = 0 \<Longrightarrow> strcmp p q = Some (strncmp (Suc n) p q)"
proof (induction n arbitrary: p q)
  case 0
  then show ?case by (subst strcmp.simps) simp
next
  case (Suc n)
  then have "inc p n = 0"
    by (simp add: inc_def)
  then have "strcmp (inc p) (inc q) = Some (strncmp (Suc n) (inc p) (inc q))"
    using Suc.IH by blast
  then show ?case
    by (subst strcmp.simps) simp
qed

section \<open>Copying\<close>

primrec zero_fill :: "nat \<Rightarrow> bytes \<Rightarrow> nat \<Rightarrow> bytes" where
  "zero_fill 0 s i = s"
| "zero_fill (Suc n) s i = zero_fill n (s(i := 0)) (Suc i)"

primrec strncpy_loop :: "nat \<Rightarrow> bytes \<Rightarrow> nat \<Rightarrow> bytes \<Rightarrow> bytes" where
  "strncpy_loop 0 s i t = s"
| "strncpy_loop (Suc n) s i t =
     (if t i \<noteq> 0 then strncpy_loop n (s(i := t i)) (Suc i) t
      else zero_fill n (s(i := t i)) (Suc i))"

definition strncpy :: "bytes \<Rightarrow> bytes \<Rightarrow> int \<Rightarrow> bytes" where
  "strncpy s t n = strncpy_loop (nat n) s 0 t"

primrec safestrcpy_loop :: "nat \<Rightarrow> bytes \<Rightarrow> nat \<Rightarrow> bytes \<Rightarrow> bytes" where
  "safestrcpy_loop 0 s i t = s(i := 0)"
| "safestrcpy_loop (Suc k) s i t =
     (if t i \<noteq> 0 then safestrcpy_loop k (s(i := t i)) (Suc i) t
      else (s(i := t i))(Suc i := 0))"

definition safestrcpy :: "bytes \<Rightarrow> bytes \<Rightarrow> int \<Rightarrow> bytes" where
  "safestrcpy s t n = (if n \<le> 0 then s else safestrcpy_loop (nat (n - 1)) s 0 t)"

lemma zero_fill_nth: "zero_fill n s i j = (if i \<le> j \<and> j < i + n then 0 else s j)"
  by (induction n arbitrary: s i) auto

lemma strncpy_loop_outside: "j < i \<or> i + n \<le> j \<Longrightarrow> strncpy_loop n s i t j = s j"
  by (induction n arbitrary: s i) (auto simp: zero_fill_nth)

lemma safestrcpy_loop_outside: "j < i \<or> i + k < j \<Longrightarrow> safestrcpy_loop k s i t j = s j"
  by (induction k arbitrary: s i) auto

lemma strncpy_loop_text:
  "cstr n (\<lambda>j. strncpy_loop n s i t (i + j)) = cstr n (\<lambda>j. t (i + j))"
proof (induction n arbitrary: s i)
  case (Suc n)
  show ?case
  proof (cases "t i = 0")
    case True
    then show ?thesis by (simp add: cstr_Suc zero_fill_nth)
  next
    case False
    then show ?thesis
      using Suc.IH [of "s(i := t i)" "Suc i"]
      by (simp add: cstr_Suc inc_def strncpy_loop_outside fun_upd_def)
  qed
qed simp

lemma safestrcpy_loop_text:
  "cstr (Suc k) (\<lambda>j. safestrcpy_loop k s i t (i + j)) = cstr k (\<lambda>j. t (i + j))"
proof (induction k arbitrary: s i)
  case 0
  show ?case by (simp add: cstr_Suc)
next
  case (Suc k)
  show ?case
  proof (cases "t i = 0")
    case True
    then show ?thesis by (simp add: cstr_Suc)
  next
    case False
    then show ?thesis
      using Suc.IH [of "s(i := t i)" "Suc i"]
      by (subst (1 2) cstr_Suc) (simp add: inc_def safestrcpy_loop_outside fun_upd_def)
  qed
qed

lemma strncpy_text: "cstr (nat n) (strncpy s t n) = cstr (nat n) t"
  using strncpy_loop_text [of "nat n" s 0 t] by (simp add: strncpy_def)

lemma strncpy_outside: "nat n \<le> j \<Longrightarrow> strncpy s t n j = s j"
  by (simp add: strncpy_def strncpy_loop_outside)

text \<open>
  \<^verbatim>\<open>safestrcpy\<close> keeps the first \<open>n - 1\<close> bytes of the text, always NUL-terminates within the
  \<open>n\<close> bytes of the destination, and writes nothing beyond them.
\<close>

lemma safestrcpy_text:
  assumes "0 < n"
  shows "cstr (nat n) (safestrcpy s t n) = cstr (nat n - 1) t"
proof -
  obtain k where "nat n = Suc k"
    using assms by (cases "nat n") auto
  moreover from this have "nat (n - 1) = k"
    by simp
  ultimately show ?thesis
    using assms safestrcpy_loop_text [of k s 0 t] by (simp add: safestrcpy_def)
qed

lemma safestrcpy_outside: "nat n \<le> j \<Longrightarrow> safestrcpy s t n j = s j"
  by (auto simp: safestrcpy_def intro!: safestrcpy_loop_outside)

section \<open>Length and search\<close>

partial_function (option) strlen_from :: "bytes \<Rightarrow> nat \<Rightarrow> nat option" where
  "strlen_from s n = (if s n = 0 then Some n else strlen_from s (Suc n))"

definition strlen :: "bytes \<Rightarrow> nat option" where
  "strlen s = strlen_from s 0"

lemma strlen_from_returns:
  assumes "s k = 0" "i \<le> k"
  shows "\<exists>n\<le>k. i \<le> n \<and> strlen_from s i = Some n \<and> s n = 0 \<and> (\<forall>j. i \<le> j \<and> j < n \<longrightarrow> s j \<noteq> 0)"
  using assms(2)
proof (induction "k - i" arbitrary: i)
  case 0
  then show ?case using assms(1) by (subst strlen_from.simps) auto
next
  case (Suc d)
  show ?case
  proof (cases "s i = 0")
    case True
    then show ?thesis using Suc.prems by (subst strlen_from.simps) auto
  next
    case False
    have "d = k - Suc i" "Suc i \<le> k"
      using Suc.hyps(2) by auto
    from Suc.hyps(1) [OF this] obtain n where n: "n \<le> k" "Suc i \<le> n" "strlen_from s (Suc i) = Some n" "s n = 0"
      "\<forall>j. Suc i \<le> j \<and> j < n \<longrightarrow> s j \<noteq> 0"
      by blast
    moreover have "strlen_from s i = Some n"
      using False n(3) by (subst strlen_from.simps) simp
    moreover have "\<forall>j. i \<le> j \<and> j < n \<longrightarrow> s j \<noteq> 0"
      using False n(5) by (metis Suc_leI le_neq_implies_less)
    ultimately show ?thesis
      using Suc_leD [OF n(2)] by blast
  qed
qed

text \<open>On a NUL-terminated array \<^verbatim>\<open>strlen\<close> returns, with the length of the text.\<close>

lemma strlen_text:
  assumes "s k = 0"
  shows "strlen s = Some (length (cstr (Suc k) s))"
proof -
  obtain n where n: "n \<le> k" "strlen_from s 0 = Some n" "s n = 0" "\<forall>j<n. s j \<noteq> 0"
    using strlen_from_returns [of s k 0] assms by auto
  have "[0..<Suc k] = [0..<n] @ n # [Suc n..<Suc k]"
    using n(1) upt_add_eq_append [of 0 n "Suc k - n"] by (simp add: upt_conv_Cons del: upt_Suc)
  then have "cstr (Suc k) s = map s [0..<n]"
    using n(3,4) by (simp add: cstr_def del: upt_Suc) (subst takeWhile_append2, auto)
  then show ?thesis
    using n(2) by (simp add: strlen_def)
qed

section \<open>Properties of the string routines\<close>

text \<open>
  \<^verbatim>\<open>safestrcpy(s, t, n)\<close> with \<open>n > 0\<close> leaves in \<open>s\<close> a string that ends within its \<open>n\<close> bytes
  and equals \<open>t\<close> cut to \<open>n - 1\<close> characters, and touches nothing beyond the \<open>n\<close> bytes. The copy of
  a process name into the history relies on this.
\<close>

lemma safestrcpy_bounded_copy:
  assumes "0 < n"
  shows "cstr (nat n) (safestrcpy s t n) = cstr (nat n - 1) t \<and>
         length (cstr (nat n) (safestrcpy s t n)) < nat n \<and>
         (\<forall>j\<ge>nat n. safestrcpy s t n j = s j)"
  using safestrcpy_text [OF assms] safestrcpy_outside [of n] length_cstr [of "nat n - 1" t] assms
  by auto

lemma safestrcpy_bounded_copy_witness:
  "cstr 3 (safestrcpy (as_bytes [9, 9, 9, 9]) (as_bytes [5, 6, 7]) 3) = [5, 6]"
  using safestrcpy_bounded_copy [of 3 "as_bytes [9, 9, 9, 9]" "as_bytes [5, 6, 7]"]
  by (simp add: as_bytes_def cstr_def upt_rec)

end
