(* ===== verification/Kalloc.thy ===== *)
theory Kalloc
  imports CString
begin

text \<open>
  The physical page allocator, \<^verbatim>\<open>kalloc.c\<close>. The free list is threaded through the free pages
  themselves: the first word of a free page is the address of the next one. \<open>kmem_state\<close> is the
  base of the kernel state; every later component extends this record. \<open>kend\<close> and \<open>kdata\<close> are the
  linker symbols \<^verbatim>\<open>end\<close> and \<^verbatim>\<open>data\<close>. A critical section under \<^verbatim>\<open>kmem.lock\<close> is one atomic step of the model.

  \<open>chain m h ps\<close> relates the linked list starting at \<open>h\<close> to the list \<open>ps\<close> of its pages, and
  \<open>kmem_inv\<close> is the allocator's invariant. The locale \<open>page_allocator\<close> is the contract clients
  rely on.
\<close>

section \<open>State and operations\<close>

record kmem_state =
  mem :: mem
  freelist :: u32
  use_lock :: bool
  kend :: u32
  kdata :: u32

definition kfree :: "u32 \<Rightarrow> 'a kmem_state_scheme \<Rightarrow> (unit, 'a kmem_state_scheme) kres" where
  "kfree v s =
     (if v mod PGSIZE \<noteq> 0 \<or> v < kend s \<or> PHYSTOP \<le> V2P v then Panic ''kfree''
      else let m = memset (mem s) v 1 PGSIZE
           in Ret () (s\<lparr>mem := st32 m v (freelist s), freelist := v\<rparr>))"

definition kalloc :: "'a kmem_state_scheme \<Rightarrow> (u32, 'a kmem_state_scheme) kres" where
  "kalloc s =
     (let r = freelist s
      in Ret r (if r \<noteq> 0 then s\<lparr>freelist := ld32 (mem s) r\<rparr> else s))"

text \<open>
  The loop of \<^verbatim>\<open>freerange\<close>. It ends whatever its arguments are: \<^verbatim>\<open>kfree\<close> panics on any address
  from \<^verbatim>\<open>P2V(PHYSTOP)\<close> on, so the pointer never wraps.
\<close>

lemma V2P_bound: "V2P v < PHYSTOP \<Longrightarrow> unat v < 2382364672"
proof (rule ccontr)
  assume "V2P v < PHYSTOP" and n: "\<not> unat v < 2382364672"
  then have lt: "unat (v - 0x80000000) < 234881024"
    by (simp add: V2P_def word_less_nat_alt)
  have "0x80000000 \<le> v"
    using n by (simp add: word_le_nat_alt)
  then have "unat (v - 0x80000000) = unat v - 2147483648"
    by (simp add: unat_sub)
  with n lt show False by simp
qed

lemma kfree_Ret_bound: "kfree v s = Ret u t \<Longrightarrow> unat v < 2382364672"
  by (rule V2P_bound) (auto simp: kfree_def not_le split: if_splits)

function freerange_loop ::
    "u32 \<Rightarrow> u32 \<Rightarrow> 'a kmem_state_scheme \<Rightarrow> (unit, 'a kmem_state_scheme) kres" where
  "freerange_loop p vend s =
     (if p + PGSIZE \<le> vend
      then bindr (kfree p s) (\<lambda>_ s. freerange_loop (p + PGSIZE) vend s)
      else Ret () s)"
  by pat_completeness auto
termination
proof (relation "measure (\<lambda>(p, vend, s). 4294967296 - unat p)")
  fix p vend :: u32 and s t :: "'a kmem_state_scheme" and u :: unit
  assume "kfree p s = Ret u t"
  then have "unat p < 2382364672"
    by (rule kfree_Ret_bound)
  then have "unat (p + 4096) = unat p + 4096"
    using unat_add_of_nat_u32 [of p 4096] by simp
  with \<open>unat p < 2382364672\<close>
  show "((p + 4096, vend, t), (p, vend, s)) \<in> measure (\<lambda>(p, vend, s). 4294967296 - unat p)"
    by simp
qed simp

declare freerange_loop.simps [simp del]

definition freerange ::
    "u32 \<Rightarrow> u32 \<Rightarrow> 'a kmem_state_scheme \<Rightarrow> (unit, 'a kmem_state_scheme) kres" where
  "freerange vstart vend s = freerange_loop (PGROUNDUP vstart) vend s"

definition kinit1 :: "u32 \<Rightarrow> u32 \<Rightarrow> 'a kmem_state_scheme \<Rightarrow> (unit, 'a kmem_state_scheme) kres" where
  "kinit1 vstart vend s = freerange vstart vend (s\<lparr>use_lock := False\<rparr>)"

definition kinit2 :: "u32 \<Rightarrow> u32 \<Rightarrow> 'a kmem_state_scheme \<Rightarrow> (unit, 'a kmem_state_scheme) kres" where
  "kinit2 vstart vend s = bindr (freerange vstart vend s) (\<lambda>_ s. Ret () (s\<lparr>use_lock := True\<rparr>))"

section \<open>The invariant\<close>

fun chain :: "mem \<Rightarrow> u32 \<Rightarrow> u32 list \<Rightarrow> bool" where
  "chain m h [] \<longleftrightarrow> h = 0"
| "chain m h (p # ps) \<longleftrightarrow> h = p \<and> p \<noteq> 0 \<and> chain m (ld32 m p) ps"

definition page_ok :: "'a kmem_state_scheme \<Rightarrow> u32 \<Rightarrow> bool" where
  "page_ok s v \<longleftrightarrow> v mod PGSIZE = 0 \<and> kend s \<le> v \<and> V2P v < PHYSTOP"

definition kmem_inv :: "'a kmem_state_scheme \<Rightarrow> u32 list \<Rightarrow> bool" where
  "kmem_inv s ps \<longleftrightarrow> chain (mem s) (freelist s) ps \<and> distinct ps \<and> (\<forall>p\<in>set ps. page_ok s p)"

lemma chain_cong: "(\<And>p. p \<in> set ps \<Longrightarrow> ld32 m p = ld32 m' p) \<Longrightarrow> chain m h ps = chain m' h ps"
  by (induction ps arbitrary: h) auto

lemma page_ok_nonzero: "page_ok s v \<Longrightarrow> v \<noteq> 0"
  by (auto simp: page_ok_def V2P_def)

lemma page_ok_aligned: "page_ok s v \<Longrightarrow> v mod PGSIZE = 0"
  by (simp only: page_ok_def)

lemma kmem_invD:
  assumes "kmem_inv s ps"
  shows "chain (mem s) (freelist s) ps" "distinct ps" "\<And>p. p \<in> set ps \<Longrightarrow> page_ok s p"
  using assms by (auto simp: kmem_inv_def)

lemma page_ok_less: "page_ok s v \<Longrightarrow> unat v < 2382364672"
  by (rule V2P_bound) (simp add: page_ok_def)

lemma page_ok_cong: "kend t = kend s \<Longrightarrow> page_ok t v = page_ok s v"
  by (simp add: page_ok_def)

text \<open>The writes of \<^verbatim>\<open>kfree\<close> stay within the freed page.\<close>

lemma kfree_mem_outside:
  assumes "4096 \<le> unat (x - v)"
  shows "st32 (memset m v 1 PGSIZE) v f x = m x"
  using assms by (simp add: st32_def memset_eq_fill mem_fill_def)

lemma kfree_word_outside:
  assumes "p mod 4096 = 0" "v mod 4096 = 0" "p \<noteq> v"
  shows "ld32 (st32 (memset m v 1 PGSIZE) v f) p = ld32 m p"
  by (rule ld32_cong) (rule kfree_mem_outside, rule page_disjoint, use assms in auto)

lemma kfree_spec:
  assumes "kmem_inv s ps" "page_ok s v" "v \<notin> set ps"
  shows "okr (kfree v s) (\<lambda>_ t. kmem_inv t (v # ps) \<and> kend t = kend s \<and> kdata t = kdata s \<and> use_lock t = use_lock s \<and>
           kmem_state.more t = kmem_state.more s \<and> (\<forall>x. 4096 \<le> unat (x - v) \<longrightarrow> mem t x = mem s x))"
proof -
  have "chain (st32 (memset (mem s) v 1 PGSIZE) v (freelist s)) (freelist s) ps"
  proof (rule chain_cong [THEN iffD2])
    show "ld32 (st32 (memset (mem s) v 1 PGSIZE) v (freelist s)) p = ld32 (mem s) p"
      if "p \<in> set ps" for p
      using that assms by (intro kfree_word_outside) (auto simp: kmem_inv_def page_ok_def)
    show "chain (mem s) (freelist s) ps"
      using assms(1) by (simp add: kmem_inv_def)
  qed
  then show ?thesis
    using assms page_ok_nonzero [OF assms(2)]
    by (auto simp: kfree_def kmem_inv_def page_ok_def Let_def kfree_mem_outside)
qed

lemma kalloc_Nil: "kmem_inv s [] \<Longrightarrow> kalloc s = Ret 0 s"
  by (simp add: kalloc_def kmem_inv_def)

lemma kalloc_Cons:
  assumes "kmem_inv s (p # ps)"
  shows "kalloc s = Ret p (s\<lparr>freelist := ld32 (mem s) p\<rparr>)"
    and "kmem_inv (s\<lparr>freelist := ld32 (mem s) p\<rparr>) ps"
  using assms by (auto simp: kalloc_def kmem_inv_def page_ok_def)

text \<open>Whoever writes only to pages that are not on the free list keeps the invariant.\<close>

lemma kmem_inv_frame:
  assumes "kmem_inv s ps" "freelist t = freelist s" "kend t = kend s"
    and "\<And>p x. p \<in> set ps \<Longrightarrow> unat (x - p) < 4096 \<Longrightarrow> mem t x = mem s x"
  shows "kmem_inv t ps"
proof -
  have "ld32 (mem t) p = ld32 (mem s) p" if "p \<in> set ps" for p
    by (rule ld32_cong, rule assms(4) [OF that]) (simp add: unat_of_nat)
  then show ?thesis
    using assms(1-3) chain_cong [of ps "mem t" "mem s"] by (auto simp: kmem_inv_def page_ok_def)
qed

section \<open>Initialisation\<close>

text \<open>\<open>page_seq p n\<close>: the \<open>n\<close> consecutive pages starting at \<open>p\<close>.\<close>

primrec page_seq :: "u32 \<Rightarrow> nat \<Rightarrow> u32 list" where
  "page_seq p 0 = []"
| "page_seq p (Suc n) = p # page_seq (p + PGSIZE) n"

lemma page_seq_ge:
  "unat p + 4096 * n < 4294967296 \<Longrightarrow> q \<in> set (page_seq p n) \<Longrightarrow> unat p \<le> unat q"
proof (induction n arbitrary: p)
  case (Suc n)
  have "unat (p + 4096) = unat p + 4096"
    using unat_add_of_nat_u32 [of p 4096] Suc.prems(1) by simp
  then show ?case
    using Suc.IH [of "p + 4096"] Suc.prems by auto
qed simp

lemma freerange_loop_spec:
  assumes "kmem_inv s ps" "p mod PGSIZE = 0" "kend s \<le> p" "KERNBASE \<le> p"
    and "unat p \<le> 2382364672" "unat vend \<le> 2382364672" "n = (unat vend - unat p) div 4096"
    and "set (page_seq p n) \<inter> set ps = {}"
  shows "okr (freerange_loop p vend s) (\<lambda>_ t. kmem_inv t (rev (page_seq p n) @ ps) \<and>
    kend t = kend s \<and> kdata t = kdata s \<and> use_lock t = use_lock s \<and> kmem_state.more t = kmem_state.more s)"
  using assms
proof (induction n arbitrary: p s ps)
  case 0
  have "unat (p + 4096) = unat p + 4096"
    using unat_add_of_nat_u32 [of p 4096] "0.prems"(5) by simp
  then have "\<not> p + 4096 \<le> vend"
    using "0.prems"(7) by (auto simp: word_le_nat_alt div_eq_0_iff)
  then show ?case
    using "0.prems"(1) by (simp add: freerange_loop.simps [of p vend s])
next
  case (Suc n)
  have up: "unat (p + 4096) = unat p + 4096"
    using unat_add_of_nat_u32 [of p 4096] Suc.prems(5) by simp
  have le: "unat p + 4096 \<le> unat vend"
    using Suc.prems(7) by (cases "unat p + 4096 \<le> unat vend") auto
  then have go: "p + 4096 \<le> vend"
    using up by (simp add: word_le_nat_alt)
  have n: "n = (unat vend - unat (p + 4096)) div 4096"
  proof -
    have "unat vend - unat p = (unat vend - unat (p + 4096)) + 4096"
      using le up by simp
    then show ?thesis
      using Suc.prems(7) by simp
  qed
  have "V2P p < PHYSTOP"
    using Suc.prems(4,6) le by (simp add: V2P_def word_less_nat_alt word_le_nat_alt unat_sub)
  then have "page_ok s p"
    using Suc.prems(2,3) by (simp add: page_ok_def)
  moreover have "p \<notin> set ps"
    using Suc.prems(8) by auto
  ultimately obtain t where t: "kfree p s = Ret () t" "kmem_inv t (p # ps)" "kend t = kend s"
      "kdata t = kdata s" "use_lock t = use_lock s" "kmem_state.more t = kmem_state.more s"
    using kfree_spec [OF Suc.prems(1), of p] by (auto simp: okr_iff)
  have "4096 * n \<le> unat vend - unat (p + 4096)"
    unfolding n by (rule times_div_less_eq_dividend)
  then have "unat (p + 4096) + 4096 * n < 4294967296"
    using up le Suc.prems(6) by linarith
  then have "p \<notin> set (page_seq (p + 4096) n)"
    using page_seq_ge [of "p + 4096" n p] up by auto
  then have disj: "set (page_seq (p + 4096) n) \<inter> set (p # ps) = {}"
    using Suc.prems(8) by auto
  have al: "(p + 4096) mod 4096 = 0"
    using Suc.prems(2) unfolding word_unat_eq_iff unat_mod_distrib up by simp
  have ke: "kend t \<le> p + 4096" and kb: "KERNBASE \<le> p + 4096"
    using Suc.prems(3,4) t(3) up by (auto simp: word_le_nat_alt)
  have "unat (p + 4096) \<le> 2382364672"
    using le up Suc.prems(6) by simp
  then have "okr (freerange_loop (p + 4096) vend t) (\<lambda>_ t'.
      kmem_inv t' (rev (page_seq (p + 4096) n) @ p # ps) \<and> kend t' = kend t \<and> kdata t' = kdata t \<and>
      use_lock t' = use_lock t \<and> kmem_state.more t' = kmem_state.more t)"
    by (rule Suc.IH [OF t(2) al ke kb _ Suc.prems(6) n disj])
  then show ?case
    using go t by (simp add: freerange_loop.simps [of p vend s])
qed

section \<open>The contract of the allocator\<close>

text \<open>
  What the virtual-memory system, the process table and the pipes rely on. \<open>free_pages s ps\<close>
  says that \<open>ps\<close> is the free list of \<open>s\<close>, and \<open>managed s p\<close> that \<open>p\<close> is the address of a page
  the allocator may hold.
\<close>

locale page_allocator =
  fixes alloc :: "'s \<Rightarrow> (u32, 's) kres"
    and release_page :: "u32 \<Rightarrow> 's \<Rightarrow> (unit, 's) kres"
    and free_pages :: "'s \<Rightarrow> u32 list \<Rightarrow> bool"
    and managed :: "'s \<Rightarrow> u32 \<Rightarrow> bool"
  assumes free_pages_ok: "free_pages s ps \<Longrightarrow> distinct ps \<and> (\<forall>p\<in>set ps. managed s p)"
    and managed_nonzero: "managed s p \<Longrightarrow> p \<noteq> 0"
    and alloc_empty: "free_pages s [] \<Longrightarrow> alloc s = Ret 0 s"
    and alloc_page: "free_pages s (p # ps) \<Longrightarrow>
      okr (alloc s) (\<lambda>r t. r = p \<and> free_pages t ps \<and> managed t = managed s)"
    and release_ok: "free_pages s ps \<Longrightarrow> managed s p \<Longrightarrow> p \<notin> set ps \<Longrightarrow>
      okr (release_page p s) (\<lambda>_ t. free_pages t (p # ps) \<and> managed t = managed s)"
begin

text \<open>Allocating \<open>n\<close> pages in a row, stopping at the first failure.\<close>

primrec alloc_many :: "nat \<Rightarrow> 's \<Rightarrow> (u32 list, 's) kres" where
  "alloc_many 0 s = Ret [] s"
| "alloc_many (Suc n) s = bindr (alloc s) (\<lambda>p s.
     if p = 0 then Ret [] s else bindr (alloc_many n s) (\<lambda>ps s. Ret (p # ps) s))"

lemma alloc_many_spec:
  "free_pages s ps \<Longrightarrow>
   okr (alloc_many n s) (\<lambda>qs t. qs = take n ps \<and> free_pages t (drop n ps) \<and> managed t = managed s)"
proof (induction n arbitrary: s ps)
  case (Suc n)
  show ?case
  proof (cases ps)
    case Nil
    then show ?thesis using alloc_empty Suc.prems by simp
  next
    case (Cons p qs)
    then obtain t where t: "alloc s = Ret p t" "free_pages t qs" "managed t = managed s"
      using alloc_page [of s p qs] Suc.prems by (auto simp: okr_iff)
    have "p \<noteq> 0"
      using free_pages_ok [OF Suc.prems] managed_nonzero Cons by auto
    then show ?thesis
      using t Suc.IH [OF t(2)] Cons by (auto simp: okr_iff)
  qed
qed simp

lemma alloc_result:
  assumes "free_pages s ps"
  shows "okr (alloc s) (\<lambda>r t. (r = 0 \<longleftrightarrow> ps = []) \<and>
    (r \<noteq> 0 \<longrightarrow> managed s r \<and> r \<in> set ps \<and> r \<notin> set (tl ps)) \<and> free_pages t (tl ps))"
proof (cases ps)
  case Nil
  then show ?thesis using alloc_empty assms by simp
next
  case (Cons p qs)
  then have ok: "distinct (p # qs)" "managed s p" "p \<noteq> 0"
    using free_pages_ok [OF assms] managed_nonzero by auto
  obtain t where "alloc s = Ret p t" "free_pages t qs"
    using alloc_page [of s p qs] assms Cons by (auto simp: okr_iff)
  with ok Cons show ?thesis by auto
qed

lemma alloc_release:
  assumes "free_pages s (p # ps)"
  shows "okr (bindr (alloc s) (\<lambda>r t. release_page r t)) (\<lambda>_ t. free_pages t (p # ps))"
proof -
  have ok: "distinct (p # ps)" "managed s p"
    using free_pages_ok [OF assms] by auto
  obtain t where t: "alloc s = Ret p t" "free_pages t ps" "managed t = managed s"
    using alloc_page [OF assms] by (auto simp: okr_iff)
  then have "okr (release_page p t) (\<lambda>_ t'. free_pages t' (p # ps) \<and> managed t' = managed t)"
    using ok by (intro release_ok) auto
  then show ?thesis
    using t(1) by (auto simp: okr_iff)
qed

end

interpretation kalloc: page_allocator kalloc kfree kmem_inv page_ok
proof
  fix s :: "'a kmem_state_scheme" and p :: u32 and ps
  show "kmem_inv s ps \<Longrightarrow> distinct ps \<and> (\<forall>p\<in>set ps. page_ok s p)"
    by (simp add: kmem_inv_def)
  show "page_ok s p \<Longrightarrow> p \<noteq> 0"
    by (rule page_ok_nonzero)
  show "kmem_inv s [] \<Longrightarrow> kalloc s = Ret 0 s"
    by (rule kalloc_Nil)
  show "kmem_inv s (p # ps) \<Longrightarrow>
      okr (kalloc s) (\<lambda>r t. r = p \<and> kmem_inv t ps \<and> page_ok t = page_ok s)"
    using kalloc_Cons [of s p ps] by (auto simp: page_ok_def)
  show "kmem_inv s ps \<Longrightarrow> page_ok s p \<Longrightarrow> p \<notin> set ps \<Longrightarrow>
      okr (kfree p s) (\<lambda>_ t. kmem_inv t (p # ps) \<and> page_ok t = page_ok s)"
    using kfree_spec [of s ps p] by (auto simp: okr_iff page_ok_def fun_eq_iff)
qed

section \<open>Properties of the allocator\<close>

text \<open>
  After \<^verbatim>\<open>kinit1\<close> on an empty free list, for a range that lies between the end of the kernel
  and the end of physical memory, the free list holds exactly the whole pages of the range, each
  once, the highest first; locking is still off and no page panics.
\<close>

lemma kinit1_free_list:
  assumes "freelist s = 0" "kend s \<le> PGROUNDUP vstart" "KERNBASE \<le> PGROUNDUP vstart"
    and "PGROUNDUP vstart \<le> P2V PHYSTOP" "vend \<le> P2V PHYSTOP"
  shows "okr (kinit1 vstart vend s) (\<lambda>_ t. \<not> use_lock t \<and> kend t = kend s \<and> kdata t = kdata s \<and>
     kmem_inv t (rev (page_seq (PGROUNDUP vstart) ((unat vend - unat (PGROUNDUP vstart)) div 4096))))"
proof -
  have "kmem_inv (s\<lparr>use_lock := False\<rparr>) []"
    using assms(1) by (simp add: kmem_inv_def)
  moreover have "unat (PGROUNDUP vstart) \<le> 2382364672" "unat vend \<le> 2382364672"
    using assms(4,5) by (simp_all add: P2V_def word_le_nat_alt)
  ultimately show ?thesis
    using freerange_loop_spec [OF _ PGROUNDUP_aligned _ assms(3) _ _ refl,
        of "s\<lparr>use_lock := False\<rparr>" "[]" vend] assms(2)
    by (simp add: kinit1_def freerange_def okr_conj)
qed

text \<open>
  C11: \<^verbatim>\<open>kalloc\<close> returns 0 exactly when the free list is empty. Otherwise it returns a page-aligned
  address above the kernel image, which was on the free list and is no longer on it, so that no
  two allocations without a \<^verbatim>\<open>kfree\<close> in between return the same page.
\<close>

theorem kalloc_hands_out_each_page_once:
  assumes "kmem_inv s ps"
  shows "okr (kalloc s) (\<lambda>r t. (r = 0 \<longleftrightarrow> ps = []) \<and>
    (r \<noteq> 0 \<longrightarrow> page_ok s r \<and> r \<in> set ps \<and> r \<notin> set (tl ps)) \<and> kmem_inv t (tl ps))"
  by (rule kalloc.alloc_result [OF assms])

definition one_page :: kmem_state where
  "one_page = \<lparr>mem = (\<lambda>_. 0), freelist = 0x80400000, use_lock = True, kend = 0x80115000, kdata = 0x80108000\<rparr>"

lemma one_page_inv: "kmem_inv one_page [0x80400000]"
  by (simp add: kmem_inv_def one_page_def page_ok_def V2P_def ld32_def rd32_def)

theorem kalloc_hands_out_each_page_once_witness:
  "okr (kalloc one_page) (\<lambda>r t. r \<noteq> 0 \<and> page_ok one_page r \<and> kmem_inv t [])"
  using kalloc_hands_out_each_page_once [OF one_page_inv] by (auto simp: okr_iff)

end
