(* ===== verification/Ptable.thy ===== *)
theory Ptable
  imports Kalloc
begin

text \<open>
  The process table and the primitives that act on it alone: \<^verbatim>\<open>allocproc\<close>, \<^verbatim>\<open>sleep\<close>,
  \<^verbatim>\<open>wakeup\<close>, \<^verbatim>\<open>kill\<close>, \<^verbatim>\<open>yield\<close> and the choice made by \<^verbatim>\<open>scheduler\<close> (\<^verbatim>\<open>proc.c\<close>), the sleep
  locks built on them (\<^verbatim>\<open>sleeplock.c\<close>), and the recording of an exiting process in the history ring.
  A critical section under \<^verbatim>\<open>ptable.lock\<close> is one atomic step.

  A process is named by its index in \<^verbatim>\<open>ptable.proc\<close>, an inode and an open file by theirs in
  their tables. \<open>p_tf\<close> and \<open>p_context\<close> are addresses inside the kernel stack page, whose bytes
  are in \<open>mem\<close>. \<open>cpu_proc c\<close> is \<^verbatim>\<open>cpus[c].proc\<close>, \<open>this_cpu\<close> the CPU that executes the
  code, \<open>sym_trapret\<close> and \<open>sym_forkret\<close> the link-time addresses of these routines.
\<close>

section \<open>Data\<close>

datatype procstate = UNUSED | EMBRYO | SLEEPING | RUNNABLE | RUNNING | ZOMBIE

record proc =
  p_sz :: u32
  p_pgdir :: u32
  p_kstack :: u32
  p_state :: procstate
  p_pid :: int
  p_parent :: "nat option"
  p_tf :: u32
  p_context :: u32
  p_chan :: "chan option"
  p_killed :: bool
  p_ofile :: "nat option list"
  p_cwd :: "nat option"
  p_name :: bytes

abbreviation (input) CMD_NAME_MAX :: int where "CMD_NAME_MAX \<equiv> 16"
abbreviation (input) MAX_HISTORY :: nat where "MAX_HISTORY \<equiv> 100"

record history_entry =
  h_pid :: int
  h_name :: bytes
  h_mem_usage :: u32

record sleeplock =
  sl_locked :: bool
  sl_pid :: int

record ptable_state = kmem_state +
  procs :: "proc list"
  nextpid :: int
  initproc :: "nat option"
  cpu_proc :: "nat \<Rightarrow> nat option"
  this_cpu :: nat
  sleeplocks :: "slid \<Rightarrow> sleeplock"
  process_history :: "history_entry list"
  history_count :: nat
  history_index :: nat
  sym_trapret :: u32
  sym_forkret :: u32

definition upd_proc :: "nat \<Rightarrow> (proc \<Rightarrow> proc) \<Rightarrow> 'a ptable_state_scheme \<Rightarrow> 'a ptable_state_scheme" where
  "upd_proc p f s = s\<lparr>procs := (procs s)[p := f (procs s ! p)]\<rparr>"

definition myproc :: "'a ptable_state_scheme \<Rightarrow> nat option" where
  "myproc s = cpu_proc s (this_cpu s)"

definition mypid :: "'a ptable_state_scheme \<Rightarrow> int" where
  "mypid s = (case myproc s of None \<Rightarrow> 0 | Some p \<Rightarrow> p_pid (procs s ! p))"

section \<open>Operations\<close>

text \<open>
  \<^verbatim>\<open>allocproc\<close>: \<open>sizeof *p->tf\<close> is 76 and \<open>sizeof *p->context\<close> is 20 bytes; \<^verbatim>\<open>eip\<close> is the
  fifth word of a context. The result is \<open>None\<close> for the null pointer.
\<close>

definition allocproc :: "'a ptable_state_scheme \<Rightarrow> (nat option, 'a ptable_state_scheme) kres" where
  "allocproc s =
     (case first_index (\<lambda>p. p_state p = UNUSED) (procs s) of
        None \<Rightarrow> Ret None s
      | Some p \<Rightarrow>
          let s = (upd_proc p (\<lambda>q. q\<lparr>p_state := EMBRYO, p_pid := nextpid s\<rparr>) s)
                    \<lparr>nextpid := nextpid s + 1\<rparr>
          in bindr (kalloc s) (\<lambda>ks s.
               let s = upd_proc p (\<lambda>q. q\<lparr>p_kstack := ks\<rparr>) s
               in if ks = 0 then Ret None (upd_proc p (\<lambda>q. q\<lparr>p_state := UNUSED\<rparr>) s)
                  else let sp = ks + KSTACKSIZE;
                           sp = sp - 76;
                           s = upd_proc p (\<lambda>q. q\<lparr>p_tf := sp\<rparr>) s;
                           sp = sp - 4;
                           s = s\<lparr>mem := st32 (mem s) sp (sym_trapret s)\<rparr>;
                           sp = sp - 20;
                           s = upd_proc p (\<lambda>q. q\<lparr>p_context := sp\<rparr>) s;
                           s = s\<lparr>mem := memset (mem s) sp 0 20\<rparr>;
                           s = s\<lparr>mem := st32 (mem s) (sp + 16) (sym_forkret s)\<rparr>
                       in Ret (Some p) s))"

definition wakeup1 :: "chan \<Rightarrow> 'a ptable_state_scheme \<Rightarrow> 'a ptable_state_scheme" where
  "wakeup1 c s = s\<lparr>procs := map (\<lambda>p. if p_state p = SLEEPING \<and> p_chan p = Some c
                                     then p\<lparr>p_state := RUNNABLE\<rparr> else p) (procs s)\<rparr>"

definition wakeup :: "chan \<Rightarrow> 'a ptable_state_scheme \<Rightarrow> 'a ptable_state_scheme" where
  "wakeup c s = wakeup1 c s"

text \<open>
  \<^verbatim>\<open>sched\<close> gives up the CPU: the scheduler clears \<^verbatim>\<open>c->proc\<close> when the context switch comes back
  to it. Its checks on the interrupt state are modelled with the spin locks.
\<close>

definition sched :: "'a ptable_state_scheme \<Rightarrow> 'a ptable_state_scheme" where
  "sched s = s\<lparr>cpu_proc := (cpu_proc s)(this_cpu s := None)\<rparr>"

text \<open>
  \<^verbatim>\<open>sleep\<close> up to the context switch, and the tidying up after it. The hand-over from the caller's
  lock to \<^verbatim>\<open>ptable.lock\<close> is what makes the check of the caller and this step one atomic step.
\<close>

definition sleep :: "chan \<Rightarrow> 'a ptable_state_scheme \<Rightarrow> ('b, 'a ptable_state_scheme) kres" where
  "sleep c s =
     (case myproc s of
        None \<Rightarrow> Panic ''sleep''
      | Some p \<Rightarrow> Sleeping c (sched (upd_proc p (\<lambda>q. q\<lparr>p_chan := Some c, p_state := SLEEPING\<rparr>) s)))"

definition sleep_return :: "nat \<Rightarrow> 'a ptable_state_scheme \<Rightarrow> 'a ptable_state_scheme" where
  "sleep_return p s = upd_proc p (\<lambda>q. q\<lparr>p_chan := None\<rparr>) s"

text \<open>\<^verbatim>\<open>yield\<close> needs a process, as \<^verbatim>\<open>myproc()->state\<close> is written through the pointer.\<close>

definition yield :: "'a ptable_state_scheme \<Rightarrow> (unit, 'a ptable_state_scheme) kres" where
  "yield s = (case myproc s of
       None \<Rightarrow> Panic ''trap''
     | Some p \<Rightarrow> Ret () (sched (upd_proc p (\<lambda>q. q\<lparr>p_state := RUNNABLE\<rparr>) s)))"

text \<open>
  \<^verbatim>\<open>switchuvm\<close>: its checks. The task state segment and the page table register it loads are
  hardware state; the page table in force is that of the process on the CPU.
\<close>

definition switchuvm :: "nat option \<Rightarrow> 'a ptable_state_scheme \<Rightarrow> (unit, 'a ptable_state_scheme) kres" where
  "switchuvm p s =
     (case p of
        None \<Rightarrow> Panic ''switchuvm: no process''
      | Some p \<Rightarrow>
          if p_kstack (procs s ! p) = 0 then Panic ''switchuvm: no kstack''
          else if p_pgdir (procs s ! p) = 0 then Panic ''switchuvm: no pgdir''
          else Ret () s)"

text \<open>
  One turn of the inner loop of \<^verbatim>\<open>scheduler\<close> at table entry \<open>p\<close>, up to the switch to the
  process.
\<close>

definition scheduler_at :: "nat \<Rightarrow> 'a ptable_state_scheme \<Rightarrow> (bool, 'a ptable_state_scheme) kres" where
  "scheduler_at p s =
     (if p_state (procs s ! p) \<noteq> RUNNABLE then Ret False s
      else bindr (switchuvm (Some p) (s\<lparr>cpu_proc := (cpu_proc s)(this_cpu s := Some p)\<rparr>)) (\<lambda>_ s.
           Ret True (upd_proc p (\<lambda>q. q\<lparr>p_state := RUNNING\<rparr>) s)))"

definition kill :: "int \<Rightarrow> 'a ptable_state_scheme \<Rightarrow> (int, 'a ptable_state_scheme) kres" where
  "kill pid s =
     (case first_index (\<lambda>p. p_pid p = pid) (procs s) of
        None \<Rightarrow> Ret (-1) s
      | Some p \<Rightarrow> Ret 0 (upd_proc p (\<lambda>q. q\<lparr>p_killed := True,
                    p_state := (if p_state q = SLEEPING then RUNNABLE else p_state q)\<rparr>) s))"

text \<open>The step of \<^verbatim>\<open>exit\<close> that enters the process into the history ring.\<close>

definition record_history :: "nat \<Rightarrow> 'a ptable_state_scheme \<Rightarrow> 'a ptable_state_scheme" where
  "record_history p s =
     (let q = procs s ! p;
          i = history_index s;
          e = process_history s ! i;
          e = e\<lparr>h_pid := p_pid q, h_name := safestrcpy (h_name e) (p_name q) CMD_NAME_MAX,
                h_mem_usage := p_sz q\<rparr>
      in s\<lparr>process_history := (process_history s)[i := e],
           history_index := (i + 1) mod MAX_HISTORY,
           history_count := (if history_count s < MAX_HISTORY then history_count s + 1
                             else history_count s)\<rparr>)"

subsection \<open>Sleep locks\<close>

definition initsleeplock :: "slid \<Rightarrow> 'a ptable_state_scheme \<Rightarrow> 'a ptable_state_scheme" where
  "initsleeplock l s = s\<lparr>sleeplocks := (sleeplocks s)(l := \<lparr>sl_locked = False, sl_pid = 0\<rparr>)\<rparr>"

text \<open>
  A sleep lock is taken by a process: without one, \<^verbatim>\<open>myproc()->pid\<close> reads through the null
  pointer, and \<^verbatim>\<open>trap\<close> panics on the fault.
\<close>

definition acquiresleep :: "slid \<Rightarrow> 'a ptable_state_scheme \<Rightarrow> (unit, 'a ptable_state_scheme) kres" where
  "acquiresleep l s =
     (if sl_locked (sleeplocks s l) then sleep (ChanLock l) s
      else if myproc s = None then Panic ''trap''
      else Ret () (s\<lparr>sleeplocks := (sleeplocks s)(l := \<lparr>sl_locked = True, sl_pid = mypid s\<rparr>)\<rparr>))"

definition releasesleep :: "slid \<Rightarrow> 'a ptable_state_scheme \<Rightarrow> 'a ptable_state_scheme" where
  "releasesleep l s =
     wakeup (ChanLock l) (s\<lparr>sleeplocks := (sleeplocks s)(l := \<lparr>sl_locked = False, sl_pid = 0\<rparr>)\<rparr>)"

definition holdingsleep :: "slid \<Rightarrow> 'a ptable_state_scheme \<Rightarrow> bool" where
  "holdingsleep l s \<longleftrightarrow> sl_locked (sleeplocks s l) \<and> sl_pid (sleeplocks s l) = mypid s"

section \<open>Basic facts\<close>

lemma upd_proc_fields [simp]:
  "procs (upd_proc p f s) = (procs s)[p := f (procs s ! p)]"
  "mem (upd_proc p f s) = mem s" "freelist (upd_proc p f s) = freelist s"
  "use_lock (upd_proc p f s) = use_lock s" "kend (upd_proc p f s) = kend s" "kdata (upd_proc p f s) = kdata s"
  "nextpid (upd_proc p f s) = nextpid s" "initproc (upd_proc p f s) = initproc s"
  "cpu_proc (upd_proc p f s) = cpu_proc s" "this_cpu (upd_proc p f s) = this_cpu s"
  "sleeplocks (upd_proc p f s) = sleeplocks s" "process_history (upd_proc p f s) = process_history s"
  "history_count (upd_proc p f s) = history_count s"
  "history_index (upd_proc p f s) = history_index s"
  "sym_trapret (upd_proc p f s) = sym_trapret s" "sym_forkret (upd_proc p f s) = sym_forkret s"
  "ptable_state.more (upd_proc p f s) = ptable_state.more s"
  by (simp_all add: upd_proc_def)

lemma wakeup_fields [simp]:
  "length (procs (wakeup c s)) = length (procs s)"
  "mem (wakeup c s) = mem s" "freelist (wakeup c s) = freelist s"
  "use_lock (wakeup c s) = use_lock s" "kend (wakeup c s) = kend s" "kdata (wakeup c s) = kdata s"
  "nextpid (wakeup c s) = nextpid s" "initproc (wakeup c s) = initproc s"
  "cpu_proc (wakeup c s) = cpu_proc s" "this_cpu (wakeup c s) = this_cpu s"
  "sleeplocks (wakeup c s) = sleeplocks s" "process_history (wakeup c s) = process_history s"
  "history_count (wakeup c s) = history_count s" "history_index (wakeup c s) = history_index s"
  "sym_trapret (wakeup c s) = sym_trapret s" "sym_forkret (wakeup c s) = sym_forkret s"
  "ptable_state.more (wakeup c s) = ptable_state.more s"
  by (simp_all add: wakeup_def wakeup1_def)

lemma wakeup_nth:
  "p < length (procs s) \<Longrightarrow> procs (wakeup c s) ! p =
     (if p_state (procs s ! p) = SLEEPING \<and> p_chan (procs s ! p) = Some c
      then (procs s ! p)\<lparr>p_state := RUNNABLE\<rparr> else procs s ! p)"
  by (simp add: wakeup_def wakeup1_def)

text \<open>Only the state of a process changes when it is woken, and only from \<open>SLEEPING\<close>.\<close>

lemma wakeup_nth_fields [simp]:
  assumes "p < length (procs s)"
  shows "p_sz (procs (wakeup c s) ! p) = p_sz (procs s ! p)"
    "p_pgdir (procs (wakeup c s) ! p) = p_pgdir (procs s ! p)"
    "p_kstack (procs (wakeup c s) ! p) = p_kstack (procs s ! p)"
    "p_pid (procs (wakeup c s) ! p) = p_pid (procs s ! p)"
    "p_parent (procs (wakeup c s) ! p) = p_parent (procs s ! p)"
    "p_tf (procs (wakeup c s) ! p) = p_tf (procs s ! p)"
    "p_context (procs (wakeup c s) ! p) = p_context (procs s ! p)"
    "p_chan (procs (wakeup c s) ! p) = p_chan (procs s ! p)"
    "p_killed (procs (wakeup c s) ! p) = p_killed (procs s ! p)"
    "p_ofile (procs (wakeup c s) ! p) = p_ofile (procs s ! p)"
    "p_cwd (procs (wakeup c s) ! p) = p_cwd (procs s ! p)"
    "p_name (procs (wakeup c s) ! p) = p_name (procs s ! p)"
  using assms by (simp_all add: wakeup_nth)

lemma myproc_wakeup [simp]: "myproc (wakeup c s) = myproc s"
  by (simp add: myproc_def)

lemma myproc_upd_proc [simp]: "myproc (upd_proc p f s) = myproc s"
  by (simp add: myproc_def)

text \<open>\<open>in_proc s\<close>: the CPU executes on behalf of a process of the table.\<close>

definition in_proc :: "'a ptable_state_scheme \<Rightarrow> bool" where
  "in_proc s \<longleftrightarrow> (\<exists>p. myproc s = Some p \<and> p < length (procs s))"

lemma mypid_wakeup [simp]: "in_proc s \<Longrightarrow> mypid (wakeup c s) = mypid s"
  by (auto simp: mypid_def in_proc_def)

lemma in_proc_wakeup [simp]: "in_proc (wakeup c s) = in_proc s"
  by (simp add: in_proc_def)

section \<open>The table invariant\<close>

text \<open>
  Every used entry has a positive pid below \<open>nextpid\<close>, pids of used entries differ, a sleeping
  process has a channel, and the CPUs and the \<open>RUNNING\<close> entries correspond one to one.
\<close>

definition proc_ok :: "int \<Rightarrow> proc \<Rightarrow> bool" where
  "proc_ok np q \<longleftrightarrow> (p_state q \<noteq> UNUSED \<longrightarrow> 0 < p_pid q \<and> p_pid q < np) \<and>
                    (p_state q = SLEEPING \<longrightarrow> p_chan q \<noteq> None)"

definition pids_distinct :: "proc list \<Rightarrow> bool" where
  "pids_distinct ps \<longleftrightarrow> (\<forall>i<length ps. \<forall>j<length ps. i \<noteq> j \<longrightarrow>
     p_state (ps ! i) \<noteq> UNUSED \<longrightarrow> p_state (ps ! j) \<noteq> UNUSED \<longrightarrow> p_pid (ps ! i) \<noteq> p_pid (ps ! j))"

definition cpus_ok :: "(nat \<Rightarrow> nat option) \<Rightarrow> proc list \<Rightarrow> bool" where
  "cpus_ok cp ps \<longleftrightarrow>
     (\<forall>c p. cp c = Some p \<longrightarrow> p < length ps \<and> p_state (ps ! p) = RUNNING) \<and>
     (\<forall>c d p. cp c = Some p \<longrightarrow> cp d = Some p \<longrightarrow> c = d) \<and>
     (\<forall>p<length ps. p_state (ps ! p) = RUNNING \<longrightarrow> (\<exists>c. cp c = Some p))"

definition ptable_inv :: "'a ptable_state_scheme \<Rightarrow> bool" where
  "ptable_inv s \<longleftrightarrow> length (procs s) = NPROC \<and> 0 < nextpid s \<and>
     (\<forall>p<NPROC. proc_ok (nextpid s) (procs s ! p)) \<and>
     pids_distinct (procs s) \<and> cpus_ok (cpu_proc s) (procs s)"

lemma ptable_invD:
  assumes "ptable_inv s"
  shows "length (procs s) = NPROC" "0 < nextpid s" "\<And>p. p < NPROC \<Longrightarrow> proc_ok (nextpid s) (procs s ! p)"
    "pids_distinct (procs s)" "cpus_ok (cpu_proc s) (procs s)"
  using assms by (auto simp: ptable_inv_def)

text \<open>
  Updating one entry keeps the pids apart if the entry keeps its pid or was unused, and takes a
  pid no used entry has.
\<close>

lemma pids_distinct_update:
  assumes "pids_distinct ps" "p_state q = UNUSED \<or> (p_pid q = p_pid (ps ! p) \<and> p_state (ps ! p) \<noteq> UNUSED) \<or>
      (\<forall>i<length ps. p_state (ps ! i) \<noteq> UNUSED \<longrightarrow> p_pid (ps ! i) \<noteq> p_pid q)"
  shows "pids_distinct (ps[p := q])"
  unfolding pids_distinct_def
proof (intro allI impI)
  fix i j
  assume "i < length (ps[p := q])" "j < length (ps[p := q])" "i \<noteq> j"
    "p_state (ps[p := q] ! i) \<noteq> UNUSED" "p_state (ps[p := q] ! j) \<noteq> UNUSED"
  then show "p_pid (ps[p := q] ! i) \<noteq> p_pid (ps[p := q] ! j)"
    using assms unfolding pids_distinct_def by (cases "i = p"; cases "j = p") (auto simp: nth_upd)
qed

lemma cpus_okI:
  assumes "\<And>c p. cp c = Some p \<Longrightarrow> p < length ps \<and> p_state (ps ! p) = RUNNING"
    and "\<And>c d p. cp c = Some p \<Longrightarrow> cp d = Some p \<Longrightarrow> c = d"
    and "\<And>p. p < length ps \<Longrightarrow> p_state (ps ! p) = RUNNING \<Longrightarrow> \<exists>c. cp c = Some p"
  shows "cpus_ok cp ps"
  using assms unfolding cpus_ok_def by blast

lemma cpus_okD:
  assumes "cpus_ok cp ps"
  shows "cp c = Some p \<Longrightarrow> p < length ps" "cp c = Some p \<Longrightarrow> p_state (ps ! p) = RUNNING"
    "cp c = Some p \<Longrightarrow> cp d = Some p \<Longrightarrow> c = d"
    "p < length ps \<Longrightarrow> p_state (ps ! p) = RUNNING \<Longrightarrow> \<exists>c. cp c = Some p"
  using assms unfolding cpus_ok_def by auto

lemma cpus_ok_update_same:
  assumes "cpus_ok cp ps" "p_state q = RUNNING \<longleftrightarrow> p_state (ps ! p) = RUNNING"
  shows "cpus_ok cp (ps[p := q])"
  using cpus_okD [OF assms(1)] assms(2)
  by (intro cpus_okI) (auto simp: nth_upd split: if_splits)

lemma cpus_ok_stop:
  assumes "cpus_ok cp ps" "cp c = Some p" "p_state q \<noteq> RUNNING"
  shows "cpus_ok (cp(c := None)) (ps[p := q])"
proof (rule cpus_okI)
  note D = cpus_okD [OF assms(1)]
  show "p' < length (ps[p := q]) \<and> p_state (ps[p := q] ! p') = RUNNING"
    if "(cp(c := None)) d = Some p'" for d p'
    using that D(1,2) [of d p'] D(3) [of d p' c] assms(2) by (auto simp: nth_upd split: if_splits)
  show "d = e" if "(cp(c := None)) d = Some p'" "(cp(c := None)) e = Some p'" for d e p'
    using that D(3) [of d p' e] by (auto split: if_splits)
  show "\<exists>d. (cp(c := None)) d = Some p'"
    if "p' < length (ps[p := q])" "p_state (ps[p := q] ! p') = RUNNING" for p'
  proof -
    have "p' \<noteq> p" "p_state (ps ! p') = RUNNING" "p' < length ps"
      using that assms(3) by (auto simp: nth_upd split: if_splits)
    then obtain d where d: "cp d = Some p'"
      using D(4) [of p'] by auto
    then have "d \<noteq> c"
      using \<open>p' \<noteq> p\<close> assms(2) by auto
    with d show ?thesis by auto
  qed
qed

lemma cpus_ok_start:
  assumes "cpus_ok cp ps" "cp c = None" "p < length ps" "p_state (ps ! p) \<noteq> RUNNING" "p_state q = RUNNING"
  shows "cpus_ok (cp(c := Some p)) (ps[p := q])"
proof (rule cpus_okI)
  note D = cpus_okD [OF assms(1)]
  show "p' < length (ps[p := q]) \<and> p_state (ps[p := q] ! p') = RUNNING"
    if "(cp(c := Some p)) d = Some p'" for d p'
    using that D(1,2) [of d p'] assms by (auto simp: nth_upd split: if_splits)
  show "d = e" if "(cp(c := Some p)) d = Some p'" "(cp(c := Some p)) e = Some p'" for d e p'
    using that D(2,3) [of _ p'] assms(4) by (auto split: if_splits)
  show "\<exists>d. (cp(c := Some p)) d = Some p'"
    if "p' < length (ps[p := q])" "p_state (ps[p := q] ! p') = RUNNING" for p'
  proof (cases "p' = p")
    case False
    then have "p' < length ps" "p_state (ps ! p') = RUNNING"
      using that by (auto simp: nth_upd)
    then obtain d where "cp d = Some p'"
      using D(4) [of p'] by auto
    with assms(2) have "(cp(c := Some p)) d = Some p'"
      by auto
    then show ?thesis ..
  qed auto
qed

lemma ptable_inv_update:
  assumes "ptable_inv s" "p < NPROC" "proc_ok (nextpid s) (f (procs s ! p))"
    and "p_state (f (procs s ! p)) = UNUSED \<or>
         (p_pid (f (procs s ! p)) = p_pid (procs s ! p) \<and> p_state (procs s ! p) \<noteq> UNUSED)"
    and "p_state (f (procs s ! p)) = RUNNING \<longleftrightarrow> p_state (procs s ! p) = RUNNING"
  shows "ptable_inv (upd_proc p f s)"
  using ptable_invD [OF assms(1)] assms(2-5)
  by (auto simp: ptable_inv_def nth_upd intro!: pids_distinct_update cpus_ok_update_same)

lemma ptable_inv_cong:
  assumes "procs t = procs s" "nextpid t = nextpid s" "cpu_proc t = cpu_proc s"
  shows "ptable_inv t = ptable_inv s"
  using assms by (simp add: ptable_inv_def)

lemma wakeup_inv:
  assumes "ptable_inv s"
  shows "ptable_inv (wakeup c s)"
proof -
  note I = ptable_invD [OF assms]
  have "proc_ok (nextpid s) (procs (wakeup c s) ! p)" if "p < NPROC" for p
    using I(3) [OF that] I(1) that by (auto simp: wakeup_nth proc_ok_def)
  moreover have "pids_distinct (procs (wakeup c s))"
    using I(1,4) by (auto simp: pids_distinct_def wakeup_nth)
  moreover have "cpus_ok (cpu_proc s) (procs (wakeup c s))"
    using cpus_okD [OF I(5)] I(1)
    by (intro cpus_okI) (auto simp: wakeup_nth split: if_splits)
  ultimately show ?thesis
    using I by (simp add: ptable_inv_def)
qed

lemma kill_inv:
  assumes "ptable_inv s"
  shows "okr (kill pid s) (\<lambda>r t. ptable_inv t)"
proof (cases "first_index (\<lambda>p. p_pid p = pid) (procs s)")
  case None
  then show ?thesis using assms by (simp add: kill_def)
next
  case (Some p)
  note I = ptable_invD [OF assms]
  have p: "p < NPROC"
    using first_indexD(1) [OF Some] I(1) by simp
  show ?thesis
    using Some I(3) [OF p] assms p
    by (auto simp: kill_def proc_ok_def intro!: ptable_inv_update split: if_splits)
qed

lemma sched_stop_inv:
  assumes "ptable_inv s" "myproc s = Some p" "proc_ok (nextpid s) (f (procs s ! p))"
    and "p_state (f (procs s ! p)) \<noteq> RUNNING" "p_pid (f (procs s ! p)) = p_pid (procs s ! p)"
  shows "ptable_inv (sched (upd_proc p f s))"
proof -
  note I = ptable_invD [OF assms(1)]
  have c: "cpu_proc s (this_cpu s) = Some p"
    using assms(2) by (simp add: myproc_def)
  have p: "p < NPROC" "p_state (procs s ! p) = RUNNING"
    using cpus_okD(1,2) [OF I(5) c] I(1) by auto
  show ?thesis
    using I assms(3-5) p cpus_ok_stop [OF I(5) c assms(4)]
    by (auto simp: ptable_inv_def sched_def nth_upd intro!: pids_distinct_update)
qed

lemma sleep_inv:
  assumes "ptable_inv s" "myproc s = Some p"
  shows "\<exists>t. sleep c s = Sleeping c t \<and> ptable_inv t \<and> myproc t = None \<and>
    p_state (procs t ! p) = SLEEPING \<and> p_chan (procs t ! p) = Some c"
proof -
  note I = ptable_invD [OF assms(1)]
  have p: "p < NPROC" "p_state (procs s ! p) = RUNNING"
    using cpus_okD(1,2) [OF I(5), of "this_cpu s" p] assms(2) I(1) by (auto simp: myproc_def)
  have "ptable_inv (sched (upd_proc p (\<lambda>q. q\<lparr>p_chan := Some c, p_state := SLEEPING\<rparr>) s))"
    using I(3) [OF p(1)] p by (intro sched_stop_inv [OF assms]) (auto simp: proc_ok_def)
  then show ?thesis
    using assms(2) p I(1) by (simp add: sleep_def sched_def myproc_def)
qed

lemma yield_inv:
  assumes "ptable_inv s"
  shows "ifr (yield s) (\<lambda>_ t. ptable_inv t)"
proof (cases "myproc s")
  case (Some p)
  note I = ptable_invD [OF assms]
  have p: "p < NPROC" "p_state (procs s ! p) = RUNNING"
    using cpus_okD(1,2) [OF I(5), of "this_cpu s" p] Some I(1) by (auto simp: myproc_def)
  have "ptable_inv (sched (upd_proc p (\<lambda>q. q\<lparr>p_state := RUNNABLE\<rparr>) s))"
    using I(3) [OF p(1)] p by (intro sched_stop_inv [OF assms Some]) (auto simp: proc_ok_def)
  then show ?thesis
    using Some by (simp add: yield_def)
qed (use assms in \<open>simp add: yield_def\<close>)

lemma scheduler_at_inv:
  assumes "ptable_inv s" "p < NPROC" "myproc s = None"
  shows "ifr (scheduler_at p s) (\<lambda>r t. ptable_inv t \<and> (r \<longrightarrow> myproc t = Some p) \<and> (\<not> r \<longrightarrow> t = s))"
proof (cases "p_state (procs s ! p) = RUNNABLE")
  case True
  note I = ptable_invD [OF assms(1)]
  have "cpus_ok ((cpu_proc s)(this_cpu s := Some p)) ((procs s)[p := (procs s ! p)\<lparr>p_state := RUNNING\<rparr>])"
    using True assms(2,3) I(1) by (intro cpus_ok_start [OF I(5)]) (auto simp: myproc_def)
  moreover have "pids_distinct ((procs s)[p := (procs s ! p)\<lparr>p_state := RUNNING\<rparr>])"
    using True by (intro pids_distinct_update I(4)) auto
  ultimately show ?thesis
    using True I assms(2)
    by (auto simp: scheduler_at_def switchuvm_def ptable_inv_def nth_upd proc_ok_def myproc_def)
qed (use assms in \<open>auto simp: scheduler_at_def\<close>)

section \<open>Allocating a process\<close>

text \<open>The kernel stack \<^verbatim>\<open>allocproc\<close> lays out: a return to \<^verbatim>\<open>trapret\<close> below the trap frame,
  and a zeroed context whose \<^verbatim>\<open>eip\<close> is \<^verbatim>\<open>forkret\<close> below that.\<close>

definition fork_stack :: "u32 \<Rightarrow> u32 \<Rightarrow> u32 \<Rightarrow> mem \<Rightarrow> mem" where
  "fork_stack ks trapret forkret m =
     st32 (memset (st32 m (4016 + ks) trapret) (3996 + ks) 0 20) (4012 + ks) forkret"

lemma fork_stack_outside:
  assumes "4096 \<le> unat (x - ks)"
  shows "fork_stack ks a b m x = m x"
  using assms st32_in_page [of x ks 4016] st32_in_page [of x ks 4012] mem_fill_in_page [of x ks 3996 20]
  by (simp add: fork_stack_def memset_eq_fill add.commute [of _ ks])

lemma fork_stack_words:
  "ld32 (fork_stack ks a b m) (4016 + ks) = a" "ld32 (fork_stack ks a b m) (4012 + ks) = b"
proof -
  have "ld32 (fork_stack ks a b m) (4016 + ks) = ld32 (st32 m (4016 + ks) a) (4016 + ks)"
    by (simp add: fork_stack_def memset_eq_fill mem_fill_def ld32_def rd32_def st32_def)
  then show "ld32 (fork_stack ks a b m) (4016 + ks) = a"
    by simp
qed (simp add: fork_stack_def)

lemma allocproc_cases:
  assumes "length (procs s) = NPROC" "kmem_inv s ps"
  shows "allocproc s =
    (case first_index (\<lambda>p. p_state p = UNUSED) (procs s) of
       None \<Rightarrow> Ret None s
     | Some p \<Rightarrow>
        if ps = []
        then Ret None (s\<lparr>nextpid := nextpid s + 1, procs := (procs s)
               [p := (procs s ! p)\<lparr>p_pid := nextpid s, p_kstack := 0, p_state := UNUSED\<rparr>]\<rparr>)
        else Ret (Some p) (s\<lparr>nextpid := nextpid s + 1, freelist := ld32 (mem s) (hd ps),
               procs := (procs s)[p := (procs s ! p)\<lparr>p_state := EMBRYO, p_pid := nextpid s,
                  p_kstack := hd ps, p_tf := 4020 + hd ps, p_context := 3996 + hd ps\<rparr>],
               mem := fork_stack (hd ps) (sym_trapret s) (sym_forkret s) (mem s)\<rparr>))"
proof (cases "first_index (\<lambda>p. p_state p = UNUSED) (procs s)")
  case None
  then show ?thesis by (simp add: allocproc_def)
next
  case (Some p)
  have p: "p < length (procs s)"
    by (rule first_indexD(1) [OF Some])
  show ?thesis
  proof (cases ps)
    case Nil
    then have "freelist s = 0"
      using assms(2) by (simp add: kmem_inv_def)
    then show ?thesis
      using Some Nil p by (simp add: allocproc_def kalloc_def upd_proc_def Let_def)
  next
    case (Cons k ks)
    then have f: "freelist s = k" "k \<noteq> 0"
      using assms(2) by (auto simp: kmem_inv_def)
    show ?thesis
      using Some Cons p f
      by (simp add: allocproc_def kalloc_def upd_proc_def Let_def fork_stack_def)
  qed
qed

lemma allocproc_spec:
  assumes "ptable_inv s" "kmem_inv s ps"
  shows "okr (allocproc s) (\<lambda>r t. ptable_inv t \<and>
    (case r of
       None \<Rightarrow> kmem_inv t ps \<and> (ps = [] \<or> (\<forall>p<NPROC. p_state (procs s ! p) \<noteq> UNUSED)) \<and>
               (\<forall>p<NPROC. p_state (procs t ! p) = p_state (procs s ! p))
     | Some p \<Rightarrow> p < NPROC \<and> p_state (procs s ! p) = UNUSED \<and> ps \<noteq> [] \<and> kmem_inv t (tl ps) \<and>
               p_state (procs t ! p) = EMBRYO \<and> p_pid (procs t ! p) = nextpid s \<and>
               p_kstack (procs t ! p) = hd ps \<and>
               ld32 (mem t) (p_context (procs t ! p) + 16) = sym_forkret s \<and>
               ld32 (mem t) (p_context (procs t ! p) + 20) = sym_trapret s \<and>
               p_tf (procs t ! p) = p_context (procs t ! p) + 24 \<and>
               (\<forall>i<NPROC. i \<noteq> p \<longrightarrow> procs t ! i = procs s ! i)))"
proof (cases "first_index (\<lambda>p. p_state p = UNUSED) (procs s)")
  case None
  note I = ptable_invD [OF assms(1)]
  have "\<forall>p<NPROC. p_state (procs s ! p) \<noteq> UNUSED"
    using None I(1) by (simp add: first_index_None all_set_conv_all_nth)
  with None show ?thesis
    using assms by (simp add: allocproc_cases [OF I(1) assms(2)])
next
  case (Some p)
  note I = ptable_invD [OF assms(1)]
  have p: "p < NPROC" "p_state (procs s ! p) = UNUSED"
    using first_indexD [OF Some] I(1) by auto
  have fresh: "\<forall>i<length (procs s). p_state (procs s ! i) \<noteq> UNUSED \<longrightarrow> p_pid (procs s ! i) \<noteq> nextpid s"
    using I(1,3) by (fastforce simp: proc_ok_def)
  have ok: "proc_ok (nextpid s + 1) (procs s ! i)" if "i < NPROC" for i
    using I(3) [OF that] by (auto simp: proc_ok_def)
  show ?thesis
  proof (cases ps)
    case Nil
    let ?q = "(procs s ! p)\<lparr>p_pid := nextpid s, p_kstack := 0, p_state := UNUSED\<rparr>"
    have "pids_distinct ((procs s)[p := ?q])" "cpus_ok (cpu_proc s) ((procs s)[p := ?q])"
      using I(4,5) p by (auto intro!: pids_distinct_update cpus_ok_update_same)
    then show ?thesis
      using Some Nil assms(2) I p ok
      by (auto simp: allocproc_cases [OF I(1) assms(2)] Let_def ptable_inv_def nth_upd proc_ok_def
          kmem_inv_def page_ok_def)
  next
    case (Cons k ks)
    let ?q = "(procs s ! p)\<lparr>p_state := EMBRYO, p_pid := nextpid s, p_kstack := k, p_tf := 4020 + k,
                p_context := 3996 + k\<rparr>"
    let ?m = "fork_stack k (sym_trapret s) (sym_forkret s) (mem s)"
    have "pids_distinct ((procs s)[p := ?q])" "cpus_ok (cpu_proc s) ((procs s)[p := ?q])"
      using I(4,5) p fresh by (auto intro!: pids_distinct_update cpus_ok_update_same)
    moreover have "kmem_inv (s\<lparr>nextpid := nextpid s + 1, freelist := ld32 (mem s) k,
        procs := (procs s)[p := ?q], mem := ?m\<rparr>) ks"
    proof (rule kmem_inv_frame [OF kalloc_Cons(2) [of s k ks]])
      show K: "kmem_inv s (k # ks)" using assms(2) Cons by simp
      fix q x assume q: "q \<in> set ks" and x: "unat (x - q) < 4096"
      then have "q \<noteq> k"
        using kmem_invD(2) [OF K] by auto
      then have "4096 \<le> unat (x - k)"
        using kmem_invD(3) [OF K] q x by (intro other_page [of q k] page_ok_aligned [of s]) auto
      then show "mem (s\<lparr>nextpid := nextpid s + 1, freelist := ld32 (mem s) k,
          procs := (procs s)[p := ?q], mem := ?m\<rparr>) x = mem (s\<lparr>freelist := ld32 (mem s) k\<rparr>) x"
        by (simp add: fork_stack_outside)
    qed simp_all
    ultimately show ?thesis
      using Some Cons I p ok
      by (auto simp: allocproc_cases [OF I(1) assms(2)] Let_def ptable_inv_def nth_upd proc_ok_def
          fork_stack_words)
  qed
qed

section \<open>The history ring\<close>

text \<open>
  The ring holds the last \<open>MAX_HISTORY\<close> exits. \<open>history_view\<close> is its abstract content, oldest
  first: pid, name as text, and memory size.
\<close>

definition entry_view :: "history_entry \<Rightarrow> int \<times> u8 list \<times> u32" where
  "entry_view e = (h_pid e, cstr 16 (h_name e), h_mem_usage e)"

definition proc_entry :: "proc \<Rightarrow> int \<times> u8 list \<times> u32" where
  "proc_entry q = (p_pid q, cstr 15 (p_name q), p_sz q)"

definition history_inv :: "'a ptable_state_scheme \<Rightarrow> bool" where
  "history_inv s \<longleftrightarrow> length (process_history s) = MAX_HISTORY \<and> history_index s < MAX_HISTORY \<and>
     history_count s \<le> MAX_HISTORY \<and> (history_count s < MAX_HISTORY \<longrightarrow> history_index s = history_count s)"

definition history_view :: "'a ptable_state_scheme \<Rightarrow> (int \<times> u8 list \<times> u32) list" where
  "history_view s = map entry_view
     (if history_count s < MAX_HISTORY then take (history_count s) (process_history s)
      else drop (history_index s) (process_history s) @ take (history_index s) (process_history s))"

definition last_n :: "nat \<Rightarrow> 'a list \<Rightarrow> 'a list" where
  "last_n n xs = drop (length xs - n) xs"

lemma record_history_fields [simp]: "procs (record_history p s) = procs s"
  by (simp add: record_history_def Let_def)

lemma record_history_inv: "history_inv s \<Longrightarrow> history_inv (record_history p s)"
  by (auto simp: history_inv_def record_history_def Let_def mod_Suc)

lemma length_history_view: "history_inv s \<Longrightarrow> length (history_view s) = history_count s"
  by (auto simp: history_view_def history_inv_def)

lemma take_update_Suc: "i < length xs \<Longrightarrow> take (Suc i) (xs[i := x]) = take i xs @ [x]"
  by (simp add: take_Suc_conv_app_nth)

lemma last_n_short: "length xs \<le> n \<Longrightarrow> last_n n xs = xs"
  by (simp add: last_n_def)

lemma last_n_full: "length xs = n \<Longrightarrow> 0 < n \<Longrightarrow> last_n n (xs @ [x]) = tl xs @ [x]"
  by (cases xs) (simp_all add: last_n_def)

lemma record_history_view:
  assumes "history_inv s"
  shows "history_view (record_history p s) =
         last_n MAX_HISTORY (history_view s @ [proc_entry (procs s ! p)])"
proof -
  let ?i = "history_index s" and ?h = "process_history s" and ?q = "procs s ! p"
  let ?e = "(?h ! ?i)\<lparr>h_pid := p_pid ?q, h_name := safestrcpy (h_name (?h ! ?i)) (p_name ?q) 16,
              h_mem_usage := p_sz ?q\<rparr>"
  note I = assms [unfolded history_inv_def]
  have e: "entry_view ?e = proc_entry ?q"
    using safestrcpy_text [of 16 "h_name (?h ! ?i)" "p_name ?q"] by (simp add: entry_view_def proc_entry_def)
  have upto: "take (Suc ?i) (?h[?i := ?e]) = take ?i ?h @ [?e]"
    using I by (intro take_update_Suc) simp
  have whole: "?h[?i := ?e] = take ?i ?h @ [?e]" if "?i = 99"
    using upto that I by simp
  have r: "record_history p s = s\<lparr>process_history := ?h[?i := ?e], history_index := (?i + 1) mod 100,
      history_count := (if history_count s < 100 then history_count s + 1 else history_count s)\<rparr>"
    by (simp add: record_history_def Let_def)
  show ?thesis
  proof (cases "history_count s < 100")
    case True
    then have v: "history_view s = map entry_view (take ?i ?h)" and c: "history_count s = ?i"
      using I by (auto simp: history_view_def)
    have "history_view (record_history p s) = map entry_view (take ?i ?h @ [?e])"
    proof (cases "?i = 99")
      case True
      then show ?thesis using c whole unfolding r by (simp add: history_view_def)
    next
      case False
      then show ?thesis using c True upto unfolding r by (simp add: history_view_def)
    qed
    then show ?thesis
      using v c True e by (simp add: last_n_short)
  next
    case False
    then have v: "history_view s = map entry_view (drop ?i ?h @ take ?i ?h)" and c: "history_count s = 100"
      using I by (auto simp: history_view_def)
    have "tl (history_view s) = map entry_view (drop (Suc ?i) ?h @ take ?i ?h)"
      using I unfolding v by (simp add: drop_Suc tl_append2 tl_drop flip: map_tl)
    moreover have "history_view (record_history p s) =
        map entry_view (drop (Suc ?i) ?h @ take ?i ?h @ [?e])"
    proof (cases "?i = 99")
      case True
      then show ?thesis using c whole I unfolding r by (simp add: history_view_def)
    next
      case False
      then have "(?i + 1) mod 100 = Suc ?i"
        using I by simp
      then show ?thesis using c upto unfolding r by (simp add: history_view_def)
    qed
    moreover have "length (history_view s) = 100"
      using length_history_view [OF assms] c by simp
    ultimately show ?thesis
      using e last_n_full [of "history_view s" 100 "proc_entry ?q"] by simp
  qed
qed

section \<open>Properties\<close>

text \<open>
  C10: \<^verbatim>\<open>allocproc\<close> fails only when the process table is full or memory is exhausted, and then no
  process has changed state. When it succeeds it turns an \<open>UNUSED\<close> entry into an \<open>EMBRYO\<close> with a
  pid no other process has, takes one page as kernel stack, and lays that stack out so that the
  first switch to the process starts at \<^verbatim>\<open>forkret\<close> and returns from there to \<^verbatim>\<open>trapret\<close> with the
  stack pointer at the trap frame; no other entry changes and the table invariant is kept.
\<close>

theorem allocproc_correct:
  assumes "ptable_inv s" "kmem_inv s ps"
  shows "okr (allocproc s) (\<lambda>r t. ptable_inv t \<and>
    (case r of
       None \<Rightarrow> kmem_inv t ps \<and> (ps = [] \<or> (\<forall>p<NPROC. p_state (procs s ! p) \<noteq> UNUSED)) \<and>
               (\<forall>p<NPROC. p_state (procs t ! p) = p_state (procs s ! p))
     | Some p \<Rightarrow> p < NPROC \<and> p_state (procs s ! p) = UNUSED \<and> ps \<noteq> [] \<and> kmem_inv t (tl ps) \<and>
               p_state (procs t ! p) = EMBRYO \<and> p_pid (procs t ! p) = nextpid s \<and>
               p_kstack (procs t ! p) = hd ps \<and>
               ld32 (mem t) (p_context (procs t ! p) + 16) = sym_forkret s \<and>
               ld32 (mem t) (p_context (procs t ! p) + 20) = sym_trapret s \<and>
               p_tf (procs t ! p) = p_context (procs t ! p) + 24 \<and>
               (\<forall>i<NPROC. i \<noteq> p \<longrightarrow> procs t ! i = procs s ! i)))"
  by (rule allocproc_spec [OF assms])

definition no_proc :: proc where
  "no_proc = \<lparr>p_sz = 0, p_pgdir = 0, p_kstack = 0, p_state = UNUSED, p_pid = 0, p_parent = None,
     p_tf = 0, p_context = 0, p_chan = None, p_killed = False, p_ofile = replicate NOFILE None,
     p_cwd = None, p_name = (\<lambda>_. 0)\<rparr>"

definition boot_ptable :: ptable_state where
  "boot_ptable = \<lparr>mem = (\<lambda>_. 0), freelist = 0x80400000, use_lock = True, kend = 0x80115000, kdata = 0x80108000,
     procs = replicate NPROC no_proc, nextpid = 1, initproc = None, cpu_proc = (\<lambda>_. None), this_cpu = 0,
     sleeplocks = (\<lambda>_. \<lparr>sl_locked = False, sl_pid = 0\<rparr>),
     process_history = replicate MAX_HISTORY \<lparr>h_pid = 0, h_name = (\<lambda>_. 0), h_mem_usage = 0\<rparr>,
     history_count = 0, history_index = 0, sym_trapret = 0x80105000, sym_forkret = 0x80103000\<rparr>"

lemma boot_ptable_inv: "ptable_inv boot_ptable" "kmem_inv boot_ptable [0x80400000]"
  "history_inv boot_ptable"
  by (simp_all add: ptable_inv_def boot_ptable_def no_proc_def proc_ok_def pids_distinct_def cpus_ok_def
      kmem_inv_def page_ok_def V2P_def ld32_def rd32_def history_inv_def)

theorem allocproc_correct_witness:
  "okr (allocproc boot_ptable) (\<lambda>r t. r \<noteq> None \<and> p_pid (procs t ! the r) = 1)"
proof -
  have "p_state (procs boot_ptable ! 0) = UNUSED" "nextpid boot_ptable = 1"
    by (simp_all add: boot_ptable_def no_proc_def)
  then show ?thesis
    using allocproc_correct [OF boot_ptable_inv(1,2)] by (auto simp: okr_iff split: option.splits)
qed

text \<open>
  C12: the history is a ring of the last \<open>MAX_HISTORY\<close> exits. Recording a process appends its pid,
  its name cut to 15 characters and its memory size to the abstract history, dropping the oldest
  entry when the ring is full, and keeps the ring's invariant.
\<close>

theorem record_history_appends:
  assumes "history_inv s"
  shows "history_inv (record_history p s) \<and>
         history_view (record_history p s) =
           last_n MAX_HISTORY (history_view s @ [proc_entry (procs s ! p)])"
  using record_history_inv [OF assms] record_history_view [OF assms] by simp

theorem record_history_appends_witness:
  "history_view (record_history 3 boot_ptable) = [(0, [], 0)]"
  using record_history_appends [OF boot_ptable_inv(3), of 3]
  by (simp add: boot_ptable_def no_proc_def history_view_def last_n_def proc_entry_def cstr_def upt_rec)

end
