(* ===== verification/Bio.thy ===== *)
theory Bio
  imports Ptable
begin

text \<open>
  The buffer cache, \<^verbatim>\<open>bio.c\<close>, over the memory disk of \<^verbatim>\<open>memide.c\<close>. A buffer is named by its
  index in \<^verbatim>\<open>bcache.buf\<close>. \<open>lru\<close> is the doubly linked list from \<^verbatim>\<open>head.next\<close> to
  \<^verbatim>\<open>head.prev\<close>. A 512-byte array is a function of its index, so copying a whole block is an
  assignment. \<open>disk b\<close> is block \<open>b\<close> of the device, and \<open>writes\<close> lists the block writes issued so
  far, oldest first: a crash leaves the disk as it was after a prefix of them.

  \<open>cache_inv H\<close> is the invariant of a cache in which the running process holds the buffers \<open>H\<close>
  and no other process holds any. \<open>ldisk\<close> is the disk as seen through the cache, which is what the
  layers above read and write.
\<close>

section \<open>State and operations\<close>

abbreviation (input) BSIZE :: nat where "BSIZE \<equiv> 512"
abbreviation (input) B_VALID :: u32 where "B_VALID \<equiv> 2"
abbreviation (input) B_DIRTY :: u32 where "B_DIRTY \<equiv> 4"

record buf =
  b_flags :: u32
  b_dev :: u32
  b_blockno :: u32
  b_refcnt :: u32
  b_data :: bytes

record bio_state = ptable_state +
  bufs :: "buf list"
  lru :: "nat list"
  disk :: "u32 \<Rightarrow> bytes"
  disksize :: u32
  writes :: "(u32 \<times> bytes) list"

definition upd_buf :: "nat \<Rightarrow> (buf \<Rightarrow> buf) \<Rightarrow> 'a bio_state_scheme \<Rightarrow> 'a bio_state_scheme" where
  "upd_buf i f s = s\<lparr>bufs := (bufs s)[i := f (bufs s ! i)]\<rparr>"

definition binit :: "'a bio_state_scheme \<Rightarrow> 'a bio_state_scheme" where
  "binit s = fold (\<lambda>i s. initsleeplock (BufLock i) (s\<lparr>lru := i # lru s\<rparr>)) [0..<NBUF] (s\<lparr>lru := []\<rparr>)"

definition bget :: "u32 \<Rightarrow> u32 \<Rightarrow> 'a bio_state_scheme \<Rightarrow> (nat, 'a bio_state_scheme) kres" where
  "bget dev blockno s =
     (case find (\<lambda>i. b_dev (bufs s ! i) = dev \<and> b_blockno (bufs s ! i) = blockno) (lru s) of
        Some i \<Rightarrow>
          let s = upd_buf i (\<lambda>b. b\<lparr>b_refcnt := b_refcnt b + 1\<rparr>) s
          in bindr (acquiresleep (BufLock i) s) (\<lambda>_ s. Ret i s)
      | None \<Rightarrow>
          (case find (\<lambda>i. b_refcnt (bufs s ! i) = 0 \<and> b_flags (bufs s ! i) AND B_DIRTY = 0) (rev (lru s)) of
             Some i \<Rightarrow>
               let s = upd_buf i (\<lambda>b. b\<lparr>b_dev := dev, b_blockno := blockno, b_flags := 0, b_refcnt := 1\<rparr>) s
               in bindr (acquiresleep (BufLock i) s) (\<lambda>_ s. Ret i s)
           | None \<Rightarrow> Panic ''bget: no buffers''))"

definition iderw :: "nat \<Rightarrow> 'a bio_state_scheme \<Rightarrow> (unit, 'a bio_state_scheme) kres" where
  "iderw i s =
     (let b = bufs s ! i
      in if \<not> holdingsleep (BufLock i) s then Panic ''iderw: buf not locked''
         else if b_flags b AND (B_VALID OR B_DIRTY) = B_VALID then Panic ''iderw: nothing to do''
         else if b_dev b \<noteq> 1 then Panic ''iderw: request not for disk 1''
         else if disksize s \<le> b_blockno b then Panic ''iderw: block out of range''
         else let s = (if b_flags b AND B_DIRTY \<noteq> 0
                       then (upd_buf i (\<lambda>b. b\<lparr>b_flags := b_flags b AND NOT B_DIRTY\<rparr>) s)
                              \<lparr>disk := (disk s)(b_blockno b := b_data b),
                               writes := writes s @ [(b_blockno b, b_data b)]\<rparr>
                       else upd_buf i (\<lambda>b. b\<lparr>b_data := disk s (b_blockno b)\<rparr>) s)
              in Ret () (upd_buf i (\<lambda>b. b\<lparr>b_flags := b_flags b OR B_VALID\<rparr>) s))"

definition bread :: "u32 \<Rightarrow> u32 \<Rightarrow> 'a bio_state_scheme \<Rightarrow> (nat, 'a bio_state_scheme) kres" where
  "bread dev blockno s =
     bindr (bget dev blockno s) (\<lambda>i s.
       if b_flags (bufs s ! i) AND B_VALID = 0 then bindr (iderw i s) (\<lambda>_ s. Ret i s) else Ret i s)"

definition bwrite :: "nat \<Rightarrow> 'a bio_state_scheme \<Rightarrow> (unit, 'a bio_state_scheme) kres" where
  "bwrite i s =
     (if \<not> holdingsleep (BufLock i) s then Panic ''bwrite''
      else iderw i (upd_buf i (\<lambda>b. b\<lparr>b_flags := b_flags b OR B_DIRTY\<rparr>) s))"

definition brelse :: "nat \<Rightarrow> 'a bio_state_scheme \<Rightarrow> (unit, 'a bio_state_scheme) kres" where
  "brelse i s =
     (if \<not> holdingsleep (BufLock i) s then Panic ''brelse''
      else let s = upd_buf i (\<lambda>b. b\<lparr>b_refcnt := b_refcnt b - 1\<rparr>) (releasesleep (BufLock i) s)
           in Ret () (if b_refcnt (bufs s ! i) = 0 then s\<lparr>lru := i # remove1 i (lru s)\<rparr> else s))"

text \<open>The assignment of new contents to a buffer the caller holds.\<close>

definition set_data :: "nat \<Rightarrow> bytes \<Rightarrow> 'a bio_state_scheme \<Rightarrow> 'a bio_state_scheme" where
  "set_data i d s = upd_buf i (\<lambda>b. b\<lparr>b_data := d\<rparr>) s"

abbreviation buf_data :: "'a bio_state_scheme \<Rightarrow> nat \<Rightarrow> bytes" where
  "buf_data s i \<equiv> b_data (bufs s ! i)"

section \<open>Flags\<close>

definition valid :: "buf \<Rightarrow> bool" where
  "valid b \<longleftrightarrow> b_flags b AND B_VALID \<noteq> 0"

definition dirty :: "buf \<Rightarrow> bool" where
  "dirty b \<longleftrightarrow> b_flags b AND B_DIRTY \<noteq> 0"

lemma and_exp_bit: "(f :: u32) AND 2 ^ n \<noteq> 0 \<longleftrightarrow> bit f n"
  by (simp add: bit_iff_and_push_bit_not_eq_0)

lemma flag_bits: "(f :: u32) AND 2 \<noteq> 0 \<longleftrightarrow> bit f 1" "(f :: u32) AND 4 \<noteq> 0 \<longleftrightarrow> bit f 2"
  using and_exp_bit [of f 1] and_exp_bit [of f 2] by simp_all

lemma bit_two_four: "bit (2 :: u32) n \<longleftrightarrow> n = 1" "bit (4 :: u32) n \<longleftrightarrow> n = 2"
  using bit_exp_iff [where ?'a = u32, of 1 n] bit_exp_iff [where ?'a = u32, of 2 n] by auto

lemma masked_eq:
  fixes f v d :: u32
  assumes "\<And>n. bit v n \<longleftrightarrow> n = 1" "\<And>n. bit d n \<longleftrightarrow> n = 2"
  shows "f AND (v OR d) = v \<longleftrightarrow> bit f 1 \<and> \<not> bit f 2"
proof
  assume a: "f AND (v OR d) = v"
  have "bit (f AND (v OR d)) 1" "\<not> bit (f AND (v OR d)) 2"
    unfolding a using assms by simp_all
  then show "bit f 1 \<and> \<not> bit f 2"
    using assms by (simp add: bit_and_iff bit_or_iff)
next
  assume "bit f 1 \<and> \<not> bit f 2"
  then show "f AND (v OR d) = v"
    using assms by (intro bit_word_eqI) (auto simp: bit_and_iff bit_or_iff)
qed

lemma flags_nothing_to_do: "(f :: u32) AND (B_VALID OR B_DIRTY) = B_VALID \<longleftrightarrow> bit f 1 \<and> \<not> bit f 2"
  by (rule masked_eq) (rule bit_two_four)+

lemma bit_flag_updates:
  fixes f v d :: u32
  assumes "\<And>n. bit v n \<longleftrightarrow> n = 1" "\<And>n. bit d n \<longleftrightarrow> n = 2"
  shows "bit (f OR v) 1" "bit (f OR d) 2" "bit (f OR d) 1 = bit f 1" "bit (f OR v) 2 = bit f 2"
    "\<not> bit (f AND NOT d) 2" "bit (f AND NOT d) 1 = bit f 1"
  using assms by (simp_all add: bit_and_iff bit_or_iff bit_not_iff)

lemma flag_updates [simp]:
  "valid (b\<lparr>b_flags := f OR B_VALID\<rparr>)" "dirty (b\<lparr>b_flags := f OR B_DIRTY\<rparr>)"
  "valid (b\<lparr>b_flags := f OR B_DIRTY\<rparr>) = valid (b\<lparr>b_flags := f\<rparr>)"
  "dirty (b\<lparr>b_flags := f OR B_VALID\<rparr>) = dirty (b\<lparr>b_flags := f\<rparr>)"
  "\<not> dirty (b\<lparr>b_flags := f AND NOT B_DIRTY\<rparr>)"
  "valid (b\<lparr>b_flags := f AND NOT B_DIRTY\<rparr>) = valid (b\<lparr>b_flags := f\<rparr>)"
  "\<not> valid (b\<lparr>b_flags := 0\<rparr>)" "\<not> dirty (b\<lparr>b_flags := 0\<rparr>)"
  using bit_flag_updates [of 2 4 f] by (simp_all only: valid_def dirty_def flag_bits bit_two_four) auto

lemma flag_updates_neg [simp]:
  "\<not> dirty (b\<lparr>b_flags := f AND -5\<rparr>)" "valid (b\<lparr>b_flags := f AND -5\<rparr>) = valid (b\<lparr>b_flags := f\<rparr>)"
  using flag_updates(5,6) [of f b] by (simp_all del: flag_updates)

lemma flag_or_dirty [simp]: "bit ((f :: u32) OR 4) 2" "bit ((f :: u32) OR 4) (Suc 0) = bit f (Suc 0)"
  using bit_flag_updates [of 2 4 f, OF bit_two_four] by simp_all

lemma flag_fields [simp]:
  "valid (b\<lparr>b_flags := b_flags b\<rparr>) = valid b" "dirty (b\<lparr>b_flags := b_flags b\<rparr>) = dirty b"
  "valid (b\<lparr>b_refcnt := r\<rparr>) = valid b" "dirty (b\<lparr>b_refcnt := r\<rparr>) = dirty b"
  "valid (b\<lparr>b_data := d\<rparr>) = valid b" "dirty (b\<lparr>b_data := d\<rparr>) = dirty b"
  by (simp_all add: valid_def dirty_def)

section \<open>The invariant and the view of the disk\<close>

text \<open>\<open>woken ps qs\<close>: the table \<open>qs\<close> is \<open>ps\<close> with some sleeping processes made runnable.\<close>

definition woken :: "proc list \<Rightarrow> proc list \<Rightarrow> bool" where
  "woken ps qs \<longleftrightarrow>
     list_all2 (\<lambda>p q. q = p \<or> (p_state p = SLEEPING \<and> q = p\<lparr>p_state := RUNNABLE\<rparr>)) ps qs"

lemma woken_refl [simp]: "woken ps ps"
  by (simp add: woken_def list_all2_same)

lemma woken_trans: "woken ps qs \<Longrightarrow> woken qs rs \<Longrightarrow> woken ps rs"
  unfolding woken_def by (erule (1) list_all2_trans [rotated]) auto

lemma woken_length: "woken ps qs \<Longrightarrow> length qs = length ps"
  by (simp add: woken_def list_all2_lengthD)

lemma woken_nth:
  assumes "woken ps qs" "p < length ps"
  shows "qs ! p = ps ! p \<or> (p_state (ps ! p) = SLEEPING \<and> qs ! p = (ps ! p)\<lparr>p_state := RUNNABLE\<rparr>)"
  using assms unfolding woken_def by (simp add: list_all2_conv_all_nth)

lemma woken_wakeup: "woken (procs s) (procs (wakeup c s))"
  by (auto simp: woken_def list_all2_conv_all_nth wakeup_nth)

text \<open>What an operation on the cache leaves alone.\<close>

definition bio_frame :: "'a bio_state_scheme \<Rightarrow> 'a bio_state_scheme \<Rightarrow> bool" where
  "bio_frame s t \<longleftrightarrow> mem t = mem s \<and> freelist t = freelist s \<and> use_lock t = use_lock s \<and> kend t = kend s \<and>
     kdata t = kdata s \<and> nextpid t = nextpid s \<and> initproc t = initproc s \<and> cpu_proc t = cpu_proc s \<and> this_cpu t = this_cpu s \<and>
     process_history t = process_history s \<and> history_count t = history_count s \<and>
     history_index t = history_index s \<and> sym_trapret t = sym_trapret s \<and> sym_forkret t = sym_forkret s \<and>
     disksize t = disksize s \<and> bio_state.more t = bio_state.more s \<and>
     woken (procs s) (procs t) \<and> (\<forall>n. sleeplocks t (InodeLock n) = sleeplocks s (InodeLock n))"

lemma bio_frame_refl [simp]: "bio_frame s s"
  by (simp add: bio_frame_def)

lemma bio_frame_trans [trans]: "bio_frame s t \<Longrightarrow> bio_frame t u \<Longrightarrow> bio_frame s u"
  unfolding bio_frame_def by (auto intro: woken_trans)

lemma woken_pid: "woken ps qs \<Longrightarrow> p < length ps \<Longrightarrow> p_pid (qs ! p) = p_pid (ps ! p)"
  by (drule (1) woken_nth) auto

lemma bio_frame_proc:
  assumes "bio_frame s t"
  shows "myproc t = myproc s" "in_proc t = in_proc s" "in_proc s \<Longrightarrow> mypid t = mypid s"
  using assms woken_pid [of "procs s" "procs t"]
  by (auto simp: bio_frame_def myproc_def in_proc_def mypid_def woken_length)

definition cached :: "u32 \<Rightarrow> buf \<Rightarrow> bool" where
  "cached n b \<longleftrightarrow> valid b \<and> b_dev b = 1 \<and> b_blockno b = n"

definition ldisk :: "'a bio_state_scheme \<Rightarrow> u32 \<Rightarrow> bytes" where
  "ldisk s n = (case first_index (cached n) (bufs s) of Some i \<Rightarrow> buf_data s i | None \<Rightarrow> disk s n)"

definition dirty_blocks :: "'a bio_state_scheme \<Rightarrow> u32 set" where
  "dirty_blocks s = b_blockno ` {b \<in> set (bufs s). dirty b}"

definition uniq_bufs :: "buf list \<Rightarrow> bool" where
  "uniq_bufs bs \<longleftrightarrow> (\<forall>i<length bs. \<forall>j<length bs. i \<noteq> j \<longrightarrow> b_dev (bs ! i) = 1 \<longrightarrow> b_dev (bs ! j) = 1 \<longrightarrow>
     b_blockno (bs ! i) \<noteq> b_blockno (bs ! j))"

text \<open>The state of one buffer: held or not, given its lock, the pid of the holder and the disk.\<close>

definition buf_ok :: "bool \<Rightarrow> sleeplock \<Rightarrow> int \<Rightarrow> u32 \<Rightarrow> (u32 \<Rightarrow> bytes) \<Rightarrow> buf \<Rightarrow> bool" where
  "buf_ok h l pid dsz dk b \<longleftrightarrow>
     b_refcnt b = (if h then 1 else 0) \<and> sl_locked l = h \<and> (h \<longrightarrow> sl_pid l = pid \<and> valid b) \<and>
     (valid b \<longrightarrow> b_dev b = 1 \<and> b_blockno b < dsz) \<and> (dirty b \<longrightarrow> valid b) \<and>
     (valid b \<longrightarrow> \<not> dirty b \<longrightarrow> \<not> h \<longrightarrow> b_data b = dk (b_blockno b))"

definition cache_inv :: "nat set \<Rightarrow> 'a bio_state_scheme \<Rightarrow> bool" where
  "cache_inv H s \<longleftrightarrow> length (bufs s) = NBUF \<and> distinct (lru s) \<and> set (lru s) = {..<NBUF} \<and> H \<subseteq> {..<NBUF} \<and>
     in_proc s \<and> uniq_bufs (bufs s) \<and>
     (\<forall>i<NBUF. buf_ok (i \<in> H) (sleeplocks s (BufLock i)) (mypid s) (disksize s) (disk s) (bufs s ! i))"

lemma cache_invD:
  assumes "cache_inv H s"
  shows "length (bufs s) = NBUF" "distinct (lru s)" "set (lru s) = {..<NBUF}" "H \<subseteq> {..<NBUF}" "in_proc s"
    "uniq_bufs (bufs s)"
    "\<And>i. i < NBUF \<Longrightarrow> buf_ok (i \<in> H) (sleeplocks s (BufLock i)) (mypid s) (disksize s) (disk s) (bufs s ! i)"
  using assms by (auto simp: cache_inv_def)

lemma upd_buf_fields [simp]:
  "bufs (upd_buf i f s) = (bufs s)[i := f (bufs s ! i)]" "lru (upd_buf i f s) = lru s"
  "disk (upd_buf i f s) = disk s" "disksize (upd_buf i f s) = disksize s" "writes (upd_buf i f s) = writes s"
  "procs (upd_buf i f s) = procs s" "sleeplocks (upd_buf i f s) = sleeplocks s"
  "myproc (upd_buf i f s) = myproc s" "mypid (upd_buf i f s) = mypid s" "in_proc (upd_buf i f s) = in_proc s"
  "bio_frame s (upd_buf i f s)"
  by (simp_all add: upd_buf_def myproc_def mypid_def in_proc_def bio_frame_def split: option.split)

lemma uniq_bufsD:
  "uniq_bufs bs \<Longrightarrow> i < length bs \<Longrightarrow> j < length bs \<Longrightarrow> i \<noteq> j \<Longrightarrow> b_dev (bs ! i) = 1 \<Longrightarrow>
   b_dev (bs ! j) = 1 \<Longrightarrow> b_blockno (bs ! i) \<noteq> b_blockno (bs ! j)"
  by (simp add: uniq_bufs_def)

lemma dirty_blocks_iff:
  "n \<in> dirty_blocks s \<longleftrightarrow> (\<exists>j<length (bufs s). dirty (bufs s ! j) \<and> b_blockno (bufs s ! j) = n)"
  by (auto simp: dirty_blocks_def in_set_conv_nth)

section \<open>Updating one buffer\<close>

lemma ldisk_cached:
  assumes "uniq_bufs (bufs s)" "i < length (bufs s)" "cached n (bufs s ! i)"
  shows "ldisk s n = buf_data s i"
proof (cases "first_index (cached n) (bufs s)")
  case None
  then show ?thesis
    using assms(2,3) by (auto simp: first_index_None)
next
  case (Some j)
  then have "j = i"
    using assms first_indexD [OF Some] by (auto simp: uniq_bufs_def cached_def)
  with Some show ?thesis by (simp add: ldisk_def)
qed

lemma ldisk_uncached:
  "(\<And>i. i < length (bufs s) \<Longrightarrow> \<not> cached n (bufs s ! i)) \<Longrightarrow> ldisk s n = disk s n"
  using first_indexD [of "cached n" "bufs s"] by (auto simp: ldisk_def split: option.splits)

lemma ldisk_upd:
  assumes "bufs t = (bufs s)[i := b']" "uniq_bufs (bufs s)" "uniq_bufs (bufs t)" "i < length (bufs s)"
    and "cached n b' \<or> disk t n = disk s n"
  shows "ldisk t n = (if cached n b' then b_data b' else if cached n (bufs s ! i) then disk s n else ldisk s n)"
proof (cases "cached n b'")
  case True
  then show ?thesis
    using assms ldisk_cached [of t i n] by simp
next
  case nb: False
  show ?thesis
  proof (cases "\<exists>j<length (bufs s). j \<noteq> i \<and> cached n (bufs s ! j)")
    case True
    then obtain j where j: "j < length (bufs s)" "j \<noteq> i" "cached n (bufs s ! j)"
      by blast
    then have "ldisk t n = buf_data s j" "ldisk s n = buf_data s j"
      using assms ldisk_cached [of t j n] ldisk_cached [of s j n] by simp_all
    moreover have "\<not> cached n (bufs s ! i)"
      using j assms(2,4) by (auto simp: uniq_bufs_def cached_def)
    ultimately show ?thesis
      using nb by simp
  next
    case False
    then have "ldisk t n = disk t n"
      using assms(1) nb by (intro ldisk_uncached) (auto simp: nth_upd)
    moreover have "ldisk s n = disk s n" if "\<not> cached n (bufs s ! i)"
      using False that by (intro ldisk_uncached) auto
    ultimately show ?thesis
      using nb assms(5) by auto
  qed
qed

lemma uniq_bufs_upd:
  assumes "uniq_bufs bs"
    and "(b_dev b' = b_dev (bs ! i) \<and> b_blockno b' = b_blockno (bs ! i)) \<or>
         (\<forall>j<length bs. j \<noteq> i \<longrightarrow> b_dev (bs ! j) = 1 \<longrightarrow> b_blockno (bs ! j) \<noteq> b_blockno b')"
  shows "uniq_bufs (bs[i := b'])"
  unfolding uniq_bufs_def
proof (intro allI impI)
  fix k l
  assume "k < length (bs[i := b'])" "l < length (bs[i := b'])" "k \<noteq> l"
    "b_dev (bs[i := b'] ! k) = 1" "b_dev (bs[i := b'] ! l) = 1"
  then show "b_blockno (bs[i := b'] ! k) \<noteq> b_blockno (bs[i := b'] ! l)"
    using assms unfolding uniq_bufs_def by (cases "k = i"; cases "l = i") (auto simp: nth_upd)
qed

lemma cache_inv_upd:
  assumes inv: "cache_inv H s" and i: "i < NBUF" and bufs: "bufs t = (bufs s)[i := b']"
    and u: "uniq_bufs (bufs t)" and l: "distinct (lru t)" "set (lru t) = {..<NBUF}"
    and locks: "\<And>j. j \<noteq> i \<Longrightarrow> sleeplocks t (BufLock j) = sleeplocks s (BufLock j)"
    and fr: "bio_frame s t" and H': "H' - {i} = H - {i}"
    and ok: "buf_ok (i \<in> H') (sleeplocks t (BufLock i)) (mypid s) (disksize s) (disk t) b'"
    and dk: "\<And>n. n \<noteq> b_blockno b' \<or> b_dev b' \<noteq> 1 \<Longrightarrow> disk t n = disk s n"
  shows "cache_inv H' t"
proof -
  note I = cache_invD [OF inv]
  have p: "mypid t = mypid s" "in_proc t" "disksize t = disksize s"
    using bio_frame_proc [OF fr] I(5) fr by (auto simp: bio_frame_def)
  have "buf_ok (j \<in> H') (sleeplocks t (BufLock j)) (mypid s) (disksize s) (disk t) (bufs t ! j)"
    if j: "j < NBUF" for j
  proof (cases "j = i")
    case True
    then show ?thesis using ok bufs i I(1) by simp
  next
    case False
    have "valid (bufs s ! j) \<Longrightarrow> disk t (b_blockno (bufs s ! j)) = disk s (b_blockno (bufs s ! j))"
    proof (rule dk, rule ccontr)
      assume v: "valid (bufs s ! j)" and "\<not> (b_blockno (bufs s ! j) \<noteq> b_blockno b' \<or> b_dev b' \<noteq> 1)"
      moreover have "b_dev (bufs s ! j) = 1"
        using I(7) [OF j] v by (simp add: buf_ok_def)
      ultimately show False
        using uniq_bufsD [OF u, of j i] False i j I(1) bufs by (auto simp: nth_upd)
    qed
    moreover have "j \<in> H' \<longleftrightarrow> j \<in> H"
      using H' False by blast
    ultimately show ?thesis
      using I(7) [OF j] False bufs i I(1) j locks [OF False] by (simp add: buf_ok_def nth_upd)
  qed
  moreover have "H' \<subseteq> {..<NBUF}"
    using I(4) H' i by blast
  ultimately show ?thesis
    using I(1) bufs u l p by (simp add: cache_inv_def)
qed

lemma dirty_blocks_upd:
  assumes "uniq_bufs (bufs s)" "i < length (bufs s)" "bufs t = (bufs s)[i := b']"
    and "\<And>j. j < length (bufs s) \<Longrightarrow> dirty (bufs s ! j) \<Longrightarrow> b_dev (bufs s ! j) = 1"
  shows "dirty_blocks t = (dirty_blocks s - (if dirty (bufs s ! i) then {b_blockno (bufs s ! i)} else {})) \<union>
           (if dirty b' then {b_blockno b'} else {})"
proof -
  have i: "j = i" if "j < length (bufs s)" "dirty (bufs s ! j)" "dirty (bufs s ! i)"
      "b_blockno (bufs s ! j) = b_blockno (bufs s ! i)" for j
    using that assms(2,4) uniq_bufsD [OF assms(1), of j i] by auto
  have "n \<in> dirty_blocks t \<longleftrightarrow> (dirty b' \<and> b_blockno b' = n) \<or>
      (\<exists>j<length (bufs s). j \<noteq> i \<and> dirty (bufs s ! j) \<and> b_blockno (bufs s ! j) = n)" for n
    using assms(2,3) by (auto simp: dirty_blocks_iff nth_upd split: if_splits)
  then show ?thesis
    using i assms(2) by (auto simp: dirty_blocks_iff split: if_splits)
qed

section \<open>Specifications of the operations\<close>

lemma acquiresleep_free:
  "\<not> sl_locked (sleeplocks s l) \<Longrightarrow> in_proc s \<Longrightarrow>
   acquiresleep l s = Ret () (s\<lparr>sleeplocks := (sleeplocks s)(l := \<lparr>sl_locked = True, sl_pid = mypid s\<rparr>)\<rparr>)"
  by (auto simp: acquiresleep_def in_proc_def)

lemma find_in_lru:
  assumes "cache_inv H s" "find P (lru s) = Some i \<or> find P (rev (lru s)) = Some i"
  shows "i < NBUF" "P i"
  using assms cache_invD(3) [OF assms(1)] by (auto simp: find_Some_iff) (metis lessThan_iff nth_mem length_rev set_rev)+

text \<open>Taking a buffer that is free, with new header fields.\<close>

definition grab :: "nat \<Rightarrow> buf \<Rightarrow> 'a bio_state_scheme \<Rightarrow> 'a bio_state_scheme" where
  "grab i b s = s\<lparr>bufs := (bufs s)[i := b],
     sleeplocks := (sleeplocks s)(BufLock i := \<lparr>sl_locked = True, sl_pid = mypid s\<rparr>)\<rparr>"

lemma grab_fields [simp]:
  "bufs (grab i b s) = (bufs s)[i := b]" "lru (grab i b s) = lru s" "disk (grab i b s) = disk s"
  "disksize (grab i b s) = disksize s" "writes (grab i b s) = writes s" "mypid (grab i b s) = mypid s"
  "in_proc (grab i b s) = in_proc s" "procs (grab i b s) = procs s" "bio_frame s (grab i b s)"
  "sleeplocks (grab i b s) (BufLock i) = \<lparr>sl_locked = True, sl_pid = mypid s\<rparr>"
  "j \<noteq> i \<Longrightarrow> sleeplocks (grab i b s) (BufLock j) = sleeplocks s (BufLock j)"
  by (simp_all add: grab_def mypid_def myproc_def in_proc_def bio_frame_def split: option.split)

lemma upd_buf_grab: "i < length (bufs s) \<Longrightarrow> upd_buf i f (grab i b s) = grab i (f b) s"
  by (simp add: upd_buf_def grab_def)

lemma acquire_upd_buf:
  assumes "\<not> sl_locked (sleeplocks s (BufLock i))" "in_proc s"
  shows "acquiresleep (BufLock i) (upd_buf i f s) = Ret () (grab i (f (bufs s ! i)) s)"
  using acquiresleep_free [of "upd_buf i f s" "BufLock i"] assms by (simp add: grab_def) (simp add: upd_buf_def)

lemma holdingsleep_grab [simp]: "holdingsleep (BufLock i) (grab i b s)"
  by (simp add: holdingsleep_def)

lemma read_grabbed:
  assumes "i < length (bufs s)" "b_dev b = 1" "b_blockno b < disksize s" "\<not> valid b" "\<not> dirty b"
  shows "iderw i (grab i b s) =
    Ret () (grab i (b\<lparr>b_data := disk s (b_blockno b), b_flags := b_flags b OR B_VALID\<rparr>) s)"
  using assms flags_nothing_to_do [of "b_flags b"]
  by (simp add: iderw_def Let_def upd_buf_grab valid_def dirty_def flag_bits not_le)

lemma cache_inv_dirty_dev:
  "cache_inv H s \<Longrightarrow> j < length (bufs s) \<Longrightarrow> dirty (bufs s ! j) \<Longrightarrow> b_dev (bufs s ! j) = 1"
  using cache_invD(1,7) [of H s] by (auto simp: buf_ok_def)

lemma bread_cases:
  assumes inv: "cache_inv H s" and n: "n < disksize s"
    and H: "\<And>j. j \<in> H \<Longrightarrow> b_blockno (bufs s ! j) \<noteq> n" and av: "n \<in> dirty_blocks s \<or> (\<exists>i<NBUF. i \<notin> H \<and> \<not> dirty (bufs s ! i))"
  obtains i b where "i < NBUF" "i \<notin> H" "bread 1 n s = Ret i (grab i b s)" "valid b" "b_dev b = 1"
    "b_blockno b = n" "b_refcnt b = 1"
    "b = (bufs s ! i)\<lparr>b_refcnt := 1\<rparr> \<or>
       (\<not> dirty (bufs s ! i) \<and> \<not> dirty b \<and> b_data b = disk s n \<and> (\<forall>j<NBUF. \<not> cached n (bufs s ! j)))"
    "\<And>j. j < NBUF \<Longrightarrow> j \<noteq> i \<Longrightarrow> b_dev (bufs s ! j) = 1 \<Longrightarrow> b_blockno (bufs s ! j) \<noteq> n"
proof -
  note I = cache_invD [OF inv]
  let ?P = "\<lambda>i. b_dev (bufs s ! i) = 1 \<and> b_blockno (bufs s ! i) = n"
  show ?thesis
  proof (cases "find ?P (lru s)")
    case (Some i)
    then have i: "i < NBUF" "?P i"
      using find_in_lru [OF inv, of ?P i] by auto
    then have "i \<notin> H"
      using H by auto
    then have ok: "buf_ok False (sleeplocks s (BufLock i)) (mypid s) (disksize s) (disk s) (bufs s ! i)"
      using I(7) [OF i(1)] by simp
    have others: "b_blockno (bufs s ! j) \<noteq> n" if "j < NBUF" "j \<noteq> i" "b_dev (bufs s ! j) = 1" for j
      using uniq_bufsD [OF I(6), of j i] that i I(1) by auto
    let ?b = "(bufs s ! i)\<lparr>b_refcnt := 1\<rparr>"
    have g: "bget 1 n s = Ret i (grab i ?b s)"
      using Some ok i I(1,5) by (simp add: bget_def Let_def acquire_upd_buf buf_ok_def)
    show ?thesis
    proof (cases "valid (bufs s ! i)")
      case True
      then have "bread 1 n s = Ret i (grab i ?b s)"
        using g i I(1) by (simp add: bread_def valid_def)
      with True i \<open>i \<notin> H\<close> others show ?thesis
        by (intro that [of i ?b]) auto
    next
      case False
      then have nd: "\<not> dirty (bufs s ! i)"
        using ok by (auto simp: buf_ok_def)
      let ?c = "?b\<lparr>b_data := disk s n, b_flags := b_flags (bufs s ! i) OR B_VALID\<rparr>"
      have "bread 1 n s = Ret i (grab i ?c s)"
        using g i I(1) False nd n read_grabbed [of i s ?b] by (simp add: bread_def valid_def)
      moreover have "\<not> cached n (bufs s ! j)" if "j < NBUF" for j
        using that others [OF that] False by (auto simp: cached_def)
      ultimately show ?thesis
        using i \<open>i \<notin> H\<close> others nd by (intro that [of i ?c]) auto
    qed
  next
    case None
    have free: "b_refcnt (bufs s ! i) = 0 \<longleftrightarrow> i \<notin> H" if "i < NBUF" for i
      using I(7) [OF that] by (simp add: buf_ok_def)
    let ?Q = "\<lambda>i. b_refcnt (bufs s ! i) = 0 \<and> b_flags (bufs s ! i) AND B_DIRTY = 0"
    have nob: "\<not> ?P j" if "j < NBUF" for j
      using None I(3) that by (auto simp: find_None_iff)
    then have "n \<notin> dirty_blocks s"
      using cache_inv_dirty_dev [OF inv] I(1) by (auto simp: dirty_blocks_iff)
    then have "\<exists>i\<in>set (lru s). ?Q i"
      using av free I(3) by (auto simp: dirty_def)
    then obtain i where f: "find ?Q (rev (lru s)) = Some i"
      by (cases "find ?Q (rev (lru s))") (auto simp: find_None_iff)
    then have i: "i < NBUF" "?Q i"
      using find_in_lru [OF inv, of ?Q i] by auto
    then have iH: "i \<notin> H" and nd: "\<not> dirty (bufs s ! i)"
      using free by (auto simp: dirty_def)
    have ok: "\<not> sl_locked (sleeplocks s (BufLock i))"
      using I(7) [OF i(1)] iH by (simp add: buf_ok_def)
    let ?b = "(bufs s ! i)\<lparr>b_dev := 1, b_blockno := n, b_flags := 0, b_refcnt := 1\<rparr>"
    let ?c = "?b\<lparr>b_data := disk s n, b_flags := 0 OR B_VALID\<rparr>"
    have "bget 1 n s = Ret i (grab i ?b s)"
      using None f ok I(5) by (simp add: bget_def Let_def acquire_upd_buf)
    moreover have "\<not> valid ?b" "\<not> dirty ?b"
      by (simp_all add: valid_def dirty_def)
    ultimately have "bread 1 n s = Ret i (grab i ?c s)"
      using i I(1) n read_grabbed [of i s ?b] by (simp add: bread_def)
    moreover have "valid ?c" "\<not> dirty ?c"
      by (simp_all add: valid_def dirty_def)
    ultimately show ?thesis
      using i iH nd nob by (intro that [of i ?c]) (auto simp: cached_def)
  qed
qed

text \<open>\<open>same_view s t\<close>: a client that looks through the cache sees no difference.\<close>

definition same_view :: "'a bio_state_scheme \<Rightarrow> 'a bio_state_scheme \<Rightarrow> bool" where
  "same_view s t \<longleftrightarrow> bio_frame s t \<and> ldisk t = ldisk s \<and> disk t = disk s \<and> writes t = writes s \<and>
     dirty_blocks t = dirty_blocks s"

lemma same_view_refl [simp]: "same_view s s"
  by (simp add: same_view_def)

lemma same_view_trans [trans]: "same_view s t \<Longrightarrow> same_view t u \<Longrightarrow> same_view s u"
  unfolding same_view_def by (auto intro: bio_frame_trans)

lemma bread_spec:
  assumes inv: "cache_inv H s" and n: "n < disksize s"
    and H: "\<And>j. j \<in> H \<Longrightarrow> b_blockno (bufs s ! j) \<noteq> n"
    and av: "n \<in> dirty_blocks s \<or> (\<exists>i<NBUF. i \<notin> H \<and> \<not> dirty (bufs s ! i))"
  shows "okr (bread 1 n s) (\<lambda>i t. i < NBUF \<and> i \<notin> H \<and> cache_inv (insert i H) t \<and> same_view s t \<and>
     b_blockno (bufs t ! i) = n \<and> buf_data t i = ldisk s n \<and>
     (dirty (bufs t ! i) \<or> buf_data t i = disk s n) \<and> (\<forall>j\<in>H. bufs t ! j = bufs s ! j))"
proof -
  note I = cache_invD [OF inv]
  obtain i b where i: "i < NBUF" "i \<notin> H" and r: "bread 1 n s = Ret i (grab i b s)"
    and b: "valid b" "b_dev b = 1" "b_blockno b = n" "b_refcnt b = 1"
    and c: "b = (bufs s ! i)\<lparr>b_refcnt := 1\<rparr> \<or>
       (\<not> dirty (bufs s ! i) \<and> \<not> dirty b \<and> b_data b = disk s n \<and> (\<forall>j<NBUF. \<not> cached n (bufs s ! j)))"
    and o: "\<And>j. j < NBUF \<Longrightarrow> j \<noteq> i \<Longrightarrow> b_dev (bufs s ! j) = 1 \<Longrightarrow> b_blockno (bufs s ! j) \<noteq> n"
    by (rule bread_cases [OF assms]) blast+
  have ok: "buf_ok False (sleeplocks s (BufLock i)) (mypid s) (disksize s) (disk s) (bufs s ! i)"
    using I(7) [OF i(1)] i(2) by simp
  have u: "uniq_bufs ((bufs s)[i := b])"
    using o I(1) b(3) by (intro uniq_bufs_upd I(6)) auto
  have inv': "cache_inv (insert i H) (grab i b s)"
    using b n c by (intro cache_inv_upd [OF inv i(1)]) (auto simp: u I(2,3) buf_ok_def)
  have data: "b_data b = ldisk s n"
    using c
  proof
    assume "b = (bufs s ! i)\<lparr>b_refcnt := 1\<rparr>"
    moreover from this have "cached n (bufs s ! i)"
      using b by (auto simp: cached_def)
    ultimately show ?thesis
      using ldisk_cached [OF I(6), of i n] i(1) I(1) by simp
  next
    assume "\<not> dirty (bufs s ! i) \<and> \<not> dirty b \<and> b_data b = disk s n \<and> (\<forall>j<NBUF. \<not> cached n (bufs s ! j))"
    then show ?thesis
      using ldisk_uncached [of s n] I(1) by simp
  qed
  have "ldisk (grab i b s) m = ldisk s m" for m
  proof -
    have old: "b_data (bufs s ! i) = disk s m" if "cached m (bufs s ! i)" "\<not> cached m b"
      using that c ok b by (auto simp: buf_ok_def cached_def)
    show ?thesis
      using ldisk_upd [of "grab i b s" s i b m] ldisk_cached [OF I(6), of i m] data u I(1,6) i(1) b(3) old
      by (auto simp: cached_def)
  qed
  moreover have "dirty_blocks (grab i b s) = dirty_blocks s"
  proof -
    have "i < length (bufs s)"
      using i(1) I(1) by simp
    then show ?thesis
      using dirty_blocks_upd [OF I(6), of i "grab i b s" b] cache_inv_dirty_dev [OF inv] c
      by (auto simp: dirty_blocks_iff)
  qed
  moreover have "dirty b \<or> b_data b = disk s n"
    using c ok b by (auto simp: buf_ok_def)
  moreover have "\<forall>j\<in>H. (bufs s)[i := b] ! j = bufs s ! j"
    using i(2) by (metis nth_list_update_neq)
  ultimately show ?thesis
    using r i inv' b(3) data I(1) by (auto simp: same_view_def)
qed

lemma avail_buffer:
  assumes inv: "cache_inv H s" and c: "card H + card (dirty_blocks s) < NBUF"
  shows "\<exists>i<NBUF. i \<notin> H \<and> \<not> dirty (bufs s ! i)"
proof (rule ccontr)
  note I = cache_invD [OF inv]
  let ?D = "{i. i < NBUF \<and> dirty (bufs s ! i)}"
  assume "\<not> ?thesis"
  then have "{..<NBUF} \<subseteq> H \<union> ?D"
    by auto
  then have "card {..<NBUF} \<le> card (H \<union> ?D)"
    using I(4) by (intro card_mono) (auto intro: finite_subset)
  also have "\<dots> \<le> card H + card ?D"
    by (rule card_Un_le)
  also have "card ?D = card ((\<lambda>i. b_blockno (bufs s ! i)) ` ?D)"
  proof (rule card_image [symmetric], rule inj_onI, rule ccontr)
    fix x y
    assume "x \<in> ?D" "y \<in> ?D" "b_blockno (bufs s ! x) = b_blockno (bufs s ! y)" "x \<noteq> y"
    then show False
      using uniq_bufsD [OF I(6), of x y] cache_inv_dirty_dev [OF inv] I(1) by simp
  qed
  also have "(\<lambda>i. b_blockno (bufs s ! i)) ` ?D = dirty_blocks s"
    using I(1) by (auto simp: dirty_blocks_iff)
  finally show False
    using c by simp
qed

text \<open>The operations on a buffer the caller holds.\<close>

lemma held_buf:
  assumes "cache_inv H s" "i \<in> H"
  shows "i < NBUF" "i < length (bufs s)" "valid (bufs s ! i)" "b_dev (bufs s ! i) = 1" "b_refcnt (bufs s ! i) = 1"
    "b_blockno (bufs s ! i) < disksize s" "sl_locked (sleeplocks s (BufLock i))"
    "sl_pid (sleeplocks s (BufLock i)) = mypid s" "holdingsleep (BufLock i) s"
    "cached (b_blockno (bufs s ! i)) (bufs s ! i)"
proof -
  show "i < NBUF" "i < length (bufs s)"
    using cache_invD(1,4) [OF assms(1)] assms(2) by auto
  then show "valid (bufs s ! i)" "b_dev (bufs s ! i) = 1" "b_refcnt (bufs s ! i) = 1"
    "b_blockno (bufs s ! i) < disksize s" "sl_locked (sleeplocks s (BufLock i))"
    "sl_pid (sleeplocks s (BufLock i)) = mypid s" "holdingsleep (BufLock i) s"
    "cached (b_blockno (bufs s ! i)) (bufs s ! i)"
    using cache_invD(7) [OF assms(1), of i] assms(2) by (auto simp: buf_ok_def holdingsleep_def cached_def)
qed

lemma ldisk_held: "cache_inv H s \<Longrightarrow> i \<in> H \<Longrightarrow> ldisk s (b_blockno (bufs s ! i)) = buf_data s i"
  using cache_invD(6) [of H s] by (intro ldisk_cached) (auto simp: held_buf)

lemma held_dirty:
  assumes "cache_inv H s" "i \<in> H"
  shows "b_blockno (bufs s ! i) \<in> dirty_blocks s \<longleftrightarrow> dirty (bufs s ! i)"
proof -
  note h = held_buf [OF assms]
  have "j = i" if "j < length (bufs s)" "dirty (bufs s ! j)" "b_blockno (bufs s ! j) = b_blockno (bufs s ! i)" for j
    using that uniq_bufsD [OF cache_invD(6) [OF assms(1)], of j i] h(2,4) cache_inv_dirty_dev [OF assms(1), of j]
    by auto
  then show ?thesis
    using h(2) by (auto simp: dirty_blocks_iff)
qed

lemma held_update:
  assumes inv: "cache_inv H s" and i: "i \<in> H"
    and f: "\<And>b. b_dev (f b) = b_dev b" "\<And>b. b_blockno (f b) = b_blockno b" "\<And>b. b_refcnt (f b) = b_refcnt b"
      "valid (f (bufs s ! i))"
  shows "cache_inv H (upd_buf i f s)"
    and "ldisk (upd_buf i f s) = (ldisk s)(b_blockno (bufs s ! i) := b_data (f (bufs s ! i)))"
    and "dirty_blocks (upd_buf i f s) = dirty_blocks s - {b_blockno (bufs s ! i)} \<union>
      (if dirty (f (bufs s ! i)) then {b_blockno (bufs s ! i)} else {})"
proof -
  note I = cache_invD [OF inv] and h = held_buf [OF inv i]
  have u: "uniq_bufs (bufs (upd_buf i f s))"
    using f by (simp add: uniq_bufs_upd I(6))
  show "cache_inv H (upd_buf i f s)"
    using h f i I(1) u by (intro cache_inv_upd [OF inv h(1)]) (auto simp: buf_ok_def I(2,3))
  show "ldisk (upd_buf i f s) = (ldisk s)(b_blockno (bufs s ! i) := b_data (f (bufs s ! i)))"
  proof
    fix n
    show "ldisk (upd_buf i f s) n = ((ldisk s)(b_blockno (bufs s ! i) := b_data (f (bufs s ! i)))) n"
      using ldisk_upd [of "upd_buf i f s" s i "f (bufs s ! i)" n] u I(6) h f by (auto simp: cached_def)
  qed
  show "dirty_blocks (upd_buf i f s) = dirty_blocks s - {b_blockno (bufs s ! i)} \<union>
      (if dirty (f (bufs s ! i)) then {b_blockno (bufs s ! i)} else {})"
    using dirty_blocks_upd [OF I(6) h(2), of "upd_buf i f s" "f (bufs s ! i)"] cache_inv_dirty_dev [OF inv] f
      held_dirty [OF inv i] by auto
qed

lemma set_data_spec:
  assumes "cache_inv H s" "i \<in> H"
  shows "cache_inv H (set_data i d s)" "ldisk (set_data i d s) = (ldisk s)(b_blockno (bufs s ! i) := d)"
    "dirty_blocks (set_data i d s) = dirty_blocks s"
    "disk (set_data i d s) = disk s" "writes (set_data i d s) = writes s" "bio_frame s (set_data i d s)"
    "bufs (set_data i d s) ! i = (bufs s ! i)\<lparr>b_data := d\<rparr>" "j \<noteq> i \<Longrightarrow> bufs (set_data i d s) ! j = bufs s ! j"
  using held_update [OF assms, of "\<lambda>b. b\<lparr>b_data := d\<rparr>"] held_buf [OF assms] held_dirty [OF assms]
  by (auto simp: set_data_def)

definition mark_dirty :: "nat \<Rightarrow> 'a bio_state_scheme \<Rightarrow> 'a bio_state_scheme" where
  "mark_dirty i s = upd_buf i (\<lambda>b. b\<lparr>b_flags := b_flags b OR B_DIRTY\<rparr>) s"

lemma mark_dirty_spec:
  assumes "cache_inv H s" "i \<in> H"
  shows "cache_inv H (mark_dirty i s)" "ldisk (mark_dirty i s) = ldisk s"
    "dirty_blocks (mark_dirty i s) = insert (b_blockno (bufs s ! i)) (dirty_blocks s)"
    "disk (mark_dirty i s) = disk s" "writes (mark_dirty i s) = writes s" "bio_frame s (mark_dirty i s)"
    "bufs (mark_dirty i s) ! i = (bufs s ! i)\<lparr>b_flags := b_flags (bufs s ! i) OR B_DIRTY\<rparr>"
    "j \<noteq> i \<Longrightarrow> bufs (mark_dirty i s) ! j = bufs s ! j"
  using held_update [OF assms, of "\<lambda>b. b\<lparr>b_flags := b_flags b OR B_DIRTY\<rparr>"] held_buf [OF assms]
    ldisk_held [OF assms]
  by (auto simp: mark_dirty_def)

lemma bwrite_spec:
  assumes inv: "cache_inv H s" and i: "i \<in> H"
  shows "okr (bwrite i s) (\<lambda>_ t. cache_inv H t \<and> bio_frame s t \<and> ldisk t = ldisk s \<and>
     disk t = (disk s)(b_blockno (bufs s ! i) := buf_data s i) \<and>
     writes t = writes s @ [(b_blockno (bufs s ! i), buf_data s i)] \<and>
     dirty_blocks t = dirty_blocks s - {b_blockno (bufs s ! i)} \<and>
     b_blockno (bufs t ! i) = b_blockno (bufs s ! i) \<and> buf_data t i = buf_data s i \<and> \<not> dirty (bufs t ! i) \<and>
     (\<forall>j. j \<noteq> i \<longrightarrow> bufs t ! j = bufs s ! j))"
proof -
  note I = cache_invD [OF inv] and h = held_buf [OF inv i]
  let ?b = "bufs s ! i" and ?n = "b_blockno (bufs s ! i)"
  let ?f = "\<lambda>b. b\<lparr>b_flags := ((b_flags b OR B_DIRTY) AND NOT B_DIRTY) OR B_VALID\<rparr>"
  let ?s = "upd_buf i ?f s"
  let ?t = "?s\<lparr>disk := (disk s)(?n := b_data ?b), writes := writes s @ [(?n, b_data ?b)]\<rparr>"
  have hs: "holdingsleep (BufLock i) (mark_dirty i s)"
    using h by (simp add: holdingsleep_def mark_dirty_def)
  have fl: "b_flags (bufs (mark_dirty i s) ! i) AND B_DIRTY \<noteq> 0"
    unfolding flag_bits using h by (simp add: mark_dirty_def)
  have "bwrite i s = Ret () ?t"
    using h hs fl flags_nothing_to_do [of "b_flags (bufs (mark_dirty i s) ! i)"]
    by (simp add: bwrite_def iderw_def Let_def flag_bits mark_dirty_def not_le) (simp add: upd_buf_def)
  moreover have nd: "\<not> dirty (?f ?b)" and v: "valid (?f ?b)"
    by simp_all
  have u: "uniq_bufs (bufs ?t)"
    by (simp add: uniq_bufs_upd I(6))
  have fr: "bio_frame s ?t"
    by (simp add: bio_frame_def upd_buf_def)
  moreover have "cache_inv H ?t"
    using h i nd v u fr by (intro cache_inv_upd [OF inv h(1)]) (auto simp: buf_ok_def I(2,3) split: if_splits)
  moreover have "ldisk ?t n = ldisk s n" for n
    using ldisk_upd [of ?t s i "?f ?b" n] u I(6) h v ldisk_held [OF inv i] by (auto simp: cached_def)
  moreover have "dirty_blocks ?t = dirty_blocks s - {?n}"
    using dirty_blocks_upd [OF I(6) h(2), of ?t "?f ?b"] cache_inv_dirty_dev [OF inv] nd held_dirty [OF inv i] by auto
  ultimately show ?thesis
    using h by auto
qed

lemma releasesleep_fields:
  "bufs (releasesleep l s) = bufs s" "lru (releasesleep l s) = lru s" "disk (releasesleep l s) = disk s"
  "disksize (releasesleep l s) = disksize s" "writes (releasesleep l s) = writes s"
  "sleeplocks (releasesleep l s) = (sleeplocks s)(l := \<lparr>sl_locked = False, sl_pid = 0\<rparr>)"
  by (simp_all add: releasesleep_def) (simp_all add: wakeup_def wakeup1_def)

lemma releasesleep_frame: "bio_frame s (releasesleep (BufLock i) s)"
  using woken_wakeup [of "s\<lparr>sleeplocks := (sleeplocks s)(BufLock i := \<lparr>sl_locked = False, sl_pid = 0\<rparr>)\<rparr>" "ChanLock (BufLock i)"]
  by (simp add: releasesleep_def bio_frame_def) (simp add: wakeup_def wakeup1_def)

lemma brelse_spec:
  assumes inv: "cache_inv H s" and i: "i \<in> H" and d: "dirty (bufs s ! i) \<or> buf_data s i = disk s (b_blockno (bufs s ! i))"
  shows "okr (brelse i s) (\<lambda>_ t. cache_inv (H - {i}) t \<and> same_view s t \<and> (\<forall>j. j \<noteq> i \<longrightarrow> bufs t ! j = bufs s ! j))"
proof -
  note I = cache_invD [OF inv] and h = held_buf [OF inv i]
  let ?b = "(bufs s ! i)\<lparr>b_refcnt := 0\<rparr>"
  let ?t = "(upd_buf i (\<lambda>b. b\<lparr>b_refcnt := b_refcnt b - 1\<rparr>) (releasesleep (BufLock i) s))
              \<lparr>lru := i # remove1 i (lru s)\<rparr>"
  note rs = releasesleep_fields
  have "brelse i s = Ret () ?t"
    using h by (simp add: brelse_def Let_def rs)
  moreover have b: "bufs ?t = (bufs s)[i := ?b]"
    using h by (simp add: rs)
  have u: "uniq_bufs (bufs ?t)"
    unfolding b by (simp add: uniq_bufs_upd I(6))
  have l: "distinct (lru ?t)" "set (lru ?t) = {..<NBUF}"
    using I(2,3) h(1) by auto
  have fr: "bio_frame s ?t"
    by (rule bio_frame_trans [OF releasesleep_frame [of s i]]) (simp add: bio_frame_def upd_buf_def)
  have inv': "cache_inv (H - {i}) ?t"
    using h d cache_invD(7) [OF inv h(1)] by (intro cache_inv_upd [OF inv h(1) b u l _ fr]) (auto simp: rs buf_ok_def)
  have ld: "ldisk ?t n = ldisk s n" for n
    using ldisk_upd [OF b I(6) u h(2), of n] ldisk_held [OF inv i] h by (auto simp: rs cached_def)
  have "dirty_blocks ?t = dirty_blocks s"
    using dirty_blocks_upd [OF I(6) h(2) b] cache_inv_dirty_dev [OF inv] held_dirty [OF inv i] by auto
  with inv' ld fr b show ?thesis
    using \<open>brelse i s = Ret () ?t\<close> by (auto simp: same_view_def rs)
qed

section \<open>The contract of the cache\<close>

text \<open>
  What the log relies on. \<open>inv H s\<close>: the caller holds the buffers \<open>H\<close>; \<open>blk\<close> and \<open>dat\<close> give the
  block number and contents of a held buffer, \<open>pinned\<close> whether it must stay cached; \<open>view\<close> is the
  disk through the cache, \<open>store\<close> the disk itself, \<open>hist\<close> the writes issued, \<open>pins\<close> the pinned
  blocks, and \<open>frame\<close> relates states that differ in the cache only.
\<close>

locale block_cache =
  fixes rd :: "u32 \<Rightarrow> 's \<Rightarrow> (nat, 's) kres"
    and wr :: "nat \<Rightarrow> 's \<Rightarrow> (unit, 's) kres"
    and rel :: "nat \<Rightarrow> 's \<Rightarrow> (unit, 's) kres"
    and put :: "nat \<Rightarrow> bytes \<Rightarrow> 's \<Rightarrow> 's"
    and inv :: "nat set \<Rightarrow> 's \<Rightarrow> bool"
    and blk :: "'s \<Rightarrow> nat \<Rightarrow> u32"
    and dat :: "'s \<Rightarrow> nat \<Rightarrow> bytes"
    and pinned :: "'s \<Rightarrow> nat \<Rightarrow> bool"
    and view :: "'s \<Rightarrow> u32 \<Rightarrow> bytes"
    and store :: "'s \<Rightarrow> u32 \<Rightarrow> bytes"
    and hist :: "'s \<Rightarrow> (u32 \<times> bytes) list"
    and pins :: "'s \<Rightarrow> u32 set"
    and nblocks :: "'s \<Rightarrow> u32"
    and frame :: "'s \<Rightarrow> 's \<Rightarrow> bool"
  assumes frame_refl: "frame s s"
    and frame_trans: "frame s t \<Longrightarrow> frame t u \<Longrightarrow> frame s u"
    and frame_nblocks: "frame s t \<Longrightarrow> nblocks t = nblocks s"
    and rd_law: "inv H s \<Longrightarrow> n < nblocks s \<Longrightarrow> (\<And>j. j \<in> H \<Longrightarrow> blk s j \<noteq> n) \<Longrightarrow> 
        n \<in> pins s \<or> card H + card (pins s) < NBUF \<Longrightarrow>
      okr (rd n s) (\<lambda>i t. i \<notin> H \<and> inv (insert i H) t \<and> frame s t \<and> view t = view s \<and> store t = store s \<and>
        hist t = hist s \<and> pins t = pins s \<and> blk t i = n \<and> dat t i = view s n \<and> (pinned t i \<or> dat t i = store s n) \<and>
        (\<forall>j\<in>H. blk t j = blk s j \<and> dat t j = dat s j \<and> pinned t j = pinned s j))"
    and put_law: "inv H s \<Longrightarrow> i \<in> H \<Longrightarrow> inv H (put i d s) \<and> frame s (put i d s) \<and>
      view (put i d s) = (view s)(blk s i := d) \<and> store (put i d s) = store s \<and> hist (put i d s) = hist s \<and>
      pins (put i d s) = pins s \<and> dat (put i d s) i = d \<and>
      (\<forall>j\<in>H. blk (put i d s) j = blk s j \<and> pinned (put i d s) j = pinned s j \<and>
         (j \<noteq> i \<longrightarrow> dat (put i d s) j = dat s j))"
    and wr_law: "inv H s \<Longrightarrow> i \<in> H \<Longrightarrow>
      okr (wr i s) (\<lambda>_ t. inv H t \<and> frame s t \<and> view t = view s \<and> store t = (store s)(blk s i := dat s i) \<and>
        hist t = hist s @ [(blk s i, dat s i)] \<and> pins t = pins s - {blk s i} \<and> \<not> pinned t i \<and>
        (\<forall>j\<in>H. blk t j = blk s j \<and> dat t j = dat s j \<and> (j \<noteq> i \<longrightarrow> pinned t j = pinned s j)))"
    and rel_law: "inv H s \<Longrightarrow> i \<in> H \<Longrightarrow> pinned s i \<or> dat s i = store s (blk s i) \<Longrightarrow>
      okr (rel i s) (\<lambda>_ t. inv (H - {i}) t \<and> frame s t \<and> view t = view s \<and> store t = store s \<and> hist t = hist s \<and>
        pins t = pins s \<and> (\<forall>j\<in>H - {i}. blk t j = blk s j \<and> dat t j = dat s j \<and> pinned t j = pinned s j))"
begin

lemma rd_free:
  assumes "inv {} s" "n < nblocks s" "card (pins s) < NBUF"
  shows "okr (rd n s) (\<lambda>i t. inv {i} t \<and> frame s t \<and> view t = view s \<and> store t = store s \<and>
        hist t = hist s \<and> pins t = pins s \<and> blk t i = n \<and> dat t i = view s n \<and> (pinned t i \<or> dat t i = store s n))"
  by (rule okr_mono [OF rd_law [OF assms(1,2)]]) (use assms(3) in auto)

text \<open>Reading a block and releasing it again changes nothing a client can see.\<close>

lemma read_release:
  assumes "inv {} s" "n < nblocks s" "card (pins s) < NBUF"
  shows "okr (rd n s) (\<lambda>i t. dat t i = view s n \<and>
     okr (rel i t) (\<lambda>_ u. inv {} u \<and> frame s u \<and> view u = view s \<and> store u = store s \<and> hist u = hist s \<and> pins u = pins s))"
proof -
  obtain i t where t: "rd n s = Ret i t" "inv {i} t" "frame s t" "view t = view s" "store t = store s"
      "hist t = hist s" "pins t = pins s" "dat t i = view s n" "pinned t i \<or> dat t i = store s n" "blk t i = n"
    using rd_free [OF assms] by (elim okrE conjE) (rule that; assumption)
  have "okr (rel i t) (\<lambda>_ u. inv ({i} - {i}) u \<and> frame t u \<and> view u = view t \<and> store u = store t \<and>
      hist u = hist t \<and> pins u = pins t \<and>
      (\<forall>j\<in>{i} - {i}. blk u j = blk t j \<and> dat u j = dat t j \<and> pinned u j = pinned t j))"
    using t by (intro rel_law) auto
  then obtain u where "rel i t = Ret () u" "inv {} u" "frame t u" "view u = view t" "store u = store t"
      "hist u = hist t" "pins u = pins t"
    by (auto simp: okr_iff)
  with t frame_trans [OF t(3), of u] show ?thesis
    by simp
qed

text \<open>Replacing the contents of a block by \<open>d\<close>, written through.\<close>

lemma write_through:
  assumes "inv {} s" "n < nblocks s" "card (pins s) < NBUF"
  shows "okr (rd n s) (\<lambda>i t. frame s t \<and> dat t i = view s n \<and> (\<forall>d. okr (wr i (put i d t)) (\<lambda>_ u. okr (rel i u) (\<lambda>_ v.
     inv {} v \<and> frame s v \<and> view v = (view s)(n := d) \<and> store v = (store s)(n := d) \<and> hist v = hist s @ [(n, d)] \<and>
     pins v = pins s - {n}))))"
proof -
  obtain i t where t: "rd n s = Ret i t" "inv {i} t" "frame s t" "view t = view s" "store t = store s"
      "hist t = hist s" "pins t = pins s" "blk t i = n" "dat t i = view s n"
    using rd_free [OF assms] by (elim okrE conjE) (rule that; assumption)
  have "okr (wr i (put i d t)) (\<lambda>_ u. okr (rel i u) (\<lambda>_ v.
     inv {} v \<and> frame s v \<and> view v = (view s)(n := d) \<and> store v = (store s)(n := d) \<and> hist v = hist s @ [(n, d)] \<and>
     pins v = pins s - {n}))" for d
  proof -
    note p = put_law [OF t(2), of i d]
    have "okr (wr i (put i d t)) (\<lambda>_ u. inv {i} u \<and> frame (put i d t) u \<and> view u = view (put i d t) \<and>
        store u = (store (put i d t))(blk (put i d t) i := dat (put i d t) i) \<and>
        hist u = hist (put i d t) @ [(blk (put i d t) i, dat (put i d t) i)] \<and>
        pins u = pins (put i d t) - {blk (put i d t) i} \<and> \<not> pinned u i \<and>
        (\<forall>j\<in>{i}. blk u j = blk (put i d t) j \<and> dat u j = dat (put i d t) j \<and> (j \<noteq> i \<longrightarrow> pinned u j = pinned (put i d t) j)))"
      using p by (intro wr_law) auto
    then obtain u where u: "wr i (put i d t) = Ret () u" "inv {i} u" "frame (put i d t) u" "view u = (view s)(n := d)"
        "store u = (store s)(n := d)" "hist u = hist s @ [(n, d)]" "pins u = pins s - {n}" "blk u i = n" "dat u i = d"
      using p t by (auto simp: okr_iff)
    have "frame s u"
      using p by (intro frame_trans [OF t(3) frame_trans [OF _ u(3)]]) simp
    have "okr (rel i u) (\<lambda>_ v. inv ({i} - {i}) v \<and> frame u v \<and> view v = view u \<and> store v = store u \<and> hist v = hist u \<and>
        pins v = pins u \<and> (\<forall>j\<in>{i} - {i}. blk v j = blk u j \<and> dat v j = dat u j \<and> pinned v j = pinned u j))"
      using u by (intro rel_law) auto
    then show ?thesis
      using u frame_trans [OF \<open>frame s u\<close>] by (auto simp: okr_iff)
  qed
  then show ?thesis
    using t by simp
qed

text \<open>
  Copying a held block \<open>i\<close> over another held block \<open>k\<close>, writing it through and releasing both: the
  body of the two loops of the log.
\<close>

lemma copy_write_release:
  assumes "inv {i, k} s" "i \<noteq> k" "blk s i \<noteq> blk s k" "pinned s i \<or> dat s i = store s (blk s i)"
  shows "okr (wr k (put k (dat s i) s)) (\<lambda>_ t. okr (rel i t) (\<lambda>_ u. okr (rel k u) (\<lambda>_ v.
     inv {} v \<and> frame s v \<and> view v = (view s)(blk s k := dat s i) \<and> store v = (store s)(blk s k := dat s i) \<and>
     hist v = hist s @ [(blk s k, dat s i)] \<and> pins v = pins s - {blk s k})))"
proof -
  let ?p = "put k (dat s i) s"
  note p = put_law [OF assms(1), of k "dat s i"]
  have "okr (wr k ?p) (\<lambda>_ t. inv {i, k} t \<and> frame ?p t \<and> view t = view ?p \<and> store t = (store ?p)(blk ?p k := dat ?p k) \<and>
        hist t = hist ?p @ [(blk ?p k, dat ?p k)] \<and> pins t = pins ?p - {blk ?p k} \<and> \<not> pinned t k \<and>
        (\<forall>j\<in>{i, k}. blk t j = blk ?p j \<and> dat t j = dat ?p j \<and> (j \<noteq> k \<longrightarrow> pinned t j = pinned ?p j)))"
    using p by (intro wr_law) auto
  then obtain t where t: "wr k ?p = Ret () t" "inv {i, k} t" "frame ?p t" "view t = view ?p"
      "store t = (store s)(blk s k := dat s i)" "hist t = hist s @ [(blk s k, dat s i)]" "pins t = pins s - {blk s k}"
      "\<not> pinned t k" "blk t i = blk s i" "dat t i = dat s i" "pinned t i = pinned s i" "blk t k = blk s k"
      "dat t k = dat s i"
    using p assms(2) by (auto simp: okr_iff)
  have "okr (rel i t) (\<lambda>_ u. inv ({i, k} - {i}) u \<and> frame t u \<and> view u = view t \<and> store u = store t \<and> hist u = hist t \<and>
        pins u = pins t \<and> (\<forall>j\<in>{i, k} - {i}. blk u j = blk t j \<and> dat u j = dat t j \<and> pinned u j = pinned t j))"
    using t assms by (intro rel_law) auto
  then obtain u where u: "rel i t = Ret () u" "inv {k} u" "frame t u" "view u = view t" "store u = store t"
      "hist u = hist t" "pins u = pins t" "blk u k = blk s k" "dat u k = dat s i"
    using t assms(2) by (auto simp: okr_iff insert_Diff_if)
  have "okr (rel k u) (\<lambda>_ v. inv ({k} - {k}) v \<and> frame u v \<and> view v = view u \<and> store v = store u \<and> hist v = hist u \<and>
        pins v = pins u \<and> (\<forall>j\<in>{k} - {k}. blk v j = blk u j \<and> dat v j = dat u j \<and> pinned v j = pinned u j))"
    using t u by (intro rel_law) auto
  then obtain v where v: "rel k u = Ret () v" "inv {} v" "frame u v" "view v = view u" "store v = store u"
      "hist v = hist u" "pins v = pins u"
    by (auto simp: okr_iff)
  have "frame s ?p"
    using p by simp
  from frame_trans [OF this frame_trans [OF t(3) frame_trans [OF u(3) v(3)]]]
  show ?thesis
    using t u v p by simp
qed

text \<open>The whole loop body, in the two orders in which the log reads the blocks.\<close>

lemma rd_second:
  assumes "inv {i} s" "n < nblocks s" "blk s i \<noteq> n" "n \<in> pins s \<or> Suc (card (pins s)) < NBUF"
  shows "okr (rd n s) (\<lambda>j t. j \<noteq> i \<and> inv {i, j} t \<and> frame s t \<and> view t = view s \<and> store t = store s \<and>
        hist t = hist s \<and> pins t = pins s \<and> blk t j = n \<and> dat t j = view s n \<and> (pinned t j \<or> dat t j = store s n) \<and>
        blk t i = blk s i \<and> dat t i = dat s i \<and> pinned t i = pinned s i)"
  by (rule okr_mono [OF rd_law [OF assms(1,2)]]) (use assms(3,4) in \<open>auto simp: insert_commute\<close>)

lemma copy_dst_src:
  assumes "inv {} s" "a < nblocks s" "b < nblocks s" "a \<noteq> b" "card (pins s) < NBUF"
    and "b \<in> pins s \<or> Suc (card (pins s)) < NBUF"
  shows "okr (bindr (rd a s) (\<lambda>i s. bindr (rd b s) (\<lambda>j s. bindr (wr i (put i (dat s j) s)) (\<lambda>_ s.
      bindr (rel j s) (\<lambda>_ s. rel i s))))) (\<lambda>_ v. inv {} v \<and> frame s v \<and> view v = (view s)(a := view s b) \<and>
      store v = (store s)(a := view s b) \<and> hist v = hist s @ [(a, view s b)] \<and> pins v = pins s - {a})"
proof -
  obtain i t where t: "rd a s = Ret i t" "inv {i} t" "frame s t" "view t = view s" "store t = store s"
      "hist t = hist s" "pins t = pins s" "blk t i = a"
    using rd_free [OF assms(1,2,5)] by (elim okrE conjE) (rule that; assumption)
  have "b < nblocks t" "blk t i \<noteq> b" "b \<in> pins t \<or> Suc (card (pins t)) < NBUF"
    using assms(3,4,6) t frame_nblocks [OF t(3)] by auto
  from rd_second [OF t(2) this]
  obtain j u where u: "rd b t = Ret j u" "j \<noteq> i" "inv {j, i} u" "frame t u" "view u = view t" "store u = store t"
      "hist u = hist t" "pins u = pins t" "blk u j = b" "dat u j = view t b" "pinned u j \<or> dat u j = store t b" "blk u i = a"
    using t(8) by (auto simp: okr_iff insert_commute)
  have "frame s u"
    by (rule frame_trans [OF t(3) u(4)])
  then show ?thesis
    using copy_write_release [OF u(3,2)] u t assms(4) frame_trans [OF \<open>frame s u\<close>] by (auto simp: okr_iff)
qed

lemma copy_src_dst:
  assumes "inv {} s" "a < nblocks s" "b < nblocks s" "a \<noteq> b" "card (pins s) < NBUF"
    and "b \<in> pins s \<or> Suc (card (pins s)) < NBUF"
  shows "okr (bindr (rd a s) (\<lambda>i s. bindr (rd b s) (\<lambda>j s. bindr (wr j (put j (dat s i) s)) (\<lambda>_ s.
      bindr (rel i s) (\<lambda>_ s. rel j s))))) (\<lambda>_ v. inv {} v \<and> frame s v \<and> view v = (view s)(b := view s a) \<and>
      store v = (store s)(b := view s a) \<and> hist v = hist s @ [(b, view s a)] \<and> pins v = pins s - {b})"
proof -
  obtain i t where t: "rd a s = Ret i t" "inv {i} t" "frame s t" "view t = view s" "store t = store s"
      "hist t = hist s" "pins t = pins s" "blk t i = a" "dat t i = view s a" "pinned t i \<or> dat t i = store s a"
    using rd_free [OF assms(1,2,5)] by (elim okrE conjE) (rule that; assumption)
  have "b < nblocks t" "blk t i \<noteq> b" "b \<in> pins t \<or> Suc (card (pins t)) < NBUF"
    using assms(3,4,6) t frame_nblocks [OF t(3)] by auto
  from rd_second [OF t(2) this]
  obtain j u where u: "rd b t = Ret j u" "i \<noteq> j" "inv {i, j} u" "frame t u" "view u = view t" "store u = store t"
      "hist u = hist t" "pins u = pins t" "blk u j = b" "blk u i = a" "dat u i = dat t i" "pinned u i = pinned t i"
    using t(8) by (auto simp: okr_iff)
  have "frame s u"
    by (rule frame_trans [OF t(3) u(4)])
  then show ?thesis
    using copy_write_release [OF u(3,2)] u t assms(4) frame_trans [OF \<open>frame s u\<close>] by (auto simp: okr_iff)
qed

end

interpretation bcache: block_cache "bread 1" bwrite brelse set_data cache_inv "\<lambda>s i. b_blockno (bufs s ! i)"
  buf_data "\<lambda>s i. dirty (bufs s ! i)" ldisk disk writes dirty_blocks disksize bio_frame
proof
  fix s t u :: "'a bio_state_scheme" and H i n d
  show "bio_frame s s"
    by simp
  show "bio_frame s t \<Longrightarrow> bio_frame t u \<Longrightarrow> bio_frame s u"
    by (rule bio_frame_trans)
  show "bio_frame s t \<Longrightarrow> disksize t = disksize s"
    by (simp add: bio_frame_def)
  show "okr (bread 1 n s) (\<lambda>i t. i \<notin> H \<and> cache_inv (insert i H) t \<and> bio_frame s t \<and> ldisk t = ldisk s \<and>
      disk t = disk s \<and> writes t = writes s \<and> dirty_blocks t = dirty_blocks s \<and> b_blockno (bufs t ! i) = n \<and>
      buf_data t i = ldisk s n \<and> (dirty (bufs t ! i) \<or> buf_data t i = disk s n) \<and>
      (\<forall>j\<in>H. b_blockno (bufs t ! j) = b_blockno (bufs s ! j) \<and> buf_data t j = buf_data s j \<and>
         dirty (bufs t ! j) = dirty (bufs s ! j)))"
    if "cache_inv H s" "n < disksize s" "\<And>j. j \<in> H \<Longrightarrow> b_blockno (bufs s ! j) \<noteq> n"
      "n \<in> dirty_blocks s \<or> card H + card (dirty_blocks s) < NBUF"
  proof -
    have "n \<in> dirty_blocks s \<or> (\<exists>i<NBUF. i \<notin> H \<and> \<not> dirty (bufs s ! i))"
      using that(4) avail_buffer [OF that(1)] by blast
    from bread_spec [OF that(1,2,3) this] show ?thesis
      by (rule okr_mono) (auto simp: same_view_def)
  qed
  show "cache_inv H (set_data i d s) \<and> bio_frame s (set_data i d s) \<and>
      ldisk (set_data i d s) = (ldisk s)(b_blockno (bufs s ! i) := d) \<and> disk (set_data i d s) = disk s \<and>
      writes (set_data i d s) = writes s \<and> dirty_blocks (set_data i d s) = dirty_blocks s \<and>
      buf_data (set_data i d s) i = d \<and>
      (\<forall>j\<in>H. b_blockno (bufs (set_data i d s) ! j) = b_blockno (bufs s ! j) \<and>
         dirty (bufs (set_data i d s) ! j) = dirty (bufs s ! j) \<and>
         (j \<noteq> i \<longrightarrow> buf_data (set_data i d s) j = buf_data s j))"
    if "cache_inv H s" "i \<in> H"
  proof -
    have "bufs (set_data i d s) ! j = (if j = i then (bufs s ! i)\<lparr>b_data := d\<rparr> else bufs s ! j)" for j
      using set_data_spec(7,8) [OF that] by simp
    then show ?thesis
      using set_data_spec(1-6) [OF that] by simp
  qed
  show "okr (bwrite i s) (\<lambda>_ t. cache_inv H t \<and> bio_frame s t \<and> ldisk t = ldisk s \<and>
      disk t = (disk s)(b_blockno (bufs s ! i) := buf_data s i) \<and>
      writes t = writes s @ [(b_blockno (bufs s ! i), buf_data s i)] \<and>
      dirty_blocks t = dirty_blocks s - {b_blockno (bufs s ! i)} \<and> \<not> dirty (bufs t ! i) \<and>
      (\<forall>j\<in>H. b_blockno (bufs t ! j) = b_blockno (bufs s ! j) \<and> buf_data t j = buf_data s j \<and>
         (j \<noteq> i \<longrightarrow> dirty (bufs t ! j) = dirty (bufs s ! j))))"
    if "cache_inv H s" "i \<in> H"
    by (rule okr_mono [OF bwrite_spec [OF that]]) (metis (no_types, lifting))
  show "okr (brelse i s) (\<lambda>_ t. cache_inv (H - {i}) t \<and> bio_frame s t \<and> ldisk t = ldisk s \<and> disk t = disk s \<and>
      writes t = writes s \<and> dirty_blocks t = dirty_blocks s \<and>
      (\<forall>j\<in>H - {i}. b_blockno (bufs t ! j) = b_blockno (bufs s ! j) \<and> buf_data t j = buf_data s j \<and>
         dirty (bufs t ! j) = dirty (bufs s ! j)))"
    if "cache_inv H s" "i \<in> H" "dirty (bufs s ! i) \<or> buf_data s i = disk s (b_blockno (bufs s ! i))"
    by (rule okr_mono [OF brelse_spec [OF that]]) (auto simp: same_view_def)
qed

text \<open>Whatever the state, a read that returns has touched the cache only.\<close>

lemma bread_more: "bread dev n s = Ret i t \<Longrightarrow> bio_state.more t = bio_state.more s"
  by (auto simp: bread_def bget_def iderw_def acquiresleep_def sleep_def upd_buf_def Let_def bindr_eq_Ret
      split: option.splits if_splits)

section \<open>Initialisation\<close>

lemma binit_fold:
  "fold (\<lambda>i s. initsleeplock (BufLock i) (s\<lparr>lru := i # lru s\<rparr>)) is s =
     s\<lparr>lru := rev is @ lru s, sleeplocks := (\<lambda>l. if l \<in> BufLock ` set is then \<lparr>sl_locked = False, sl_pid = 0\<rparr>
                                              else sleeplocks s l)\<rparr>"
  by (induction "is" arbitrary: s) (auto simp: initsleeplock_def fun_eq_iff intro!: bio_state.equality)

lemma binit_fields:
  "bufs (binit s) = bufs s" "lru (binit s) = rev [0..<NBUF]"
  "sleeplocks (binit s) (BufLock i) = (if i < NBUF then \<lparr>sl_locked = False, sl_pid = 0\<rparr> else sleeplocks s (BufLock i))"
  by (simp_all add: binit_def binit_fold image_iff del: upt_rec_numeral)

section \<open>Properties of the cache\<close>

text \<open>
  Once a process runs, the cache set up by \<^verbatim>\<open>binit\<close> on zeroed buffers satisfies its
  invariant: nothing is cached, held or dirty, and every buffer is on the list exactly once.
\<close>

lemma binit_establishes:
  assumes "bufs s = replicate NBUF \<lparr>b_flags = 0, b_dev = 0, b_blockno = 0, b_refcnt = 0, b_data = d\<rparr>"
    and "bufs t = bufs (binit s)" "lru t = lru (binit s)" "in_proc t"
    and "\<And>i. i < NBUF \<Longrightarrow> sleeplocks t (BufLock i) = sleeplocks (binit s) (BufLock i)"
  shows "cache_inv {} t \<and> ldisk t = disk t \<and> dirty_blocks t = {}"
proof -
  have b: "bufs t = replicate NBUF \<lparr>b_flags = 0, b_dev = 0, b_blockno = 0, b_refcnt = 0, b_data = d\<rparr>"
    using assms(1,2) by (simp add: binit_fields)
  have nv: "\<not> valid (bufs t ! i)" "\<not> dirty (bufs t ! i)" "b_dev (bufs t ! i) = 0" if "i < NBUF" for i
    using that unfolding b by (simp_all add: valid_def dirty_def)
  have "ldisk t n = disk t n" for n
    using nv(1) by (intro ldisk_uncached) (simp add: b cached_def)
  then show ?thesis
    using assms(3-5) nv
    by (auto simp: cache_inv_def uniq_bufs_def buf_ok_def dirty_blocks_iff b binit_fields atLeast0LessThan
        simp del: upt_rec_numeral)
qed

definition boot_bio :: bio_state where
  "boot_bio = ptable_state.extend
     (boot_ptable\<lparr>procs := (procs boot_ptable)[0 := no_proc\<lparr>p_state := RUNNING, p_pid := 1\<rparr>], nextpid := 2,
        cpu_proc := (\<lambda>c. if c = 0 then Some 0 else None)\<rparr>)
     (bio_state.fields
        (replicate NBUF \<lparr>b_flags = 0, b_dev = 0, b_blockno = 0, b_refcnt = 0, b_data = (\<lambda>_. 0)\<rparr>)
        (rev [0..<NBUF]) (\<lambda>n. (\<lambda>_. ucast n)) 1000 [])"

lemma boot_bio_fields:
  "bufs boot_bio = replicate NBUF \<lparr>b_flags = 0, b_dev = 0, b_blockno = 0, b_refcnt = 0, b_data = (\<lambda>_. 0)\<rparr>"
  "lru boot_bio = rev [0..<NBUF]" "disk boot_bio = (\<lambda>n. (\<lambda>_. ucast n))" "disksize boot_bio = 1000"
  "writes boot_bio = []" "in_proc boot_bio" "sleeplocks boot_bio = (\<lambda>_. \<lparr>sl_locked = False, sl_pid = 0\<rparr>)"
  by (simp_all add: boot_bio_def ptable_state.defs bio_state.defs boot_ptable_def in_proc_def myproc_def
      del: upt_rec_numeral)

lemma boot_bio_inv: "cache_inv {} boot_bio" "dirty_blocks boot_bio = {}" "ldisk boot_bio n = disk boot_bio n"
proof -
  have "cache_inv {} boot_bio \<and> ldisk boot_bio = disk boot_bio \<and> dirty_blocks boot_bio = {}"
    by (rule binit_establishes [where s = boot_bio]) (simp_all add: boot_bio_fields binit_fields del: upt_rec_numeral)
  then show "cache_inv {} boot_bio" "dirty_blocks boot_bio = {}" "ldisk boot_bio n = disk boot_bio n"
    by auto
qed

text \<open>
  C4: with fewer than \<open>NBUF\<close> blocks pinned and no buffer held, \<^verbatim>\<open>bread\<close> returns a buffer with the
  latest contents of the block, whether cached or not, and after \<^verbatim>\<open>brelse\<close> the cache is again free,
  with the same contents seen through it, the same disk, and no write issued.
\<close>

theorem bread_brelse_transparent:
  assumes "cache_inv {} s" "n < disksize s" "card (dirty_blocks s) < NBUF"
  shows "okr (bread 1 n s) (\<lambda>i t. buf_data t i = ldisk s n \<and>
     okr (brelse i t) (\<lambda>_ u. cache_inv {} u \<and> bio_frame s u \<and> ldisk u = ldisk s \<and> disk u = disk s \<and>
        writes u = writes s \<and> dirty_blocks u = dirty_blocks s))"
  by (rule bcache.read_release [OF assms])

theorem bread_brelse_transparent_witness:
  "okr (bread 1 7 boot_bio) (\<lambda>i t. buf_data t i 0 = 7)"
  by (rule okr_mono [OF bread_brelse_transparent [of boot_bio 7]])
    (simp_all add: boot_bio_inv boot_bio_fields)

text \<open>
  C5: reading a block, replacing its contents and writing it with \<^verbatim>\<open>bwrite\<close> makes exactly one disk
  write, of that block, and every later read sees the new contents.
\<close>

theorem bwrite_through:
  assumes "cache_inv {} s" "n < disksize s" "card (dirty_blocks s) < NBUF"
  shows "okr (bread 1 n s) (\<lambda>i t. okr (bwrite i (set_data i d t)) (\<lambda>_ u. okr (brelse i u) (\<lambda>_ v.
     cache_inv {} v \<and> disk v = (disk s)(n := d) \<and> ldisk v = (ldisk s)(n := d) \<and> writes v = writes s @ [(n, d)])))"
  by (rule okr_mono [OF bcache.write_through [OF assms]]) (auto simp: okr_iff dest!: spec [of _ d])

theorem bwrite_through_witness:
  "okr (bread 1 9 boot_bio) (\<lambda>i t. okr (bwrite i (set_data i (\<lambda>_. 5) t)) (\<lambda>_ u. okr (brelse i u) (\<lambda>_ v.
     disk v 9 0 = 5 \<and> disk v 8 0 = 8 \<and> writes v = [(9, \<lambda>_. 5)])))"
  by (rule okr_mono [OF bwrite_through [of boot_bio 9 "\<lambda>_. 5"]])
    (auto simp: boot_bio_inv boot_bio_fields okr_iff)

end
