(* ===== verification/Log.thy ===== *)
theory Log
  imports Bio
begin

text \<open>
  The write-ahead log, \<^verbatim>\<open>log.c\<close>, and the superblock it is configured from (\<^verbatim>\<open>fs.h\<close>,
  \<^verbatim>\<open>readsb\<close> of \<^verbatim>\<open>fs.c\<close>). The in-memory header is \<open>lh_n\<close> and \<open>lh_block\<close>; on disk the header
  block holds the count at offset 0 and block number \<open>i\<close> at offset \<open>4 + 4 * i\<close>.

  \<open>log_ok\<close> is the invariant between operations: the dirty blocks of the cache are exactly the
  logged ones, they lie outside the log, and the log on disk is empty. \<open>recover_disk\<close> is what
  recovery makes of a disk. The crash theorem says that after any prefix of the writes of a commit,
  recovery yields the old or the new contents, never a mixture.
\<close>

section \<open>State and operations\<close>

record superblock =
  sb_size :: u32
  sb_nblocks :: u32
  sb_ninodes :: u32
  sb_nlog :: u32
  sb_logstart :: u32
  sb_inodestart :: u32
  sb_bmapstart :: u32

record log_state = bio_state +
  log_start :: u32
  log_size :: int
  log_outstanding :: int
  log_committing :: bool
  log_dev :: u32
  lh_n :: int
  lh_block :: "u32 list"

definition readsb :: "u32 \<Rightarrow> 'a log_state_scheme \<Rightarrow> (superblock, 'a log_state_scheme) kres" where
  "readsb dev s =
     bindr (bread dev 1 s) (\<lambda>bp s.
       let d = buf_data s bp;
           sb = \<lparr>sb_size = rd32 d 0, sb_nblocks = rd32 d 4, sb_ninodes = rd32 d 8, sb_nlog = rd32 d 12,
                 sb_logstart = rd32 d 16, sb_inodestart = rd32 d 20, sb_bmapstart = rd32 d 24\<rparr>
       in bindr (brelse bp s) (\<lambda>_ s. Ret sb s))"

definition install_trans :: "'a log_state_scheme \<Rightarrow> (unit, 'a log_state_scheme) kres" where
  "install_trans s =
     foreach [0..<nat (lh_n s)] (\<lambda>tail s.
       bindr (bread (log_dev s) (log_start s + of_nat tail + 1) s) (\<lambda>lbuf s.
       bindr (bread (log_dev s) (lh_block s ! tail) s) (\<lambda>dbuf s.
       bindr (bwrite dbuf (set_data dbuf (buf_data s lbuf) s)) (\<lambda>_ s.
       bindr (brelse lbuf s) (\<lambda>_ s. brelse dbuf s))))) s"

definition read_head :: "'a log_state_scheme \<Rightarrow> (unit, 'a log_state_scheme) kres" where
  "read_head s =
     bindr (bread (log_dev s) (log_start s) s) (\<lambda>buf s.
       let d = buf_data s buf;
           n = sint (rd32 d 0)
       in brelse buf (s\<lparr>lh_n := n,
            lh_block := fold (\<lambda>i bs. bs[i := rd32 d (4 + 4 * i)]) [0..<nat n] (lh_block s)\<rparr>))"

definition write_head :: "'a log_state_scheme \<Rightarrow> (unit, 'a log_state_scheme) kres" where
  "write_head s =
     bindr (bread (log_dev s) (log_start s) s) (\<lambda>buf s.
       let d = wr32 (buf_data s buf) 0 (word_of_int (lh_n s));
           d = fold (\<lambda>i d. wr32 d (4 + 4 * i) (lh_block s ! i)) [0..<nat (lh_n s)] d
       in bindr (bwrite buf (set_data buf d s)) (\<lambda>_ s. brelse buf s))"

definition recover_from_log :: "'a log_state_scheme \<Rightarrow> (unit, 'a log_state_scheme) kres" where
  "recover_from_log s =
     bindr (read_head s) (\<lambda>_ s.
     bindr (install_trans s) (\<lambda>_ s.
     write_head (s\<lparr>lh_n := 0\<rparr>)))"

text \<open>\<open>sizeof(struct logheader)\<close> is 124, below \<open>BSIZE\<close>, so the panic of \<^verbatim>\<open>initlog\<close> is unreachable.\<close>

definition initlog :: "u32 \<Rightarrow> 'a log_state_scheme \<Rightarrow> (unit, 'a log_state_scheme) kres" where
  "initlog dev s =
     (if BSIZE \<le> 4 * (1 + LOGSIZE) then Panic ''initlog: too big logheader''
      else bindr (readsb dev s) (\<lambda>sb s.
        recover_from_log (s\<lparr>log_start := sb_logstart sb, log_size := sint (sb_nlog sb), log_dev := dev\<rparr>)))"

text \<open>
  One turn of the loop of \<^verbatim>\<open>begin_op\<close>: it sleeps, and checks again when woken, or it enters.
\<close>

definition begin_op :: "'a log_state_scheme \<Rightarrow> (unit, 'a log_state_scheme) kres" where
  "begin_op s =
     (if log_committing s then sleep ChanLog s
      else if lh_n s + (log_outstanding s + 1) * int MAXOPBLOCKS > int LOGSIZE then sleep ChanLog s
      else Ret () (s\<lparr>log_outstanding := log_outstanding s + 1\<rparr>))"

definition write_log :: "'a log_state_scheme \<Rightarrow> (unit, 'a log_state_scheme) kres" where
  "write_log s =
     foreach [0..<nat (lh_n s)] (\<lambda>tail s.
       bindr (bread (log_dev s) (log_start s + of_nat tail + 1) s) (\<lambda>to s.
       bindr (bread (log_dev s) (lh_block s ! tail) s) (\<lambda>from s.
       bindr (bwrite to (set_data to (buf_data s from) s)) (\<lambda>_ s.
       bindr (brelse from s) (\<lambda>_ s. brelse to s))))) s"

definition commit :: "'a log_state_scheme \<Rightarrow> (unit, 'a log_state_scheme) kres" where
  "commit s =
     (if lh_n s > 0 then
        bindr (write_log s) (\<lambda>_ s.
        bindr (write_head s) (\<lambda>_ s.
        bindr (install_trans s) (\<lambda>_ s.
        write_head (s\<lparr>lh_n := 0\<rparr>))))
      else Ret () s)"

definition end_op :: "'a log_state_scheme \<Rightarrow> (unit, 'a log_state_scheme) kres" where
  "end_op s =
     (let s = s\<lparr>log_outstanding := log_outstanding s - 1\<rparr>
      in if log_committing s then Panic ''log.committing''
         else if log_outstanding s = 0 then
           bindr (commit (s\<lparr>log_committing := True\<rparr>)) (\<lambda>_ s.
           Ret () (wakeup ChanLog (s\<lparr>log_committing := False\<rparr>)))
         else Ret () (wakeup ChanLog s))"

definition log_write :: "nat \<Rightarrow> 'a log_state_scheme \<Rightarrow> (unit, 'a log_state_scheme) kres" where
  "log_write b s =
     (if int LOGSIZE \<le> lh_n s \<or> log_size s - 1 \<le> lh_n s then Panic ''too big a transaction''
      else if log_outstanding s < 1 then Panic ''log_write outside of trans''
      else let n = b_blockno (bufs s ! b);
               i = (case first_index (\<lambda>x. x = n) (take (nat (lh_n s)) (lh_block s)) of
                      Some i \<Rightarrow> i | None \<Rightarrow> nat (lh_n s));
               s = s\<lparr>lh_block := (lh_block s)[i := n],
                     lh_n := (if int i = lh_n s then lh_n s + 1 else lh_n s)\<rparr>
           in Ret () (mark_dirty b s))"

section \<open>The header block\<close>

definition hdr_n :: "bytes \<Rightarrow> int" where
  "hdr_n d = sint (rd32 d 0)"

definition hdr_list :: "bytes \<Rightarrow> u32 list" where
  "hdr_list d = map (\<lambda>i. rd32 d (4 + 4 * i)) [0..<nat (hdr_n d)]"

definition put_hdr :: "u32 list \<Rightarrow> nat \<Rightarrow> bytes \<Rightarrow> bytes" where
  "put_hdr bs n d = fold (\<lambda>i d. wr32 d (4 + 4 * i) (bs ! i)) [0..<n] (wr32 d 0 (word_of_int (int n)))"

lemma rd32_fold_wr32:
  "rd32 (fold (\<lambda>i d. wr32 d (4 + 4 * i) (f i)) [0..<n] d) (4 + 4 * j) = (if j < n then f j else rd32 d (4 + 4 * j))"
proof (induction n)
  case (Suc n)
  show ?case
  proof (cases "j = n")
    case False
    then have "4 + 4 * j + 4 \<le> 4 + 4 * n \<or> 4 + 4 * n + 4 \<le> 4 + 4 * j"
      by linarith
    then show ?thesis
      using Suc False by (simp add: rd32_wr32_disjoint)
  qed simp
qed simp

lemma rd32_fold_wr32_0: "rd32 (fold (\<lambda>i d. wr32 d (4 + 4 * i) (f i)) [0..<n] d) 0 = rd32 d 0"
  by (induction n) simp_all

lemma sint_word_of_int_small: "n < 1000 \<Longrightarrow> sint (word_of_int (int n) :: u32) = int n"
  by (simp add: signed_of_nat signed_take_bit_int_eq_self)

lemma hdr_n_put [simp]: "n < 1000 \<Longrightarrow> hdr_n (put_hdr bs n d) = int n"
  by (simp only: hdr_n_def put_hdr_def rd32_fold_wr32_0 rd32_wr32 sint_word_of_int_small)

lemma hdr_list_put [simp]:
  assumes "n < 1000" "n \<le> length bs"
  shows "hdr_list (put_hdr bs n d) = take n bs"
proof (rule nth_equalityI)
  fix i assume "i < length (hdr_list (put_hdr bs n d))"
  then show "hdr_list (put_hdr bs n d) ! i = take n bs ! i"
    using assms by (simp add: hdr_list_def) (simp add: put_hdr_def rd32_fold_wr32)
qed (use assms in \<open>simp add: hdr_list_def\<close>)

section \<open>Disks and writes\<close>

primrec apply_writes :: "(u32 \<times> bytes) list \<Rightarrow> (u32 \<Rightarrow> bytes) \<Rightarrow> u32 \<Rightarrow> bytes" where
  "apply_writes [] dk = dk"
| "apply_writes (w # ws) dk = apply_writes ws (dk(fst w := snd w))"

lemma apply_writes_append: "apply_writes (xs @ ys) dk = apply_writes ys (apply_writes xs dk)"
  by (induction xs arbitrary: dk) auto

lemma apply_writes_other: "b \<notin> fst ` set ws \<Longrightarrow> apply_writes ws dk b = dk b"
  by (induction ws arbitrary: dk) auto

lemma apply_writes_in:
  assumes "distinct (map fst ws)" "(b, d) \<in> set ws"
  shows "apply_writes ws dk b = d"
  using assms
proof (induction ws arbitrary: dk)
  case (Cons w ws)
  show ?case
  proof (cases "w = (b, d)")
    case True
    then have "b \<notin> fst ` set ws"
      using Cons.prems(1) by auto
    then show ?thesis
      using True by (simp add: apply_writes_other)
  next
    case False
    then show ?thesis using Cons by simp
  qed
qed simp

text \<open>What recovery makes of a disk whose log starts at block \<open>st\<close>.\<close>

definition slot :: "u32 \<Rightarrow> nat \<Rightarrow> u32" where
  "slot st i = st + of_nat i + 1"

definition recover_disk :: "u32 \<Rightarrow> (u32 \<Rightarrow> bytes) \<Rightarrow> u32 \<Rightarrow> bytes" where
  "recover_disk st dk =
     apply_writes (map (\<lambda>i. (hdr_list (dk st) ! i, dk (slot st i))) [0..<length (hdr_list (dk st))]) dk"

section \<open>The invariant\<close>

definition log_region :: "'a log_state_scheme \<Rightarrow> u32 set" where
  "log_region s = {b. unat (log_start s) \<le> unat b \<and> unat b < unat (log_start s) + nat (log_size s)}"

definition logged :: "'a log_state_scheme \<Rightarrow> u32 list" where
  "logged s = take (nat (lh_n s)) (lh_block s)"

text \<open>The geometry \<^verbatim>\<open>mkfs\<close> lays out: at most \<open>LOGSIZE\<close> log blocks, inside the disk.\<close>

definition log_geom :: "'a log_state_scheme \<Rightarrow> bool" where
  "log_geom s \<longleftrightarrow> log_dev s = 1 \<and> 2 \<le> log_size s \<and> log_size s \<le> int LOGSIZE \<and>
     unat (log_start s) + nat (log_size s) \<le> unat (disksize s) \<and> length (lh_block s) = LOGSIZE"

definition log_ok :: "'a log_state_scheme \<Rightarrow> bool" where
  "log_ok s \<longleftrightarrow> log_geom s \<and> 0 \<le> lh_n s \<and> lh_n s < log_size s \<and> distinct (logged s) \<and>
     dirty_blocks s = set (logged s) \<and> set (logged s) \<inter> log_region s = {} \<and> hdr_n (disk s (log_start s)) = 0"

lemma log_more_fields:
  assumes "bio_state.more t = bio_state.more (s :: 'a log_state_scheme)"
  shows "log_start t = log_start s" "log_size t = log_size s" "log_outstanding t = log_outstanding s"
    "log_committing t = log_committing s" "log_dev t = log_dev s" "lh_n t = lh_n s" "lh_block t = lh_block s"
    "log_state.more t = log_state.more s"
  using assms by (cases s, cases t, simp)+

lemma log_frame:
  assumes "bio_frame (s :: 'a log_state_scheme) t"
  shows "log_start t = log_start s" "log_size t = log_size s" "log_outstanding t = log_outstanding s"
    "log_committing t = log_committing s" "log_dev t = log_dev s" "lh_n t = lh_n s" "lh_block t = lh_block s"
    "log_state.more t = log_state.more s" "disksize t = disksize s" "log_region t = log_region s"
    "logged t = logged s" "log_geom t = log_geom s"
proof -
  have m: "bio_state.more t = bio_state.more s" and "disksize t = disksize s"
    using assms by (simp_all add: bio_frame_def)
  with log_more_fields [OF m]
  show "log_start t = log_start s" "log_size t = log_size s" "log_outstanding t = log_outstanding s"
    "log_committing t = log_committing s" "log_dev t = log_dev s" "lh_n t = lh_n s" "lh_block t = lh_block s"
    "log_state.more t = log_state.more s" "disksize t = disksize s" "log_region t = log_region s"
    "logged t = logged s" "log_geom t = log_geom s"
    by (simp_all add: log_region_def logged_def log_geom_def)
qed

lemma slot_unat:
  assumes "log_geom s" "int i < log_size s - 1"
  shows "unat (slot (log_start s) i) = unat (log_start s) + i + 1"
proof -
  have "unat (log_start s) + (i + 1) < 4294967296"
    using assms unat_less_u32 [of "disksize s"] by (auto simp: log_geom_def)
  then show ?thesis
    using unat_add_of_nat_u32 [of "log_start s" "i + 1"] by (simp add: slot_def ac_simps)
qed

lemma slot_facts:
  assumes "log_geom s" "int i < log_size s - 1"
  shows "slot (log_start s) i \<in> log_region s" "slot (log_start s) i \<noteq> log_start s"
    "slot (log_start s) i < disksize s"
proof -
  note u = slot_unat [OF assms]
  have i: "i + 1 < nat (log_size s)"
    using assms(2) by simp
  show "slot (log_start s) i \<in> log_region s"
    using i unfolding log_region_def mem_Collect_eq u by simp
  show "slot (log_start s) i \<noteq> log_start s"
  proof
    assume "slot (log_start s) i = log_start s"
    from u [unfolded this] show False by simp
  qed
  have "unat (log_start s) + nat (log_size s) \<le> unat (disksize s)"
    using assms(1) by (simp add: log_geom_def)
  then show "slot (log_start s) i < disksize s"
    using i unfolding word_less_nat_alt u by simp
qed

lemma slot_inj:
  assumes "log_geom s" "int i < log_size s - 1" "int j < log_size s - 1"
    and "slot (log_start s) i = slot (log_start s) j"
  shows "i = j"
  using slot_unat [OF assms(1,2), unfolded assms(4)] slot_unat [OF assms(1,3)] by linarith

lemma start_facts:
  assumes "log_geom s"
  shows "log_start s \<in> log_region s" "log_start s < disksize s"
proof -
  have "0 < nat (log_size s)" "unat (log_start s) + nat (log_size s) \<le> unat (disksize s)"
    using assms by (simp_all add: log_geom_def)
  then show "log_start s \<in> log_region s" "log_start s < disksize s"
    unfolding log_region_def word_less_nat_alt by simp_all
qed

section \<open>The steps of a commit\<close>

lemma dirty_in_disk: "cache_inv H s \<Longrightarrow> b \<in> dirty_blocks s \<Longrightarrow> b < disksize s"
  using cache_invD(1,7) [of H s] by (auto simp: dirty_blocks_iff buf_ok_def)

lemma write_head_spec:
  assumes "cache_inv {} s" "log_geom s" "0 \<le> lh_n s" "card (dirty_blocks s) < NBUF"
  defines "H \<equiv> put_hdr (lh_block s) (nat (lh_n s)) (ldisk s (log_start s))"
  shows "okr (write_head s) (\<lambda>_ t. cache_inv {} t \<and> bio_frame s t \<and> ldisk t = (ldisk s)(log_start s := H) \<and>
     disk t = (disk s)(log_start s := H) \<and> writes t = writes s @ [(log_start s, H)] \<and>
     dirty_blocks t = dirty_blocks s - {log_start s})"
proof -
  obtain i t where t: "bread 1 (log_start s) s = Ret i t" "bio_frame s t" "buf_data t i = ldisk s (log_start s)"
    and w: "\<forall>H. okr (bwrite i (set_data i H t)) (\<lambda>_ u. okr (brelse i u) (\<lambda>_ v. cache_inv {} v \<and> bio_frame s v \<and>
      ldisk v = (ldisk s)(log_start s := H) \<and> disk v = (disk s)(log_start s := H) \<and>
      writes v = writes s @ [(log_start s, H)] \<and> dirty_blocks v = dirty_blocks s - {log_start s}))"
    using bcache.write_through [OF assms(1) start_facts(2) [OF assms(2)] assms(4)]
    by (elim okrE conjE) (rule that; assumption)
  have H: "fold (\<lambda>i d. wr32 d (4 + 4 * i) (lh_block t ! i)) [0..<nat (lh_n t)]
      (wr32 (buf_data t i) 0 (word_of_int (lh_n t))) = H"
    using assms(3) by (simp add: H_def put_hdr_def t(3) log_frame [OF t(2)] del: of_int_of_nat_eq)
  have "log_dev s = 1"
    using assms(2) by (simp add: log_geom_def)
  then show ?thesis
    using w [rule_format, of H] by (simp add: write_head_def t(1) H Let_def)
qed

definition log_writes :: "'a log_state_scheme \<Rightarrow> (u32 \<times> bytes) list" where
  "log_writes s = map (\<lambda>i. (slot (log_start s) i, ldisk s (lh_block s ! i))) [0..<nat (lh_n s)]"

definition home_writes :: "'a log_state_scheme \<Rightarrow> (u32 \<times> bytes) list" where
  "home_writes s = map (\<lambda>i. (lh_block s ! i, ldisk s (slot (log_start s) i))) [0..<nat (lh_n s)]"

text \<open>The in-memory header describes blocks of the disk outside the log.\<close>

definition header_ok :: "'a log_state_scheme \<Rightarrow> bool" where
  "header_ok s \<longleftrightarrow> log_geom s \<and> 0 \<le> lh_n s \<and> lh_n s < log_size s \<and> set (logged s) \<inter> log_region s = {} \<and>
     (\<forall>b\<in>set (logged s). b < disksize s)"

lemma header_okD:
  assumes "header_ok s" "k < nat (lh_n s)"
  shows "int k < log_size s - 1" "lh_block s ! k \<in> set (logged s)" "lh_block s ! k < disksize s"
    "lh_block s ! k \<notin> log_region s" "nat (lh_n s) \<le> length (lh_block s)"
proof -
  have l: "length (lh_block s) = LOGSIZE" "lh_n s < int LOGSIZE"
    using assms(1) by (auto simp: header_ok_def log_geom_def)
  then show "nat (lh_n s) \<le> length (lh_block s)"
    by simp
  with assms(2) have "lh_block s ! k = logged s ! k" "k < length (logged s)"
    by (simp_all add: logged_def)
  then show "lh_block s ! k \<in> set (logged s)"
    by simp
  then show "lh_block s ! k < disksize s" "lh_block s ! k \<notin> log_region s"
    using assms(1) by (auto simp: header_ok_def)
  show "int k < log_size s - 1"
    using assms unfolding header_ok_def by linarith
qed

lemma log_writes_take: "k < nat (lh_n s) \<Longrightarrow>
   take (Suc k) (log_writes s) = take k (log_writes s) @ [(slot (log_start s) k, ldisk s (lh_block s ! k))]"
  by (simp add: log_writes_def take_Suc_conv_app_nth)

lemma home_writes_take: "k < nat (lh_n s) \<Longrightarrow>
   take (Suc k) (home_writes s) = take k (home_writes s) @ [(lh_block s ! k, ldisk s (slot (log_start s) k))]"
  by (simp add: home_writes_def take_Suc_conv_app_nth)

lemma log_writes_blocks:
  assumes "header_ok s"
  shows "fst ` set (log_writes s) \<subseteq> log_region s - {log_start s}"
proof
  fix b assume "b \<in> fst ` set (log_writes s)"
  then obtain k where "k < nat (lh_n s)" "b = slot (log_start s) k"
    by (auto simp: log_writes_def)
  then show "b \<in> log_region s - {log_start s}"
    using slot_facts(1,2) [of s k] header_okD(1) [OF assms] assms by (auto simp: header_ok_def)
qed

lemma home_writes_blocks:
  assumes "header_ok s"
  shows "fst ` set (home_writes s) = set (logged s)"
proof -
  have "nat (lh_n s) \<le> length (lh_block s)"
    using assms by (auto simp: header_ok_def log_geom_def)
  then have "set (logged s) = (!) (lh_block s) ` {..<nat (lh_n s)}"
    by (simp add: logged_def nth_image [symmetric] atLeast0LessThan [symmetric])
  then show ?thesis
    by (auto simp: home_writes_def image_image atLeast0LessThan)
qed

lemma logged_card: "header_ok s \<Longrightarrow> card (set (logged s)) < NBUF"
  by (rule le_less_trans [OF card_length]) (auto simp: header_ok_def log_geom_def logged_def)

lemmas bread_log_fields = log_more_fields [OF bread_more]

text \<open>Two reads in a row: the second one sees the configuration of the first.\<close>

lemma two_reads:
  "bindr (bread (log_dev s) (log_start s + of_nat k + 1) s) (\<lambda>i s. bindr (bread (log_dev s) (lh_block s ! k) s) (f i)) =
   bindr (bread (log_dev s) (slot (log_start s) k) s) (\<lambda>i t. bindr (bread (log_dev s) (lh_block s ! k) t) (f i))"
  by (rule bindr_cong) (simp_all add: slot_def bread_log_fields)

lemma write_log_spec:
  assumes inv: "cache_inv {} s" and ok: "header_ok s" and d: "dirty_blocks s = set (logged s)"
  shows "okr (write_log s) (\<lambda>_ t. cache_inv {} t \<and> bio_frame s t \<and> ldisk t = apply_writes (log_writes s) (ldisk s) \<and>
    disk t = apply_writes (log_writes s) (disk s) \<and> writes t = writes s @ log_writes s \<and> dirty_blocks t = dirty_blocks s)"
proof -
  let ?I = "\<lambda>k u. cache_inv {} u \<and> bio_frame s u \<and> ldisk u = apply_writes (take k (log_writes s)) (ldisk s) \<and>
    disk u = apply_writes (take k (log_writes s)) (disk s) \<and> writes u = writes s @ take k (log_writes s) \<and>
    dirty_blocks u = dirty_blocks s"
  have g: "log_geom s" "log_dev s = 1"
    using ok by (auto simp: header_ok_def log_geom_def)
  have "okr (write_log s) (\<lambda>_ t. ?I (nat (lh_n s)) t)"
    unfolding write_log_def
  proof (rule foreach_upt)
    show "?I 0 s" using inv by simp
    fix k u assume k: "k < nat (lh_n s)" and u: "?I k u"
    note fr = log_frame [of s u] and h = header_okD [OF ok k]
    let ?a = "slot (log_start s) k" and ?b = "lh_block s ! k"
    have fu: "log_dev u = 1" "log_start u = log_start s" "lh_block u = lh_block s"
      using fr u g by auto
    have sl: "?a \<in> log_region s" "?a < disksize s"
      using slot_facts [OF g(1) h(1)] by auto
    have home: "ldisk u ?b = ldisk s ?b"
      using u log_writes_blocks [OF ok] h(4) set_take_subset [of k "log_writes s"]
      by (auto intro!: apply_writes_other)
    have a: "?a \<noteq> ?b" "?a \<notin> dirty_blocks s"
      using sl h(4) ok by (auto simp: d header_ok_def)
    have "card (dirty_blocks u) < NBUF" "?b \<in> dirty_blocks u"
      using u d logged_card [OF ok] h(2) by auto
    with a have "okr (bindr (bread 1 ?a u) (\<lambda>to s. bindr (bread 1 ?b s) (\<lambda>from s.
        bindr (bwrite to (set_data to (buf_data s from) s)) (\<lambda>_ s. bindr (brelse from s) (\<lambda>_ s. brelse to s)))))
      (\<lambda>_ v. cache_inv {} v \<and> bio_frame u v \<and> ldisk v = (ldisk u)(?a := ldisk s ?b) \<and>
        disk v = (disk u)(?a := ldisk s ?b) \<and> writes v = writes u @ [(?a, ldisk s ?b)] \<and> dirty_blocks v = dirty_blocks u - {?a})"
      using u sl h(3) fr(9) unfolding home [symmetric] by (intro bcache.copy_dst_src) auto
    then show "okr (bindr (bread (log_dev u) (log_start u + of_nat k + 1) u) (\<lambda>to s.
        bindr (bread (log_dev s) (lh_block s ! k) s) (\<lambda>from s.
        bindr (bwrite to (set_data to (buf_data s from) s)) (\<lambda>_ s. bindr (brelse from s) (\<lambda>_ s. brelse to s)))))
      (\<lambda>_ t. ?I (Suc k) t)"
      unfolding two_reads unfolding fu
      by (rule okr_mono) (use u a(2) in \<open>auto simp: log_writes_take [OF k] apply_writes_append intro: bio_frame_trans\<close>)
  qed
  then show ?thesis
    by (simp add: log_writes_def)
qed

lemma install_trans_spec:
  assumes inv: "cache_inv {} s" and ok: "header_ok s"
    and d: "dirty_blocks s = {} \<or> (dirty_blocks s = set (logged s) \<and> distinct (logged s))"
  shows "okr (install_trans s) (\<lambda>_ t. cache_inv {} t \<and> bio_frame s t \<and>
    ldisk t = apply_writes (home_writes s) (ldisk s) \<and> disk t = apply_writes (home_writes s) (disk s) \<and>
    writes t = writes s @ home_writes s \<and> dirty_blocks t = {})"
proof -
  let ?I = "\<lambda>k u. cache_inv {} u \<and> bio_frame s u \<and> ldisk u = apply_writes (take k (home_writes s)) (ldisk s) \<and>
    disk u = apply_writes (take k (home_writes s)) (disk s) \<and> writes u = writes s @ take k (home_writes s) \<and>
    dirty_blocks u = dirty_blocks s - set (take k (logged s))"
  have g: "log_geom s" "log_dev s = 1"
    using ok by (auto simp: header_ok_def log_geom_def)
  have "okr (install_trans s) (\<lambda>_ t. ?I (nat (lh_n s)) t)"
    unfolding install_trans_def
  proof (rule foreach_upt)
    show "?I 0 s" using inv by simp
    fix k u assume k: "k < nat (lh_n s)" and u: "?I k u"
    note fr = log_frame [of s u] and h = header_okD [OF ok k]
    let ?a = "slot (log_start s) k" and ?b = "lh_block s ! k"
    have fu: "log_dev u = 1" "log_start u = log_start s" "lh_block u = lh_block s"
      using fr u g by auto
    have bk: "k < length (logged s)" "?b = logged s ! k"
      using k h(5) by (simp_all add: logged_def)
    have sl: "?a \<in> log_region s" "?a < disksize s"
      using slot_facts [OF g(1) h(1)] by auto
    have "?a \<notin> set (logged s)"
      using sl(1) ok by (auto simp: header_ok_def)
    then have src: "ldisk u ?a = ldisk s ?a"
      using u home_writes_blocks [OF ok] set_take_subset [of k "home_writes s"]
      by (auto intro!: apply_writes_other)
    have a: "?a \<noteq> ?b"
      using sl h(4) by auto
    have "?b \<in> dirty_blocks u \<or> dirty_blocks u = {}"
    proof (cases "dirty_blocks s = {}")
      case False
      then have "distinct (logged s)" "dirty_blocks s = set (logged s)"
        using d by auto
      moreover from this have "?b \<notin> set (take k (logged s))"
        using bk by (auto simp: in_set_conv_nth nth_eq_iff_index_eq)
      ultimately show ?thesis
        using u h(2) by auto
    qed (use u in auto)
    then have pins: "?b \<in> dirty_blocks u \<or> Suc (card (dirty_blocks u)) < NBUF"
      by auto
    have card: "card (dirty_blocks u) < NBUF"
    proof -
      have "dirty_blocks u \<subseteq> set (logged s)"
        using u d by auto
      from card_mono [OF finite_set this] show ?thesis
        using logged_card [OF ok] by linarith
    qed
    have "okr (bindr (bread 1 ?a u) (\<lambda>lb s. bindr (bread 1 ?b s) (\<lambda>db s.
        bindr (bwrite db (set_data db (buf_data s lb) s)) (\<lambda>_ s. bindr (brelse lb s) (\<lambda>_ s. brelse db s)))))
      (\<lambda>_ v. cache_inv {} v \<and> bio_frame u v \<and> ldisk v = (ldisk u)(?b := ldisk s ?a) \<and>
        disk v = (disk u)(?b := ldisk s ?a) \<and> writes v = writes u @ [(?b, ldisk s ?a)] \<and> dirty_blocks v = dirty_blocks u - {?b})"
      unfolding src [symmetric] by (rule bcache.copy_src_dst) (use u sl h(3) fr(9) a card pins in simp_all)
    moreover have "set (take (Suc k) (logged s)) = insert ?b (set (take k (logged s)))"
      using bk by (simp add: take_Suc_conv_app_nth)
    ultimately show "okr (bindr (bread (log_dev u) (log_start u + of_nat k + 1) u) (\<lambda>lb s.
        bindr (bread (log_dev s) (lh_block s ! k) s) (\<lambda>db s.
        bindr (bwrite db (set_data db (buf_data s lb) s)) (\<lambda>_ s. bindr (brelse lb s) (\<lambda>_ s. brelse db s)))))
      (\<lambda>_ t. ?I (Suc k) t)"
      unfolding two_reads unfolding fu
      by (elim okr_mono) (use u in \<open>auto simp: home_writes_take [OF k] apply_writes_append intro: bio_frame_trans\<close>)
  qed
  moreover have "dirty_blocks s - set (take (nat (lh_n s)) (logged s)) = {}"
    using d by (auto simp: logged_def)
  ultimately show ?thesis
    by (simp add: home_writes_def)
qed

section \<open>The commit as a sequence of writes\<close>

lemma cache_inv_cong:
  assumes "bufs t = bufs s" "lru t = lru s" "sleeplocks t = sleeplocks s" "disk t = disk s" "disksize t = disksize s"
    "procs t = procs s" "cpu_proc t = cpu_proc s" "this_cpu t = this_cpu s"
  shows "cache_inv H t = cache_inv H s" "ldisk t = ldisk s" "dirty_blocks t = dirty_blocks s"
proof -
  have "mypid t = mypid s" "in_proc t = in_proc s"
    using assms by (simp_all add: mypid_def myproc_def in_proc_def split: option.split)
  then show "cache_inv H t = cache_inv H s" "dirty_blocks t = dirty_blocks s"
    using assms by (simp_all add: cache_inv_def dirty_blocks_def)
  show "ldisk t = ldisk s"
    using assms by (intro ext) (simp add: ldisk_def split: option.split)
qed

lemma lh_n_upd [simp]:
  "cache_inv H (s\<lparr>lh_n := x\<rparr>) = cache_inv H s" "ldisk (s\<lparr>lh_n := x\<rparr>) = ldisk s"
  "dirty_blocks (s\<lparr>lh_n := x\<rparr>) = dirty_blocks s" "log_geom (s\<lparr>lh_n := x\<rparr>) = log_geom s"
  "log_region (s\<lparr>lh_n := x\<rparr>) = log_region s"
  by (rule cache_inv_cong; simp)+ (simp_all add: log_geom_def log_region_def)

lemma bio_frame_lh_n: "bio_frame s t \<Longrightarrow> bio_frame (s\<lparr>lh_n := x\<rparr>) (t\<lparr>lh_n := x\<rparr>)"
  by (cases s, cases t) (simp add: bio_frame_def)

lemma ldisk_clean:
  assumes "cache_inv {} s" "b \<notin> dirty_blocks s"
  shows "ldisk s b = disk s b"
proof (cases "\<exists>i<length (bufs s). cached b (bufs s ! i)")
  case True
  then obtain i where i: "i < length (bufs s)" "cached b (bufs s ! i)"
    by blast
  then have "\<not> dirty (bufs s ! i)"
    using assms(2) by (auto simp: dirty_blocks_iff cached_def)
  then show ?thesis
    using ldisk_cached [OF cache_invD(6) [OF assms(1)] i] cache_invD(1,7) [OF assms(1)] i
    by (auto simp: cached_def buf_ok_def)
qed (auto intro!: ldisk_uncached)

text \<open>Header as committed and as erased, and the blocks in between.\<close>

definition commit_hdr :: "'a log_state_scheme \<Rightarrow> bytes" where
  "commit_hdr s = put_hdr (lh_block s) (nat (lh_n s)) (ldisk s (log_start s))"

definition data_writes :: "'a log_state_scheme \<Rightarrow> (u32 \<times> bytes) list" where
  "data_writes s = map (\<lambda>i. (lh_block s ! i, ldisk s (lh_block s ! i))) [0..<nat (lh_n s)]"

definition commit_writes :: "'a log_state_scheme \<Rightarrow> (u32 \<times> bytes) list" where
  "commit_writes s = log_writes s @ (log_start s, commit_hdr s) # data_writes s @
     [(log_start s, put_hdr (lh_block s) 0 (commit_hdr s))]"

lemma log_okD:
  assumes "log_ok s" "cache_inv {} s"
  shows "header_ok s" "dirty_blocks s = set (logged s)" "distinct (logged s)" "log_start s \<notin> set (logged s)"
    "hdr_n (disk s (log_start s)) = 0" "log_geom s" "set (logged s) \<inter> log_region s = {}" "card (dirty_blocks s) < NBUF"
proof -
  show d: "dirty_blocks s = set (logged s)" and "distinct (logged s)" "hdr_n (disk s (log_start s)) = 0"
    and g: "log_geom s" and r: "set (logged s) \<inter> log_region s = {}"
    using assms(1) by (auto simp: log_ok_def)
  show h: "header_ok s"
    using assms dirty_in_disk [OF assms(2)] by (auto simp: log_ok_def header_ok_def)
  show "log_start s \<notin> set (logged s)"
    using start_facts(1) [OF g] r by auto
  show "card (dirty_blocks s) < NBUF"
    using logged_card [OF h] by (simp add: d)
qed

lemma distinct_log_writes: "header_ok s \<Longrightarrow> distinct (map fst (log_writes s))"
  using slot_inj [of s] header_okD(1) [of s] by (auto simp: log_writes_def distinct_map inj_on_def header_ok_def)

lemma commit_spec:
  assumes inv: "cache_inv {} s" and ok: "log_ok s" and pos: "0 < lh_n s"
  shows "okr (commit s) (\<lambda>_ t. cache_inv {} t \<and> bio_frame (s\<lparr>lh_n := 0\<rparr>) t \<and>
    ldisk t = apply_writes (commit_writes s) (ldisk s) \<and> disk t = apply_writes (commit_writes s) (disk s) \<and>
    writes t = writes s @ commit_writes s \<and> dirty_blocks t = {})"
proof -
  note L = log_okD [OF ok inv]
  obtain t1 where t1: "write_log s = Ret () t1" "cache_inv {} t1" "bio_frame s t1"
      "ldisk t1 = apply_writes (log_writes s) (ldisk s)" "disk t1 = apply_writes (log_writes s) (disk s)"
      "writes t1 = writes s @ log_writes s" "dirty_blocks t1 = dirty_blocks s"
    using write_log_spec [OF inv L(1,2)] by (auto simp: okr_iff)
  note f1 = log_frame [OF t1(3)]
  have "ldisk t1 (log_start s) = ldisk s (log_start s)"
    using log_writes_blocks [OF L(1)] unfolding t1(4) by (intro apply_writes_other) auto
  then obtain t2 where t2: "write_head t1 = Ret () t2" "cache_inv {} t2" "bio_frame t1 t2"
      "ldisk t2 = (ldisk t1)(log_start s := commit_hdr s)" "disk t2 = (disk t1)(log_start s := commit_hdr s)"
      "writes t2 = writes t1 @ [(log_start s, commit_hdr s)]" "dirty_blocks t2 = dirty_blocks s"
    using write_head_spec [OF t1(2)] pos L f1 t1(7) by (auto simp: okr_iff commit_hdr_def)
  note f2 = log_frame [OF t2(3)]
  have "home_writes t2 = data_writes s"
  proof -
    have "ldisk t2 (slot (log_start s) i) = ldisk s (lh_block s ! i)" if "i < nat (lh_n s)" for i
    proof -
      have "(slot (log_start s) i, ldisk s (lh_block s ! i)) \<in> set (log_writes s)"
        using that by (auto simp: log_writes_def)
      then show ?thesis
        using slot_facts(2) [OF L(6) header_okD(1) [OF L(1) that]] apply_writes_in [OF distinct_log_writes [OF L(1)]]
        unfolding t2(4) t1(4) by simp
    qed
    then show ?thesis
      by (simp add: home_writes_def data_writes_def f1 f2)
  qed
  moreover have "header_ok t2"
    using L(1) by (simp add: header_ok_def f1 f2)
  ultimately obtain t3 where t3: "install_trans t2 = Ret () t3" "cache_inv {} t3" "bio_frame t2 t3"
      "ldisk t3 = apply_writes (data_writes s) (ldisk t2)" "disk t3 = apply_writes (data_writes s) (disk t2)"
      "writes t3 = writes t2 @ data_writes s" "dirty_blocks t3 = {}"
    using install_trans_spec [OF t2(2)] t2(7) L(2,3) by (auto simp: okr_iff f1 f2)
  note f3 = log_frame [OF t3(3)]
  have fr: "bio_frame (s\<lparr>lh_n := 0\<rparr>) (t3\<lparr>lh_n := 0\<rparr>)"
    by (intro bio_frame_lh_n bio_frame_trans [OF t1(3) bio_frame_trans [OF t2(3) t3(3)]])
  have "fst ` set (data_writes s) = set (logged s)"
    using home_writes_blocks [OF L(1)] by (simp add: data_writes_def home_writes_def image_image)
  then have "ldisk t3 (log_start s) = commit_hdr s"
    using L(4) unfolding t3(4) by (subst apply_writes_other) (simp_all add: t2(4))
  moreover have "log_geom t3"
    using L(6) by (simp add: f1 f2 f3)
  ultimately obtain t4 where "write_head (t3\<lparr>lh_n := 0\<rparr>) = Ret () t4" "cache_inv {} t4" "bio_frame (t3\<lparr>lh_n := 0\<rparr>) t4"
      "ldisk t4 = (ldisk t3)(log_start s := put_hdr (lh_block s) 0 (commit_hdr s))"
      "disk t4 = (disk t3)(log_start s := put_hdr (lh_block s) 0 (commit_hdr s))"
      "writes t4 = writes t3 @ [(log_start s, put_hdr (lh_block s) 0 (commit_hdr s))]" "dirty_blocks t4 = {}"
    using write_head_spec [of "t3\<lparr>lh_n := 0\<rparr>"] t3(2,7) by (auto simp: okr_iff f1 f2 f3)
  then show ?thesis
    using pos t1 t2 t3 bio_frame_trans [OF fr]
    by (simp add: commit_def commit_writes_def apply_writes_append)
qed

section \<open>Crash atomicity\<close>

lemma hdr_list_empty: "hdr_n d = 0 \<Longrightarrow> hdr_list d = []"
  by (simp add: hdr_list_def)

lemma recover_empty: "hdr_n (dk st) = 0 \<Longrightarrow> recover_disk st dk = dk"
  by (simp add: recover_disk_def hdr_list_empty)

lemma data_writes_blocks: "header_ok s \<Longrightarrow> fst ` set (data_writes s) = set (logged s)"
  using home_writes_blocks [of s] by (simp add: data_writes_def home_writes_def image_image)

lemma logged_nth: "header_ok s \<Longrightarrow> length (logged s) = nat (lh_n s)"
  "header_ok s \<Longrightarrow> i < nat (lh_n s) \<Longrightarrow> logged s ! i = lh_block s ! i"
  by (auto simp: logged_def header_ok_def log_geom_def)

lemma data_writes_value:
  assumes "header_ok s" "b \<in> set (logged s)"
  shows "apply_writes (data_writes s) dk b = ldisk s b"
proof -
  have gen: "apply_writes ws dk b = v"
    if "\<And>w. w \<in> set ws \<Longrightarrow> fst w = b \<Longrightarrow> snd w = v" "b \<in> fst ` set ws" for ws :: "(u32 \<times> bytes) list" and v dk
    using that
  proof (induction ws arbitrary: dk)
    case (Cons w ws)
    show ?case
    proof (cases "b \<in> fst ` set ws")
      case False
      then have "fst w = b"
        using Cons.prems(2) by auto
      then show ?thesis
        using False Cons.prems(1) [of w] by (simp add: apply_writes_other)
    qed (use Cons in auto)
  qed simp
  show ?thesis
    by (rule gen) (use assms data_writes_blocks [OF assms(1)] in \<open>auto simp: data_writes_def\<close>)
qed

text \<open>
  The disk after the first \<open>k\<close> writes of a commit, recovered: the old data blocks as long as the
  header has not been written, the new ones from then on.
\<close>

lemma recover_prefix_log:
  assumes "header_ok s" "hdr_n (disk s (log_start s)) = 0" "k \<le> nat (lh_n s)" "b \<notin> log_region s"
  shows "recover_disk (log_start s) (apply_writes (take k (log_writes s)) (disk s)) b = disk s b"
proof -
  have out: "apply_writes (take k (log_writes s)) (disk s) c = disk s c" if "c \<notin> log_region s - {log_start s}" for c
    using that log_writes_blocks [OF assms(1)] set_take_subset [of k "log_writes s"]
    by (intro apply_writes_other) blast
  have "hdr_n (apply_writes (take k (log_writes s)) (disk s) (log_start s)) = 0"
    using out [of "log_start s"] assms(2) by simp
  then show ?thesis
    using out [of b] assms(4) by (simp add: recover_empty)
qed

lemma recover_prefix_data:
  fixes j :: nat
  assumes h: "header_ok s" and c: "\<And>b. b \<notin> set (logged s) \<Longrightarrow> ldisk s b = disk s b" and b: "b \<notin> log_region s"
  defines "dk \<equiv> apply_writes (take j (data_writes s))
     ((apply_writes (log_writes s) (disk s))(log_start s := commit_hdr s))"
  shows "recover_disk (log_start s) dk b = ldisk s b"
proof -
  let ?n = "nat (lh_n s)"
  have n: "?n < 1000" "?n \<le> length (lh_block s)" and g: "log_geom s"
    using h by (auto simp: header_ok_def log_geom_def)
  have notin: "x \<notin> fst ` set (take j (data_writes s))" if "x \<notin> set (logged s)" for x
    using that data_writes_blocks [OF h] set_take_subset [of j "data_writes s"] by blast
  have reg: "x \<notin> set (logged s)" if "x \<in> log_region s" for x
    using that h by (auto simp: header_ok_def)
  have "dk (log_start s) = commit_hdr s"
    using notin [OF reg [OF start_facts(1) [OF g]]] by (simp add: dk_def apply_writes_other)
  then have hl: "hdr_list (dk (log_start s)) = logged s"
    using n by (simp add: commit_hdr_def logged_def)
  have "dk (slot (log_start s) i) = ldisk s (lh_block s ! i)" if i: "i < ?n" for i
  proof -
    note sf = slot_facts [OF g header_okD(1) [OF h i]]
    have "(slot (log_start s) i, ldisk s (lh_block s ! i)) \<in> set (log_writes s)"
      using i by (auto simp: log_writes_def)
    then show ?thesis
      using sf(2) notin [OF reg [OF sf(1)]] apply_writes_in [OF distinct_log_writes [OF h]]
      by (simp add: dk_def apply_writes_other)
  qed
  then have r: "recover_disk (log_start s) dk = apply_writes (data_writes s) dk"
    using logged_nth [OF h] unfolding recover_disk_def hl data_writes_def
    by (intro arg_cong [where f = "\<lambda>ws. apply_writes ws dk"]) simp
  show ?thesis
  proof (cases "b \<in> set (logged s)")
    case True
    then show ?thesis by (simp add: r data_writes_value [OF h])
  next
    case False
    have "b \<noteq> log_start s" "b \<notin> fst ` set (log_writes s)"
      using b start_facts(1) [OF g] log_writes_blocks [OF h] by auto
    then have "dk b = disk s b"
      using notin [OF False] by (simp add: dk_def apply_writes_other)
    then show ?thesis
      using False c data_writes_blocks [OF h] by (simp add: r apply_writes_other)
  qed
qed

lemma recover_commit_prefix:
  assumes ok: "log_ok s" and inv: "cache_inv {} s" and b: "b \<notin> log_region s"
  shows "recover_disk (log_start s) (apply_writes (take k (commit_writes s)) (disk s)) b =
         (if k \<le> nat (lh_n s) then disk s b else ldisk s b)"
proof -
  note L = log_okD [OF ok inv]
  let ?n = "nat (lh_n s)"
  have len: "length (log_writes s) = ?n" "length (data_writes s) = ?n"
    by (simp_all add: log_writes_def data_writes_def)
  have c: "ldisk s x = disk s x" if "x \<notin> set (logged s)" for x
    using ldisk_clean [OF inv] that L(2) by simp
  consider "k \<le> ?n" | "?n < k" "k \<le> ?n + Suc ?n" | "?n + Suc ?n < k"
    by linarith
  then show ?thesis
  proof cases
    case 1
    then show ?thesis
      using recover_prefix_log [OF L(1,5) _ b, of k] by (simp add: commit_writes_def len)
  next
    case 2
    then obtain j where "k = ?n + Suc j" "j \<le> ?n"
      by (intro that [of "k - Suc ?n"]) simp_all
    then show ?thesis
      using recover_prefix_data [OF L(1) c b, of j] by (simp add: commit_writes_def len apply_writes_append)
  next
    case 3
    let ?dk = "apply_writes (data_writes s) ((apply_writes (log_writes s) (disk s))(log_start s := commit_hdr s))"
    have t: "take k (commit_writes s) = commit_writes s"
      using 3 by (simp add: commit_writes_def len)
    have "apply_writes (commit_writes s) (disk s) = ?dk(log_start s := put_hdr (lh_block s) 0 (commit_hdr s))"
      by (simp add: commit_writes_def apply_writes_append)
    moreover have "b \<noteq> log_start s"
      using b start_facts(1) [OF L(6)] by auto
    moreover have "?dk b = ldisk s b"
    proof (cases "b \<in> set (logged s)")
      case False
      have "b \<notin> fst ` set (log_writes s)"
        using b log_writes_blocks [OF L(1)] by auto
      then show ?thesis
        using False c \<open>b \<noteq> log_start s\<close> data_writes_blocks [OF L(1)] by (simp add: apply_writes_other)
    qed (simp add: data_writes_value [OF L(1)])
    ultimately show ?thesis
      using 3 by (simp add: t recover_empty)
  qed
qed

text \<open>The state a commit ends in.\<close>

lemma commit_final:
  assumes inv: "cache_inv {} s" and ok: "log_ok s"
  shows "okr (commit s) (\<lambda>_ t. \<exists>ws. cache_inv {} t \<and> log_ok t \<and> lh_n t = 0 \<and> bio_frame (s\<lparr>lh_n := 0\<rparr>) t \<and>
    writes t = writes s @ ws \<and> disk t = apply_writes ws (disk s) \<and>
    (\<forall>b. b \<notin> log_region s \<longrightarrow> disk t b = ldisk s b \<and> ldisk t b = ldisk s b) \<and>
    (\<forall>k b. b \<notin> log_region s \<longrightarrow> recover_disk (log_start s) (apply_writes (take k ws) (disk s)) b =
       (if k \<le> nat (lh_n s) then disk s b else ldisk s b)))"
proof (cases "0 < lh_n s")
  case False
  note L = log_okD [OF ok inv]
  have "lh_n s = 0"
    using False ok by (simp add: log_ok_def)
  then have "s\<lparr>lh_n := 0\<rparr> = s" and "dirty_blocks s = {}"
    using L(2) by (simp_all add: logged_def)
  then have "ldisk s b = disk s b" for b
    using ldisk_clean [OF inv] by simp
  moreover have "bio_frame (s\<lparr>lh_n := 0\<rparr>) s"
    unfolding \<open>s\<lparr>lh_n := 0\<rparr> = s\<close> by simp
  ultimately show ?thesis
    using False inv ok \<open>lh_n s = 0\<close> recover_empty [of "disk s" "log_start s"] L(5)
    by (simp add: commit_def exI [of _ "[]"])
next
  case True
  note L = log_okD [OF ok inv]
  obtain t where t: "commit s = Ret () t" "cache_inv {} t" "bio_frame (s\<lparr>lh_n := 0\<rparr>) t"
      "ldisk t = apply_writes (commit_writes s) (ldisk s)" "disk t = apply_writes (commit_writes s) (disk s)"
      "writes t = writes s @ commit_writes s" "dirty_blocks t = {}"
    using commit_spec [OF inv ok True] by (auto simp: okr_iff)
  note f = log_frame [OF t(3), simplified]
  have rec: "recover_disk (log_start s) (apply_writes (take k (commit_writes s)) (disk s)) b =
       (if k \<le> nat (lh_n s) then disk s b else ldisk s b)" if "b \<notin> log_region s" for k b
    by (rule recover_commit_prefix [OF ok inv that])
  have h0: "hdr_n (disk t (log_start s)) = 0"
    by (simp add: t(5) commit_writes_def apply_writes_append)
  have dk: "disk t b = ldisk s b" if "b \<notin> log_region s" for b
    using rec [OF that, of "length (commit_writes s)"] recover_empty [of "disk t" "log_start s", OF h0]
    by (simp add: t(5) commit_writes_def log_writes_def)
  have "log_ok t"
    using L(6) h0 f t(7) by (simp add: log_ok_def logged_def log_geom_def)
  moreover have "ldisk t b = ldisk s b" if "b \<notin> log_region s" for b
    using dk [OF that] ldisk_clean [OF t(2)] t(7) by simp
  ultimately show ?thesis
    unfolding t(1) okr.simps by (intro exI [of _ "commit_writes s"]) (use t dk rec f in simp)
qed

section \<open>Recovery\<close>

lemma apply_writes_base: "b \<in> fst ` set ws \<Longrightarrow> apply_writes ws dk b = apply_writes ws dk' b"
proof (induction ws arbitrary: dk dk')
  case (Cons w ws)
  show ?case
  proof (cases "b \<in> fst ` set ws")
    case True
    then show ?thesis by (simp add: Cons.IH)
  next
    case False
    with Cons.prems show ?thesis by (auto simp: apply_writes_other)
  qed
qed simp

lemma fold_update:
  assumes "n \<le> length bs"
  shows "take n (fold (\<lambda>i bs. bs[i := f i]) [0..<n] bs) = map f [0..<n]"
    and "length (fold (\<lambda>i bs. bs[i := f i]) [0..<n] bs) = length bs"
proof -
  show len: "length (fold (\<lambda>i bs. bs[i := f i]) [0..<m] bs) = length bs" for m
    by (induction m) simp_all
  show "take n (fold (\<lambda>i bs. bs[i := f i]) [0..<n] bs) = map f [0..<n]"
    using assms
  proof (induction n)
    case (Suc n)
    then show ?case
      by (simp add: len take_Suc_conv_app_nth)
  qed simp
qed

text \<open>
  The header on disk is well formed: what \<^verbatim>\<open>write_head\<close> leaves there, and what recovery relies on.
\<close>

definition disk_hdr_ok :: "'a log_state_scheme \<Rightarrow> bool" where
  "disk_hdr_ok s \<longleftrightarrow> log_geom s \<and> 0 \<le> hdr_n (disk s (log_start s)) \<and> hdr_n (disk s (log_start s)) < log_size s \<and>
     set (hdr_list (disk s (log_start s))) \<inter> log_region s = {} \<and>
     (\<forall>b\<in>set (hdr_list (disk s (log_start s))). b < disksize s)"

lemma header_upd [simp]:
  "cache_inv H (s\<lparr>lh_n := x, lh_block := y\<rparr>) = cache_inv H s" "ldisk (s\<lparr>lh_n := x, lh_block := y\<rparr>) = ldisk s"
  "dirty_blocks (s\<lparr>lh_n := x, lh_block := y\<rparr>) = dirty_blocks s"
  "log_region (s\<lparr>lh_n := x, lh_block := y\<rparr>) = log_region s"
  by (rule cache_inv_cong; simp)+ (simp_all add: log_region_def)

lemma bio_frame_header: "bio_frame s t \<Longrightarrow> bio_frame (s\<lparr>lh_n := x, lh_block := y\<rparr>) (t\<lparr>lh_n := x, lh_block := y\<rparr>)"
  by (cases s, cases t) (simp add: bio_frame_def)

lemma read_head_spec:
  assumes inv: "cache_inv {} s" and d: "dirty_blocks s = {}" and ok: "disk_hdr_ok s"
  shows "okr (read_head s) (\<lambda>_ t. \<exists>y. cache_inv {} t \<and> bio_frame (s\<lparr>lh_n := hdr_n (disk s (log_start s)), lh_block := y\<rparr>) t \<and>
     length y = LOGSIZE \<and> take (nat (hdr_n (disk s (log_start s)))) y = hdr_list (disk s (log_start s)) \<and>
     ldisk t = ldisk s \<and> disk t = disk s \<and> writes t = writes s \<and> dirty_blocks t = {})"
proof -
  let ?h = "disk s (log_start s)"
  have g: "log_geom s" "log_dev s = 1" "length (lh_block s) = LOGSIZE" "nat (hdr_n ?h) \<le> LOGSIZE"
    using ok by (auto simp: disk_hdr_ok_def log_geom_def)
  obtain i t where t: "bread 1 (log_start s) s = Ret i t" "cache_inv {i} t" "bio_frame s t" "ldisk t = ldisk s"
      "disk t = disk s" "writes t = writes s" "dirty_blocks t = dirty_blocks s" "b_blockno (bufs t ! i) = log_start s"
      "buf_data t i = ldisk s (log_start s)" "dirty (bufs t ! i) \<or> buf_data t i = disk s (log_start s)"
    using bcache.rd_free [OF inv start_facts(2) [OF g(1)]] d by (auto simp: okr_iff)
  have dat: "buf_data t i = ?h"
    using t(9) ldisk_clean [OF inv] d by simp
  define y where "y = fold (\<lambda>j bs. bs[j := rd32 ?h (4 + 4 * j)]) [0..<nat (hdr_n ?h)] (lh_block s)"
  let ?t = "t\<lparr>lh_n := hdr_n ?h, lh_block := y\<rparr>"
  have y: "length y = LOGSIZE" "take (nat (hdr_n ?h)) y = hdr_list ?h"
    using fold_update [of "nat (hdr_n ?h)" "lh_block s" "\<lambda>j. rd32 ?h (4 + 4 * j)"] g(3,4)
    by (simp_all add: y_def hdr_list_def)
  have "cache_inv {i} ?t" "i \<in> {i}" "dirty (bufs ?t ! i) \<or> buf_data ?t i = disk ?t (b_blockno (bufs ?t ! i))"
    using t dat by auto
  from brelse_spec [OF this] obtain u where u: "brelse i ?t = Ret () u" "cache_inv {} u" "same_view ?t u"
    by (auto simp: okr_iff)
  have "read_head s = Ret () u"
    using u(1) log_frame(7) [OF t(3)] by (simp add: read_head_def g(2) t(1) dat Let_def y_def hdr_n_def)
  moreover have "bio_frame (s\<lparr>lh_n := hdr_n ?h, lh_block := y\<rparr>) u"
    using bio_frame_trans [OF bio_frame_header [OF t(3)]] u(3) by (auto simp: same_view_def)
  ultimately show ?thesis
    using u t y d by (auto simp: same_view_def)
qed

text \<open>The home blocks as recovery writes them, and the effect of a crash during recovery.\<close>

definition recover_writes :: "u32 \<Rightarrow> (u32 \<Rightarrow> bytes) \<Rightarrow> (u32 \<times> bytes) list" where
  "recover_writes st dk = map (\<lambda>i. (hdr_list (dk st) ! i, dk (slot st i))) [0..<length (hdr_list (dk st))]"

lemma recover_writes_blocks: "fst ` set (recover_writes st dk) = set (hdr_list (dk st))"
proof -
  have "map fst (recover_writes st dk) = hdr_list (dk st)"
    by (simp add: recover_writes_def comp_def map_nth)
  then show ?thesis
    by (metis set_map)
qed

lemma recover_disk_writes: "recover_disk st dk = apply_writes (recover_writes st dk) dk"
  by (simp add: recover_disk_def recover_writes_def)

lemma recover_again:
  assumes ok: "disk_hdr_ok s" and b: "b \<notin> log_region s" and e: "hdr_n e = 0"
  defines "st \<equiv> log_start s"
  shows "recover_disk st (apply_writes (take k (recover_writes st (disk s) @ [(st, e)])) (disk s)) b =
         recover_disk st (disk s) b"
proof (cases "k \<le> length (recover_writes st (disk s))")
  case True
  let ?ws = "recover_writes st (disk s)" and ?dk = "apply_writes (take k (recover_writes st (disk s))) (disk s)"
  have g: "log_geom s"
    using ok by (simp add: disk_hdr_ok_def)
  have keep: "?dk x = disk s x" if "x \<in> log_region s" for x
    using that ok set_take_subset [of k ?ws] recover_writes_blocks [of st "disk s"]
    by (intro apply_writes_other) (auto simp: disk_hdr_ok_def st_def)
  have "?dk st = disk s st"
    using keep start_facts(1) [OF g] by (simp add: st_def)
  moreover have "?dk (slot st i) = disk s (slot st i)" if "i < length (hdr_list (disk s st))" for i
  proof -
    have "int i < log_size s - 1"
      using that ok by (auto simp: disk_hdr_ok_def hdr_list_def st_def)
    then show ?thesis
      using keep slot_facts(1) [OF g] by (simp add: st_def)
  qed
  ultimately have "recover_writes st ?dk = ?ws"
    by (simp add: recover_writes_def)
  then have "recover_disk st ?dk b = apply_writes ?ws ?dk b"
    by (simp add: recover_disk_writes)
  also have "\<dots> = apply_writes ?ws (disk s) b"
  proof (cases "b \<in> fst ` set ?ws")
    case False
    then have "b \<notin> fst ` set (take k ?ws)"
      using set_take_subset [of k ?ws] by auto
    with False show ?thesis by (simp add: apply_writes_other)
  qed (rule apply_writes_base)
  finally show ?thesis
    using True by (simp add: recover_disk_writes)
next
  case False
  let ?dk = "apply_writes (recover_writes st (disk s)) (disk s)"
  have "b \<noteq> st"
    using b start_facts(1) [of s] ok by (auto simp: st_def disk_hdr_ok_def)
  then show ?thesis
    using False e by (simp add: apply_writes_append recover_disk_writes [of st "disk s"] recover_empty)
qed

lemma recover_from_log_spec:
  assumes inv: "cache_inv {} s" and d: "dirty_blocks s = {}" and ok: "disk_hdr_ok s"
  shows "okr (recover_from_log s) (\<lambda>_ t. \<exists>e. cache_inv {} t \<and> log_ok t \<and> lh_n t = 0 \<and>
     log_region t = log_region s \<and> log_start t = log_start s \<and> hdr_n e = 0 \<and>
     disk t = (recover_disk (log_start s) (disk s))(log_start s := e) \<and> ldisk t = disk t \<and>
     writes t = writes s @ recover_writes (log_start s) (disk s) @ [(log_start s, e)])"
proof -
  let ?h = "disk s (log_start s)"
  obtain t y where t: "read_head s = Ret () t" "cache_inv {} t" "bio_frame (s\<lparr>lh_n := hdr_n ?h, lh_block := y\<rparr>) t"
      "length y = LOGSIZE" "take (nat (hdr_n ?h)) y = hdr_list ?h" "ldisk t = ldisk s" "disk t = disk s"
      "writes t = writes s" "dirty_blocks t = {}"
    using read_head_spec [OF assms] by (auto simp: okr_iff)
  note f = log_frame [OF t(3), simplified]
  have lg: "logged t = hdr_list ?h"
    using t(5) f by (simp add: logged_def)
  have g: "log_geom t" and n: "nat (lh_n t) = length (hdr_list ?h)"
    using ok f t(4) by (auto simp: log_geom_def disk_hdr_ok_def hdr_list_def)
  have h: "header_ok t"
    using ok f g lg by (auto simp: header_ok_def disk_hdr_ok_def)
  have "ldisk t x = disk s x" for x
    using ldisk_clean [OF t(2)] t(7,9) by simp
  moreover have "hdr_list ?h ! i = lh_block t ! i" if "i < nat (lh_n t)" for i
    using logged_nth(2) [OF h that] lg by simp
  ultimately have hw: "home_writes t = recover_writes (log_start s) (disk s)"
    unfolding home_writes_def recover_writes_def n [symmetric] f(1) by (intro map_cong) simp_all
  obtain u where u: "install_trans t = Ret () u" "cache_inv {} u" "bio_frame t u"
      "disk u = apply_writes (home_writes t) (disk t)" "writes u = writes t @ home_writes t" "dirty_blocks u = {}"
    using install_trans_spec [OF t(2) h] t(9) by (auto simp: okr_iff)
  note fu = log_frame [OF u(3)]
  define e where "e = put_hdr (lh_block u) 0 (ldisk u (log_start u))"
  obtain v where v: "write_head (u\<lparr>lh_n := 0\<rparr>) = Ret () v" "cache_inv {} v" "bio_frame (u\<lparr>lh_n := 0\<rparr>) v"
      "disk v = (disk u)(log_start u := e)" "writes v = writes u @ [(log_start u, e)]" "dirty_blocks v = {}"
    using write_head_spec [of "u\<lparr>lh_n := 0\<rparr>"] u(2,6) g fu by (auto simp: okr_iff e_def)
  note fv = log_frame [OF v(3), simplified]
  have e: "hdr_n e = 0"
    by (simp add: e_def)
  have "log_ok v"
    using g e v(4,6) by (simp add: log_ok_def logged_def fv fu log_geom_def)
  moreover have "ldisk v = disk v"
    using ldisk_clean [OF v(2)] v(6) by (intro ext) simp
  ultimately show ?thesis
    using t(1,7,8) u(1,4,5) v e f fu fv hw by (simp add: recover_from_log_def recover_disk_writes)
qed

section \<open>Logging a write\<close>

lemma lh_block_frame: "bio_frame s (mark_dirty i s)"
  by (simp add: mark_dirty_def)

lemma log_write_spec:
  assumes inv: "cache_inv H s" and i: "i \<in> H" and ok: "log_ok s" and o: "1 \<le> log_outstanding s"
    and room: "lh_n s < log_size s - 1" and r: "b_blockno (bufs s ! i) \<notin> log_region s"
  defines "n \<equiv> b_blockno (bufs s ! i)"
  shows "okr (log_write i s) (\<lambda>_ t. cache_inv H t \<and> log_ok t \<and> ldisk t = ldisk s \<and> disk t = disk s \<and> writes t = writes s \<and>
     lh_n s \<le> lh_n t \<and> lh_n t \<le> lh_n s + 1 \<and> set (logged t) = insert n (set (logged s)) \<and>
     bio_frame (s\<lparr>lh_n := lh_n t, lh_block := lh_block t\<rparr>) t \<and> dirty (bufs t ! i) \<and>
     b_blockno (bufs t ! i) = n \<and> buf_data t i = buf_data s i \<and> (\<forall>j. j \<noteq> i \<longrightarrow> bufs t ! j = bufs s ! j))"
proof -
  let ?m = "nat (lh_n s)"
  have g: "log_geom s" "0 \<le> lh_n s" "lh_n s < int LOGSIZE" "length (lh_block s) = LOGSIZE" "log_size s \<le> int LOGSIZE"
    using ok by (auto simp: log_ok_def log_geom_def)
  define k where "k = (case first_index (\<lambda>x. x = n) (logged s) of Some i \<Rightarrow> i | None \<Rightarrow> ?m)"
  define s' where "s' = s\<lparr>lh_block := (lh_block s)[k := n], lh_n := (if int k = lh_n s then lh_n s + 1 else lh_n s)\<rparr>"
  have len: "length (logged s) = ?m"
    using g by (simp add: logged_def)
  have "logged s' = (if n \<in> set (logged s) then logged s else logged s @ [n])"
  proof (cases "first_index (\<lambda>x. x = n) (logged s)")
    case None
    then have "k = ?m"
      by (simp add: k_def)
    moreover have "n \<notin> set (logged s)"
      using None by (auto simp: first_index_None)
    moreover have "nat (lh_n s + 1) = Suc ?m"
      using g(2) by simp
    ultimately show ?thesis
      using g by (simp add: s'_def logged_def take_Suc_conv_app_nth)
  next
    case (Some j)
    then have "k = j" "j < ?m" "logged s ! j = n" "n \<in> set (logged s)"
      using first_indexD [OF Some] len by (auto simp: k_def)
    then show ?thesis
      using g by (auto simp: s'_def logged_def list_update_same_conv take_update_swap)
  qed
  then have lg: "set (logged s') = insert n (set (logged s))" "distinct (logged s')"
    using ok by (auto simp: log_ok_def insert_absorb)
  have w: "log_write i s = Ret () (mark_dirty i s')"
    using room g o by (simp add: log_write_def Let_def n_def [symmetric] k_def s'_def logged_def)
  have s': "bufs s' = bufs s" "cache_inv H s'" "ldisk s' = ldisk s" "dirty_blocks s' = dirty_blocks s" "disk s' = disk s"
      "writes s' = writes s" "log_region s' = log_region s" "log_start s' = log_start s" "log_size s' = log_size s"
      "log_geom s' = log_geom s"
    using cache_inv_cong(1) [of s' s H] cache_inv_cong(2,3) [of s' s] inv
    by (simp_all add: s'_def log_region_def log_geom_def)
  note m = mark_dirty_spec [OF s'(2) i]
  have f: "logged (mark_dirty i s') = logged s'" "lh_n (mark_dirty i s') = lh_n s'" "lh_block (mark_dirty i s') = lh_block s'"
      "log_region (mark_dirty i s') = log_region s" "log_start (mark_dirty i s') = log_start s"
      "log_size (mark_dirty i s') = log_size s" "log_geom (mark_dirty i s') = log_geom s"
    using log_frame [OF m(6)] s' by simp_all
  have n': "lh_n s \<le> lh_n s'" "lh_n s' \<le> lh_n s + 1"
    by (simp_all add: s'_def)
  have "bio_frame (s\<lparr>lh_n := lh_n s', lh_block := lh_block s'\<rparr>) s'"
    by (cases s) (simp add: bio_frame_def s'_def)
  then have fr: "bio_frame (s\<lparr>lh_n := lh_n s', lh_block := lh_block s'\<rparr>) (mark_dirty i s')"
    using m(6) by (rule bio_frame_trans)
  have "log_ok (mark_dirty i s')"
    using ok lg r n' room g m(3-5) f s' by (auto simp: log_ok_def n_def)
  then show ?thesis
    using w m f s' n' lg fr by (auto simp: n_def)
qed

section \<open>The contract the file system relies on\<close>

text \<open>
  Inside a transaction the file system reads a block, changes it, logs the change and releases it.
  \<open>inv H s\<close>: the caller holds the buffers \<open>H\<close>; \<open>view\<close> is the disk with all logged changes; a
  buffer is \<open>settled\<close> when its contents are logged or equal to the disk; \<open>used\<close> blocks of the log
  are taken out of \<open>cap\<close>; \<open>home\<close> blocks are those the log may protect.
\<close>

locale logged_blocks =
  fixes rd :: "u32 \<Rightarrow> 's \<Rightarrow> (nat, 's) kres"
    and lw :: "nat \<Rightarrow> 's \<Rightarrow> (unit, 's) kres"
    and rel :: "nat \<Rightarrow> 's \<Rightarrow> (unit, 's) kres"
    and put :: "nat \<Rightarrow> bytes \<Rightarrow> 's \<Rightarrow> 's"
    and inv :: "nat set \<Rightarrow> 's \<Rightarrow> bool"
    and blk :: "'s \<Rightarrow> nat \<Rightarrow> u32"
    and dat :: "'s \<Rightarrow> nat \<Rightarrow> bytes"
    and settled :: "'s \<Rightarrow> nat \<Rightarrow> bool"
    and view :: "'s \<Rightarrow> u32 \<Rightarrow> bytes"
    and used :: "'s \<Rightarrow> nat"
    and cap :: "'s \<Rightarrow> nat"
    and home :: "'s \<Rightarrow> u32 \<Rightarrow> bool"
    and frame :: "'s \<Rightarrow> 's \<Rightarrow> bool"
  assumes frame_refl: "frame s s"
    and frame_trans: "frame s t \<Longrightarrow> frame t u \<Longrightarrow> frame s u"
    and frame_cap: "frame s t \<Longrightarrow> cap t = cap s"
    and frame_home: "frame s t \<Longrightarrow> home t = home s"
    and rd_law: "inv H s \<Longrightarrow> home s n \<Longrightarrow> (\<And>j. j \<in> H \<Longrightarrow> blk s j \<noteq> n) \<Longrightarrow> card H + used s < NBUF \<Longrightarrow>
      okr (rd n s) (\<lambda>i t. i \<notin> H \<and> inv (insert i H) t \<and> frame s t \<and> view t = view s \<and> used t = used s \<and>
        blk t i = n \<and> dat t i = view s n \<and> settled t i \<and>
        (\<forall>j\<in>H. blk t j = blk s j \<and> dat t j = dat s j \<and> settled t j = settled s j))"
    and put_law: "inv H s \<Longrightarrow> i \<in> H \<Longrightarrow> inv H (put i d s) \<and> frame s (put i d s) \<and>
      view (put i d s) = (view s)(blk s i := d) \<and> used (put i d s) = used s \<and> dat (put i d s) i = d \<and>
      (\<forall>j\<in>H. blk (put i d s) j = blk s j \<and>
         (j \<noteq> i \<longrightarrow> dat (put i d s) j = dat s j \<and> settled (put i d s) j = settled s j))"
    and lw_law: "inv H s \<Longrightarrow> i \<in> H \<Longrightarrow> used s < cap s \<Longrightarrow>
      okr (lw i s) (\<lambda>_ t. inv H t \<and> frame s t \<and> view t = view s \<and> used s \<le> used t \<and> used t \<le> Suc (used s) \<and>
        settled t i \<and> (\<forall>j\<in>H. blk t j = blk s j \<and> dat t j = dat s j \<and> (j \<noteq> i \<longrightarrow> settled t j = settled s j)))"
    and rel_law: "inv H s \<Longrightarrow> i \<in> H \<Longrightarrow> settled s i \<Longrightarrow>
      okr (rel i s) (\<lambda>_ t. inv (H - {i}) t \<and> frame s t \<and> view t = view s \<and> used t = used s \<and>
        (\<forall>j\<in>H - {i}. blk t j = blk s j \<and> dat t j = dat s j \<and> settled t j = settled s j))"
begin

text \<open>The held buffers \<open>H\<close> look the same in both states.\<close>

definition held_same :: "nat set \<Rightarrow> 's \<Rightarrow> 's \<Rightarrow> bool" where
  "held_same H s t \<longleftrightarrow> (\<forall>j\<in>H. blk t j = blk s j \<and> dat t j = dat s j \<and> settled t j = settled s j)"

lemma held_same_refl: "held_same H s s"
  by (simp add: held_same_def)

lemma held_same_trans: "held_same H s t \<Longrightarrow> held_same H t u \<Longrightarrow> held_same H s u"
  by (simp add: held_same_def)

lemma held_same_mono: "held_same K s t \<Longrightarrow> H \<subseteq> K \<Longrightarrow> held_same H s t"
  by (auto simp: held_same_def)

lemma rd_okr:
  assumes "inv H s" "home s n" "\<And>j. j \<in> H \<Longrightarrow> blk s j \<noteq> n" "card H + used s < NBUF"
    and "\<And>i t. i \<notin> H \<Longrightarrow> inv (insert i H) t \<Longrightarrow> frame s t \<Longrightarrow> view t = view s \<Longrightarrow> used t = used s \<Longrightarrow>
      blk t i = n \<Longrightarrow> dat t i = view s n \<Longrightarrow> settled t i \<Longrightarrow> held_same H s t \<Longrightarrow> okr (f i t) Q"
  shows "okr (bindr (rd n s) f) Q"
  using rd_law [OF assms(1-4)] by (auto simp: okr_iff held_same_def intro: assms(5) [unfolded okr_iff held_same_def])

lemma rel_okr:
  assumes "inv (insert i H) s" "i \<notin> H" "settled s i"
    and "\<And>t. inv H t \<Longrightarrow> frame s t \<Longrightarrow> view t = view s \<Longrightarrow> used t = used s \<Longrightarrow> held_same H s t \<Longrightarrow> okr (f () t) Q"
  shows "okr (bindr (rel i s) f) Q"
proof -
  have "insert i H - {i} = H"
    using assms(2) by auto
  then show ?thesis
    using rel_law [OF assms(1) insertI1 assms(3)]
    by (auto simp: okr_iff held_same_def intro: assms(4) [unfolded okr_iff held_same_def])
qed

lemma modify_okr:
  assumes i: "inv (insert i H) s" "i \<notin> H" and room: "used s < cap s"
    and k: "\<And>t. inv H t \<Longrightarrow> frame s t \<Longrightarrow> view t = (view s)(blk s i := d) \<Longrightarrow> used s \<le> used t \<Longrightarrow>
      used t \<le> Suc (used s) \<Longrightarrow> held_same H s t \<Longrightarrow> okr (f () t) Q"
  shows "okr (bindr (lw i (put i d s)) (\<lambda>_ s. bindr (rel i s) f)) Q"
proof -
  note p = put_law [OF i(1) insertI1, of d]
  have "inv (insert i H) (put i d s)" "used (put i d s) < cap (put i d s)"
    using p room frame_cap [of s "put i d s"] by auto
  from lw_law [OF this(1) insertI1 this(2)] obtain t where t: "lw i (put i d s) = Ret () t" "inv (insert i H) t"
      "frame (put i d s) t" "view t = view (put i d s)" "used s \<le> used t" "used t \<le> Suc (used s)" "settled t i"
      and same: "\<forall>j\<in>insert i H. blk t j = blk (put i d s) j \<and> dat t j = dat (put i d s) j \<and>
        (j \<noteq> i \<longrightarrow> settled t j = settled (put i d s) j)"
    using p by (elim okrE conjE) (rule that; (assumption | simp))
  have ht: "held_same H (put i d s) t"
    unfolding held_same_def
  proof
    fix j assume "j \<in> H"
    with i(2) have "j \<in> insert i H" "j \<noteq> i"
      by auto
    with same show "blk t j = blk (put i d s) j \<and> dat t j = dat (put i d s) j \<and> settled t j = settled (put i d s) j"
      by blast
  qed
  have hs: "held_same H s (put i d s)"
    using p i(2) by (auto simp: held_same_def)
  have "okr (bindr (rel i t) f) Q"
  proof (rule rel_okr [OF t(2) i(2) t(7)])
    fix u assume u: "inv H u" "frame t u" "view u = view t" "used u = used t" "held_same H t u"
    have "frame s (put i d s)"
      using p by simp
    from frame_trans [OF this frame_trans [OF t(3) u(2)]]
    show "okr (f () u) Q"
      using u t p by (intro k held_same_trans [OF hs held_same_trans [OF ht u(5)]]) auto
  qed
  then show ?thesis
    by (simp add: t(1))
qed

end

text \<open>The invariant of a transaction in progress, and what its steps leave alone.\<close>

definition tx_inv :: "nat set \<Rightarrow> 'a log_state_scheme \<Rightarrow> bool" where
  "tx_inv H s \<longleftrightarrow> cache_inv H s \<and> log_ok s \<and> 1 \<le> log_outstanding s \<and>
     (\<forall>i\<in>H. b_blockno (bufs s ! i) \<notin> log_region s)"

definition log_fr :: "'a log_state_scheme \<Rightarrow> 'a log_state_scheme \<Rightarrow> bool" where
  "log_fr s t \<longleftrightarrow> bio_frame (s\<lparr>lh_n := lh_n t, lh_block := lh_block t\<rparr>) t \<and> disk t = disk s \<and> writes t = writes s"

definition home_block :: "'a log_state_scheme \<Rightarrow> u32 \<Rightarrow> bool" where
  "home_block s n \<longleftrightarrow> n < disksize s \<and> n \<notin> log_region s"

lemma log_fr_bio: "bio_frame s t \<Longrightarrow> disk t = disk s \<Longrightarrow> writes t = writes s \<Longrightarrow> log_fr s t"
  using log_frame [of s t] by (simp add: log_fr_def)

lemma log_fr_trans [trans]: "log_fr s t \<Longrightarrow> log_fr t u \<Longrightarrow> log_fr s u"
  using bio_frame_header [of "s\<lparr>lh_n := lh_n t, lh_block := lh_block t\<rparr>" t "lh_block u" "lh_n u"]
    bio_frame_trans [of "s\<lparr>lh_n := lh_n u, lh_block := lh_block u\<rparr>" "t\<lparr>lh_n := lh_n u, lh_block := lh_block u\<rparr>" u]
  by (simp add: log_fr_def)

lemma log_fr_fields:
  assumes "log_fr s t"
  shows "log_size t = log_size s" "log_region t = log_region s" "home_block t = home_block s"
    "log_outstanding t = log_outstanding s" "log_state.more t = log_state.more s" "log_start t = log_start s"
    "log_committing t = log_committing s" "log_dev t = log_dev s" "disksize t = disksize s"
proof -
  note f = log_frame [OF assms [unfolded log_fr_def, THEN conjunct1], simplified]
  then show "log_size t = log_size s" "log_region t = log_region s" "log_outstanding t = log_outstanding s"
    "log_state.more t = log_state.more s" "log_start t = log_start s" "home_block t = home_block s"
    "log_committing t = log_committing s" "log_dev t = log_dev s" "disksize t = disksize s"
    by (simp_all add: home_block_def fun_eq_iff)
qed

definition settled_buf :: "'a log_state_scheme \<Rightarrow> nat \<Rightarrow> bool" where
  "settled_buf s i \<longleftrightarrow> dirty (bufs s ! i) \<or> buf_data s i = disk s (b_blockno (bufs s ! i))"

lemma dirty_card: "log_ok s \<Longrightarrow> card (dirty_blocks s) = nat (lh_n s)"
  by (auto simp: log_ok_def log_geom_def distinct_card logged_def)

lemma log_ok_view:
  assumes "log_ok s" "bio_frame s t" "disk t = disk s" "dirty_blocks t = dirty_blocks s"
  shows "log_ok t"
  using assms log_frame [OF assms(2)] by (simp add: log_ok_def)

lemma tx_inv_view:
  assumes "tx_inv H s" "bio_frame s t" "disk t = disk s" "dirty_blocks t = dirty_blocks s" "cache_inv K t"
    and "\<And>i. i \<in> K \<Longrightarrow> b_blockno (bufs t ! i) \<notin> log_region s"
  shows "tx_inv K t"
  using assms log_ok_view [OF _ assms(2-4)] log_frame [OF assms(2)] by (simp add: tx_inv_def)

interpretation tx: logged_blocks "bread 1" log_write brelse set_data tx_inv "\<lambda>s i. b_blockno (bufs s ! i)" buf_data
  settled_buf ldisk "\<lambda>s. nat (lh_n s)" "\<lambda>s. nat (log_size s - 1)" home_block log_fr
proof
  fix s t u :: "'a log_state_scheme" and H i n d
  show "log_fr s s"
    by (rule log_fr_bio) simp_all
  show "log_fr s t \<Longrightarrow> log_fr t u \<Longrightarrow> log_fr s u"
    by (rule log_fr_trans)
  show "log_fr s t \<Longrightarrow> nat (log_size t - 1) = nat (log_size s - 1)" "log_fr s t \<Longrightarrow> home_block t = home_block s"
    by (simp_all add: log_fr_fields)
  show "okr (bread 1 n s) (\<lambda>i t. i \<notin> H \<and> tx_inv (insert i H) t \<and> log_fr s t \<and> ldisk t = ldisk s \<and>
      nat (lh_n t) = nat (lh_n s) \<and> b_blockno (bufs t ! i) = n \<and> buf_data t i = ldisk s n \<and> settled_buf t i \<and>
      (\<forall>j\<in>H. b_blockno (bufs t ! j) = b_blockno (bufs s ! j) \<and> buf_data t j = buf_data s j \<and>
         settled_buf t j = settled_buf s j))"
    if a: "tx_inv H s" "home_block s n" "\<And>j. j \<in> H \<Longrightarrow> b_blockno (bufs s ! j) \<noteq> n" "card H + nat (lh_n s) < NBUF"
  proof -
    have "okr (bread 1 n s) (\<lambda>i t. i < NBUF \<and> i \<notin> H \<and> cache_inv (insert i H) t \<and> same_view s t \<and>
       b_blockno (bufs t ! i) = n \<and> buf_data t i = ldisk s n \<and>
       (dirty (bufs t ! i) \<or> buf_data t i = disk s n) \<and> (\<forall>j\<in>H. bufs t ! j = bufs s ! j))"
      using a avail_buffer [of H s] dirty_card [of s] by (intro bread_spec) (auto simp: tx_inv_def home_block_def)
    then show ?thesis
    proof (rule okr_mono)
      fix i t
      assume "i < NBUF \<and> i \<notin> H \<and> cache_inv (insert i H) t \<and> same_view s t \<and> b_blockno (bufs t ! i) = n \<and>
         buf_data t i = ldisk s n \<and> (dirty (bufs t ! i) \<or> buf_data t i = disk s n) \<and> (\<forall>j\<in>H. bufs t ! j = bufs s ! j)"
      moreover from this have "tx_inv (insert i H) t"
        using a(1,2) by (intro tx_inv_view [OF a(1)]) (auto simp: same_view_def home_block_def tx_inv_def)
      moreover from calculation have "lh_n t = lh_n s"
        using log_frame(6) [of s t] by (auto simp: same_view_def)
      ultimately show "i \<notin> H \<and> tx_inv (insert i H) t \<and> log_fr s t \<and> ldisk t = ldisk s \<and>
        nat (lh_n t) = nat (lh_n s) \<and> b_blockno (bufs t ! i) = n \<and> buf_data t i = ldisk s n \<and> settled_buf t i \<and>
        (\<forall>j\<in>H. b_blockno (bufs t ! j) = b_blockno (bufs s ! j) \<and> buf_data t j = buf_data s j \<and>
           settled_buf t j = settled_buf s j)"
        by (auto simp: same_view_def settled_buf_def intro: log_fr_bio)
    qed
  qed
  show "tx_inv H (set_data i d s) \<and> log_fr s (set_data i d s) \<and>
      ldisk (set_data i d s) = (ldisk s)(b_blockno (bufs s ! i) := d) \<and>
      nat (lh_n (set_data i d s)) = nat (lh_n s) \<and> buf_data (set_data i d s) i = d \<and>
      (\<forall>j\<in>H. b_blockno (bufs (set_data i d s) ! j) = b_blockno (bufs s ! j) \<and>
         (j \<noteq> i \<longrightarrow> buf_data (set_data i d s) j = buf_data s j \<and> settled_buf (set_data i d s) j = settled_buf s j))"
    if a: "tx_inv H s" "i \<in> H"
  proof -
    have c: "cache_inv H s"
      using a(1) by (simp add: tx_inv_def)
    note p = set_data_spec [OF c a(2), where d = d]
    have b: "b_blockno (bufs (set_data i d s) ! j) = b_blockno (bufs s ! j)" for j
      using p(7,8) by (cases "j = i") auto
    have "tx_inv H (set_data i d s)"
      using a p b by (intro tx_inv_view [OF a(1)]) (auto simp: tx_inv_def)
    then show ?thesis
      using p b log_frame(6) [OF p(6)] by (auto simp: settled_buf_def intro: log_fr_bio)
  qed
  show "okr (log_write i s) (\<lambda>_ t. tx_inv H t \<and> log_fr s t \<and> ldisk t = ldisk s \<and> nat (lh_n s) \<le> nat (lh_n t) \<and>
      nat (lh_n t) \<le> Suc (nat (lh_n s)) \<and> settled_buf t i \<and>
      (\<forall>j\<in>H. b_blockno (bufs t ! j) = b_blockno (bufs s ! j) \<and> buf_data t j = buf_data s j \<and>
         (j \<noteq> i \<longrightarrow> settled_buf t j = settled_buf s j)))"
    if a: "tx_inv H s" "i \<in> H" "nat (lh_n s) < nat (log_size s - 1)"
  proof -
    have c: "cache_inv H s" "log_ok s" "1 \<le> log_outstanding s" "b_blockno (bufs s ! i) \<notin> log_region s" "lh_n s < log_size s - 1"
      using a by (auto simp: tx_inv_def)
    show ?thesis
    proof (rule okr_mono [OF log_write_spec [OF c(1) a(2) c(2,3,5,4)]], elim conjE)
      fix x t
      assume p: "cache_inv H t" "log_ok t" "ldisk t = ldisk s" "disk t = disk s" "writes t = writes s" "lh_n s \<le> lh_n t"
        "lh_n t \<le> lh_n s + 1" "bio_frame (s\<lparr>lh_n := lh_n t, lh_block := lh_block t\<rparr>) t" "dirty (bufs t ! i)"
        "b_blockno (bufs t ! i) = b_blockno (bufs s ! i)" "buf_data t i = buf_data s i"
        "\<forall>j. j \<noteq> i \<longrightarrow> bufs t ! j = bufs s ! j"
      have fr: "log_fr s t"
        using p by (simp add: log_fr_def)
      have b: "b_blockno (bufs t ! j) = b_blockno (bufs s ! j) \<and> buf_data t j = buf_data s j" for j
        using p(10-12) by (cases "j = i") auto
      then have "tx_inv H t"
        using a(1) p(1,2) log_fr_fields [OF fr] by (simp add: tx_inv_def)
      then show "tx_inv H t \<and> log_fr s t \<and> ldisk t = ldisk s \<and> nat (lh_n s) \<le> nat (lh_n t) \<and>
          nat (lh_n t) \<le> Suc (nat (lh_n s)) \<and> settled_buf t i \<and>
          (\<forall>j\<in>H. b_blockno (bufs t ! j) = b_blockno (bufs s ! j) \<and> buf_data t j = buf_data s j \<and>
             (j \<noteq> i \<longrightarrow> settled_buf t j = settled_buf s j))"
        using fr b p by (auto simp: settled_buf_def)
    qed
  qed
  show "okr (brelse i s) (\<lambda>_ t. tx_inv (H - {i}) t \<and> log_fr s t \<and> ldisk t = ldisk s \<and> nat (lh_n t) = nat (lh_n s) \<and>
      (\<forall>j\<in>H - {i}. b_blockno (bufs t ! j) = b_blockno (bufs s ! j) \<and> buf_data t j = buf_data s j \<and>
         settled_buf t j = settled_buf s j))"
    if a: "tx_inv H s" "i \<in> H" "settled_buf s i"
  proof -
    have c: "cache_inv H s" "dirty (bufs s ! i) \<or> buf_data s i = disk s (b_blockno (bufs s ! i))"
      using a by (auto simp: tx_inv_def settled_buf_def)
    show ?thesis
    proof (rule okr_mono [OF brelse_spec [OF c(1) a(2) c(2)]], elim conjE)
      fix x t
      assume p: "cache_inv (H - {i}) t" "same_view s t" "\<forall>j. j \<noteq> i \<longrightarrow> bufs t ! j = bufs s ! j"
      have "tx_inv (H - {i}) t"
        using a(1) p by (intro tx_inv_view [OF a(1)]) (auto simp: same_view_def tx_inv_def)
      then show "tx_inv (H - {i}) t \<and> log_fr s t \<and> ldisk t = ldisk s \<and> nat (lh_n t) = nat (lh_n s) \<and>
        (\<forall>j\<in>H - {i}. b_blockno (bufs t ! j) = b_blockno (bufs s ! j) \<and> buf_data t j = buf_data s j \<and>
           settled_buf t j = settled_buf s j)"
        using p log_frame(6) [of s t] by (auto simp: same_view_def settled_buf_def intro: log_fr_bio)
    qed
  qed
qed

section \<open>Transactions\<close>

text \<open>
  A call of \<^verbatim>\<open>begin_op\<close> is admitted only if the log can take \<open>MAXOPBLOCKS\<close> more blocks for it and
  for every operation already in progress.
\<close>

definition log_reserved :: "'a log_state_scheme \<Rightarrow> bool" where
  "log_reserved s \<longleftrightarrow> lh_n s + log_outstanding s * int MAXOPBLOCKS \<le> int LOGSIZE"

lemma begin_op_spec:
  assumes "in_proc s"
  shows "case begin_op s of
     Ret _ t \<Rightarrow> \<not> log_committing s \<and> t = s\<lparr>log_outstanding := log_outstanding s + 1\<rparr> \<and> log_reserved t
   | Sleeping c t \<Rightarrow> c = ChanLog \<and> (log_committing s \<or> \<not> log_reserved (s\<lparr>log_outstanding := log_outstanding s + 1\<rparr>))
   | _ \<Rightarrow> False"
  using assms by (auto simp: begin_op_def sleep_def log_reserved_def in_proc_def not_less)

lemma wakeup_cache:
  assumes "cache_inv H s"
  shows "cache_inv H (wakeup c s)" "ldisk (wakeup c s) = ldisk s" "dirty_blocks (wakeup c s) = dirty_blocks s"
    "disk (wakeup c s) = disk s" "writes (wakeup c s) = writes s" "bio_frame s (wakeup c s)"
proof -
  have f: "bufs (wakeup c s) = bufs s" "lru (wakeup c s) = lru s" "disk (wakeup c s) = disk s"
    "disksize (wakeup c s) = disksize s" "writes (wakeup c s) = writes s" "bio_state.more (wakeup c s) = bio_state.more s"
    by (simp_all add: wakeup_def wakeup1_def)
  then show "disk (wakeup c s) = disk s" "writes (wakeup c s) = writes s"
    "ldisk (wakeup c s) = ldisk s" "dirty_blocks (wakeup c s) = dirty_blocks s"
    by (simp_all add: ldisk_def dirty_blocks_def fun_eq_iff split: option.split)
  show "bio_frame s (wakeup c s)"
    using f woken_wakeup by (simp add: bio_frame_def)
  show "cache_inv H (wakeup c s)"
    using assms f cache_invD(5) [OF assms] by (simp add: cache_inv_def)
qed

lemma end_op_last:
  assumes tx: "tx_inv {} s" and o: "log_outstanding s = 1" and c: "\<not> log_committing s"
  shows "okr (end_op s) (\<lambda>_ t. cache_inv {} t \<and> log_ok t \<and> lh_n t = 0 \<and> log_outstanding t = 0 \<and> \<not> log_committing t \<and>
     log_region t = log_region s \<and> log_state.more t = log_state.more s \<and> bio_frame (s\<lparr>log_outstanding := 0, lh_n := 0\<rparr>) t \<and>
     (\<forall>b. b \<notin> log_region s \<longrightarrow> disk t b = ldisk s b \<and> ldisk t b = ldisk s b))"
proof -
  let ?s = "s\<lparr>log_outstanding := 0, log_committing := True\<rparr>"
  have eq: "ldisk ?s = ldisk s" "cache_inv {} ?s = cache_inv {} s" "dirty_blocks ?s = dirty_blocks s"
    by (rule cache_inv_cong; simp)+
  have "cache_inv {} ?s" "log_ok ?s" "log_region ?s = log_region s"
    using tx eq by (simp_all add: tx_inv_def log_ok_def log_geom_def logged_def log_region_def)
  then obtain t where t: "commit ?s = Ret () t" "cache_inv {} t" "log_ok t" "lh_n t = 0" "bio_frame (?s\<lparr>lh_n := 0\<rparr>) t"
      "\<forall>b. b \<notin> log_region s \<longrightarrow> disk t b = ldisk s b \<and> ldisk t b = ldisk s b"
    using commit_final [of ?s] eq(1) by (auto simp: okr_iff)
  note f = log_frame [OF t(5), simplified]
  let ?t = "t\<lparr>log_committing := False\<rparr>"
  have et: "ldisk ?t = ldisk t" "cache_inv {} ?t = cache_inv {} t" "dirty_blocks ?t = dirty_blocks t"
    by (rule cache_inv_cong; simp)+
  have "end_op s = Ret () (wakeup ChanLog ?t)"
    using o c t(1) by (simp add: end_op_def Let_def)
  moreover have "log_ok ?t"
    using t(3) et by (simp add: log_ok_def log_geom_def logged_def log_region_def)
  moreover have "cache_inv {} ?t"
    using et t(2) by simp
  note w = wakeup_cache [OF this, of ChanLog]
  moreover have "log_ok (wakeup ChanLog ?t)"
    using \<open>log_ok ?t\<close> by (rule log_ok_view) (use w in simp_all)
  moreover have "bio_frame (s\<lparr>log_outstanding := 0, lh_n := 0\<rparr>) ?t"
    using t(5) c by (cases s, cases t) (simp add: bio_frame_def)
  note bio_frame_trans [OF this w(6)]
  moreover note fw = log_frame [OF w(6)]
  ultimately show ?thesis
    using t f et fw by (simp add: log_region_def)
qed

section \<open>Properties of the log\<close>

text \<open>
  C1: a commit is atomic with respect to crashes. Whatever prefix of the disk writes of \<^verbatim>\<open>commit\<close>
  has reached the disk, recovery from there yields every block outside the log either all with
  their contents before the transaction, or all with their contents after it; the change happens with
  the write of the header block. Without a crash, the disk ends up with the new contents.
\<close>

theorem commit_crash_atomic:
  assumes "cache_inv {} s" "log_ok s"
  shows "okr (commit s) (\<lambda>_ t. \<exists>ws. writes t = writes s @ ws \<and> disk t = apply_writes ws (disk s) \<and>
    lh_n t = 0 \<and> log_ok t \<and> cache_inv {} t \<and> (\<forall>b. b \<notin> log_region s \<longrightarrow> disk t b = ldisk s b) \<and>
    (\<forall>k b. b \<notin> log_region s \<longrightarrow> recover_disk (log_start s) (apply_writes (take k ws) (disk s)) b =
       (if k \<le> nat (lh_n s) then disk s b else ldisk s b)))"
  by (rule okr_mono [OF commit_final [OF assms]]) blast

definition sample_log :: log_state where
  "sample_log = bio_state.extend
     (boot_bio\<lparr>bufs := (bufs boot_bio)[0 := \<lparr>b_flags = 6, b_dev = 1, b_blockno = 40, b_refcnt = 0, b_data = (\<lambda>_. 9)\<rparr>],
        disk := (\<lambda>_ _. 0)\<rparr>)
     (log_state.fields 2 30 1 False 1 1 (40 # replicate 29 0))"

lemma sample_log_fields:
  "bufs sample_log = (bufs boot_bio)[0 := \<lparr>b_flags = 6, b_dev = 1, b_blockno = 40, b_refcnt = 0, b_data = (\<lambda>_. 9)\<rparr>]"
  "lru sample_log = lru boot_bio" "sleeplocks sample_log = sleeplocks boot_bio" "disk sample_log = (\<lambda>_ _. 0)"
  "disksize sample_log = 1000" "log_start sample_log = 2" "log_size sample_log = 30" "log_outstanding sample_log = 1"
  "\<not> log_committing sample_log" "log_dev sample_log = 1" "lh_n sample_log = 1" "lh_block sample_log = 40 # replicate 29 0"
  "in_proc sample_log"
  using boot_bio_fields(4,6)
  by (simp_all add: sample_log_def bio_state.defs log_state.defs in_proc_def myproc_def del: replicate.simps)

lemma sample_log_inv: "cache_inv {} sample_log" "log_ok sample_log" "ldisk sample_log 40 = (\<lambda>_. 9)"
  "dirty_blocks sample_log = {40}"
proof -
  have b: "bufs sample_log ! i = (if i = 0 then \<lparr>b_flags = 6, b_dev = 1, b_blockno = 40, b_refcnt = 0, b_data = (\<lambda>_. 9)\<rparr>
      else \<lparr>b_flags = 0, b_dev = 0, b_blockno = 0, b_refcnt = 0, b_data = (\<lambda>_. 0)\<rparr>)" if "i < 30" for i
    using that by (auto simp: sample_log_fields boot_bio_fields nth_upd)
  have len: "length (bufs sample_log) = 30"
    by (simp add: sample_log_fields boot_bio_fields)
  show inv: "cache_inv {} sample_log"
    using b len
    by (auto simp: cache_inv_def uniq_bufs_def buf_ok_def valid_def dirty_def sample_log_fields(2-5,13) boot_bio_fields
        atLeast0LessThan simp del: upt_rec_numeral)
  show "ldisk sample_log 40 = (\<lambda>_. 9)"
    using ldisk_cached [OF cache_invD(6) [OF inv], of 0 40] b [of 0] len by (simp add: cached_def valid_def)
  have "n \<in> dirty_blocks sample_log \<longleftrightarrow> n = 40" for n
    using b len by (auto simp: dirty_blocks_iff dirty_def split: if_splits intro!: exI [of _ 0])
  then show d: "dirty_blocks sample_log = {40}"
    by auto
  show "log_ok sample_log"
    unfolding log_ok_def d
    by (simp add: log_geom_def logged_def sample_log_fields log_region_def hdr_n_def rd32_def del: replicate.simps)
qed

theorem commit_crash_atomic_witness:
  "okr (commit sample_log) (\<lambda>_ t. disk t 40 = (\<lambda>_. 9) \<and> lh_n t = 0)"
proof (rule okr_mono [OF commit_crash_atomic [OF sample_log_inv(1,2)]])
  fix x t
  assume "\<exists>ws. writes t = writes sample_log @ ws \<and> disk t = apply_writes ws (disk sample_log) \<and> lh_n t = 0 \<and> log_ok t \<and>
    cache_inv {} t \<and> (\<forall>b. b \<notin> log_region sample_log \<longrightarrow> disk t b = ldisk sample_log b) \<and>
    (\<forall>k b. b \<notin> log_region sample_log \<longrightarrow> recover_disk (log_start sample_log) (apply_writes (take k ws) (disk sample_log)) b =
       (if k \<le> nat (lh_n sample_log) then disk sample_log b else ldisk sample_log b))"
  moreover have "40 \<notin> log_region sample_log"
    by (simp add: log_region_def sample_log_fields)
  ultimately show "disk t 40 = (\<lambda>_. 9) \<and> lh_n t = 0"
    using sample_log_inv(3) by auto
qed

text \<open>
  C2: recovery is idempotent. From a clean cache and a well-formed header, \<^verbatim>\<open>recover_from_log\<close>
  installs the committed transaction, empties the log and re-establishes the log's invariant; if it is
  interrupted after any prefix of its disk writes, running it again gives the same data blocks.
\<close>

theorem recovery_idempotent:
  assumes "cache_inv {} s" "dirty_blocks s = {}" "disk_hdr_ok s"
  shows "okr (recover_from_log s) (\<lambda>_ t. cache_inv {} t \<and> log_ok t \<and> lh_n t = 0 \<and>
     (\<forall>b. b \<notin> log_region s \<longrightarrow> disk t b = recover_disk (log_start s) (disk s) b \<and> ldisk t b = disk t b) \<and>
     (\<exists>ws. writes t = writes s @ ws \<and> (\<forall>k b. b \<notin> log_region s \<longrightarrow>
        recover_disk (log_start s) (apply_writes (take k ws) (disk s)) b = recover_disk (log_start s) (disk s) b)))"
proof (rule okr_mono [OF recover_from_log_spec [OF assms]])
  fix x t
  assume "\<exists>e. cache_inv {} t \<and> log_ok t \<and> lh_n t = 0 \<and> log_region t = log_region s \<and> log_start t = log_start s \<and>
     hdr_n e = 0 \<and> disk t = (recover_disk (log_start s) (disk s))(log_start s := e) \<and> ldisk t = disk t \<and>
     writes t = writes s @ recover_writes (log_start s) (disk s) @ [(log_start s, e)]"
  then obtain e where e: "cache_inv {} t" "log_ok t" "lh_n t = 0" "hdr_n e = 0" "ldisk t = disk t"
      "disk t = (recover_disk (log_start s) (disk s))(log_start s := e)"
      "writes t = writes s @ recover_writes (log_start s) (disk s) @ [(log_start s, e)]"
    by blast
  have "log_start s \<in> log_region s"
    using assms(3) by (intro start_facts) (simp add: disk_hdr_ok_def)
  then show "cache_inv {} t \<and> log_ok t \<and> lh_n t = 0 \<and>
     (\<forall>b. b \<notin> log_region s \<longrightarrow> disk t b = recover_disk (log_start s) (disk s) b \<and> ldisk t b = disk t b) \<and>
     (\<exists>ws. writes t = writes s @ ws \<and> (\<forall>k b. b \<notin> log_region s \<longrightarrow>
        recover_disk (log_start s) (apply_writes (take k ws) (disk s)) b = recover_disk (log_start s) (disk s) b))"
    using e recover_again [OF assms(3) _ e(4)]
    by (intro conjI exI [of _ "recover_writes (log_start s) (disk s) @ [(log_start s, e)]"]) auto
qed

text \<open>A disk on which one block, number 40, is committed but not installed.\<close>

definition crashed_log :: log_state where
  "crashed_log = sample_log\<lparr>bufs := bufs boot_bio, lh_n := 0,
     disk := (\<lambda>n. if n = 2 then put_hdr [40] 1 (\<lambda>_. 0) else if n = 3 then (\<lambda>_. 7) else (\<lambda>_. 0))\<rparr>"

lemma crashed_log_inv: "cache_inv {} crashed_log" "dirty_blocks crashed_log = {}" "disk_hdr_ok crashed_log"
proof -
  have b: "\<not> valid (bufs crashed_log ! i)" "\<not> dirty (bufs crashed_log ! i)" "b_dev (bufs crashed_log ! i) = 0"
      "b_refcnt (bufs crashed_log ! i) = 0" if "i < 30" for i
    using that by (simp_all add: crashed_log_def boot_bio_fields valid_def dirty_def)
  have "in_proc crashed_log" "lru crashed_log = lru boot_bio" "sleeplocks crashed_log = sleeplocks boot_bio"
      "length (bufs crashed_log) = 30"
    using sample_log_fields by (simp_all add: crashed_log_def in_proc_def myproc_def boot_bio_fields)
  with b show "cache_inv {} crashed_log" "dirty_blocks crashed_log = {}"
    by (auto simp: cache_inv_def uniq_bufs_def buf_ok_def dirty_blocks_iff boot_bio_fields atLeast0LessThan
        simp del: upt_rec_numeral)
  show "disk_hdr_ok crashed_log"
    using sample_log_fields
    by (simp add: disk_hdr_ok_def crashed_log_def log_geom_def log_region_def del: replicate.simps)
qed

theorem recovery_idempotent_witness:
  "okr (recover_from_log crashed_log) (\<lambda>_ t. disk t 40 = (\<lambda>_. 7) \<and> lh_n t = 0)"
proof (rule okr_mono [OF recovery_idempotent [OF crashed_log_inv]])
  fix x t
  have "40 \<notin> log_region crashed_log"
    using sample_log_fields by (simp add: log_region_def crashed_log_def)
  moreover have "recover_disk (log_start crashed_log) (disk crashed_log) 40 = (\<lambda>_. 7)"
    using sample_log_fields by (simp add: recover_disk_def crashed_log_def slot_def)
  moreover assume "cache_inv {} t \<and> log_ok t \<and> lh_n t = 0 \<and>
     (\<forall>b. b \<notin> log_region crashed_log \<longrightarrow> disk t b = recover_disk (log_start crashed_log) (disk crashed_log) b \<and> ldisk t b = disk t b) \<and>
     (\<exists>ws. writes t = writes crashed_log @ ws \<and> (\<forall>k b. b \<notin> log_region crashed_log \<longrightarrow>
        recover_disk (log_start crashed_log) (apply_writes (take k ws) (disk crashed_log)) b =
        recover_disk (log_start crashed_log) (disk crashed_log) b))"
  ultimately show "disk t 40 = (\<lambda>_. 7) \<and> lh_n t = 0"
    by simp
qed

text \<open>
  C3: when the last operation of a transaction calls \<^verbatim>\<open>end_op\<close>, the transaction is durable on
  return: every block outside the log has on disk the contents the operations saw, the log is empty,
  its invariant holds and new operations are admitted again.
\<close>

theorem end_op_durable:
  assumes "tx_inv {} s" "log_outstanding s = 1" "\<not> log_committing s"
  shows "okr (end_op s) (\<lambda>_ t. cache_inv {} t \<and> log_ok t \<and> lh_n t = 0 \<and> log_outstanding t = 0 \<and> \<not> log_committing t \<and>
     (\<forall>b. b \<notin> log_region s \<longrightarrow> disk t b = ldisk s b \<and> ldisk t b = ldisk s b) \<and>
     okr (begin_op t) (\<lambda>_ u. log_outstanding u = 1))"
  by (rule okr_mono [OF end_op_last [OF assms]]) (auto simp: begin_op_def)

theorem end_op_durable_witness:
  "okr (end_op sample_log) (\<lambda>_ t. disk t 40 = (\<lambda>_. 9) \<and> okr (begin_op t) (\<lambda>_ u. log_outstanding u = 1))"
proof (rule okr_mono [OF end_op_durable])
  show "tx_inv {} sample_log"
    using sample_log_inv sample_log_fields by (simp add: tx_inv_def)
  have "40 \<notin> log_region sample_log"
    by (simp add: log_region_def sample_log_fields)
  then show "disk t 40 = (\<lambda>_. 9) \<and> okr (begin_op t) (\<lambda>_ u. log_outstanding u = 1)"
    if "cache_inv {} t \<and> log_ok t \<and> lh_n t = 0 \<and> log_outstanding t = 0 \<and> \<not> log_committing t \<and>
     (\<forall>b. b \<notin> log_region sample_log \<longrightarrow> disk t b = ldisk sample_log b \<and> ldisk t b = ldisk sample_log b) \<and>
     okr (begin_op t) (\<lambda>_ u. log_outstanding u = 1)" for t :: log_state
    using that sample_log_inv(3) by auto
qed (simp_all add: sample_log_fields)



end
