(* ===== verification/Inode.thy ===== *)
theory Inode
  imports Log
begin

text \<open>
  Blocks and inodes of the file system, \<^verbatim>\<open>fs.c\<close> from \<^verbatim>\<open>bzero\<close> to \<^verbatim>\<open>itrunc\<close>. The inode cache is
  the list \<open>inodes\<close>; an inode pointer is an index into it, or \<open>None\<close> where the code tests for the
  null pointer. An on-disk inode takes 128 bytes: type, major, minor and nlink as 16-bit words at
  offsets 0, 2, 4 and 6, the size at 8, thirteen block addresses from 12 on, the mode at 64.
\<close>

section \<open>State\<close>

abbreviation (input) NDIRECT :: nat where "NDIRECT \<equiv> 12"
abbreviation (input) NINDIRECT :: nat where "NINDIRECT \<equiv> 128"
abbreviation (input) MAXFILE :: nat where "MAXFILE \<equiv> 140"
abbreviation (input) IPB :: nat where "IPB \<equiv> 4"
abbreviation (input) BPB :: nat where "BPB \<equiv> 4096"
abbreviation (input) ROOTINO :: u32 where "ROOTINO \<equiv> 1"
abbreviation (input) T_DIR :: u16 where "T_DIR \<equiv> 1"
abbreviation (input) T_FILE :: u16 where "T_FILE \<equiv> 2"
abbreviation (input) T_DEV :: u16 where "T_DEV \<equiv> 3"

record inode =
  i_dev :: u32
  i_inum :: u32
  i_ref :: int
  i_valid :: bool
  i_type :: u16
  i_major :: u16
  i_minor :: u16
  i_nlink :: u16
  i_size :: u32
  i_addrs :: "u32 list"
  i_mode :: u32

record inode_state = log_state +
  sb :: superblock
  inodes :: "inode list"

definition IBLOCK :: "u32 \<Rightarrow> superblock \<Rightarrow> u32" where
  "IBLOCK i fs = i div 4 + sb_inodestart fs"

definition BBLOCK :: "u32 \<Rightarrow> superblock \<Rightarrow> u32" where
  "BBLOCK b fs = b div 4096 + sb_bmapstart fs"

definition upd_inode :: "nat \<Rightarrow> (inode \<Rightarrow> inode) \<Rightarrow> 'a inode_state_scheme \<Rightarrow> 'a inode_state_scheme" where
  "upd_inode ip f s = s\<lparr>inodes := (inodes s)[ip := f (inodes s ! ip)]\<rparr>"

section \<open>Blocks\<close>

definition bzero :: "u32 \<Rightarrow> u32 \<Rightarrow> 'a inode_state_scheme \<Rightarrow> (unit, 'a inode_state_scheme) kres" where
  "bzero dev bno s =
     bindr (bread dev bno s) (\<lambda>bp s.
     bindr (log_write bp (set_data bp (\<lambda>_. 0) s)) (\<lambda>_ s.
     bindr (brelse bp s) (\<lambda>_ s. Ret () s)))"

text \<open>Bit \<open>bi\<close> of a bitmap block.\<close>

definition bit_mask :: "nat \<Rightarrow> u8" where
  "bit_mask bi = push_bit (bi mod 8) 1"

definition bit_used :: "bytes \<Rightarrow> nat \<Rightarrow> bool" where
  "bit_used d bi \<longleftrightarrow> d (bi div 8) AND bit_mask bi \<noteq> 0"

definition balloc :: "u32 \<Rightarrow> 'a inode_state_scheme \<Rightarrow> (u32, 'a inode_state_scheme) kres" where
  "balloc dev s =
     (let size = unat (sb_size (sb s))
      in bindr (firstr (map (\<lambda>k. k * BPB) [0..<(size + BPB - 1) div BPB]) (\<lambda>b s.
           bindr (bread dev (BBLOCK (of_nat b) (sb s)) s) (\<lambda>bp s.
             case find (\<lambda>bi. \<not> bit_used (buf_data s bp) bi) [0..<min BPB (size - b)] of
               Some bi \<Rightarrow>
                 let d = buf_data s bp
                 in bindr (log_write bp (set_data bp (d(bi div 8 := d (bi div 8) OR bit_mask bi)) s)) (\<lambda>_ s.
                    bindr (brelse bp s) (\<lambda>_ s.
                    bindr (bzero dev (of_nat (b + bi)) s) (\<lambda>_ s. Ret (Some (of_nat (b + bi))) s)))
             | None \<Rightarrow> bindr (brelse bp s) (\<lambda>_ s. Ret None s))) s)
         (\<lambda>r s. case r of Some b \<Rightarrow> Ret b s | None \<Rightarrow> Panic ''balloc: out of blocks''))"

definition bfree :: "u32 \<Rightarrow> u32 \<Rightarrow> 'a inode_state_scheme \<Rightarrow> (unit, 'a inode_state_scheme) kres" where
  "bfree dev b s =
     bindr (bread dev (BBLOCK b (sb s)) s) (\<lambda>bp s.
       let bi = unat b mod BPB; d = buf_data s bp
       in if \<not> bit_used d bi then Panic ''freeing free block''
          else bindr (log_write bp (set_data bp (d(bi div 8 := d (bi div 8) AND NOT (bit_mask bi))) s)) (\<lambda>_ s.
               bindr (brelse bp s) (\<lambda>_ s. Ret () s)))"

section \<open>The inode cache\<close>

definition iinit :: "u32 \<Rightarrow> 'a inode_state_scheme \<Rightarrow> (unit, 'a inode_state_scheme) kres" where
  "iinit dev s =
     (let s = fold (\<lambda>i. initsleeplock (InodeLock i)) [0..<NINODE] s
      in bindr (readsb dev s) (\<lambda>r s. Ret () (s\<lparr>sb := r\<rparr>)))"

definition iget :: "u32 \<Rightarrow> u32 \<Rightarrow> 'a inode_state_scheme \<Rightarrow> (nat, 'a inode_state_scheme) kres" where
  "iget dev inum s =
     (case first_index (\<lambda>i. 0 < i_ref i \<and> i_dev i = dev \<and> i_inum i = inum) (inodes s) of
        Some ip \<Rightarrow> Ret ip (upd_inode ip (\<lambda>i. i\<lparr>i_ref := i_ref i + 1\<rparr>) s)
      | None \<Rightarrow>
          (case first_index (\<lambda>i. i_ref i = 0) (inodes s) of
             None \<Rightarrow> Panic ''iget: no inodes''
           | Some ip \<Rightarrow>
               Ret ip (upd_inode ip (\<lambda>i. i\<lparr>i_dev := dev, i_inum := inum, i_ref := 1, i_valid := False\<rparr>) s)))"

definition idup :: "nat \<Rightarrow> 'a inode_state_scheme \<Rightarrow> (nat, 'a inode_state_scheme) kres" where
  "idup ip s = Ret ip (upd_inode ip (\<lambda>i. i\<lparr>i_ref := i_ref i + 1\<rparr>) s)"

definition ialloc :: "u32 \<Rightarrow> u16 \<Rightarrow> 'a inode_state_scheme \<Rightarrow> (nat, 'a inode_state_scheme) kres" where
  "ialloc dev type s =
     bindr (firstr [1..<unat (sb_ninodes (sb s))] (\<lambda>inum s.
         bindr (bread dev (IBLOCK (of_nat inum) (sb s)) s) (\<lambda>bp s.
           let d = buf_data s bp; off = 128 * (inum mod IPB)
           in if rd16 d off = 0 then
                bindr (log_write bp (set_data bp (wr16 (blit d off (\<lambda>_. 0) 0 128) off type) s)) (\<lambda>_ s.
                bindr (brelse bp s) (\<lambda>_ s.
                bindr (iget dev (of_nat inum) s) (\<lambda>ip s. Ret (Some ip) s)))
              else bindr (brelse bp s) (\<lambda>_ s. Ret None s))) s)
       (\<lambda>r s. case r of Some ip \<Rightarrow> Ret ip s | None \<Rightarrow> Panic ''ialloc: no inodes'')"

text \<open>The fields of an on-disk inode at offset \<open>off\<close> of a block, and storing them there.\<close>

definition load_dinode :: "bytes \<Rightarrow> nat \<Rightarrow> inode \<Rightarrow> inode" where
  "load_dinode d off ip = ip\<lparr>i_type := rd16 d off, i_major := rd16 d (off + 2), i_minor := rd16 d (off + 4),
     i_nlink := rd16 d (off + 6), i_size := rd32 d (off + 8),
     i_addrs := map (\<lambda>k. rd32 d (off + 12 + 4 * k)) [0..<NDIRECT + 1], i_mode := rd32 d (off + 64)\<rparr>"

definition store_dinode :: "inode \<Rightarrow> nat \<Rightarrow> bytes \<Rightarrow> bytes" where
  "store_dinode ip off d =
     (let d = wr16 d off (i_type ip);
          d = wr16 d (off + 2) (i_major ip);
          d = wr16 d (off + 4) (i_minor ip);
          d = wr16 d (off + 6) (i_nlink ip);
          d = wr32 d (off + 8) (i_size ip);
          d = fold (\<lambda>k d. wr32 d (off + 12 + 4 * k) (i_addrs ip ! k)) [0..<NDIRECT + 1] d
      in wr32 d (off + 64) (i_mode ip))"

definition dinode_off :: "inode \<Rightarrow> nat" where
  "dinode_off i = 128 * (unat (i_inum i) mod IPB)"

definition iupdate :: "nat \<Rightarrow> 'a inode_state_scheme \<Rightarrow> (unit, 'a inode_state_scheme) kres" where
  "iupdate ip s =
     bindr (bread (i_dev (inodes s ! ip)) (IBLOCK (i_inum (inodes s ! ip)) (sb s)) s) (\<lambda>bp s.
     bindr (log_write bp (set_data bp
        (store_dinode (inodes s ! ip) (dinode_off (inodes s ! ip)) (buf_data s bp)) s)) (\<lambda>_ s.
     bindr (brelse bp s) (\<lambda>_ s. Ret () s)))"

definition ilock :: "nat option \<Rightarrow> 'a inode_state_scheme \<Rightarrow> (unit, 'a inode_state_scheme) kres" where
  "ilock p s =
     (case p of
        None \<Rightarrow> Panic ''ilock''
      | Some ip \<Rightarrow>
          if i_ref (inodes s ! ip) < 1 then Panic ''ilock''
          else bindr (acquiresleep (InodeLock ip) s) (\<lambda>_ s.
            if i_valid (inodes s ! ip) then Ret () s
            else bindr (bread (i_dev (inodes s ! ip)) (IBLOCK (i_inum (inodes s ! ip)) (sb s)) s) (\<lambda>bp s.
              let s = upd_inode ip (load_dinode (buf_data s bp) (dinode_off (inodes s ! ip))) s
              in bindr (brelse bp s) (\<lambda>_ s.
                   let s = upd_inode ip (\<lambda>i. i\<lparr>i_valid := True\<rparr>) s
                   in if i_type (inodes s ! ip) = 0 then Panic ''ilock: no type'' else Ret () s))))"

definition iunlock :: "nat option \<Rightarrow> 'a inode_state_scheme \<Rightarrow> (unit, 'a inode_state_scheme) kres" where
  "iunlock p s =
     (case p of
        None \<Rightarrow> Panic ''iunlock''
      | Some ip \<Rightarrow>
          if \<not> holdingsleep (InodeLock ip) s \<or> i_ref (inodes s ! ip) < 1 then Panic ''iunlock''
          else Ret () (releasesleep (InodeLock ip) s))"

section \<open>The blocks of an inode\<close>

definition bmap :: "nat \<Rightarrow> u32 \<Rightarrow> 'a inode_state_scheme \<Rightarrow> (u32, 'a inode_state_scheme) kres" where
  "bmap ip bn s =
     (if bn < 12 then
        (let addr = i_addrs (inodes s ! ip) ! unat bn
         in if addr = 0
            then bindr (balloc (i_dev (inodes s ! ip)) s) (\<lambda>addr s.
                   Ret addr (upd_inode ip (\<lambda>i. i\<lparr>i_addrs := (i_addrs i)[unat bn := addr]\<rparr>) s))
            else Ret addr s)
      else if bn - 12 < 128 then
        bindr (let addr = i_addrs (inodes s ! ip) ! NDIRECT
               in if addr = 0
                  then bindr (balloc (i_dev (inodes s ! ip)) s) (\<lambda>addr s.
                         Ret addr (upd_inode ip (\<lambda>i. i\<lparr>i_addrs := (i_addrs i)[NDIRECT := addr]\<rparr>) s))
                  else Ret addr s) (\<lambda>addr s.
        bindr (bread (i_dev (inodes s ! ip)) addr s) (\<lambda>bp s.
          let k = 4 * unat (bn - 12); addr = rd32 (buf_data s bp) k
          in if addr = 0
             then bindr (balloc (i_dev (inodes s ! ip)) s) (\<lambda>addr s.
                  bindr (log_write bp (set_data bp (wr32 (buf_data s bp) k addr) s)) (\<lambda>_ s.
                  bindr (brelse bp s) (\<lambda>_ s. Ret addr s)))
             else bindr (brelse bp s) (\<lambda>_ s. Ret addr s)))
      else Panic ''bmap: out of range'')"

definition itrunc :: "nat \<Rightarrow> 'a inode_state_scheme \<Rightarrow> (unit, 'a inode_state_scheme) kres" where
  "itrunc ip s =
     bindr (foreach [0..<NDIRECT] (\<lambda>i s.
         if i_addrs (inodes s ! ip) ! i \<noteq> 0
         then bindr (bfree (i_dev (inodes s ! ip)) (i_addrs (inodes s ! ip) ! i) s) (\<lambda>_ s.
                Ret () (upd_inode ip (\<lambda>n. n\<lparr>i_addrs := (i_addrs n)[i := 0]\<rparr>) s))
         else Ret () s) s) (\<lambda>_ s.
     bindr (if i_addrs (inodes s ! ip) ! NDIRECT \<noteq> 0
            then bindr (bread (i_dev (inodes s ! ip)) (i_addrs (inodes s ! ip) ! NDIRECT) s) (\<lambda>bp s.
                 bindr (foreach [0..<NINDIRECT] (\<lambda>j s.
                     if rd32 (buf_data s bp) (4 * j) \<noteq> 0
                     then bfree (i_dev (inodes s ! ip)) (rd32 (buf_data s bp) (4 * j)) s
                     else Ret () s) s) (\<lambda>_ s.
                 bindr (brelse bp s) (\<lambda>_ s.
                 bindr (bfree (i_dev (inodes s ! ip)) (i_addrs (inodes s ! ip) ! NDIRECT) s) (\<lambda>_ s.
                 Ret () (upd_inode ip (\<lambda>n. n\<lparr>i_addrs := (i_addrs n)[NDIRECT := 0]\<rparr>) s)))))
            else Ret () s) (\<lambda>_ s.
     iupdate ip (upd_inode ip (\<lambda>n. n\<lparr>i_size := 0\<rparr>) s)))"

definition iput :: "nat \<Rightarrow> 'a inode_state_scheme \<Rightarrow> (unit, 'a inode_state_scheme) kres" where
  "iput ip s =
     bindr (acquiresleep (InodeLock ip) s) (\<lambda>_ s.
     bindr (if i_valid (inodes s ! ip) \<and> i_nlink (inodes s ! ip) = 0 \<and> i_ref (inodes s ! ip) = 1
            then bindr (itrunc ip s) (\<lambda>_ s.
                 bindr (iupdate ip (upd_inode ip (\<lambda>i. i\<lparr>i_type := 0\<rparr>) s)) (\<lambda>_ s.
                 Ret () (upd_inode ip (\<lambda>i. i\<lparr>i_valid := False\<rparr>) s)))
            else Ret () s) (\<lambda>_ s.
     let s = releasesleep (InodeLock ip) s
     in Ret () (upd_inode ip (\<lambda>i. i\<lparr>i_ref := i_ref i - 1\<rparr>) s)))"

definition iunlockput :: "nat \<Rightarrow> 'a inode_state_scheme \<Rightarrow> (unit, 'a inode_state_scheme) kres" where
  "iunlockput ip s = bindr (iunlock (Some ip) s) (\<lambda>_ s. iput ip s)"

section \<open>The bitmap\<close>

lemma bit_used_bit: "bit_used d bi \<longleftrightarrow> bit (d (bi div 8)) (bi mod 8)"
  by (simp add: bit_used_def bit_mask_def bit_iff_and_push_bit_not_eq_0)

lemma bit_bit_mask: "bit (bit_mask bi) n \<longleftrightarrow> n = bi mod 8"
  by (auto simp: bit_mask_def bit_simps)

lemma bit_used_set: "bit_used (d(bi div 8 := d (bi div 8) OR bit_mask bi)) bj \<longleftrightarrow> bj = bi \<or> bit_used d bj"
  by (cases "bj div 8 = bi div 8")
     (auto simp: bit_used_bit bit_or_iff bit_bit_mask, metis div_mult_mod_eq)

lemma bit_used_clear: "bit_used (d(bi div 8 := d (bi div 8) AND NOT (bit_mask bi))) bj \<longleftrightarrow> bj \<noteq> bi \<and> bit_used d bj"
proof (cases "bj div 8 = bi div 8")
  case True
  have "bj mod 8 < 8"
    by simp
  then show ?thesis
    using True by (auto simp: bit_used_bit bit_and_iff bit_not_iff bit_bit_mask) (metis div_mult_mod_eq)
qed (auto simp: bit_used_bit)

text \<open>Block \<open>b\<close> is marked in the bitmap, as seen through the log.\<close>

definition block_used :: "'a inode_state_scheme \<Rightarrow> u32 \<Rightarrow> bool" where
  "block_used s b \<longleftrightarrow> bit_used (ldisk s (BBLOCK b (sb s))) (unat b mod BPB)"

text \<open>
  The bitmap blocks are protected by the log, and so is every block that is free; no bitmap block is
  free. This is how \<^verbatim>\<open>mkfs\<close> sets up the disk.
\<close>

definition bitmap_ok :: "'a inode_state_scheme \<Rightarrow> bool" where
  "bitmap_ok s \<longleftrightarrow> (\<forall>b. b < sb_size (sb s) \<longrightarrow> home_block s (BBLOCK b (sb s)) \<and>
     (\<not> block_used s b \<longrightarrow> home_block s b \<and> (\<forall>c. c < sb_size (sb s) \<longrightarrow> BBLOCK c (sb s) \<noteq> b)))"

lemma BBLOCK_split:
  assumes "bi < BPB" "4096 * k + bi < 4294967296"
  shows "BBLOCK (of_nat (4096 * k + bi)) fs = BBLOCK (of_nat (4096 * k)) fs"
    "unat (of_nat (4096 * k + bi) :: u32) mod BPB = bi"
proof -
  have u: "unat (of_nat (4096 * k + bi) :: u32) = 4096 * k + bi" "unat (of_nat (4096 * k) :: u32) = 4096 * k"
    using assms by (simp_all only: unat_of_nat) simp_all
  then have "(of_nat (4096 * k + bi) :: u32) div 4096 = of_nat (4096 * k) div 4096"
    using assms(1) by (simp add: word_unat_eq_iff unat_div_distrib)
  then show "BBLOCK (of_nat (4096 * k + bi)) fs = BBLOCK (of_nat (4096 * k)) fs"
    by (simp only: BBLOCK_def)
  show "unat (of_nat (4096 * k + bi) :: u32) mod BPB = bi"
    unfolding u using assms(1) by simp
qed

text \<open>The loop rule for a search: either some turn succeeds, or all of them give up.\<close>

lemma firstr_okr:
  assumes "I s"
    and "\<And>i s. i \<in> set is \<Longrightarrow> I s \<Longrightarrow> okr (f i s) (\<lambda>r t. case r of None \<Rightarrow> I t \<and> P i | Some a \<Rightarrow> Q a t)"
  shows "okr (firstr is f s) (\<lambda>r t. case r of None \<Rightarrow> I t \<and> (\<forall>i\<in>set is. P i) | Some a \<Rightarrow> Q a t)"
  using assms
proof (induction "is" arbitrary: s)
  case (Cons i "is")
  have "okr (f i s) (\<lambda>r t. case r of None \<Rightarrow> I t \<and> P i | Some a \<Rightarrow> Q a t)"
    using Cons.prems by simp
  then obtain r t where r: "f i s = Ret r t" "case r of None \<Rightarrow> I t \<and> P i | Some a \<Rightarrow> Q a t"
    by (rule okrE)
  show ?case
  proof (cases r)
    case None
    have "okr (firstr is f t) (\<lambda>r t. case r of None \<Rightarrow> I t \<and> (\<forall>i\<in>set is. P i) | Some a \<Rightarrow> Q a t)"
      using Cons.IH [of t] Cons.prems(2) r(2) None by simp
    then have "okr (firstr is f t) (\<lambda>r t. case r of None \<Rightarrow> I t \<and> (\<forall>i\<in>set (i # is). P i) | Some a \<Rightarrow> Q a t)"
      by (rule okr_mono) (use r(2) None in \<open>auto split: option.splits\<close>)
    then show ?thesis
      using r(1) None by simp
  qed (use r in simp)
qed simp

section \<open>Logged changes\<close>

text \<open>
  \<open>tx_step H k D s t\<close>: a routine that holds the buffers \<open>H\<close> before and after has changed the logical
  disk to \<open>D\<close>, using at most \<open>k\<close> more blocks of the log.
\<close>

definition tx_step :: "nat set \<Rightarrow> nat \<Rightarrow> (u32 \<Rightarrow> bytes) \<Rightarrow> 'a log_state_scheme \<Rightarrow> 'a log_state_scheme \<Rightarrow> bool" where
  "tx_step H k D s t \<longleftrightarrow> tx_inv H t \<and> log_fr s t \<and> ldisk t = D \<and> nat (lh_n s) \<le> nat (lh_n t) \<and>
     nat (lh_n t) \<le> nat (lh_n s) + k \<and> tx.held_same H s t"

text \<open>There is room for \<open>k\<close> more logged blocks, and for one more buffer.\<close>

definition tx_room :: "nat set \<Rightarrow> nat \<Rightarrow> 'a log_state_scheme \<Rightarrow> bool" where
  "tx_room H k s \<longleftrightarrow> card H + nat (lh_n s) + k \<le> NBUF \<and> nat (lh_n s) + k \<le> nat (log_size s - 1)"

definition not_held :: "nat set \<Rightarrow> u32 \<Rightarrow> 'a log_state_scheme \<Rightarrow> bool" where
  "not_held H n s \<longleftrightarrow> (\<forall>j\<in>H. b_blockno (bufs s ! j) \<noteq> n)"

lemma tx_step_refl: "tx_inv H s \<Longrightarrow> tx_step H k (ldisk s) s s"
  by (simp add: tx_step_def tx.frame_refl tx.held_same_refl)

lemma tx_step_trans: "tx_step H j D s t \<Longrightarrow> tx_step H k E t u \<Longrightarrow> tx_step H (j + k) E s u"
  by (auto simp: tx_step_def intro: tx.frame_trans tx.held_same_trans)

lemma tx_step_mono: "tx_step H j D s t \<Longrightarrow> j \<le> k \<Longrightarrow> tx_step H k D s t"
  by (auto simp: tx_step_def)

lemma tx_step_room: "tx_step H j D s t \<Longrightarrow> tx_room H (j + k) s \<Longrightarrow> tx_room H k t"
  by (auto simp: tx_step_def tx_room_def log_fr_fields)

lemma tx_step_not_held: "tx_step H j D s t \<Longrightarrow> not_held H n t = not_held H n s"
  by (simp add: tx_step_def not_held_def tx.held_same_def)

lemma tx_stepD:
  assumes "tx_step H j D s (t :: 'a inode_state_scheme)"
  shows "tx_inv H t" "log_fr s t" "ldisk t = D" "sb t = sb s" "inodes t = inodes s" "home_block t = home_block s"
    "inode_state.more t = inode_state.more s" "log_size t = log_size s"
proof -
  have m: "log_state.more t = log_state.more s"
    using assms log_fr_fields [of s t] by (simp add: tx_step_def)
  then show "sb t = sb s" "inodes t = inodes s" "inode_state.more t = inode_state.more s"
    by (cases s, cases t, simp)+
  show "tx_inv H t" "log_fr s t" "ldisk t = D" "home_block t = home_block s" "log_size t = log_size s"
    using assms log_fr_fields [of s t] by (simp_all add: tx_step_def)
qed

text \<open>Reading a block and letting it go, and reading, changing and logging one.\<close>

lemma tx_read:
  assumes "tx_inv H s" "home_block s n" "not_held H n s" "tx_room H 1 s"
    and "\<And>i t. i \<notin> H \<Longrightarrow> tx_inv (insert i H) t \<Longrightarrow> log_fr s t \<Longrightarrow> ldisk t = ldisk s \<Longrightarrow> lh_n t = lh_n s \<Longrightarrow>
      b_blockno (bufs t ! i) = n \<Longrightarrow> buf_data t i = ldisk s n \<Longrightarrow> settled_buf t i \<Longrightarrow> tx.held_same H s t \<Longrightarrow> okr (f i t) Q"
  shows "okr (bindr (bread 1 n s) f) Q"
proof (rule tx.rd_okr [where H = H])
  show "tx_inv H s" "home_block s n" "card H + nat (lh_n s) < NBUF"
    using assms(1,2,4) by (simp_all add: tx_room_def)
  show "b_blockno (bufs s ! j) \<noteq> n" if "j \<in> H" for j
    using assms(3) that by (simp add: not_held_def)
  fix i t
  assume a: "i \<notin> H" "tx_inv (insert i H) t" "log_fr s t" "ldisk t = ldisk s" "nat (lh_n t) = nat (lh_n s)"
    "b_blockno (bufs t ! i) = n" "buf_data t i = ldisk s n" "settled_buf t i" "tx.held_same H s t"
  then have "lh_n t = lh_n s"
    using assms(1) by (auto simp: tx_inv_def log_ok_def)
  with a show "okr (f i t) Q"
    by (intro assms(5))
qed

lemma tx_release:
  assumes "tx_inv (insert i H) t" "i \<notin> H" "settled_buf t i" "log_fr s t" "ldisk t = ldisk s" "lh_n t = lh_n s" "tx.held_same H s t"
    and "\<And>u. tx_step H 0 (ldisk s) s u \<Longrightarrow> okr (f () u) Q"
  shows "okr (bindr (brelse i t) f) Q"
proof (rule tx.rel_okr [OF assms(1-3)])
  fix u
  assume "tx_inv H u" "log_fr t u" "ldisk u = ldisk t" "nat (lh_n u) = nat (lh_n t)" "tx.held_same H t u"
  then show "okr (f () u) Q"
    using assms(4-7) by (intro assms(8)) (auto simp: tx_step_def intro: tx.frame_trans tx.held_same_trans)
qed

lemma tx_modify:
  assumes "tx_inv (insert i H) t" "i \<notin> H" "tx_room H 1 s" "log_fr s t" "ldisk t = ldisk s" "lh_n t = lh_n s" "tx.held_same H s t"
    and "b_blockno (bufs t ! i) = n"
    and "\<And>u. tx_step H 1 ((ldisk s)(n := d)) s u \<Longrightarrow> okr (f () u) Q"
  shows "okr (bindr (log_write i (set_data i d t)) (\<lambda>_ s. bindr (brelse i s) f)) Q"
proof (rule tx.modify_okr [OF assms(1,2)])
  show "nat (lh_n t) < nat (log_size t - 1)"
    using assms(3,6) log_fr_fields(1) [OF assms(4)] by (simp add: tx_room_def Suc_le_eq del: zless_nat_conj nat_less_iff)
  fix u
  assume "tx_inv H u" "log_fr t u" "ldisk u = (ldisk t)(b_blockno (bufs t ! i) := d)" "nat (lh_n t) \<le> nat (lh_n u)"
    "nat (lh_n u) \<le> Suc (nat (lh_n t))" "tx.held_same H t u"
  then show "okr (f () u) Q"
    using assms(4-8) by (intro assms(9)) (auto simp: tx_step_def intro: tx.frame_trans tx.held_same_trans)
qed

lemma bzero_spec:
  assumes "tx_inv H s" "home_block s n" "not_held H n s" "tx_room H 1 s"
  shows "okr (bzero 1 n s) (\<lambda>_ t. tx_step H 1 ((ldisk s)(n := (\<lambda>_. 0))) s t)"
  unfolding bzero_def by (rule tx_read [OF assms], rule tx_modify [OF _ _ assms(4)]) simp_all

section \<open>Allocating and freeing blocks\<close>

text \<open>What \<open>balloc\<close> and \<open>bfree\<close> rely on: the caller holds neither a bitmap block nor a free block.\<close>

definition alloc_pre :: "nat set \<Rightarrow> 'a inode_state_scheme \<Rightarrow> bool" where
  "alloc_pre H s \<longleftrightarrow> tx_inv H s \<and> bitmap_ok s \<and>
     (\<forall>b. b < sb_size (sb s) \<longrightarrow> not_held H (BBLOCK b (sb s)) s \<and> (\<not> block_used s b \<longrightarrow> not_held H b s))"

definition marked :: "u32 \<Rightarrow> bytes \<Rightarrow> bytes" where
  "marked b d = (let bi = unat b mod BPB in d(bi div 8 := d (bi div 8) OR bit_mask bi))"

definition unmarked :: "u32 \<Rightarrow> bytes \<Rightarrow> bytes" where
  "unmarked b d = (let bi = unat b mod BPB in d(bi div 8 := d (bi div 8) AND NOT (bit_mask bi)))"

lemma BBLOCK_same:
  assumes "BBLOCK b fs = BBLOCK c fs" "unat b mod BPB = unat c mod BPB"
  shows "b = c"
proof -
  have "b div 4096 = c div 4096"
    using assms(1) by (simp add: BBLOCK_def)
  then have "unat b div 4096 = unat c div 4096"
    using unat_div_distrib [of b 4096] unat_div_distrib [of c 4096] by simp
  then have "unat b = unat c"
    using assms(2) by (metis div_mult_mod_eq)
  then show ?thesis
    by (simp only: word_unat_eq_iff)
qed

lemma block_used_marked:
  assumes "ldisk t (BBLOCK c (sb s)) = (if BBLOCK c (sb s) = BBLOCK b (sb s) then marked b (ldisk s (BBLOCK b (sb s)))
      else ldisk s (BBLOCK c (sb s)))" "sb t = sb s"
  shows "block_used t c \<longleftrightarrow> c = b \<or> block_used s c"
  using assms BBLOCK_same [of c "sb s" b] by (auto simp: block_used_def marked_def Let_def bit_used_set)

lemma block_used_unmarked:
  assumes "ldisk t (BBLOCK c (sb s)) = (if BBLOCK c (sb s) = BBLOCK b (sb s) then unmarked b (ldisk s (BBLOCK b (sb s)))
      else ldisk s (BBLOCK c (sb s)))" "sb t = sb s"
  shows "block_used t c \<longleftrightarrow> c \<noteq> b \<and> block_used s c"
  using assms BBLOCK_same [of c "sb s" b] by (auto simp: block_used_def unmarked_def Let_def bit_used_clear)

lemma bfree_spec:
  assumes pre: "alloc_pre H s" "tx_room H 1 s" "b < sb_size (sb s)" and used: "block_used s b"
  shows "okr (bfree 1 b s) (\<lambda>_ t. tx_step H 1 ((ldisk s)(BBLOCK b (sb s) := unmarked b (ldisk s (BBLOCK b (sb s))))) s t)"
proof -
  have p: "tx_inv H s" "home_block s (BBLOCK b (sb s))" "not_held H (BBLOCK b (sb s)) s"
    using pre by (simp_all add: alloc_pre_def bitmap_ok_def)
  show ?thesis
    unfolding bfree_def
  proof (rule tx_read [OF p pre(2)], goal_cases)
    case (1 i t)
    show ?case
      using used 1(7) by (simp add: Let_def block_used_def del: okr_bindr,
          intro tx_modify [OF 1(2,1) pre(2) 1(3,4,5,9,6)], simp add: unmarked_def Let_def)
  qed
qed

lemma bfree_free:
  assumes pre: "alloc_pre H s" "tx_room H 1 s" "b < sb_size (sb s)" and free: "\<not> block_used s b"
  shows "bfree 1 b s = Panic ''freeing free block''"
proof -
  have "okr (bread 1 (BBLOCK b (sb s)) s) (\<lambda>i t. buf_data t i = ldisk s (BBLOCK b (sb s)))"
    using pre tx_read [of H s "BBLOCK b (sb s)" "\<lambda>i t. Ret i t"] by (simp add: alloc_pre_def bitmap_ok_def)
  then obtain i t where "bread 1 (BBLOCK b (sb s)) s = Ret i t" "buf_data t i = ldisk s (BBLOCK b (sb s))"
    by (rule okrE)
  then show ?thesis
    using free by (simp add: bfree_def block_used_def)
qed

text \<open>One turn of the outer loop of \<open>balloc\<close>, over the bitmap block of the blocks from \<open>4096 * k\<close> on.\<close>

definition balloc_turn :: "nat \<Rightarrow> nat \<Rightarrow> 'a inode_state_scheme \<Rightarrow> (u32 option, 'a inode_state_scheme) kres" where
  "balloc_turn sz b s =
     bindr (bread 1 (BBLOCK (of_nat b) (sb s)) s) (\<lambda>bp s.
       case find (\<lambda>bi. \<not> bit_used (buf_data s bp) bi) [0..<min BPB (sz - b)] of
         Some bi \<Rightarrow>
           let d = buf_data s bp
           in bindr (log_write bp (set_data bp (d(bi div 8 := d (bi div 8) OR bit_mask bi)) s)) (\<lambda>_ s.
              bindr (brelse bp s) (\<lambda>_ s.
              bindr (bzero 1 (of_nat (b + bi)) s) (\<lambda>_ s. Ret (Some (of_nat (b + bi))) s)))
       | None \<Rightarrow> bindr (brelse bp s) (\<lambda>_ s. Ret None s))"

definition balloc_post :: "nat set \<Rightarrow> 'a inode_state_scheme \<Rightarrow> u32 \<Rightarrow> 'a inode_state_scheme \<Rightarrow> bool" where
  "balloc_post H s b t \<longleftrightarrow> b < sb_size (sb s) \<and> \<not> block_used s b \<and>
     tx_step H 2 ((ldisk s)(BBLOCK b (sb s) := marked b (ldisk s (BBLOCK b (sb s))), b := (\<lambda>_. 0))) s t"

lemma balloc_turn_spec:
  assumes pre: "alloc_pre H s" "tx_room H 2 s" and k: "4096 * k < unat (sb_size (sb s))"
  shows "okr (balloc_turn (unat (sb_size (sb s))) (4096 * k) s) (\<lambda>r t. case r of
      None \<Rightarrow> tx_step H 0 (ldisk s) s t \<and>
        (\<forall>bi. bi < BPB \<longrightarrow> 4096 * k + bi < unat (sb_size (sb s)) \<longrightarrow> block_used s (of_nat (4096 * k + bi)))
    | Some b \<Rightarrow> balloc_post H s b t)"
proof -
  let ?n = "unat (sb_size (sb s))" and ?B = "BBLOCK (of_nat (4096 * k)) (sb s)"
  have n: "?n < 4294967296"
    using unsigned_less [of "sb_size (sb s)"] by simp
  have u: "unat (of_nat (4096 * k + bi) :: u32) = 4096 * k + bi" if "4096 * k + bi < ?n" for bi
    using that n by (simp only: unat_of_nat) simp
  have less: "(of_nat (4096 * k + bi) :: u32) < sb_size (sb s)" if "4096 * k + bi < ?n" for bi
    using u [OF that] that by (simp add: word_less_nat_alt)
  have used: "block_used s (of_nat (4096 * k + bi)) = bit_used (ldisk s ?B) bi" if "bi < BPB" "4096 * k + bi < ?n" for bi
    using BBLOCK_split [OF that(1), of k] that(2) n by (simp add: block_used_def del: of_nat_add of_nat_mult)
  have p: "tx_inv H s" "home_block s ?B" "not_held H ?B s" "tx_room H 1 s"
    using pre less [of 0] k by (simp_all add: alloc_pre_def bitmap_ok_def tx_room_def)
  show ?thesis
    unfolding balloc_turn_def
  proof (rule tx_read [OF p], goal_cases)
    case (1 i t)
    show ?case
    proof (cases "find (\<lambda>bi. \<not> bit_used (ldisk s ?B) bi) [0..<min BPB (?n - 4096 * k)]")
      case None
      then have all: "\<forall>bi. bi < BPB \<longrightarrow> 4096 * k + bi < ?n \<longrightarrow> block_used s (of_nat (4096 * k + bi))"
        using used by (auto simp: find_None_iff)
      show ?thesis
        unfolding 1(7) None option.case
        by (rule tx_release [OF 1(2,1,8,3,4,5,9)]) (use all in simp)
    next
      case (Some bi)
      let ?b = "of_nat (4096 * k + bi) :: u32"
      have "bi < min BPB (?n - 4096 * k)" "\<not> bit_used (ldisk s ?B) bi"
        using Some by (auto simp: find_Some_iff)
      then have bi: "bi < BPB" "4096 * k + bi < ?n" "\<not> bit_used (ldisk s ?B) bi"
        by auto
      have b: "?b < sb_size (sb s)" "\<not> block_used s ?b" "BBLOCK ?b (sb s) = ?B" "unat ?b mod BPB = bi"
        using bi less used BBLOCK_split [of bi k] n by auto
      have h: "home_block s ?b" "not_held H ?b s"
        using b pre(1) by (auto simp: alloc_pre_def bitmap_ok_def)
      have m: "(ldisk s ?B)(bi div 8 := ldisk s ?B (bi div 8) OR bit_mask bi) = marked ?b (ldisk s ?B)"
        by (simp only: marked_def b(4) Let_def)
      show ?thesis
        unfolding 1(7) Some option.case Let_def m
      proof (rule tx_modify [OF 1(2,1) p(4) 1(3,4,5,9,6)])
        fix u
        assume u: "tx_step H 1 ((ldisk s)(?B := marked ?b (ldisk s ?B))) s u"
        have "okr (bzero 1 ?b u) (\<lambda>_ v. tx_step H 1 ((ldisk u)(?b := (\<lambda>_. 0))) u v)"
          using tx_stepD [OF u] h pre(2) tx_step_not_held [OF u, of ?b] tx_step_room [OF u, of 1]
          by (intro bzero_spec) (simp_all add: numeral_2_eq_2)
        then have "okr (bzero 1 ?b u) (\<lambda>_ v. balloc_post H s ?b v)"
          by (rule okr_mono) (use b tx_step_trans [OF u] tx_stepD(3) [OF u] in \<open>simp add: balloc_post_def numeral_2_eq_2\<close>)
        then show "okr (bindr (bzero 1 ?b u) (\<lambda>_ s. Ret (Some ?b) s)) (\<lambda>r t. case r of
             None \<Rightarrow> tx_step H 0 (ldisk s) s t \<and>
               (\<forall>bi. bi < BPB \<longrightarrow> 4096 * k + bi < ?n \<longrightarrow> block_used s (of_nat (4096 * k + bi)))
           | Some b \<Rightarrow> balloc_post H s b t)"
          by (simp del: of_nat_add of_nat_mult)
      qed
    qed
  qed
qed

lemma balloc_spec:
  assumes pre: "alloc_pre H s" "tx_room H 2 s"
  shows "case balloc 1 s of Ret b t \<Rightarrow> balloc_post H s b t
    | Panic m \<Rightarrow> m = ''balloc: out of blocks'' \<and> (\<forall>b. b < sb_size (sb s) \<longrightarrow> block_used s b) | _ \<Rightarrow> False"
proof -
  let ?n = "unat (sb_size (sb s))"
  let ?ks = "map (\<lambda>k. k * BPB) [0..<(?n + BPB - 1) div BPB]"
  let ?P = "\<lambda>b. \<forall>bi. bi < BPB \<longrightarrow> b + bi < ?n \<longrightarrow> block_used s (of_nat (b + bi))"
  have "okr (firstr ?ks (balloc_turn ?n) s)
      (\<lambda>r t. case r of None \<Rightarrow> tx_step H 0 (ldisk s) s t \<and> (\<forall>b\<in>set ?ks. ?P b) | Some b \<Rightarrow> balloc_post H s b t)"
  proof (rule firstr_okr)
    show "tx_step H 0 (ldisk s) s s"
      using pre by (simp add: alloc_pre_def tx_step_refl)
    fix b t
    assume b: "b \<in> set ?ks" and t: "tx_step H 0 (ldisk s) s t"
    then obtain k where k: "b = 4096 * k" "4096 * k < ?n"
      by auto
    note f = tx_stepD [OF t]
    have u: "block_used t = block_used s"
      by (simp add: fun_eq_iff block_used_def f(3,4))
    have "alloc_pre H t"
      using pre f u tx_step_not_held [OF t] by (simp add: alloc_pre_def bitmap_ok_def)
    moreover have "tx_room H 2 t"
      by (rule tx_step_room [OF t, unfolded add_0, OF pre(2)])
    ultimately have "okr (balloc_turn ?n b t) (\<lambda>r u. case r of None \<Rightarrow> tx_step H 0 (ldisk t) t u \<and> ?P b | Some b \<Rightarrow> balloc_post H t b u)"
      using balloc_turn_spec [of H t k] k(2) unfolding k(1) f(4) u by blast
    then show "okr (balloc_turn ?n b t) (\<lambda>r u. case r of None \<Rightarrow> tx_step H 0 (ldisk s) s u \<and> ?P b | Some b \<Rightarrow> balloc_post H s b u)"
      by (rule okr_mono)
         (use f tx_step_trans [OF t] in \<open>auto split: option.splits simp: balloc_post_def u\<close>)
  qed
  moreover have "block_used s b" if "\<forall>b\<in>set ?ks. ?P b" "b < sb_size (sb s)" for b
  proof -
    have "unat b div 4096 * 4096 \<in> set ?ks"
      using that(2) by (auto simp: word_less_nat_alt)
    from bspec [OF that(1) this] have "unat b div 4096 * 4096 + unat b mod 4096 < ?n \<longrightarrow>
        block_used s (of_nat (unat b div 4096 * 4096 + unat b mod 4096))"
      by (elim allE [of _ "unat b mod 4096"] impE) (use that(2) in \<open>simp_all add: word_less_nat_alt\<close>)
    then show ?thesis
      using that(2) by (simp add: word_less_nat_alt)
  qed
  ultimately show ?thesis
    by (auto simp: balloc_def balloc_turn_def [abs_def] okr_iff Let_def split: option.splits)
qed

text \<open>After \<open>balloc\<close> and \<open>bfree\<close> the bitmap is as before but for the one block.\<close>

lemma balloc_post_bitmap:
  assumes pre: "alloc_pre H s" and post: "balloc_post H s b t"
  shows "ldisk t b = (\<lambda>_. 0)" "c < sb_size (sb s) \<Longrightarrow> block_used t c \<longleftrightarrow> c = b \<or> block_used s c"
    "c \<noteq> b \<Longrightarrow> c \<noteq> BBLOCK b (sb s) \<Longrightarrow> ldisk t c = ldisk s c" "alloc_pre H t"
proof -
  have b: "b < sb_size (sb s)" "\<not> block_used s b"
    and t: "tx_step H 2 ((ldisk s)(BBLOCK b (sb s) := marked b (ldisk s (BBLOCK b (sb s))), b := (\<lambda>_. 0))) s t"
    using post by (simp_all add: balloc_post_def)
  have ne: "BBLOCK c (sb s) \<noteq> b" if "c < sb_size (sb s)" for c
    using pre b that by (auto simp: alloc_pre_def bitmap_ok_def)
  note f = tx_stepD [OF t]
  show "ldisk t b = (\<lambda>_. 0)" "c \<noteq> b \<Longrightarrow> c \<noteq> BBLOCK b (sb s) \<Longrightarrow> ldisk t c = ldisk s c"
    by (simp_all add: f(3))
  have u: "block_used t c \<longleftrightarrow> c = b \<or> block_used s c" if "c < sb_size (sb s)" for c
    using ne [OF that] by (intro block_used_marked) (auto simp: f(3,4))
  then show "block_used t c \<longleftrightarrow> c = b \<or> block_used s c" if "c < sb_size (sb s)"
    using that .
  show "alloc_pre H t"
    using pre u by (auto simp: alloc_pre_def bitmap_ok_def f tx_step_not_held [OF t])
qed

section \<open>A sample disk\<close>

text \<open>
  A disk as \<^verbatim>\<open>mkfs\<close> lays it out, with the superblock at 1, a log from 2 on, one block of inodes at 32
  holding an empty root directory, the bitmap at 33 and 60 free blocks from 40 on.
\<close>

definition sample_fs :: inode_state where
  "sample_fs = log_state.extend
     (sample_log\<lparr>bufs := bufs boot_bio, lh_n := 0,
        disk := (\<lambda>n. if n = 32 then (\<lambda>k. if k = 128 \<or> k = 134 then 1 else 0)
                     else if n = 33 then (\<lambda>k. if k < 5 then 255 else 0) else (\<lambda>_. 0))\<rparr>)
     (inode_state.fields
        \<lparr>sb_size = 100, sb_nblocks = 66, sb_ninodes = 4, sb_nlog = 30, sb_logstart = 2, sb_inodestart = 32, sb_bmapstart = 33\<rparr>
        (replicate 50 \<lparr>i_dev = 0, i_inum = 0, i_ref = 0, i_valid = False, i_type = 0, i_major = 0, i_minor = 0,
           i_nlink = 0, i_size = 0, i_addrs = replicate 13 0, i_mode = 0\<rparr>))"

lemma sample_fs_fields:
  "sb sample_fs = \<lparr>sb_size = 100, sb_nblocks = 66, sb_ninodes = 4, sb_nlog = 30, sb_logstart = 2, sb_inodestart = 32, sb_bmapstart = 33\<rparr>"
  "inodes sample_fs = replicate 50 \<lparr>i_dev = 0, i_inum = 0, i_ref = 0, i_valid = False, i_type = 0, i_major = 0, i_minor = 0,
     i_nlink = 0, i_size = 0, i_addrs = replicate 13 0, i_mode = 0\<rparr>"
  "bufs sample_fs = bufs boot_bio" "lru sample_fs = lru boot_bio" "sleeplocks sample_fs = sleeplocks boot_bio"
  "disk sample_fs = (\<lambda>n. if n = 32 then (\<lambda>k. if k = 128 \<or> k = 134 then 1 else 0)
      else if n = 33 then (\<lambda>k. if k < 5 then 255 else 0) else (\<lambda>_. 0))"
  "disksize sample_fs = 1000" "log_start sample_fs = 2" "log_size sample_fs = 30" "log_outstanding sample_fs = 1"
  "log_dev sample_fs = 1" "lh_n sample_fs = 0" "lh_block sample_fs = 40 # replicate 29 0" "in_proc sample_fs"
  using sample_log_fields
  by (simp_all add: sample_fs_def log_state.defs inode_state.defs in_proc_def myproc_def del: replicate.simps)

lemma sample_fs_bufs:
  assumes "i < 30"
  shows "\<not> valid (bufs sample_fs ! i)" "\<not> dirty (bufs sample_fs ! i)" "b_dev (bufs sample_fs ! i) = 0"
    "b_refcnt (bufs sample_fs ! i) = 0"
  using assms by (simp_all add: sample_fs_fields boot_bio_fields valid_def dirty_def)

lemma sample_fs_tx: "tx_inv {} sample_fs" "ldisk sample_fs = disk sample_fs"
proof -
  have len: "length (bufs sample_fs) = 30"
    by (simp add: sample_fs_fields boot_bio_fields)
  have "cache_inv {} sample_fs"
    using sample_fs_bufs len sample_fs_fields(14)
    by (auto simp: cache_inv_def uniq_bufs_def buf_ok_def sample_fs_fields(4,5) boot_bio_fields atLeast0LessThan
        simp del: upt_rec_numeral)
  moreover have "dirty_blocks sample_fs = {}"
    using sample_fs_bufs len by (auto simp: dirty_blocks_def in_set_conv_nth)
  ultimately show "tx_inv {} sample_fs"
    by (simp add: tx_inv_def log_ok_def log_geom_def logged_def sample_fs_fields(6-13) hdr_n_def rd32_def del: replicate.simps)
  show "ldisk sample_fs = disk sample_fs"
    using sample_fs_bufs len
    by (auto simp: fun_eq_iff ldisk_def cached_def in_set_conv_nth first_index_Some split: option.splits)
qed

lemma sample_fs_used: "b < 100 \<Longrightarrow> block_used sample_fs b \<longleftrightarrow> b < 40"
proof -
  assume "b < 100"
  then have b: "unat b < 100"
    by (simp add: word_less_nat_alt)
  have "BBLOCK b (sb sample_fs) = 33"
    using b by (simp add: BBLOCK_def sample_fs_fields word_unat_eq_iff unat_div_distrib unat_word_ariths)
  moreover have "bit (255 :: u8) (unat b mod 8)"
  proof -
    have "bit (mask 8 :: u8) (unat b mod 8)"
      by (simp add: bit_mask_iff)
    then show ?thesis
      by (simp add: mask_eq_exp_minus_1)
  qed
  ultimately have "block_used sample_fs b \<longleftrightarrow> unat b div 8 < 5"
    using b by (simp add: block_used_def bit_used_bit sample_fs_tx(2) sample_fs_fields(6))
  also have "\<dots> \<longleftrightarrow> b < 40"
    by (auto simp: word_less_nat_alt)
  finally show ?thesis .
qed

lemma sample_fs_alloc: "alloc_pre {} sample_fs" "tx_room {} 2 sample_fs"
proof -
  have h: "home_block sample_fs b" if "b < 100" "32 \<le> b" for b
    using that by (auto simp: home_block_def log_region_def sample_fs_fields word_less_nat_alt word_le_nat_alt)
  have B: "BBLOCK b (sb sample_fs) = 33" if "b < 100" for b
    using that by (simp add: BBLOCK_def sample_fs_fields word_less_nat_alt word_unat_eq_iff unat_div_distrib unat_word_ariths)
  have "32 \<le> b \<and> b \<noteq> 33" if "\<not> b < (40 :: u32)" for b
    using that by (auto simp: word_less_nat_alt word_le_nat_alt)
  then show "alloc_pre {} sample_fs"
    using sample_fs_tx h B sample_fs_used by (auto simp: alloc_pre_def bitmap_ok_def not_held_def sample_fs_fields(1))
  show "tx_room {} 2 sample_fs"
    by (simp add: tx_room_def sample_fs_fields)
qed

section \<open>On-disk inodes\<close>

abbreviation (input) inode_block :: "'a inode_state_scheme \<Rightarrow> nat \<Rightarrow> u32" where
  "inode_block s ip \<equiv> IBLOCK (i_inum (inodes s ! ip)) (sb s)"

lemma rd32_fold_addrs:
  "rd32 (fold (\<lambda>k d. wr32 d (p + 4 * k) (f k)) [0..<n] d) (p + 4 * j) = (if j < n then f j else rd32 d (p + 4 * j))"
  by (induction n) (auto simp: less_Suc_eq)

lemma fold_addrs_outside:
  "j < p \<or> p + 4 * n \<le> j \<Longrightarrow> fold (\<lambda>k d. wr32 d (p + 4 * k) (f k)) [0..<n] d j = d j"
  by (induction n) auto

lemma rd_fold_addrs_outside:
  "i + 2 \<le> p \<Longrightarrow> rd16 (fold (\<lambda>k d. wr32 d (p + 4 * k) (f k)) [0..<n] d) i = rd16 d i"
  "i + 4 \<le> p \<Longrightarrow> rd32 (fold (\<lambda>k d. wr32 d (p + 4 * k) (f k)) [0..<n] d) i = rd32 d i"
  by (auto intro!: rd16_cong rd32_cong fold_addrs_outside)

lemma store_dinode_outside: "j < off \<or> off + 128 \<le> j \<Longrightarrow> store_dinode ip off d j = d j"
  by (auto simp: store_dinode_def Let_def fold_addrs_outside simp del: upt_rec_numeral)

lemma load_store_dinode:
  assumes "length (i_addrs i) = 13"
  shows "load_dinode (store_dinode i off d) off j = i\<lparr>i_dev := i_dev j, i_inum := i_inum j, i_ref := i_ref j, i_valid := i_valid j\<rparr>"
  using assms
  by (cases i, cases j) (simp add: load_dinode_def store_dinode_def Let_def rd_fold_addrs_outside
     rd32_fold_addrs [of "off + 12"] list_eq_iff_nth_eq del: upt_rec_numeral)

lemma load_dinode_cong: "(\<And>k. off \<le> k \<Longrightarrow> k < off + 128 \<Longrightarrow> d k = e k) \<Longrightarrow> load_dinode d off = load_dinode e off"
  unfolding load_dinode_def
  by (intro ext) (auto intro!: inode.unfold_congs rd16_cong rd32_cong simp del: upt_rec_numeral)

lemma inodes_upd [simp]:
  "tx_inv H (s\<lparr>inodes := x\<rparr>) = tx_inv H s" "ldisk (s\<lparr>inodes := x\<rparr>) = ldisk s" "home_block (s\<lparr>inodes := x\<rparr>) = home_block s"
  "not_held H n (s\<lparr>inodes := x\<rparr>) = not_held H n s" "tx_room H k (s\<lparr>inodes := x\<rparr>) = tx_room H k s"
  by (simp_all add: tx_inv_def cache_inv_def uniq_bufs_def in_proc_def myproc_def mypid_def log_ok_def log_geom_def
      logged_def log_region_def dirty_blocks_def ldisk_def home_block_def not_held_def tx_room_def fun_eq_iff cong: option.case_cong)

lemma iupdate_spec:
  assumes pre: "tx_inv H s" "home_block s (inode_block s ip)" "not_held H (inode_block s ip) s" "tx_room H 1 s" and dev: "i_dev (inodes s ! ip) = 1"
  shows "okr (iupdate ip s) (\<lambda>_ t. tx_step H 1 ((ldisk s)(inode_block s ip :=
      store_dinode (inodes s ! ip) (dinode_off (inodes s ! ip)) (ldisk s (inode_block s ip)))) s t)"
  unfolding iupdate_def dev
proof (rule tx_read [OF pre], goal_cases)
  case (1 i t)
  have "inodes t = inodes s"
    using log_fr_fields(5) [OF 1(3)] by (cases s, cases t) simp
  then show ?case
    by (intro tx_modify [OF 1(2,1) pre(4) 1(3,4,5,9,6)]) (simp add: 1(7))
qed

section \<open>The inode cache invariant\<close>

text \<open>No two entries in use stand for the same inode.\<close>

definition icache_ok :: "inode list \<Rightarrow> bool" where
  "icache_ok ns \<longleftrightarrow> length ns = NINODE \<and> (\<forall>n\<in>set ns. 0 \<le> i_ref n) \<and>
     (\<forall>i<length ns. \<forall>j<length ns. 0 < i_ref (ns ! i) \<longrightarrow> 0 < i_ref (ns ! j) \<longrightarrow>
        i_dev (ns ! i) = i_dev (ns ! j) \<longrightarrow> i_inum (ns ! i) = i_inum (ns ! j) \<longrightarrow> i = j)"

definition names :: "u32 \<Rightarrow> u32 \<Rightarrow> inode \<Rightarrow> bool" where
  "names dev inum n \<longleftrightarrow> 0 < i_ref n \<and> i_dev n = dev \<and> i_inum n = inum"

lemma icache_ok_ref:
  assumes "icache_ok ns" "ip < length ns" "0 < i_ref (ns ! ip)" "0 \<le> r"
  shows "icache_ok (ns[ip := (ns ! ip)\<lparr>i_ref := r\<rparr>])"
proof -
  have "0 \<le> i_ref n" if "n \<in> set (ns[ip := (ns ! ip)\<lparr>i_ref := r\<rparr>])" for n
    using that assms set_update_subset_insert [of ns ip] by (fastforce simp: icache_ok_def)
  then show ?thesis
    using assms by (auto simp: icache_ok_def nth_list_update split: if_splits)
qed

lemma icache_ok_new:
  assumes "icache_ok ns" "ip < length ns" "i_ref (ns ! ip) = 0" "\<forall>n\<in>set ns. \<not> names dev inum n"
    "i_dev n = dev" "i_inum n = inum" "0 \<le> i_ref n"
  shows "icache_ok (ns[ip := n])"
proof -
  have "0 \<le> i_ref m" if "m \<in> set (ns[ip := n])" for m
    using that assms set_update_subset_insert [of ns ip] by (fastforce simp: icache_ok_def)
  moreover have "\<not> names dev inum (ns ! j)" if "j < length ns" for j
    using assms(4) that by simp
  ultimately show ?thesis
    using assms by (auto simp: icache_ok_def names_def nth_list_update split: if_splits)
qed

section \<open>Properties\<close>

text \<open>
  \<^verbatim>\<open>balloc\<close> returns a block that was free, marked in the bitmap and zeroed; no other bit of the
  bitmap and no other block changes, and it panics exactly when every block is in use.
\<close>

lemma balloc_allocates:
  assumes "alloc_pre H s" "tx_room H 2 s"
  shows "case balloc 1 s of
      Ret b t \<Rightarrow> b < sb_size (sb s) \<and> \<not> block_used s b \<and> ldisk t b = (\<lambda>_. 0) \<and>
        (\<forall>c. c < sb_size (sb s) \<longrightarrow> (block_used t c \<longleftrightarrow> c = b \<or> block_used s c)) \<and>
        (\<forall>c. c \<noteq> b \<longrightarrow> c \<noteq> BBLOCK b (sb s) \<longrightarrow> ldisk t c = ldisk s c) \<and> alloc_pre H t
    | Panic m \<Rightarrow> m = ''balloc: out of blocks'' \<and> (\<forall>b. b < sb_size (sb s) \<longrightarrow> block_used s b)
    | _ \<Rightarrow> False"
proof -
  have "b < sb_size (sb s)" "\<not> block_used s b" if "balloc_post H s b t" for b t
    using that by (simp_all add: balloc_post_def)
  then show ?thesis
    using balloc_spec [OF assms] balloc_post_bitmap [OF assms(1)] by (auto split: kres.splits)
qed

lemma balloc_allocates_witness:
  "case balloc 1 sample_fs of Ret b t \<Rightarrow> \<not> block_used sample_fs b \<and> block_used t b | _ \<Rightarrow> False"
  using balloc_allocates [OF sample_fs_alloc] sample_fs_used [of 50]
  by (auto simp: sample_fs_fields(1) split: kres.splits)

text \<open>
  \<^verbatim>\<open>bfree\<close> of a block in use clears its bit of the bitmap and changes nothing else of the disk;
  \<^verbatim>\<open>bfree\<close> of a free block panics.
\<close>

lemma bfree_frees:
  assumes "alloc_pre H s" "tx_room H 1 s" "b < sb_size (sb s)"
  shows "case bfree 1 b s of
      Ret _ t \<Rightarrow> block_used s b \<and> (\<forall>c. block_used t c \<longleftrightarrow> c \<noteq> b \<and> block_used s c) \<and>
        (\<forall>c. c \<noteq> BBLOCK b (sb s) \<longrightarrow> ldisk t c = ldisk s c) \<and> tx_inv H t
    | Panic m \<Rightarrow> m = ''freeing free block'' \<and> \<not> block_used s b
    | _ \<Rightarrow> False"
proof (cases "block_used s b")
  case True
  then obtain x t where r: "bfree 1 b s = Ret x t"
      and t: "tx_step H 1 ((ldisk s)(BBLOCK b (sb s) := unmarked b (ldisk s (BBLOCK b (sb s))))) s t"
    using bfree_spec [OF assms True] by (elim okrE)
  have "block_used t c \<longleftrightarrow> c \<noteq> b \<and> block_used s c" for c
    by (intro block_used_unmarked) (auto simp: tx_stepD [OF t])
  then show ?thesis
    using True r by (simp add: tx_stepD [OF t])
next
  case False
  then show ?thesis
    by (simp add: bfree_free [OF assms False])
qed

lemma bfree_frees_witness:
  "case bfree 1 39 sample_fs of Ret _ t \<Rightarrow> \<not> block_used t 39 \<and> block_used t 38 | _ \<Rightarrow> False"
proof -
  have "tx_room {} 1 sample_fs"
    by (simp add: tx_room_def sample_fs_fields)
  then show ?thesis
    using bfree_frees [OF sample_fs_alloc(1), of 39] sample_fs_used [of 39] sample_fs_used [of 38]
    by (auto simp: sample_fs_fields(1) split: kres.splits)
qed

text \<open>
  \<^verbatim>\<open>iupdate\<close> stores every field of the in-memory inode, so that loading the inode again gives it
  back; the other inodes of the block and all other blocks keep their contents.
\<close>

lemma iupdate_load_roundtrip:
  assumes "tx_inv H s" "home_block s (inode_block s ip)" "not_held H (inode_block s ip) s" "tx_room H 1 s" "i_dev (inodes s ! ip) = 1"
    "length (i_addrs (inodes s ! ip)) = 13"
  shows "okr (iupdate ip s) (\<lambda>_ t. inodes t = inodes s \<and>
     (\<forall>j. load_dinode (ldisk t (inode_block s ip)) (dinode_off (inodes s ! ip)) j =
        (inodes s ! ip)\<lparr>i_dev := i_dev j, i_inum := i_inum j, i_ref := i_ref j, i_valid := i_valid j\<rparr>) \<and>
     (\<forall>off. off + 128 \<le> dinode_off (inodes s ! ip) \<or> dinode_off (inodes s ! ip) + 128 \<le> off \<longrightarrow>
        load_dinode (ldisk t (inode_block s ip)) off = load_dinode (ldisk s (inode_block s ip)) off) \<and>
     (\<forall>b. b \<noteq> inode_block s ip \<longrightarrow> ldisk t b = ldisk s b))"
  using iupdate_spec [OF assms(1-5)]
proof (rule okr_mono)
  fix x t
  assume t: "tx_step H 1 ((ldisk s)(inode_block s ip :=
      store_dinode (inodes s ! ip) (dinode_off (inodes s ! ip)) (ldisk s (inode_block s ip)))) s t"
  have "load_dinode (ldisk t (inode_block s ip)) off = load_dinode (ldisk s (inode_block s ip)) off"
    if "off + 128 \<le> dinode_off (inodes s ! ip) \<or> dinode_off (inodes s ! ip) + 128 \<le> off" for off
    using that by (intro load_dinode_cong) (auto simp: tx_stepD [OF t] store_dinode_outside)
  then show "inodes t = inodes s \<and>
     (\<forall>j. load_dinode (ldisk t (inode_block s ip)) (dinode_off (inodes s ! ip)) j =
        (inodes s ! ip)\<lparr>i_dev := i_dev j, i_inum := i_inum j, i_ref := i_ref j, i_valid := i_valid j\<rparr>) \<and>
     (\<forall>off. off + 128 \<le> dinode_off (inodes s ! ip) \<or> dinode_off (inodes s ! ip) + 128 \<le> off \<longrightarrow>
        load_dinode (ldisk t (inode_block s ip)) off = load_dinode (ldisk s (inode_block s ip)) off) \<and>
     (\<forall>b. b \<noteq> inode_block s ip \<longrightarrow> ldisk t b = ldisk s b)"
    using load_store_dinode [OF assms(6)] by (simp add: tx_stepD [OF t])
qed

lemma iupdate_load_roundtrip_witness:
  "okr (iupdate 0 (sample_fs\<lparr>inodes := [\<lparr>i_dev = 1, i_inum = 2, i_ref = 1, i_valid = True, i_type = 2, i_major = 0, i_minor = 0,
      i_nlink = 1, i_size = 7, i_addrs = replicate 13 5, i_mode = 3\<rparr>]\<rparr>))
    (\<lambda>_ t. i_size (load_dinode (ldisk t 32) 256 undefined) = 7)"
proof -
  let ?s = "sample_fs\<lparr>inodes := [\<lparr>i_dev = 1, i_inum = 2, i_ref = 1, i_valid = True, i_type = 2, i_major = 0, i_minor = 0,
      i_nlink = 1, i_size = 7, i_addrs = replicate 13 5, i_mode = 3\<rparr>]\<rparr>"
  have b: "IBLOCK 2 (sb sample_fs) = 32"
    by (simp add: IBLOCK_def sample_fs_fields)
  have "home_block sample_fs 32" "not_held {} 32 sample_fs" "tx_room {} 1 sample_fs"
    by (simp_all add: home_block_def log_region_def sample_fs_fields not_held_def tx_room_def)
  then show ?thesis
    using iupdate_load_roundtrip [of "{}" ?s 0] sample_fs_tx b by (auto simp: dinode_off_def elim!: okr_mono simp del: replicate.simps)
qed

text \<open>
  C25: \<^verbatim>\<open>iget\<close> keeps the inode cache free of duplicates: it hands out the one entry that stands for the
  inode, with one more reference, leaves the other entries alone, and panics only when the inode is
  not cached and every entry is in use.
\<close>

theorem iget_canonical:
  assumes "icache_ok (inodes s)"
  shows "case iget dev inum s of
      Ret ip t \<Rightarrow> icache_ok (inodes t) \<and> ip < NINODE \<and> names dev inum (inodes t ! ip) \<and>
        i_ref (inodes t ! ip) = i_ref (inodes s ! ip) + 1 \<and>
        (\<forall>j<NINODE. j \<noteq> ip \<longrightarrow> inodes t ! j = inodes s ! j \<and> \<not> names dev inum (inodes t ! j)) \<and> disk t = disk s
    | Panic m \<Rightarrow> m = ''iget: no inodes'' \<and> (\<forall>n\<in>set (inodes s). 0 < i_ref n \<and> \<not> names dev inum n)
    | _ \<Rightarrow> False"
proof -
  have pos: "0 \<le> i_ref n" if "n \<in> set (inodes s)" for n
    using assms that by (simp_all add: icache_ok_def)
  have len: "length (inodes s) = 50"
    using assms by (simp add: icache_ok_def)
  have key: "(\<lambda>i. 0 < i_ref i \<and> i_dev i = dev \<and> i_inum i = inum) = names dev inum"
    by (simp add: fun_eq_iff names_def)
  show ?thesis
  proof (cases "first_index (names dev inum) (inodes s)")
    case (Some ip)
    then have ip: "ip < 50" "names dev inum (inodes s ! ip)"
      by (simp_all add: first_index_Some len)
    then have "icache_ok ((inodes s)[ip := (inodes s ! ip)\<lparr>i_ref := i_ref (inodes s ! ip) + 1\<rparr>])"
      using assms by (intro icache_ok_ref) (simp_all add: len names_def)
    moreover have "\<not> names dev inum (inodes s ! j)" if "j < 50" "j \<noteq> ip" for j
      using assms ip that by (auto simp: icache_ok_def names_def)
    ultimately show ?thesis
      using ip Some by (simp add: iget_def key upd_inode_def len names_def)
  next
    case None
    then have none: "\<forall>n\<in>set (inodes s). \<not> names dev inum n"
      by (simp add: first_index_None)
    show ?thesis
    proof (cases "first_index (\<lambda>i. i_ref i = 0) (inodes s)")
      case (Some ip)
      then have ip: "ip < 50" "i_ref (inodes s ! ip) = 0"
        by (simp_all add: first_index_Some len)
      then have "icache_ok ((inodes s)[ip := (inodes s ! ip)\<lparr>i_dev := dev, i_inum := inum, i_ref := 1, i_valid := False\<rparr>])"
        using assms none by (intro icache_ok_new [where dev = dev and inum = inum]) (simp_all add: len)
      moreover have "\<not> names dev inum (inodes s ! j)" if "j < 50" for j
        using none that len by simp
      ultimately show ?thesis
        using ip Some None by (simp add: iget_def key upd_inode_def len names_def)
    next
      case none': None
      have "0 < i_ref n" if "n \<in> set (inodes s)" for n
        using none' pos [OF that] that by (force simp: first_index_None)
      then show ?thesis
        using None none' none by (simp add: iget_def key)
    qed
  qed
qed

theorem iget_canonical_witness:
  "case iget 1 2 sample_fs of Ret ip t \<Rightarrow> names 1 2 (inodes t ! ip) \<and> i_ref (inodes t ! ip) = i_ref (inodes sample_fs ! ip) + 1 | _ \<Rightarrow> False"
proof -
  obtain n where n: "inodes sample_fs = replicate 50 n" "i_ref n = 0"
    using sample_fs_fields(2) by (simp del: replicate.simps)
  then have "icache_ok (inodes sample_fs)"
    by (simp add: icache_ok_def del: replicate.simps)
  from iget_canonical [OF this, of 1 2] n show ?thesis
    by (simp del: replicate.simps split: kres.splits)
qed

end
