(* ===== verification/Console.thy ===== *)
theory Console
  imports Inode
begin

text \<open>
  The console device, \<^verbatim>\<open>console.c\<close>: the CGA screen, the line-editing input buffer filled by the
  interrupt handler, and the device read and write routines. \<open>cons_out\<close> is the sequence of bytes
  sent to the serial port, if there is one (\<open>uart\<close>). The three indices of the input buffer are free-running 32-bit counters
  with \<open>r \<le> w \<le> e\<close> in the sense of \<open>cons_inv\<close> of theory \<open>Tty\<close>; the buffer is used modulo its size.
  \<^verbatim>\<open>procdump\<close> only prints and is not modelled.
\<close>

section \<open>State and operations\<close>

abbreviation (input) INPUT_BUF :: nat where "INPUT_BUF \<equiv> 128"
abbreviation (input) BACKSPACE :: int where "BACKSPACE \<equiv> 0x100"
abbreviation (input) CONSOLE :: nat where "CONSOLE \<equiv> 1"

record console_state = inode_state +
  input_buf :: bytes
  input_r :: u32
  input_w :: u32
  input_e :: u32
  uart :: bool
  cons_out :: "u8 list"
  cga_pos :: int
  crt :: "nat \<Rightarrow> u16"
  devsw :: "nat \<Rightarrow> bool"

text \<open>
  \<^verbatim>\<open>cgaputc\<close> on the cursor position and the screen memory. The screen has 25 rows of 80 cells.
\<close>

definition cgaputc :: "int \<Rightarrow> int \<times> (nat \<Rightarrow> u16) \<Rightarrow> (int \<times> (nat \<Rightarrow> u16)) option" where
  "cgaputc c cg =
     (let (pos, m) = cg;
          (pos, m) = (if c = 10 then (pos + (80 - pos mod 80), m)
                      else if c = BACKSPACE then (if pos > 0 then pos - 1 else pos, m)
                      else (pos + 1, m(nat pos := (word_of_int c AND 0xFF) OR 0x0700)))
      in if pos < 0 \<or> pos > 25 * 80 then None
         else let (pos, m) = (if pos div 80 \<ge> 24
                  then (pos - 80, \<lambda>i. if i < 23 * 80 then m (i + 80)
                                      else if nat (pos - 80) \<le> i \<and> i < 24 * 80 then 0 else m i)
                  else (pos, m))
              in Some (pos, m(nat pos := 0x0720)))"

definition uartputc :: "u8 \<Rightarrow> 'a console_state_scheme \<Rightarrow> 'a console_state_scheme" where
  "uartputc c s = (if uart s then s\<lparr>cons_out := cons_out s @ [c]\<rparr> else s)"

definition consputc :: "int \<Rightarrow> 'a console_state_scheme \<Rightarrow> (unit, 'a console_state_scheme) kres" where
  "consputc c s =
     (let s = (if c = BACKSPACE then uartputc 8 (uartputc 32 (uartputc 8 s)) else uartputc (word_of_int c) s)
      in case cgaputc c (cga_pos s, crt s) of
           None \<Rightarrow> Panic ''pos under/overflow''
         | Some (pos, m) \<Rightarrow> Ret () (s\<lparr>cga_pos := pos, crt := m\<rparr>))"

text \<open>
  The kill-line loop of \<^verbatim>\<open>consoleintr\<close>. It runs at most once per character between the two indices,
  of which there are never more than \<open>INPUT_BUF\<close>; \<open>killed_chars\<close> counts its turns.
\<close>

fun kill_count :: "nat \<Rightarrow> bytes \<Rightarrow> u32 \<Rightarrow> u32 \<Rightarrow> nat" where
  "kill_count 0 b w e = 0"
| "kill_count (Suc k) b w e =
     (if e \<noteq> w \<and> b (unat (e - 1) mod INPUT_BUF) \<noteq> 10 then Suc (kill_count k b w (e - 1)) else 0)"

definition erase :: "'a console_state_scheme \<Rightarrow> (unit, 'a console_state_scheme) kres" where
  "erase s = consputc BACKSPACE (s\<lparr>input_e := input_e s - 1\<rparr>)"

definition consoleintr_char :: "int \<Rightarrow> 'a console_state_scheme \<Rightarrow> (unit, 'a console_state_scheme) kres" where
  "consoleintr_char c s =
     (if c = 16 then Ret () s
      else if c = 21 then
        foreach [0..<kill_count INPUT_BUF (input_buf s) (input_w s) (input_e s)] (\<lambda>_. erase) s
      else if c = 8 \<or> c = 127 then (if input_e s \<noteq> input_w s then erase s else Ret () s)
      else if c \<noteq> 0 \<and> input_e s - input_r s < 128 then
        (let c = (if c = 13 then 10 else c);
             s = s\<lparr>input_buf := (input_buf s)(unat (input_e s) mod INPUT_BUF := word_of_int c),
                   input_e := input_e s + 1\<rparr>
         in bindr (consputc c s) (\<lambda>_ s.
              Ret () (if c = 10 \<or> c = 4 \<or> input_e s = input_r s + 128
                      then wakeup ChanInput (s\<lparr>input_w := input_e s\<rparr>) else s)))
      else Ret () s)"

text \<open>The interrupt handler on the characters the device driver yields before it runs dry.\<close>

definition consoleintr :: "int list \<Rightarrow> 'a console_state_scheme \<Rightarrow> (unit, 'a console_state_scheme) kres" where
  "consoleintr cs s = foreach (takeWhile (\<lambda>c. 0 \<le> c) cs) consoleintr_char s"

text \<open>
  The loop of \<^verbatim>\<open>consoleread\<close> with \<open>n\<close> bytes still to read and \<open>acc\<close> already stored at \<^verbatim>\<open>dst\<close>;
  the flag tells that the process has been killed while waiting.
\<close>

fun consoleread_loop :: "nat \<Rightarrow> u8 list \<Rightarrow> 'a console_state_scheme \<Rightarrow> (bool \<times> u8 list, 'a console_state_scheme) kres" where
  "consoleread_loop 0 acc s = Ret (False, acc) s"
| "consoleread_loop (Suc n) acc s =
     (if input_r s = input_w s then
        (case myproc s of
           None \<Rightarrow> Panic ''trap''
         | Some p \<Rightarrow> if p_killed (procs s ! p) then Ret (True, acc) s else sleep ChanInput s)
      else let c = input_buf s (unat (input_r s) mod INPUT_BUF);
               s = s\<lparr>input_r := input_r s + 1\<rparr>
           in if c = 4 then Ret (False, acc) (if acc \<noteq> [] then s\<lparr>input_r := input_r s - 1\<rparr> else s)
              else if c = 10 then Ret (False, acc @ [c]) s
              else consoleread_loop n (acc @ [c]) s)"

definition consoleread :: "nat \<Rightarrow> int \<Rightarrow> 'a console_state_scheme \<Rightarrow> (int \<times> u8 list, 'a console_state_scheme) kres" where
  "consoleread ip n s =
     bindr (iunlock (Some ip) s) (\<lambda>_ s.
     bindr (consoleread_loop (nat n) [] s) (\<lambda>(killed, cs) s.
     bindr (ilock (Some ip) s) (\<lambda>_ s. Ret (if killed then -1 else int (length cs), cs) s)))"

definition consolewrite :: "nat \<Rightarrow> bytes \<Rightarrow> int \<Rightarrow> 'a console_state_scheme \<Rightarrow> (int, 'a console_state_scheme) kres" where
  "consolewrite ip buf n s =
     bindr (iunlock (Some ip) s) (\<lambda>_ s.
     bindr (foreach [0..<nat n] (\<lambda>i. consputc (uint (buf i))) s) (\<lambda>_ s.
     bindr (ilock (Some ip) s) (\<lambda>_ s. Ret n s)))"

definition consoleinit :: "'a console_state_scheme \<Rightarrow> 'a console_state_scheme" where
  "consoleinit s = s\<lparr>devsw := (devsw s)(CONSOLE := True)\<rparr>"

end
