(* ===== verification/Fs.thy ===== *)
theory Fs
  imports Console
begin

text \<open>
  Inode contents, directories and path names: \<^verbatim>\<open>fs.c\<close> from \<^verbatim>\<open>stati\<close> on. A routine that fills a
  buffer of its caller (\<^verbatim>\<open>readi\<close>) returns the bytes it stores there next to its result; a routine
  that reads one (\<^verbatim>\<open>writei\<close>) takes the buffer as a function of the offset. A directory is a file of
  16-byte entries: an inode number and a name of \<open>DIRSIZ\<close> bytes. A path is a NUL-terminated list of
  characters without the NUL.
\<close>

section \<open>Inode contents\<close>

record stat =
  st_type :: u16
  st_dev :: u32
  st_ino :: u32
  st_nlink :: u16
  st_size :: u32

definition stati :: "nat \<Rightarrow> 'a console_state_scheme \<Rightarrow> stat" where
  "stati ip s = (let i = inodes s ! ip in
     \<lparr>st_type = i_type i, st_dev = i_dev i, st_ino = i_inum i, st_nlink = i_nlink i, st_size = i_size i\<rparr>)"

text \<open>\<^verbatim>\<open>devsw\<close> has a routine for the device: \<^verbatim>\<open>major\<close> is a signed 16-bit number.\<close>

definition has_dev :: "u16 \<Rightarrow> 'a console_state_scheme \<Rightarrow> bool" where
  "has_dev major s \<longleftrightarrow> 0 \<le> sint major \<and> sint major < int NDEV \<and> devsw s (unat major)"

text \<open>The copy loop of \<^verbatim>\<open>readi\<close>, with \<open>n\<close> bytes left to read from offset \<open>off\<close>.\<close>

function readi_loop :: "nat \<Rightarrow> nat \<Rightarrow> nat \<Rightarrow> 'a console_state_scheme \<Rightarrow> (u8 list, 'a console_state_scheme) kres" where
  "readi_loop ip off n s =
     (if n = 0 then Ret [] s
      else bindr (bmap ip (of_nat (off div BSIZE)) s) (\<lambda>addr s.
           bindr (bread (i_dev (inodes s ! ip)) addr s) (\<lambda>bp s.
             let m = min n (BSIZE - off mod BSIZE);
                 cs = map (\<lambda>k. buf_data s bp (off mod BSIZE + k)) [0..<m]
             in bindr (brelse bp s) (\<lambda>_ s.
                bindr (readi_loop ip (off + m) (n - m) s) (\<lambda>ds s. Ret (cs @ ds) s)))))"
  by pat_completeness auto
termination
  by (relation "measure (\<lambda>(ip, off, n, s). n)") auto

declare readi_loop.simps [simp del]

definition readi :: "nat \<Rightarrow> u32 \<Rightarrow> u32 \<Rightarrow> 'a console_state_scheme \<Rightarrow> (int \<times> u8 list, 'a console_state_scheme) kres" where
  "readi ip off n s =
     (let i = inodes s ! ip
      in if i_type i = T_DEV then
           (if \<not> has_dev (i_major i) s then Ret (-1, []) s else consoleread ip (sint n) s)
         else if i_size i < off \<or> off + n < off then Ret (-1, []) s
         else let n = (if i_size i < off + n then i_size i - off else n)
              in bindr (readi_loop ip (unat off) (unat n) s) (\<lambda>cs s. Ret (sint n, cs) s))"

text \<open>The copy loop of \<^verbatim>\<open>writei\<close>: \<open>k\<close> bytes of \<open>src\<close> have been written.\<close>

function writei_loop ::
    "nat \<Rightarrow> bytes \<Rightarrow> nat \<Rightarrow> nat \<Rightarrow> nat \<Rightarrow> 'a console_state_scheme \<Rightarrow> (unit, 'a console_state_scheme) kres" where
  "writei_loop ip src k off n s =
     (if n = 0 then Ret () s
      else bindr (bmap ip (of_nat (off div BSIZE)) s) (\<lambda>addr s.
           bindr (bread (i_dev (inodes s ! ip)) addr s) (\<lambda>bp s.
             let m = min n (BSIZE - off mod BSIZE)
             in bindr (log_write bp (set_data bp (blit (buf_data s bp) (off mod BSIZE) src k m) s)) (\<lambda>_ s.
                bindr (brelse bp s) (\<lambda>_ s.
                writei_loop ip src (k + m) (off + m) (n - m) s)))))"
  by pat_completeness auto
termination
  by (relation "measure (\<lambda>(ip, src, k, off, n, s). n)") auto

declare writei_loop.simps [simp del]

definition writei :: "nat \<Rightarrow> bytes \<Rightarrow> u32 \<Rightarrow> u32 \<Rightarrow> 'a console_state_scheme \<Rightarrow> (int, 'a console_state_scheme) kres" where
  "writei ip src off n s =
     (let i = inodes s ! ip
      in if i_type i = T_DEV then
           (if \<not> has_dev (i_major i) s then Ret (-1) s else consolewrite ip src (sint n) s)
         else if i_size i < off \<or> off + n < off then Ret (-1) s
         else if of_nat (MAXFILE * BSIZE) < off + n then Ret (-1) s
         else bindr (writei_loop ip src 0 (unat off) (unat n) s) (\<lambda>_ s.
              bindr (if 0 < n \<and> i_size (inodes s ! ip) < off + n
                     then iupdate ip (upd_inode ip (\<lambda>i. i\<lparr>i_size := off + n\<rparr>) s)
                     else Ret () s) (\<lambda>_ s. Ret (sint n) s)))"

section \<open>Directories\<close>

abbreviation (input) DIRSIZ :: nat where "DIRSIZ \<equiv> 14"

definition namecmp :: "bytes \<Rightarrow> bytes \<Rightarrow> int" where
  "namecmp s t = strncmp DIRSIZ s t"

text \<open>A directory entry as read into \<^verbatim>\<open>struct dirent\<close>.\<close>

definition de_inum :: "bytes \<Rightarrow> u16" where
  "de_inum d = rd16 d 0"

definition de_name :: "bytes \<Rightarrow> bytes" where
  "de_name d = (\<lambda>i. d (i + 2))"

text \<open>The offsets the loops over a directory visit.\<close>

definition dir_offs :: "u32 \<Rightarrow> nat list" where
  "dir_offs sz = map (\<lambda>k. 16 * k) [0..<(unat sz + 15) div 16]"

definition dirlookup ::
    "nat \<Rightarrow> bytes \<Rightarrow> 'a console_state_scheme \<Rightarrow> ((nat \<times> u32) option, 'a console_state_scheme) kres" where
  "dirlookup dp name s =
     (if i_type (inodes s ! dp) \<noteq> T_DIR then Panic ''dirlookup not DIR''
      else firstr (dir_offs (i_size (inodes s ! dp))) (\<lambda>off s.
        bindr (readi dp (of_nat off) 16 s) (\<lambda>(r, cs) s.
          if r \<noteq> 16 then Panic ''dirlookup read''
          else let de = as_bytes cs
               in if de_inum de = 0 then Ret None s
                  else if namecmp name (de_name de) = 0
                  then bindr (iget (i_dev (inodes s ! dp)) (ucast (de_inum de)) s) (\<lambda>ip s. Ret (Some (ip, of_nat off)) s)
                  else Ret None s)) s)"

text \<open>
  \<^verbatim>\<open>dirlink\<close>: the first offset whose entry is free, or the size of the directory. The entry is
  written from \<open>de\<close>, whose first two bytes are the inode number.
\<close>

definition dirlink :: "nat \<Rightarrow> bytes \<Rightarrow> u32 \<Rightarrow> 'a console_state_scheme \<Rightarrow> (int, 'a console_state_scheme) kres" where
  "dirlink dp name inum s =
     bindr (dirlookup dp name s) (\<lambda>r s.
       case r of
         Some (ip, _) \<Rightarrow> bindr (iput ip s) (\<lambda>_ s. Ret (-1) s)
       | None \<Rightarrow>
           bindr (firstr (dir_offs (i_size (inodes s ! dp))) (\<lambda>off s.
               bindr (readi dp (of_nat off) 16 s) (\<lambda>(r, cs) s.
                 if r \<noteq> 16 then Panic ''dirlink read''
                 else if de_inum (as_bytes cs) = 0 then Ret (Some (off, as_bytes cs)) s
                 else Ret None s)) s) (\<lambda>free s.
             let (off, de) = (case free of
                   Some (off, de) \<Rightarrow> (off, de)
                 | None \<Rightarrow> (16 * ((unat (i_size (inodes s ! dp)) + 15) div 16), \<lambda>_. 0));
                 name14 = strncpy (de_name de) name (int DIRSIZ);
                 de = wr16 (\<lambda>i. if 2 \<le> i \<and> i < 16 then name14 (i - 2) else de i) 0 (ucast inum)
             in bindr (writei dp de (of_nat off) 16 s) (\<lambda>w s.
                  if w \<noteq> 16 then Panic ''dirlink'' else Ret 0 s)))"

section \<open>Path names\<close>

abbreviation (input) SLASH :: u8 where "SLASH \<equiv> 47"

text \<open>
  \<^verbatim>\<open>skipelem\<close>: the rest of the path and the new contents of \<^verbatim>\<open>name\<close>, or \<open>None\<close> when no element
  is left. A name of \<open>DIRSIZ\<close> characters or more is cut and not terminated.
\<close>

definition skipelem :: "u8 list \<Rightarrow> bytes \<Rightarrow> (u8 list \<times> bytes) option" where
  "skipelem path name =
     (let path = dropWhile (\<lambda>c. c = SLASH) path
      in if path = [] then None
         else let e = takeWhile (\<lambda>c. c \<noteq> SLASH) path;
                  name = (if DIRSIZ \<le> length e then blit name 0 (as_bytes e) 0 DIRSIZ
                          else (blit name 0 (as_bytes e) 0 (length e))(length e := 0))
              in Some (dropWhile (\<lambda>c. c = SLASH) (drop (length e) path), name))"

lemma skipelem_shorter: "skipelem path name = Some (rest, name') \<Longrightarrow> length rest < length path"
proof -
  assume a: "skipelem path name = Some (rest, name')"
  let ?p = "dropWhile (\<lambda>c. c = SLASH) path"
  have ne: "?p \<noteq> []" and r: "rest = dropWhile (\<lambda>c. c = SLASH) (drop (length (takeWhile (\<lambda>c. c \<noteq> SLASH) ?p)) ?p)"
    using a by (auto simp: skipelem_def Let_def split: if_splits)
  have "hd ?p \<noteq> SLASH"
    using hd_dropWhile [OF ne] by simp
  then have "takeWhile (\<lambda>c. c \<noteq> SLASH) ?p \<noteq> []"
    using ne by (cases ?p) auto
  then have "length (drop (length (takeWhile (\<lambda>c. c \<noteq> SLASH) ?p)) ?p) < length ?p"
    using ne by simp
  then show ?thesis
    unfolding r using length_dropWhile_le [of "\<lambda>c. c = SLASH" "drop (length (takeWhile (\<lambda>c. c \<noteq> SLASH) ?p)) ?p"]
      length_dropWhile_le [of "\<lambda>c. c = SLASH" path] by linarith
qed

text \<open>
  The loop of \<^verbatim>\<open>namex\<close>; the result is the inode, if any, and the contents of \<^verbatim>\<open>name\<close>.
\<close>

function namex_loop :: "bool \<Rightarrow> u8 list \<Rightarrow> bytes \<Rightarrow> nat \<Rightarrow> 'a console_state_scheme \<Rightarrow>
    (nat option \<times> bytes, 'a console_state_scheme) kres" where
  "namex_loop nameiparent path name ip s =
     (case skipelem path name of
        None \<Rightarrow>
          if nameiparent then bindr (iput ip s) (\<lambda>_ s. Ret (None, name) s) else Ret (Some ip, name) s
      | Some (path', name) \<Rightarrow>
          bindr (ilock (Some ip) s) (\<lambda>_ s.
            if i_type (inodes s ! ip) \<noteq> T_DIR then bindr (iunlockput ip s) (\<lambda>_ s. Ret (None, name) s)
            else if nameiparent \<and> path' = [] then bindr (iunlock (Some ip) s) (\<lambda>_ s. Ret (Some ip, name) s)
            else bindr (dirlookup ip name s) (\<lambda>r s.
              case r of
                None \<Rightarrow> bindr (iunlockput ip s) (\<lambda>_ s. Ret (None, name) s)
              | Some (next, _) \<Rightarrow>
                  bindr (iunlockput ip s) (\<lambda>_ s. namex_loop nameiparent path' name next s))))"
  by pat_completeness auto
termination
  by (relation "measure (\<lambda>(np, path, name, ip, s). length path)") (auto dest: skipelem_shorter)

declare namex_loop.simps [simp del]

definition namex :: "u8 list \<Rightarrow> bool \<Rightarrow> bytes \<Rightarrow> 'a console_state_scheme \<Rightarrow>
    (nat option \<times> bytes, 'a console_state_scheme) kres" where
  "namex path nameiparent name s =
     bindr (if path \<noteq> [] \<and> hd path = SLASH then iget ROOTDEV ROOTINO s
            else case myproc s of
                   None \<Rightarrow> Panic ''trap''
                 | Some p \<Rightarrow> (case p_cwd (procs s ! p) of None \<Rightarrow> Panic ''trap'' | Some d \<Rightarrow> idup d s))
       (\<lambda>ip s. namex_loop nameiparent path name ip s)"

definition namei :: "u8 list \<Rightarrow> 'a console_state_scheme \<Rightarrow> (nat option, 'a console_state_scheme) kres" where
  "namei path s = bindr (namex path False (\<lambda>_. 0) s) (\<lambda>(r, _) s. Ret r s)"

definition nameiparent :: "u8 list \<Rightarrow> bytes \<Rightarrow> 'a console_state_scheme \<Rightarrow>
    (nat option \<times> bytes, 'a console_state_scheme) kres" where
  "nameiparent path name s = namex path True name s"

end
