(* ===== verification/Pipe.thy ===== *)
theory Pipe
  imports Ptable
begin

text \<open>
  Pipes, \<^verbatim>\<open>pipe.c\<close>. A pipe lives in a page of memory: after the spin lock of 52 bytes come the 512
  data bytes, the counters \<^verbatim>\<open>nread\<close> and \<^verbatim>\<open>nwrite\<close> and the two open flags. \<open>pipe_view\<close> is the
  queue of bytes in transit; the locale \<open>byte_queue\<close> is what the file layer relies on.
\<close>

section \<open>Layout and operations\<close>

abbreviation (input) PIPESIZE :: nat where "PIPESIZE \<equiv> 512"

definition pipe_nread :: "mem \<Rightarrow> u32 \<Rightarrow> u32" where "pipe_nread m p = ld32 m (p + 564)"
definition pipe_nwrite :: "mem \<Rightarrow> u32 \<Rightarrow> u32" where "pipe_nwrite m p = ld32 m (p + 568)"
definition pipe_readopen :: "mem \<Rightarrow> u32 \<Rightarrow> u32" where "pipe_readopen m p = ld32 m (p + 572)"
definition pipe_writeopen :: "mem \<Rightarrow> u32 \<Rightarrow> u32" where "pipe_writeopen m p = ld32 m (p + 576)"

definition pipe_data :: "u32 \<Rightarrow> u32 \<Rightarrow> u32" where
  "pipe_data p n = p + 52 + n mod 512"

text \<open>The initialisation of a fresh pipe page by \<^verbatim>\<open>pipealloc\<close>.\<close>

definition pipe_setup :: "u32 \<Rightarrow> mem \<Rightarrow> mem" where
  "pipe_setup p m =
     (let m = st32 m (p + 572) 1; m = st32 m (p + 576) 1; m = st32 m (p + 568) 0 in st32 m (p + 564) 0)"

definition pipeclose :: "u32 \<Rightarrow> bool \<Rightarrow> 'a ptable_state_scheme \<Rightarrow> (unit, 'a ptable_state_scheme) kres" where
  "pipeclose p writable s =
     (let s = (if writable then wakeup (ChanPipeRead p) (s\<lparr>mem := st32 (mem s) (p + 576) 0\<rparr>)
               else wakeup (ChanPipeWrite p) (s\<lparr>mem := st32 (mem s) (p + 572) 0\<rparr>))
      in if pipe_readopen (mem s) p = 0 \<and> pipe_writeopen (mem s) p = 0 then kfree p s else Ret () s)"

text \<open>
  \<^verbatim>\<open>myproc()->killed\<close>: without a process the access faults.
\<close>

definition if_killed :: "'a ptable_state_scheme \<Rightarrow> ('b, 'a ptable_state_scheme) kres \<Rightarrow>
    ('b, 'a ptable_state_scheme) kres \<Rightarrow> ('b, 'a ptable_state_scheme) kres" where
  "if_killed s a b = (case myproc s of None \<Rightarrow> Panic ''trap'' | Some p \<Rightarrow> if p_killed (procs s ! p) then a else b)"

text \<open>The statements that move one byte in and out of the ring.\<close>

definition put_byte :: "u32 \<Rightarrow> u8 \<Rightarrow> mem \<Rightarrow> mem" where
  "put_byte p c m =
     (let nw = pipe_nwrite m p; m = m(pipe_data p nw := c) in st32 m (p + 568) (nw + 1))"

definition get_byte :: "u32 \<Rightarrow> mem \<Rightarrow> u8 \<times> mem" where
  "get_byte p m =
     (let nr = pipe_nread m p in (m (pipe_data p nr), st32 m (p + 564) (nr + 1)))"

text \<open>The loop of \<^verbatim>\<open>pipewrite\<close>: byte \<open>i\<close> comes next and \<open>n\<close> bytes are left; \<open>False\<close> is the return of \<open>-1\<close>.\<close>

fun pipewrite_loop :: "u32 \<Rightarrow> bytes \<Rightarrow> nat \<Rightarrow> nat \<Rightarrow> 'a ptable_state_scheme \<Rightarrow> (bool, 'a ptable_state_scheme) kres" where
  "pipewrite_loop p src i 0 s = Ret True s"
| "pipewrite_loop p src i (Suc n) s =
     (if pipe_nwrite (mem s) p = pipe_nread (mem s) p + 512 then
        (if pipe_readopen (mem s) p = 0 then Ret False s
         else if_killed s (Ret False s) (sleep (ChanPipeWrite p) (wakeup (ChanPipeRead p) s)))
      else pipewrite_loop p src (Suc i) n (s\<lparr>mem := put_byte p (src i) (mem s)\<rparr>))"

definition pipewrite :: "u32 \<Rightarrow> bytes \<Rightarrow> int \<Rightarrow> 'a ptable_state_scheme \<Rightarrow> (int, 'a ptable_state_scheme) kres" where
  "pipewrite p src n s =
     bindr (pipewrite_loop p src 0 (nat n) s) (\<lambda>ok s.
       if ok then Ret n (wakeup (ChanPipeRead p) s) else Ret (-1) s)"

fun piperead_loop :: "u32 \<Rightarrow> nat \<Rightarrow> 'a ptable_state_scheme \<Rightarrow> u8 list \<times> 'a ptable_state_scheme" where
  "piperead_loop p 0 s = ([], s)"
| "piperead_loop p (Suc n) s =
     (if pipe_nread (mem s) p = pipe_nwrite (mem s) p then ([], s)
      else let (c, m) = get_byte p (mem s);
               (cs, s) = piperead_loop p n (s\<lparr>mem := m\<rparr>)
           in (c # cs, s))"

definition piperead :: "u32 \<Rightarrow> int \<Rightarrow> 'a ptable_state_scheme \<Rightarrow> (int \<times> u8 list, 'a ptable_state_scheme) kres" where
  "piperead p n s =
     (if pipe_nread (mem s) p = pipe_nwrite (mem s) p \<and> pipe_writeopen (mem s) p \<noteq> 0
      then if_killed s (Ret (-1, []) s) (sleep (ChanPipeRead p) s)
      else let (cs, s) = piperead_loop p (nat n) s
           in Ret (int (length cs), cs) (wakeup (ChanPipeWrite p) s))"

section \<open>The ring as a queue of bytes\<close>

text \<open>
  \<open>pipe_view m p\<close> is the sequence of bytes written and not yet read. The two counters run freely and
  wrap around; as \<open>PIPESIZE\<close> divides \<open>2 ^ 32\<close>, the slot of a counter is not affected by that.
\<close>

definition pipe_view :: "mem \<Rightarrow> u32 \<Rightarrow> u8 list" where
  "pipe_view m p =
     map (\<lambda>k. m (pipe_data p (pipe_nread m p + of_nat k))) [0..<unat (pipe_nwrite m p - pipe_nread m p)]"

definition pipe_ok :: "mem \<Rightarrow> u32 \<Rightarrow> bool" where
  "pipe_ok m p \<longleftrightarrow> unat (pipe_nwrite m p - pipe_nread m p) \<le> PIPESIZE"

lemma unat_slot: "unat ((a + of_nat k) mod 512 :: u32) = (unat a + k) mod 512"
proof -
  have "unat (a + of_nat k) mod 512 = (unat a + k) mod 4294967296 mod 512"
    by (simp add: unat_word_ariths unat_of_nat mod_add_right_eq)
  also have "\<dots> = (unat a + k) mod 512"
    by (rule mod_mod_cancel) simp
  finally show ?thesis
    by (simp add: unat_mod_distrib)
qed

lemma pipe_data_offset: "pipe_data p (a + of_nat k) = p + of_nat (52 + (unat a + k) mod 512)"
proof -
  have "(a + of_nat k) mod 512 = of_nat (unat ((a + of_nat k) mod 512 :: u32))"
    by simp
  then show ?thesis
    by (simp add: pipe_data_def unat_slot)
qed

lemma offset_inj: "i < 4096 \<Longrightarrow> j < 4096 \<Longrightarrow> (p :: u32) + of_nat i = p + of_nat j \<longleftrightarrow> i = j"
proof -
  assume "i < 4096" "j < 4096"
  then have "(of_nat i :: u32) = of_nat j \<longleftrightarrow> i = j"
    by (auto simp: word_unat_eq_iff unat_of_nat)
  then show ?thesis by simp
qed

lemma unat_offset_diff:
  assumes "i < 4096" "j < 4096"
  shows "unat (((p :: u32) + of_nat i) - (p + of_nat j)) = (if j \<le> i then i - j else i + 4294967296 - j)"
proof -
  have "unat (of_nat i :: u32) = i" "unat (of_nat j :: u32) = j"
    using assms by (simp_all add: unat_of_nat)
  then show ?thesis
    by (simp add: unat_diff_u32 word_le_nat_alt)
qed

lemma st32_offset:
  assumes "i < 4096" "j < 4096" "i < j \<or> j + 4 \<le> i"
  shows "st32 m (p + of_nat j) v (p + of_nat i) = m (p + of_nat i)"
  using assms unat_offset_diff [OF assms(1,2), of p] by (auto simp: st32_def)

lemma ld32_offset_cong:
  assumes "\<And>k. i \<le> k \<Longrightarrow> k < i + 4 \<Longrightarrow> m (p + of_nat k) = m' (p + of_nat k)"
  shows "ld32 m (p + of_nat i) = ld32 m' (p + of_nat i)"
proof (rule ld32_cong)
  fix k :: nat assume "k < 4"
  then show "m (p + of_nat i + of_nat k) = m' (p + of_nat i + of_nat k)"
    using assms [of "i + k"] by (simp add: add.assoc)
qed

lemma ld32_st32_offset:
  assumes "i + 4 \<le> 4096" "j < 4096" "i + 4 \<le> j \<or> j + 4 \<le> i"
  shows "ld32 (st32 m (p + of_nat j) v) (p + of_nat i) = ld32 m (p + of_nat i)"
  by (rule ld32_offset_cong) (rule st32_offset, use assms in auto)

lemma ld32_upd_offset:
  assumes "i + 4 \<le> 4096" "j < 4096" "j < i \<or> i + 4 \<le> j"
  shows "ld32 (m(p + of_nat j := c)) (p + of_nat i) = ld32 m (p + of_nat i)"
  by (rule ld32_offset_cong) (use assms offset_inj [of _ j p] in auto)

lemma st32_pipe_data [simp]:
  assumes "564 \<le> j" "j < 4096"
  shows "st32 m (p + of_nat j) v (p + of_nat (52 + q mod 512)) = m (p + of_nat (52 + q mod 512))"
proof (rule st32_offset)
  have "q mod 512 < 512"
    by simp
  then show "52 + q mod 512 < 4096" "52 + q mod 512 < j \<or> j + 4 \<le> 52 + q mod 512"
    using assms by linarith+
qed (use assms in simp)

lemma pipe_field_put:
  assumes "564 \<le> i" "i + 4 \<le> 4096" "i + 4 \<le> 568 \<or> 572 \<le> i"
  shows "ld32 (put_byte p c m) (p + of_nat i) = ld32 m (p + of_nat i)"
proof -
  have "unat (pipe_nwrite m p) mod 512 < 512"
    by simp
  then have "ld32 (m(p + of_nat (52 + unat (pipe_nwrite m p) mod 512) := c)) (p + of_nat i) = ld32 m (p + of_nat i)"
    using assms by (intro ld32_upd_offset) linarith+
  then show ?thesis
    using pipe_data_offset [of p "pipe_nwrite m p" 0] ld32_st32_offset [of i 568 _ p] assms
    by (simp add: put_byte_def Let_def)
qed

lemma pipe_put_fields [simp]:
  "pipe_nread (put_byte p c m) p = pipe_nread m p" "pipe_nwrite (put_byte p c m) p = pipe_nwrite m p + 1"
  "pipe_readopen (put_byte p c m) p = pipe_readopen m p" "pipe_writeopen (put_byte p c m) p = pipe_writeopen m p"
  using pipe_field_put [of 564 p c m] pipe_field_put [of 572 p c m] pipe_field_put [of 576 p c m]
  by (simp_all add: pipe_nread_def pipe_readopen_def pipe_writeopen_def)
     (simp add: pipe_nwrite_def put_byte_def Let_def)

lemma pipe_get_fields [simp]:
  "pipe_nread (snd (get_byte p m)) p = pipe_nread m p + 1" "pipe_nwrite (snd (get_byte p m)) p = pipe_nwrite m p"
  "pipe_readopen (snd (get_byte p m)) p = pipe_readopen m p" "pipe_writeopen (snd (get_byte p m)) p = pipe_writeopen m p"
  using ld32_st32_offset [of 568 564 m p] ld32_st32_offset [of 572 564 m p] ld32_st32_offset [of 576 564 m p]
  by (simp_all add: pipe_nread_def pipe_nwrite_def pipe_readopen_def pipe_writeopen_def get_byte_def Let_def)

lemma pipe_data_inj:
  assumes "k < n" "n < 512"
  shows "pipe_data p (a + of_nat k) \<noteq> pipe_data p (a + of_nat n)"
proof -
  have "52 + (unat a + k) mod 512 \<noteq> 52 + (unat a + n) mod 512"
    using slots_differ [OF assms] by simp
  moreover have "(unat a + k) mod 512 < 512" "(unat a + n) mod 512 < 512"
    by simp_all
  ultimately show ?thesis
    unfolding pipe_data_offset by (subst offset_inj) linarith+
qed

lemma st32_data:
  assumes "564 \<le> j" "j < 4096"
  shows "st32 m (p + of_nat j) v (pipe_data p a) = m (pipe_data p a)"
  using st32_pipe_data [OF assms] pipe_data_offset [of p a 0] by simp

lemma length_pipe_view [simp]: "length (pipe_view m p) = unat (pipe_nwrite m p - pipe_nread m p)"
  by (simp add: pipe_view_def)

lemma pipe_view_put:
  assumes "length (pipe_view m p) < PIPESIZE"
  shows "pipe_view (put_byte p c m) p = pipe_view m p @ [c]"
proof -
  let ?r = "pipe_nread m p" and ?w = "pipe_nwrite m p"
  define n where "n = unat (?w - ?r)"
  have n: "n < 512" and w: "?w = ?r + of_nat n"
    using assms by (simp_all add: n_def)
  have "?w + 1 - ?r = of_nat (Suc n)"
    by (simp add: w)
  then have len: "unat (?w + 1 - ?r) = Suc n"
    using n by (simp only: unat_of_nat) simp
  have old: "put_byte p c m (pipe_data p (?r + of_nat k)) = m (pipe_data p (?r + of_nat k))" if "k < n" for k
    using pipe_data_inj [OF that n, of p ?r] st32_data [of 568] by (simp add: put_byte_def Let_def w)
  have new: "put_byte p c m (pipe_data p (?r + of_nat n)) = c"
    using st32_data [of 568] by (simp add: put_byte_def Let_def w)
  show ?thesis
    unfolding pipe_view_def pipe_put_fields len n_def [symmetric] using old new by simp
qed

lemma pipe_view_get:
  assumes "pipe_view m p \<noteq> []"
  shows "fst (get_byte p m) = hd (pipe_view m p) \<and> pipe_view (snd (get_byte p m)) p = tl (pipe_view m p)"
proof -
  let ?r = "pipe_nread m p" and ?w = "pipe_nwrite m p"
  define n where "n = unat (?w - ?r)"
  have "0 < n"
    using assms by (cases "n = 0") (simp_all add: n_def pipe_view_def)
  then obtain k where k: "n = Suc k"
    by (cases n) auto
  have "?w - ?r \<noteq> 0"
    using k by (auto simp: n_def)
  then have "unat (?w - ?r - 1) = k"
    using k by (simp add: unat_minus_one n_def)
  then have len: "unat (?w - (?r + 1)) = k"
    by (simp add: algebra_simps)
  have m: "snd (get_byte p m) (pipe_data p a) = m (pipe_data p a)" for a
    using st32_data [of 564] by (simp add: get_byte_def Let_def)
  have "pipe_view m p = map (\<lambda>i. m (pipe_data p (?r + of_nat i))) (0 # map Suc [0..<k])"
    unfolding pipe_view_def n_def [symmetric] k by (simp only: upt_conv_Cons zero_less_Suc map_Suc_upt)
  then show ?thesis
    unfolding pipe_view_def [of "snd (get_byte p m)"] pipe_get_fields len m
    by (simp add: get_byte_def Let_def ac_simps comp_def)
qed

lemma pipe_empty: "pipe_nread m p = pipe_nwrite m p \<longleftrightarrow> pipe_view m p = []"
proof -
  have "pipe_view m p = [] \<longleftrightarrow> unat (pipe_nwrite m p - pipe_nread m p) = 0"
    by (simp only: length_pipe_view flip: length_0_conv)
  also have "\<dots> \<longleftrightarrow> pipe_nwrite m p - pipe_nread m p = 0"
    by (rule unat_eq_zero)
  finally show ?thesis
    by auto
qed

lemma pipe_full: "pipe_nwrite m p = pipe_nread m p + 512 \<longleftrightarrow> length (pipe_view m p) = PIPESIZE"
proof -
  have "length (pipe_view m p) = PIPESIZE \<longleftrightarrow> pipe_nwrite m p - pipe_nread m p = 512"
    by (simp add: word_unat_eq_iff)
  then show ?thesis
    by (auto simp: algebra_simps)
qed

text \<open>The contract of a bounded queue of bytes, and what follows for sequences of operations.\<close>

locale byte_queue =
  fixes view :: "'m \<Rightarrow> u8 list" and put :: "u8 \<Rightarrow> 'm \<Rightarrow> 'm" and get :: "'m \<Rightarrow> u8 \<times> 'm" and cap :: nat
  assumes view_put: "length (view m) < cap \<Longrightarrow> view (put c m) = view m @ [c]"
    and view_get: "view m \<noteq> [] \<Longrightarrow> fst (get m) = hd (view m) \<and> view (snd (get m)) = tl (view m)"
begin

primrec gets :: "nat \<Rightarrow> 'm \<Rightarrow> u8 list \<times> 'm" where
  "gets 0 m = ([], m)"
| "gets (Suc n) m = (let (c, m) = get m; (cs, m) = gets n m in (c # cs, m))"

lemma view_puts: "length (view m) + length cs \<le> cap \<Longrightarrow> view (fold put cs m) = view m @ cs"
  by (induction cs arbitrary: m) (simp_all add: view_put)

lemma gets_view:
  "n \<le> length (view m) \<Longrightarrow> fst (gets n m) = take n (view m) \<and> view (snd (gets n m)) = drop n (view m)"
proof (induction n arbitrary: m)
  case (Suc n)
  then have ne: "view m \<noteq> []" by auto
  obtain c m' where g: "get m = (c, m')" by (cases "get m")
  have v: "c = hd (view m)" "view m' = tl (view m)"
    using view_get [OF ne] by (simp_all add: g)
  have "fst (gets n m') = take n (view m') \<and> view (snd (gets n m')) = drop n (view m')"
    using Suc by (intro Suc.IH) (simp add: v)
  then show ?case
    using ne v by (auto simp: g Let_def split: prod.splits) (cases "view m"; simp)+
qed simp

text \<open>What goes in comes out, in order.\<close>

lemma fifo:
  assumes "view m = []" "length cs \<le> cap" "n \<le> length cs"
  shows "fst (gets n (fold put cs m)) = take n cs"
  using assms view_puts [of m cs] gets_view [of n "fold put cs m"] by simp

end

interpretation pq: byte_queue "\<lambda>m. pipe_view m p" "put_byte p" "get_byte p" PIPESIZE for p
  by unfold_locales (auto simp: pipe_view_put pipe_view_get)

section \<open>The operations on the queue\<close>

lemma map_src_split: "map src [i..<i + Suc n] = src i # map src [Suc i..<Suc i + n]"
  by (simp add: upt_conv_Cons del: upt_Suc)

text \<open>With too many bytes, the loop fills the ring and then fails or waits.\<close>

definition full_turn :: "u32 \<Rightarrow> 'a ptable_state_scheme \<Rightarrow> (bool, 'a ptable_state_scheme) kres" where
  "full_turn p s =
     (if pipe_readopen (mem s) p = 0 then Ret False s
      else if_killed s (Ret False s) (sleep (ChanPipeWrite p) (wakeup (ChanPipeRead p) s)))"

lemma pipewrite_loop_split:
  "length (pipe_view (mem s) p) + k \<le> PIPESIZE \<Longrightarrow> pipewrite_loop p src i (k + n) s =
     pipewrite_loop p src (i + k) n (s\<lparr>mem := fold (put_byte p) (map src [i..<i + k]) (mem s)\<rparr>)"
proof (induction k arbitrary: i s)
  case (Suc k)
  then have l: "length (pipe_view (mem s) p) < 512"
    by simp
  then have "pipewrite_loop p src i (Suc k + n) s =
      pipewrite_loop p src (Suc i) (k + n) (s\<lparr>mem := put_byte p (src i) (mem s)\<rparr>)"
    using pipe_full [of "mem s" p] by (simp del: length_pipe_view)
  also have "\<dots> = pipewrite_loop p src (Suc i + k) n
      (s\<lparr>mem := fold (put_byte p) (map src [Suc i..<Suc i + k]) (put_byte p (src i) (mem s))\<rparr>)"
    using Suc.prems l by (subst Suc.IH) (simp_all add: pipe_view_put del: length_pipe_view)
  finally show ?case
    by (simp only: map_src_split) simp
qed simp

lemma pipewrite_loop_room:
  "length (pipe_view (mem s) p) + n \<le> PIPESIZE \<Longrightarrow>
   pipewrite_loop p src i n s = Ret True (s\<lparr>mem := fold (put_byte p) (map src [i..<i + n]) (mem s)\<rparr>)"
  using pipewrite_loop_split [of s p n src i 0] by simp

lemma pipewrite_loop_full:
  assumes "length (pipe_view (mem s) p) + k = PIPESIZE"
  shows "pipewrite_loop p src i (k + Suc n) s =
    full_turn p (s\<lparr>mem := fold (put_byte p) (map src [i..<i + k]) (mem s)\<rparr>)"
proof -
  let ?s = "s\<lparr>mem := fold (put_byte p) (map src [i..<i + k]) (mem s)\<rparr>"
  have "pipe_view (mem ?s) p = pipe_view (mem s) p @ map src [i..<i + k]"
    using assms pq.view_puts [where m = "mem s" and p = p and cs = "map src [i..<i + k]"] by simp
  then have "pipe_nwrite (mem ?s) p = pipe_nread (mem ?s) p + 512"
    unfolding pipe_full using assms by simp
  then have "pipewrite_loop p src (i + k) (Suc n) ?s = full_turn p ?s"
    by (simp add: full_turn_def)
  then show ?thesis
    using pipewrite_loop_split [of s p k src i "Suc n"] assms by (simp del: length_pipe_view)
qed

lemma piperead_loop_gets:
  "piperead_loop p n s = (fst (pq.gets p (min n (length (pipe_view (mem s) p))) (mem s)),
     s\<lparr>mem := snd (pq.gets p (min n (length (pipe_view (mem s) p))) (mem s))\<rparr>)"
proof (induction n arbitrary: s)
  case (Suc n)
  show ?case
  proof (cases "pipe_view (mem s) p = []")
    case True
    then show ?thesis
      using pipe_empty [of "mem s" p] by simp
  next
    case False
    obtain c m where g: "get_byte p (mem s) = (c, m)"
      by (cases "get_byte p (mem s)")
    have l: "length (pipe_view (mem s) p) = Suc (length (pipe_view m p))"
      using pipe_view_get [OF False] False by (simp add: g del: length_pipe_view)
    show ?thesis
      using Suc [of "s\<lparr>mem := m\<rparr>"] False pipe_empty [of "mem s" p]
      by (simp add: g l Let_def split: prod.splits del: length_pipe_view)
  qed
qed simp

lemma piperead_loop_view:
  assumes "piperead_loop p n s = (cs, t)"
  shows "cs = take n (pipe_view (mem s) p) \<and> pipe_view (mem t) p = drop n (pipe_view (mem s) p) \<and>
    t = s\<lparr>mem := mem t\<rparr>"
  using assms pq.gets_view [where p = p and m = "mem s" and n = "min n (length (pipe_view (mem s) p))"]
  unfolding piperead_loop_gets by (auto simp: min_def simp del: length_pipe_view)

lemma pipe_ok_view: "pipe_ok m p \<longleftrightarrow> length (pipe_view m p) \<le> PIPESIZE"
  by (simp add: pipe_ok_def)

text \<open>Everybody who slept on the channel in \<open>s\<close> is runnable in \<open>t\<close>.\<close>

definition all_woken :: "chan \<Rightarrow> 'a ptable_state_scheme \<Rightarrow> 'a ptable_state_scheme \<Rightarrow> bool" where
  "all_woken c s t \<longleftrightarrow> (\<forall>i<length (procs s). p_state (procs s ! i) = SLEEPING \<longrightarrow>
     p_chan (procs s ! i) = Some c \<longrightarrow> p_state (procs t ! i) = RUNNABLE)"

lemma all_woken_wakeup: "procs t = procs s \<Longrightarrow> all_woken c s (wakeup c t)"
  by (simp add: all_woken_def wakeup_nth)

lemma fold_put_view:
  "length (pipe_view m p) + length cs \<le> PIPESIZE \<Longrightarrow> pipe_view (fold (put_byte p) cs m) p = pipe_view m p @ cs"
  using pq.view_puts [where m = m and p = p and cs = cs] by simp

lemma fold_put_readopen [simp]: "pipe_readopen (fold (put_byte p) cs m) p = pipe_readopen m p"
  by (induction cs arbitrary: m) simp_all

lemma pipewrite_fits:
  assumes "length (pipe_view (mem s) p) + nat n \<le> PIPESIZE"
  shows "okr (pipewrite p src n s) (\<lambda>r t. r = n \<and> pipe_ok (mem t) p \<and>
      pipe_view (mem t) p = pipe_view (mem s) p @ map src [0..<nat n] \<and> all_woken (ChanPipeRead p) s t)"
  using pipewrite_loop_room [OF assms, of src 0] fold_put_view [of "mem s" p "map src [0..<nat n]"] assms
  by (simp add: pipewrite_def all_woken_wakeup pipe_ok_view del: length_pipe_view)

lemma pipewrite_fills:
  fixes src :: bytes
  assumes "length (pipe_view (mem s) p) + room = PIPESIZE" "room < nat n"
  defines "t \<equiv> s\<lparr>mem := fold (put_byte p) (map src [0..<room]) (mem s)\<rparr>"
  shows "pipewrite_loop p src 0 (nat n) s = full_turn p t"
    "pipe_view (mem t) p = pipe_view (mem s) p @ map src [0..<room]"
proof -
  obtain k where "nat n = room + Suc k"
    using assms(2) by (metis add_Suc_right less_iff_Suc_add)
  then show "pipewrite_loop p src 0 (nat n) s = full_turn p t"
    using pipewrite_loop_full [OF assms(1), of src 0 k] by (simp add: t_def)
qed (use assms(1) fold_put_view [of "mem s" p "map src [0..<room]"] in \<open>simp add: t_def\<close>)

lemma pipewrite_no_reader:
  assumes "length (pipe_view (mem s) p) + room = PIPESIZE" "room < nat n" "pipe_readopen (mem s) p = 0"
  shows "okr (pipewrite p src n s) (\<lambda>r t. r = -1 \<and> pipe_view (mem t) p = pipe_view (mem s) p @ map src [0..<room])"
  using pipewrite_fills [OF assms(1,2), of src] assms(3) by (simp add: pipewrite_def full_turn_def)

lemma pipewrite_blocks:
  assumes "length (pipe_view (mem s) p) + room = PIPESIZE" "room < nat n" "pipe_readopen (mem s) p \<noteq> 0"
    and "myproc s = Some w" "w < length (procs s)" "\<not> p_killed (procs s ! w)" "p_state (procs s ! w) = RUNNING"
  shows "\<exists>t. pipewrite p src n s = Sleeping (ChanPipeWrite p) t \<and> length (procs t) = length (procs s) \<and>
    pipe_view (mem t) p = pipe_view (mem s) p @ map src [0..<room] \<and> all_woken (ChanPipeRead p) s t \<and>
    p_state (procs t ! w) = SLEEPING \<and> p_chan (procs t ! w) = Some (ChanPipeWrite p)"
proof -
  let ?t = "s\<lparr>mem := fold (put_byte p) (map src [0..<room]) (mem s)\<rparr>"
  note f = pipewrite_fills [OF assms(1,2), of src]
  have m: "myproc ?t = Some w"
    using assms(4) by (simp add: myproc_def)
  let ?u = "sched (upd_proc w (\<lambda>q. q\<lparr>p_chan := Some (ChanPipeWrite p), p_state := SLEEPING\<rparr>) (wakeup (ChanPipeRead p) ?t))"
  have u: "procs ?u = procs (upd_proc w (\<lambda>q. q\<lparr>p_chan := Some (ChanPipeWrite p), p_state := SLEEPING\<rparr>) (wakeup (ChanPipeRead p) ?t))"
    "mem ?u = mem ?t"
    by (simp_all add: sched_def)
  have "pipewrite p src n s = Sleeping (ChanPipeWrite p) ?u"
    using f assms(3,4,6) m by (simp add: pipewrite_def full_turn_def if_killed_def sleep_def)
  moreover have "all_woken (ChanPipeRead p) s ?u"
    using assms(5,7) unfolding all_woken_def u by (auto simp: nth_upd wakeup_nth)
  ultimately show ?thesis
    using assms(5) u f(2) by (intro exI [of _ ?u]) simp
qed

lemma piperead_takes:
  assumes "pipe_view (mem s) p \<noteq> [] \<or> pipe_writeopen (mem s) p = 0"
  shows "okr (piperead p n s) (\<lambda>(r, cs) t. cs = take (nat n) (pipe_view (mem s) p) \<and> r = int (length cs) \<and>
    pipe_view (mem t) p = drop (nat n) (pipe_view (mem s) p) \<and> all_woken (ChanPipeWrite p) s t)"
proof -
  obtain cs t where l: "piperead_loop p (nat n) s = (cs, t)"
    by (cases "piperead_loop p (nat n) s")
  have v: "cs = take (nat n) (pipe_view (mem s) p)" "pipe_view (mem t) p = drop (nat n) (pipe_view (mem s) p)"
    "t = s\<lparr>mem := mem t\<rparr>"
    using piperead_loop_view [OF l] by auto
  have "procs t = procs s"
    by (subst v(3)) simp
  then show ?thesis
    using assms l v(1,2) pipe_empty [of "mem s" p]
    by (auto simp: piperead_def all_woken_wakeup simp del: length_pipe_view)
qed

text \<open>A fresh pipe is empty and open at both ends.\<close>

lemma pipe_setup_fields:
  "pipe_view (pipe_setup p m) p = []" "pipe_readopen (pipe_setup p m) p = 1" "pipe_writeopen (pipe_setup p m) p = 1"
proof -
  have f: "pipe_nread (pipe_setup p m) p = 0" "pipe_nwrite (pipe_setup p m) p = 0"
    "pipe_readopen (pipe_setup p m) p = 1" "pipe_writeopen (pipe_setup p m) p = 1"
    using ld32_st32_offset [of 568 564 _ p] ld32_st32_offset [of 572 564 _ p] ld32_st32_offset [of 576 564 _ p]
      ld32_st32_offset [of 572 568 _ p] ld32_st32_offset [of 576 568 _ p] ld32_st32_offset [of 572 576 _ p]
    by (simp_all add: pipe_setup_def pipe_nread_def pipe_nwrite_def pipe_readopen_def pipe_writeopen_def Let_def)
  then show "pipe_readopen (pipe_setup p m) p = 1" "pipe_writeopen (pipe_setup p m) p = 1"
    by simp_all
  show "pipe_view (pipe_setup p m) p = []"
    using f pipe_empty by metis
qed

text \<open>A process with a fresh pipe.\<close>

definition piping :: ptable_state where
  "piping = boot_ptable\<lparr>mem := pipe_setup 0x80400000 (\<lambda>_. 0), procs := [no_proc\<lparr>p_state := RUNNING\<rparr>],
     cpu_proc := (\<lambda>_. None)(0 := Some 0)\<rparr>"

lemma piping_facts: "pipe_view (mem piping) 0x80400000 = []" "pipe_readopen (mem piping) 0x80400000 = 1"
  "pipe_writeopen (mem piping) 0x80400000 = 1" "pipe_ok (mem piping) 0x80400000"
  "myproc piping = Some 0" "length (procs piping) = 1" "\<not> p_killed (procs piping ! 0)" "p_state (procs piping ! 0) = RUNNING"
  using pipe_setup_fields [of "0x80400000"]
  by (simp_all add: piping_def pipe_ok_view myproc_def boot_ptable_def no_proc_def del: length_pipe_view)

section \<open>Properties of pipes\<close>



text \<open>
  C17: reading from a pipe takes bytes off the front of its queue in the order they were written: up to
  \<open>n\<close> of them, fewer when the queue is shorter, none at end of file. Every sleeping writer is woken.
\<close>

theorem piperead_takes_front:
  assumes "pipe_view (mem s) p \<noteq> [] \<or> pipe_writeopen (mem s) p = 0"
  shows "okr (piperead p n s) (\<lambda>(r, cs) t. cs @ pipe_view (mem t) p = pipe_view (mem s) p \<and>
    r = int (length cs) \<and> length cs = min (nat n) (length (pipe_view (mem s) p)) \<and> all_woken (ChanPipeWrite p) s t)"
  by (rule okr_mono [OF piperead_takes [OF assms]]) (auto simp del: length_pipe_view)

theorem piperead_takes_front_witness:
  "okr (pipewrite 0x80400000 (\<lambda>i. of_nat i + 65) 5 piping) (\<lambda>_ t.
     okr (piperead 0x80400000 2 t) (\<lambda>(r, cs) u. r = 2 \<and> cs = [65, 66]))"
proof -
  have five: "[0..<nat 5] = [0, 1, 2, 3, 4]"
    by (simp add: upt_rec)
  have "okr (pipewrite 0x80400000 (\<lambda>i. of_nat i + 65) 5 piping) (\<lambda>r t. pipe_view (mem t) 0x80400000 = [65, 66, 67, 68, 69])"
    using pipewrite_fits [of piping "0x80400000" 5 "\<lambda>i. of_nat i + 65"] piping_facts five
    by (auto simp: okr_iff simp del: length_pipe_view)
  then show ?thesis
  proof (rule okr_mono)
    fix a :: int and t :: ptable_state assume v: "pipe_view (mem t) 0x80400000 = [65, 66, 67, 68, 69]"
    show "okr (piperead 0x80400000 2 t) (\<lambda>(r, cs) u. r = 2 \<and> cs = [65, 66])"
      by (rule okr_mono [OF piperead_takes_front])
         (auto simp: v numeral_2_eq_2 length_Suc_conv simp del: length_pipe_view)
  qed
qed



end
