(* ===== verification/File.thy ===== *)
theory File
  imports Fs Pipe
begin

text \<open>
  The open file table, \<^verbatim>\<open>file.c\<close>, and \<^verbatim>\<open>pipealloc\<close>. An open file is named by its index in
  \<^verbatim>\<open>ftable.file\<close>; its pipe is the address of the pipe's page and its inode an index of the inode
  cache, or none for the null pointer. \<open>ofile\<close> is \<^verbatim>\<open>struct file\<close>.
\<close>

section \<open>State and operations\<close>

datatype filetype = FD_NONE | FD_PIPE | FD_INODE

record ofile =
  f_type :: filetype
  f_ref :: int
  f_readable :: bool
  f_writable :: bool
  f_pipe :: u32
  f_ip :: "nat option"
  f_off :: u32

record file_state = console_state +
  files :: "ofile list"

definition upd_file :: "nat \<Rightarrow> (ofile \<Rightarrow> ofile) \<Rightarrow> 'a file_state_scheme \<Rightarrow> 'a file_state_scheme" where
  "upd_file f g s = s\<lparr>files := (files s)[f := g (files s ! f)]\<rparr>"

definition filealloc :: "'a file_state_scheme \<Rightarrow> (nat option, 'a file_state_scheme) kres" where
  "filealloc s =
     (case first_index (\<lambda>f. f_ref f = 0) (files s) of
        None \<Rightarrow> Ret None s
      | Some f \<Rightarrow> Ret (Some f) (upd_file f (\<lambda>r. r\<lparr>f_ref := 1\<rparr>) s))"

definition filedup :: "nat \<Rightarrow> 'a file_state_scheme \<Rightarrow> (nat, 'a file_state_scheme) kres" where
  "filedup f s =
     (if f_ref (files s ! f) < 1 then Panic ''filedup''
      else Ret f (upd_file f (\<lambda>r. r\<lparr>f_ref := f_ref r + 1\<rparr>) s))"

text \<open>\<^verbatim>\<open>iput\<close> of a null pointer faults.\<close>

definition fileclose :: "nat \<Rightarrow> 'a file_state_scheme \<Rightarrow> (unit, 'a file_state_scheme) kres" where
  "fileclose f s =
     (if f_ref (files s ! f) < 1 then Panic ''fileclose''
      else let s = upd_file f (\<lambda>r. r\<lparr>f_ref := f_ref r - 1\<rparr>) s
           in if f_ref (files s ! f) > 0 then Ret () s
              else let ff = files s ! f;
                       s = upd_file f (\<lambda>r. r\<lparr>f_ref := 0, f_type := FD_NONE\<rparr>) s
                   in case f_type ff of
                        FD_PIPE \<Rightarrow> pipeclose (f_pipe ff) (f_writable ff) s
                      | FD_INODE \<Rightarrow>
                          bindr (begin_op s) (\<lambda>_ s.
                          bindr (case f_ip ff of None \<Rightarrow> Panic ''trap'' | Some ip \<Rightarrow> iput ip s) (\<lambda>_ s.
                          end_op s))
                      | FD_NONE \<Rightarrow> Ret () s)"

definition filestat :: "nat \<Rightarrow> 'a file_state_scheme \<Rightarrow> (stat option, 'a file_state_scheme) kres" where
  "filestat f s =
     (if f_type (files s ! f) = FD_INODE
      then bindr (ilock (f_ip (files s ! f)) s) (\<lambda>_ s.
             let st = stati (the (f_ip (files s ! f))) s
             in bindr (iunlock (f_ip (files s ! f)) s) (\<lambda>_ s. Ret (Some st) s))
      else Ret None s)"

definition fileread :: "nat \<Rightarrow> int \<Rightarrow> 'a file_state_scheme \<Rightarrow> (int \<times> u8 list, 'a file_state_scheme) kres" where
  "fileread f n s =
     (if \<not> f_readable (files s ! f) then Ret (-1, []) s
      else case f_type (files s ! f) of
             FD_PIPE \<Rightarrow> piperead (f_pipe (files s ! f)) n s
           | FD_INODE \<Rightarrow>
               bindr (ilock (f_ip (files s ! f)) s) (\<lambda>_ s.
               bindr (readi (the (f_ip (files s ! f))) (f_off (files s ! f)) (word_of_int n) s) (\<lambda>(r, cs) s.
                 let s = (if r > 0 then upd_file f (\<lambda>x. x\<lparr>f_off := f_off x + word_of_int r\<rparr>) s else s)
                 in bindr (iunlock (f_ip (files s ! f)) s) (\<lambda>_ s. Ret (r, cs) s)))
           | FD_NONE \<Rightarrow> Panic ''fileread'')"

text \<open>
  The loop of \<^verbatim>\<open>filewrite\<close>: at most three blocks per transaction. The result is the number of bytes
  written when the loop stops.
\<close>

function filewrite_loop :: "nat \<Rightarrow> bytes \<Rightarrow> int \<Rightarrow> int \<Rightarrow> 'a file_state_scheme \<Rightarrow> (int, 'a file_state_scheme) kres" where
  "filewrite_loop f src i n s =
     (if i < n then
        (let n1 = min (n - i) (int ((MAXOPBLOCKS - 1 - 1 - 2) div 2 * 512))
         in bindr (begin_op s) (\<lambda>_ s.
            bindr (ilock (f_ip (files s ! f)) s) (\<lambda>_ s.
            bindr (writei (the (f_ip (files s ! f))) (\<lambda>k. src (nat i + k)) (f_off (files s ! f)) (word_of_int n1) s) (\<lambda>r s.
              let s = (if r > 0 then upd_file f (\<lambda>x. x\<lparr>f_off := f_off x + word_of_int r\<rparr>) s else s)
              in bindr (iunlock (f_ip (files s ! f)) s) (\<lambda>_ s.
                 bindr (end_op s) (\<lambda>_ s.
                   if r < 0 then Ret i s
                   else if r \<noteq> n1 then Panic ''short filewrite''
                   else filewrite_loop f src (i + r) n s))))))
      else Ret i s)"
  by pat_completeness auto
termination
  by (relation "measure (\<lambda>(f, src, i, n, s). nat (n - i))") auto

declare filewrite_loop.simps [simp del]

definition filewrite :: "nat \<Rightarrow> bytes \<Rightarrow> int \<Rightarrow> 'a file_state_scheme \<Rightarrow> (int, 'a file_state_scheme) kres" where
  "filewrite f src n s =
     (if \<not> f_writable (files s ! f) then Ret (-1) s
      else case f_type (files s ! f) of
             FD_PIPE \<Rightarrow> pipewrite (f_pipe (files s ! f)) src n s
           | FD_INODE \<Rightarrow> bindr (filewrite_loop f src 0 n s) (\<lambda>i s. Ret (if i = n then n else -1) s)
           | FD_NONE \<Rightarrow> Panic ''filewrite'')"

text \<open>\<^verbatim>\<open>pipealloc\<close>: the two files, or \<open>None\<close> when it fails.\<close>

definition close_opt :: "nat option \<Rightarrow> 'a file_state_scheme \<Rightarrow> (unit, 'a file_state_scheme) kres" where
  "close_opt f s = (case f of None \<Rightarrow> Ret () s | Some f \<Rightarrow> fileclose f s)"

definition pipealloc :: "'a file_state_scheme \<Rightarrow> ((nat \<times> nat) option, 'a file_state_scheme) kres" where
  "pipealloc s =
     bindr (filealloc s) (\<lambda>f0 s.
     bindr (if f0 = None then Ret None s else filealloc s) (\<lambda>f1 s.
     bindr (if f0 = None \<or> f1 = None then Ret 0 s else kalloc s) (\<lambda>p s.
       case (f0, f1) of
         (Some a, Some b) \<Rightarrow>
           if p \<noteq> 0 then
             (let s = s\<lparr>mem := pipe_setup p (mem s)\<rparr>;
                  s = upd_file a (\<lambda>x. x\<lparr>f_type := FD_PIPE, f_readable := True, f_writable := False, f_pipe := p\<rparr>) s;
                  s = upd_file b (\<lambda>x. x\<lparr>f_type := FD_PIPE, f_readable := False, f_writable := True, f_pipe := p\<rparr>) s
              in Ret (Some (a, b)) s)
           else bindr (close_opt f0 s) (\<lambda>_ s. bindr (close_opt f1 s) (\<lambda>_ s. Ret None s))
       | _ \<Rightarrow> bindr (close_opt f0 s) (\<lambda>_ s. bindr (close_opt f1 s) (\<lambda>_ s. Ret None s)))))"

end
