(* ===== verification/Vm.thy ===== *)
theory Vm
  imports Kalloc
begin

text \<open>
  Page tables, \<^verbatim>\<open>vm.c\<close>. A page directory and its page tables are pages of \<open>mem\<close>; \<^verbatim>\<open>pgdir\<close> is the
  kernel address of the directory, and entry \<open>i\<close> of a table is the word at offset \<open>4 * i\<close>. A null
  pointer result is \<open>None\<close>. \<open>pt_lookup\<close> is the translation the hardware performs; user memory is
  accessed through it. Loops over addresses run on natural numbers, which cannot wrap; the code's
  32-bit counters do not wrap either as long as the bounds stay below \<open>KERNBASE\<close>, which every
  caller ensures. Segment descriptors and the task state segment are not modelled.
\<close>

section \<open>Operations\<close>

definition walkpgdir ::
    "u32 \<Rightarrow> u32 \<Rightarrow> bool \<Rightarrow> 'a kmem_state_scheme \<Rightarrow> (u32 option, 'a kmem_state_scheme) kres" where
  "walkpgdir pgdir va alloc s =
     (let pde = pgdir + 4 * PDX va
      in if ld32 (mem s) pde AND PTE_P \<noteq> 0
         then Ret (Some (P2V (PTE_ADDR (ld32 (mem s) pde)) + 4 * PTX va)) s
         else if \<not> alloc then Ret None s
         else bindr (kalloc s) (\<lambda>pgtab s.
                if pgtab = 0 then Ret None s
                else let m = memset (mem s) pgtab 0 PGSIZE;
                         m = st32 m pde (V2P pgtab OR PTE_P OR PTE_W OR PTE_U)
                     in Ret (Some (pgtab + 4 * PTX va)) (s\<lparr>mem := m\<rparr>)))"

text \<open>
  The loop of \<^verbatim>\<open>mappages\<close> with \<open>k\<close> pages to go after the one at \<open>a\<close>. As \<open>a\<close> and \<open>last\<close> are page
  aligned, \<^verbatim>\<open>a == last\<close> holds after exactly \<open>(last - a) / PGSIZE\<close> turns. \<open>False\<close> is the return of
  \<open>-1\<close>.
\<close>

fun mappages_loop :: "nat \<Rightarrow> u32 \<Rightarrow> u32 \<Rightarrow> u32 \<Rightarrow> u32 \<Rightarrow> 'a kmem_state_scheme \<Rightarrow> (bool, 'a kmem_state_scheme) kres" where
  "mappages_loop k pgdir a pa perm s =
     bindr (walkpgdir pgdir a True s) (\<lambda>r s.
       case r of
         None \<Rightarrow> Ret False s
       | Some pte \<Rightarrow>
           if ld32 (mem s) pte AND PTE_P \<noteq> 0 then Panic ''remap''
           else let s = s\<lparr>mem := st32 (mem s) pte (pa OR perm OR PTE_P)\<rparr>
                in (case k of
                      0 \<Rightarrow> Ret True s
                    | Suc k \<Rightarrow> mappages_loop k pgdir (a + PGSIZE) (pa + PGSIZE) perm s))"

declare mappages_loop.simps [simp del]

definition mappages ::
    "u32 \<Rightarrow> u32 \<Rightarrow> u32 \<Rightarrow> u32 \<Rightarrow> u32 \<Rightarrow> 'a kmem_state_scheme \<Rightarrow> (bool, 'a kmem_state_scheme) kres" where
  "mappages pgdir va sz pa perm s =
     (let a = PGROUNDDOWN va;
          last = PGROUNDDOWN (va + sz - 1)
      in mappages_loop (unat (last - a) div 4096) pgdir a pa perm s)"

lemma next_dir_gt: "a < (a div 4194304 + 1) * (4194304 :: nat)"
  using div_mult_mod_eq [of a 4194304] mod_less_divisor [of 4194304 a] by (simp add: algebra_simps)

text \<open>
  The loop of \<^verbatim>\<open>deallocuvm\<close>: an absent page table is skipped as a whole.
\<close>

function deallocuvm_loop :: "u32 \<Rightarrow> nat \<Rightarrow> nat \<Rightarrow> 'a kmem_state_scheme \<Rightarrow> (unit, 'a kmem_state_scheme) kres" where
  "deallocuvm_loop pgdir a oldsz s =
     (if a < oldsz then
        bindr (walkpgdir pgdir (of_nat a) False s) (\<lambda>r s.
          case r of
            None \<Rightarrow> deallocuvm_loop pgdir ((a div 4194304 + 1) * 4194304) oldsz s
          | Some pte \<Rightarrow>
              if ld32 (mem s) pte AND PTE_P \<noteq> 0 then
                (let pa = PTE_ADDR (ld32 (mem s) pte)
                 in if pa = 0 then Panic ''kfree''
                    else bindr (kfree (P2V pa) s) (\<lambda>_ s.
                         deallocuvm_loop pgdir (a + 4096) oldsz (s\<lparr>mem := st32 (mem s) pte 0\<rparr>)))
              else deallocuvm_loop pgdir (a + 4096) oldsz s)
      else Ret () s)"
  by pat_completeness auto

termination
proof (relation "measure (\<lambda>(pgdir, a, oldsz, s). oldsz - a)")
  fix pgdir :: u32 and a oldsz :: nat and s t :: "'a kmem_state_scheme"
  assume "a < oldsz"
  then show "((pgdir, (a div 4194304 + 1) * 4194304, oldsz, t), (pgdir, a, oldsz, s))
      \<in> measure (\<lambda>(pgdir, a, oldsz, s). oldsz - a)"
    using next_dir_gt [of a] by simp
qed auto

declare deallocuvm_loop.simps [simp del]

definition deallocuvm :: "u32 \<Rightarrow> u32 \<Rightarrow> u32 \<Rightarrow> 'a kmem_state_scheme \<Rightarrow> (u32, 'a kmem_state_scheme) kres" where
  "deallocuvm pgdir oldsz newsz s =
     (if oldsz \<le> newsz then Ret oldsz s
      else bindr (deallocuvm_loop pgdir (unat (PGROUNDUP newsz)) (unat oldsz) s) (\<lambda>_ s. Ret newsz s))"

text \<open>The loop of \<^verbatim>\<open>allocuvm\<close>; the result is that of the function.\<close>

function allocuvm_loop :: "u32 \<Rightarrow> nat \<Rightarrow> u32 \<Rightarrow> u32 \<Rightarrow> 'a kmem_state_scheme \<Rightarrow> (u32, 'a kmem_state_scheme) kres" where
  "allocuvm_loop pgdir a oldsz newsz s =
     (if a < unat newsz then
        bindr (kalloc s) (\<lambda>m s.
          if m = 0 then bindr (deallocuvm pgdir newsz oldsz s) (\<lambda>_ s. Ret 0 s)
          else bindr (mappages pgdir (of_nat a) PGSIZE (V2P m) (PTE_W OR PTE_U)
                        (s\<lparr>mem := memset (mem s) m 0 PGSIZE\<rparr>)) (\<lambda>ok s.
                 if \<not> ok
                 then bindr (deallocuvm pgdir newsz oldsz s) (\<lambda>_ s. bindr (kfree m s) (\<lambda>_ s. Ret 0 s))
                 else allocuvm_loop pgdir (a + 4096) oldsz newsz s))
      else Ret newsz s)"
  by pat_completeness auto
termination
  by (relation "measure (\<lambda>(pgdir, a, oldsz, newsz, s). unat newsz - a)") auto

declare allocuvm_loop.simps [simp del]

definition allocuvm :: "u32 \<Rightarrow> u32 \<Rightarrow> u32 \<Rightarrow> 'a kmem_state_scheme \<Rightarrow> (u32, 'a kmem_state_scheme) kres" where
  "allocuvm pgdir oldsz newsz s =
     (if KERNBASE \<le> newsz then Ret 0 s
      else if newsz < oldsz then Ret oldsz s
      else allocuvm_loop pgdir (unat (PGROUNDUP oldsz)) oldsz newsz s)"

definition freevm :: "u32 \<Rightarrow> 'a kmem_state_scheme \<Rightarrow> (unit, 'a kmem_state_scheme) kres" where
  "freevm pgdir s =
     (if pgdir = 0 then Panic ''freevm: no pgdir''
      else bindr (deallocuvm pgdir KERNBASE 0 s) (\<lambda>_ s.
           bindr (foreach [0..<NPDENTRIES] (\<lambda>i s.
               let pde = ld32 (mem s) (pgdir + 4 * of_nat i)
               in if pde AND PTE_P \<noteq> 0 then kfree (P2V (PTE_ADDR pde)) s else Ret () s) s) (\<lambda>_ s.
           kfree pgdir s)))"

text \<open>The table of kernel mappings: virtual address, physical range, permissions.\<close>

definition kmap :: "u32 \<Rightarrow> (u32 \<times> u32 \<times> u32 \<times> u32) list" where
  "kmap kdat =
     [(KERNBASE, 0, EXTMEM, PTE_W),
      (KERNLINK, V2P KERNLINK, V2P kdat, 0),
      (kdat, V2P kdat, PHYSTOP, PTE_W),
      (DEVSPACE, DEVSPACE, 0, PTE_W)]"

definition setupkvm :: "'a kmem_state_scheme \<Rightarrow> (u32, 'a kmem_state_scheme) kres" where
  "setupkvm s =
     bindr (kalloc s) (\<lambda>pgdir s.
       if pgdir = 0 then Ret 0 s
       else let s = s\<lparr>mem := memset (mem s) pgdir 0 PGSIZE\<rparr>
            in if DEVSPACE < P2V PHYSTOP then Panic ''PHYSTOP too high''
               else bindr (firstr (kmap (kdata s)) (\<lambda>(virt, pstart, pend, perm) s.
                        bindr (mappages pgdir virt (pend - pstart) pstart perm s) (\<lambda>ok s.
                          if ok then Ret None s else bindr (freevm pgdir s) (\<lambda>_ s. Ret (Some ()) s))) s)
                    (\<lambda>bad s. Ret (if bad = None then pgdir else 0) s))"

text \<open>\<^verbatim>\<open>inituvm\<close> uses the page without testing for failure: at address 0 the store faults.\<close>

definition inituvm :: "u32 \<Rightarrow> bytes \<Rightarrow> u32 \<Rightarrow> 'a kmem_state_scheme \<Rightarrow> (unit, 'a kmem_state_scheme) kres" where
  "inituvm pgdir init sz s =
     (if PGSIZE \<le> sz then Panic ''inituvm: more than a page''
      else bindr (kalloc s) (\<lambda>m s.
        if m = 0 then Panic ''trap''
        else bindr (mappages pgdir 0 PGSIZE (V2P m) (PTE_W OR PTE_U) (s\<lparr>mem := memset (mem s) m 0 PGSIZE\<rparr>)) (\<lambda>_ s.
             Ret () (s\<lparr>mem := (\<lambda>x. if x - m < sz then init (unat (x - m)) else mem s x)\<rparr>))))"

definition clearpteu :: "u32 \<Rightarrow> u32 \<Rightarrow> 'a kmem_state_scheme \<Rightarrow> (unit, 'a kmem_state_scheme) kres" where
  "clearpteu pgdir uva s =
     bindr (walkpgdir pgdir uva False s) (\<lambda>r s.
       case r of
         None \<Rightarrow> Panic ''clearpteu''
       | Some pte \<Rightarrow> Ret () (s\<lparr>mem := st32 (mem s) pte (ld32 (mem s) pte AND NOT PTE_U)\<rparr>))"

text \<open>\<^verbatim>\<open>copyuvm\<close>: the pages at \<open>0, PGSIZE, ...\<close> below \<open>sz\<close>; \<open>Some ()\<close> ends the loop at label \<^verbatim>\<open>bad\<close>.\<close>

definition copyuvm :: "u32 \<Rightarrow> u32 \<Rightarrow> 'a kmem_state_scheme \<Rightarrow> (u32, 'a kmem_state_scheme) kres" where
  "copyuvm pgdir sz s =
     bindr (setupkvm s) (\<lambda>d s.
       if d = 0 then Ret 0 s
       else bindr (firstr (map (\<lambda>k. 4096 * k) [0..<(unat sz + 4095) div 4096]) (\<lambda>i s.
              bindr (walkpgdir pgdir (of_nat i) False s) (\<lambda>r s.
                case r of
                  None \<Rightarrow> Panic ''copyuvm: pte should exist''
                | Some pte \<Rightarrow>
                    if ld32 (mem s) pte AND PTE_P = 0 then Panic ''copyuvm: page not present''
                    else let pa = PTE_ADDR (ld32 (mem s) pte); flags = PTE_FLAGS (ld32 (mem s) pte)
                         in bindr (kalloc s) (\<lambda>m s.
                              if m = 0 then Ret (Some ()) s
                              else bindr (mappages d (of_nat i) PGSIZE (V2P m) flags
                                            (s\<lparr>mem := memmove (mem s) m (P2V pa) PGSIZE\<rparr>)) (\<lambda>ok s.
                                     if ok then Ret None s
                                     else bindr (kfree m s) (\<lambda>_ s. Ret (Some ()) s))))) s)
            (\<lambda>bad s. if bad = None then Ret d s else bindr (freevm d s) (\<lambda>_ s. Ret 0 s)))"

text \<open>
  \<^verbatim>\<open>uva2ka\<close> does not test the result of \<^verbatim>\<open>walkpgdir\<close>: with no page table it reads through a null
  pointer, which is taken to fault.
\<close>

definition uva2ka :: "u32 \<Rightarrow> u32 \<Rightarrow> 'a kmem_state_scheme \<Rightarrow> (u32, 'a kmem_state_scheme) kres" where
  "uva2ka pgdir uva s =
     bindr (walkpgdir pgdir uva False s) (\<lambda>r s.
       case r of
         None \<Rightarrow> Panic ''trap''
       | Some pte \<Rightarrow>
           if ld32 (mem s) pte AND PTE_P = 0 then Ret 0 s
           else if ld32 (mem s) pte AND PTE_U = 0 then Ret 0 s
           else Ret (P2V (PTE_ADDR (ld32 (mem s) pte))) s)"

text \<open>The loop of \<^verbatim>\<open>copyout\<close>: byte \<open>k\<close> of \<open>p\<close> comes next and \<open>len\<close> bytes are left.\<close>

function copyout_loop :: "u32 \<Rightarrow> u32 \<Rightarrow> bytes \<Rightarrow> nat \<Rightarrow> nat \<Rightarrow> 'a kmem_state_scheme \<Rightarrow> (bool, 'a kmem_state_scheme) kres" where
  "copyout_loop pgdir va p k len s =
     (if len = 0 then Ret True s
      else let va0 = PGROUNDDOWN va
           in bindr (uva2ka pgdir va0 s) (\<lambda>pa0 s.
                if pa0 = 0 then Ret False s
                else let n = min len (4096 - unat va mod 4096);
                         dst = pa0 + (va - va0)
                     in copyout_loop pgdir (va0 + PGSIZE) p (k + n) (len - n)
                          (s\<lparr>mem := (\<lambda>x. if unat (x - dst) < n then p (k + unat (x - dst)) else mem s x)\<rparr>)))"
  by pat_completeness auto
termination
  by (relation "measure (\<lambda>(pgdir, va, p, k, len, s). len)") (auto simp: Let_def)

declare copyout_loop.simps [simp del]

definition copyout :: "u32 \<Rightarrow> u32 \<Rightarrow> bytes \<Rightarrow> u32 \<Rightarrow> 'a kmem_state_scheme \<Rightarrow> (bool, 'a kmem_state_scheme) kres" where
  "copyout pgdir va p len s = copyout_loop pgdir va p 0 (unat len) s"

section \<open>Translation and user memory\<close>

definition pt_lookup :: "mem \<Rightarrow> u32 \<Rightarrow> u32 \<Rightarrow> u32 option" where
  "pt_lookup m pgdir va =
     (let pde = ld32 m (pgdir + 4 * PDX va)
      in if pde AND PTE_P = 0 then None
         else let pte = ld32 m (P2V (PTE_ADDR pde) + 4 * PTX va)
              in if pte AND PTE_P = 0 then None else Some pte)"

text \<open>The kernel address of the byte at user address \<open>va\<close>.\<close>

definition user_addr :: "mem \<Rightarrow> u32 \<Rightarrow> u32 \<Rightarrow> u32 option" where
  "user_addr m pgdir va = map_option (\<lambda>pte. P2V (PTE_ADDR pte) + PTE_FLAGS va) (pt_lookup m pgdir va)"

definition user_ldb :: "mem \<Rightarrow> u32 \<Rightarrow> u32 \<Rightarrow> u8 option" where
  "user_ldb m pgdir va = map_option m (user_addr m pgdir va)"

text \<open>
  Storing consecutive bytes at a user address; \<open>None\<close> is a page fault. The kernel runs with write
  protection on, so a store needs \<open>PTE_W\<close>.
\<close>

definition user_waddr :: "mem \<Rightarrow> u32 \<Rightarrow> u32 \<Rightarrow> u32 option" where
  "user_waddr m pgdir va =
     (case pt_lookup m pgdir va of
        None \<Rightarrow> None
      | Some pte \<Rightarrow> if pte AND PTE_W = 0 then None else Some (P2V (PTE_ADDR pte) + PTE_FLAGS va))"

primrec user_stb :: "mem \<Rightarrow> u32 \<Rightarrow> u32 \<Rightarrow> u8 list \<Rightarrow> mem option" where
  "user_stb m pgdir va [] = Some m"
| "user_stb m pgdir va (c # cs) =
     (case user_waddr m pgdir va of
        None \<Rightarrow> None
      | Some a \<Rightarrow> user_stb (m(a := c)) pgdir (va + 1) cs)"

text \<open>Storing consecutive bytes at a kernel address.\<close>

definition put_bytes :: "mem \<Rightarrow> u32 \<Rightarrow> u8 list \<Rightarrow> mem" where
  "put_bytes m a cs = (\<lambda>x. if unat (x - a) < length cs then cs ! unat (x - a) else m x)"

text \<open>The bytes of a word in memory order.\<close>

definition le32 :: "u32 \<Rightarrow> u8 list" where
  "le32 v = map (byte_of v) [0, 1, 2, 3]"

definition le16 :: "u16 \<Rightarrow> u8 list" where
  "le16 v = map (byte_of v) [0, 1]"

primrec user_lds :: "mem \<Rightarrow> u32 \<Rightarrow> u32 \<Rightarrow> nat \<Rightarrow> u8 list option" where
  "user_lds m pgdir va 0 = Some []"
| "user_lds m pgdir va (Suc n) =
     (case user_ldb m pgdir va of
        None \<Rightarrow> None
      | Some c \<Rightarrow> map_option (Cons c) (user_lds m pgdir (va + 1) n))"

end
