(* ===== verification/Proc.thy ===== *)
theory Proc
  imports File Vm
begin

text \<open>
  Processes, \<^verbatim>\<open>proc.c\<close> apart from the primitives of \<open>Ptable\<close>: the first process, growing, fork,
  exit, wait, the first return to user space, and one round of the scheduler. \<open>kstate\<close> is the state
  of the whole kernel. A trap frame is 76 bytes on the kernel stack: \<^verbatim>\<open>eax\<close> at offset 28, \<^verbatim>\<open>es\<close> at
  40, \<^verbatim>\<open>ds\<close> at 44, \<^verbatim>\<open>trapno\<close> at 48, \<^verbatim>\<open>eip\<close> at 56, \<^verbatim>\<open>cs\<close> at 60, \<^verbatim>\<open>eflags\<close> at 64, \<^verbatim>\<open>esp\<close>
  at 68, \<^verbatim>\<open>ss\<close> at 72. A null pointer that is read or written through faults, and \<^verbatim>\<open>trap\<close> panics.

  \<open>initcode\<close> is the image the linker embeds as \<^verbatim>\<open>_binary_initcode_start\<close>; \<open>forkret_first\<close> is the
  static variable of \<^verbatim>\<open>forkret\<close>.
\<close>

section \<open>State\<close>

record kstate = file_state +
  ticks :: u32
  blocked_syscalls :: "bool list"
  last_failed_fd :: u32
  forkret_first :: bool
  initcode :: "u8 list"

definition with_proc :: "'a ptable_state_scheme \<Rightarrow> (nat \<Rightarrow> ('b, 'a ptable_state_scheme) kres) \<Rightarrow>
    ('b, 'a ptable_state_scheme) kres" where
  "with_proc s f = (case myproc s of None \<Rightarrow> Panic ''trap'' | Some p \<Rightarrow> f p)"

definition st16 :: "mem \<Rightarrow> u32 \<Rightarrow> u16 \<Rightarrow> mem" where
  "st16 m a v = put_bytes m a (le16 v)"

definition ld16 :: "mem \<Rightarrow> u32 \<Rightarrow> u16" where
  "ld16 m a = rd16 (\<lambda>i. m (a + of_nat i)) 0"

section \<open>Operations\<close>

text \<open>\<^verbatim>\<open>SEG_UCODE << 3 | DPL_USER\<close> is 27, \<^verbatim>\<open>SEG_UDATA << 3 | DPL_USER\<close> is 35, \<^verbatim>\<open>FL_IF\<close> is 512.\<close>

definition user_frame :: "u32 \<Rightarrow> mem \<Rightarrow> mem" where
  "user_frame tf m =
     (let m = memset m tf 0 76;
          m = st16 m (tf + 60) 27;
          m = st16 m (tf + 44) 35;
          m = st16 m (tf + 40) (ld16 m (tf + 44));
          m = st16 m (tf + 72) (ld16 m (tf + 44));
          m = st32 m (tf + 64) 512;
          m = st32 m (tf + 68) PGSIZE
      in st32 m (tf + 56) 0)"

definition userinit :: "'a kstate_scheme \<Rightarrow> (unit, 'a kstate_scheme) kres" where
  "userinit s =
     bindr (allocproc s) (\<lambda>r s.
       let s = s\<lparr>initproc := r\<rparr>
       in case r of
            None \<Rightarrow> Panic ''trap''
          | Some p \<Rightarrow>
              bindr (setupkvm s) (\<lambda>d s.
                let s = upd_proc p (\<lambda>q. q\<lparr>p_pgdir := d\<rparr>) s
                in if d = 0 then Panic ''userinit: out of memory?''
                   else bindr (inituvm d (as_bytes (initcode s)) (of_nat (length (initcode s))) s) (\<lambda>_ s.
                     let s = upd_proc p (\<lambda>q. q\<lparr>p_sz := PGSIZE\<rparr>) s;
                         s = s\<lparr>mem := user_frame (p_tf (procs s ! p)) (mem s)\<rparr>;
                         s = upd_proc p (\<lambda>q. q\<lparr>p_name :=
                               safestrcpy (p_name q) (as_bytes (map of_char ''initcode'')) 16\<rparr>) s
                     in bindr (namei [SLASH] s) (\<lambda>d s.
                          let s = upd_proc p (\<lambda>q. q\<lparr>p_cwd := d\<rparr>) s
                          in Ret () (upd_proc p (\<lambda>q. q\<lparr>p_state := RUNNABLE\<rparr>) s)))))"

definition growproc :: "int \<Rightarrow> 'a kstate_scheme \<Rightarrow> (int, 'a kstate_scheme) kres" where
  "growproc n s = with_proc s (\<lambda>p.
     let q = procs s ! p; sz = p_sz q
     in bindr (if n > 0 then allocuvm (p_pgdir q) sz (sz + word_of_int n) s
               else if n < 0 then deallocuvm (p_pgdir q) sz (sz + word_of_int n) s
               else Ret sz s) (\<lambda>sz' s.
          if n \<noteq> 0 \<and> sz' = 0 then Ret (-1) s
          else let s = upd_proc p (\<lambda>q. q\<lparr>p_sz := sz'\<rparr>) s
               in bindr (switchuvm (Some p) s) (\<lambda>_ s. Ret 0 s)))"

text \<open>The loop of \<^verbatim>\<open>fork\<close> that duplicates the open files of \<open>p\<close> for \<open>c\<close>.\<close>

definition dup_files :: "nat \<Rightarrow> nat \<Rightarrow> 'a kstate_scheme \<Rightarrow> (unit, 'a kstate_scheme) kres" where
  "dup_files p c s =
     foreach [0..<NOFILE] (\<lambda>i s.
       case p_ofile (procs s ! p) ! i of
         None \<Rightarrow> Ret () s
       | Some f \<Rightarrow> bindr (filedup f s) (\<lambda>f s.
           Ret () (upd_proc c (\<lambda>q. q\<lparr>p_ofile := (p_ofile q)[i := Some f]\<rparr>) s))) s"

definition fork :: "'a kstate_scheme \<Rightarrow> (int, 'a kstate_scheme) kres" where
  "fork s = with_proc s (\<lambda>p.
     bindr (allocproc s) (\<lambda>r s.
       case r of
         None \<Rightarrow> Ret (-1) s
       | Some c \<Rightarrow>
           bindr (copyuvm (p_pgdir (procs s ! p)) (p_sz (procs s ! p)) s) (\<lambda>d s.
             let s = upd_proc c (\<lambda>q. q\<lparr>p_pgdir := d\<rparr>) s
             in if d = 0
                then bindr (kfree (p_kstack (procs s ! c)) s) (\<lambda>_ s.
                       Ret (-1) (upd_proc c (\<lambda>q. q\<lparr>p_kstack := 0, p_state := UNUSED\<rparr>) s))
                else let s = upd_proc c (\<lambda>q. q\<lparr>p_sz := p_sz (procs s ! p), p_parent := Some p\<rparr>) s;
                         tf = p_tf (procs s ! c);
                         s = s\<lparr>mem := st32 (memmove (mem s) tf (p_tf (procs s ! p)) 76) (tf + 28) 0\<rparr>
                     in bindr (dup_files p c s) (\<lambda>_ s.
                        bindr (case p_cwd (procs s ! p) of None \<Rightarrow> Panic ''trap'' | Some d \<Rightarrow> idup d s) (\<lambda>d s.
                          let s = upd_proc c (\<lambda>q. q\<lparr>p_cwd := Some d,
                                p_name := safestrcpy (p_name q) (p_name (procs s ! p)) 16\<rparr>) s
                          in Ret (p_pid (procs s ! c)) (upd_proc c (\<lambda>q. q\<lparr>p_state := RUNNABLE\<rparr>) s))))))"

text \<open>A wake-up of the process a pointer points to; nobody sleeps on a null channel.\<close>

definition wakeup_proc :: "nat option \<Rightarrow> 'a ptable_state_scheme \<Rightarrow> 'a ptable_state_scheme" where
  "wakeup_proc r s = (case r of None \<Rightarrow> s | Some p \<Rightarrow> wakeup1 (ChanProc p) s)"

text \<open>One turn of the loop of \<^verbatim>\<open>exit\<close> that passes the children of \<open>p\<close> to \<^verbatim>\<open>init\<close>.\<close>

definition reparent :: "nat \<Rightarrow> nat \<Rightarrow> 'a ptable_state_scheme \<Rightarrow> 'a ptable_state_scheme" where
  "reparent p i s =
     (if p_parent (procs s ! i) = Some p
      then let s = upd_proc i (\<lambda>q. q\<lparr>p_parent := initproc s\<rparr>) s
           in if p_state (procs s ! i) = ZOMBIE then wakeup_proc (initproc s) s else s
      else s)"

definition close_files :: "nat \<Rightarrow> 'a kstate_scheme \<Rightarrow> (unit, 'a kstate_scheme) kres" where
  "close_files p s =
     foreach [0..<NOFILE] (\<lambda>fd s.
       case p_ofile (procs s ! p) ! fd of
         None \<Rightarrow> Ret () s
       | Some f \<Rightarrow> bindr (fileclose f s) (\<lambda>_ s.
           Ret () (upd_proc p (\<lambda>q. q\<lparr>p_ofile := (p_ofile q)[fd := None]\<rparr>) s))) s"

text \<open>The end of \<^verbatim>\<open>exit\<close>, under \<^verbatim>\<open>ptable.lock\<close>.\<close>

definition exit_finish :: "nat \<Rightarrow> 'a ptable_state_scheme \<Rightarrow> 'a ptable_state_scheme" where
  "exit_finish p s =
     (let s = wakeup_proc (p_parent (procs s ! p)) s;
          s = fold (reparent p) [0..<NPROC] s
      in sched (upd_proc p (\<lambda>q. q\<lparr>p_state := ZOMBIE\<rparr>) s))"

definition exit :: "'a kstate_scheme \<Rightarrow> ('b, 'a kstate_scheme) kres" where
  "exit s =
     (if myproc s = initproc s then Panic ''init exiting''
      else with_proc s (\<lambda>p.
        bindr (close_files p (record_history p s)) (\<lambda>_ s.
        bindr (begin_op s) (\<lambda>_ s.
        bindr (case p_cwd (procs s ! p) of None \<Rightarrow> Panic ''trap'' | Some d \<Rightarrow> iput d s) (\<lambda>_ s.
        bindr (end_op s) (\<lambda>_ s.
          Exited (exit_finish p (upd_proc p (\<lambda>q. q\<lparr>p_cwd := None\<rparr>) s))))))))"

text \<open>
  One turn of the outer loop of \<^verbatim>\<open>wait\<close>: it frees the first exited child and returns its pid, fails,
  or sleeps until a child exits.
\<close>

definition free_slot :: "nat \<Rightarrow> 'a ptable_state_scheme \<Rightarrow> 'a ptable_state_scheme" where
  "free_slot c s = upd_proc c (\<lambda>q. q\<lparr>p_pid := 0, p_parent := None, p_name := (p_name q)(0 := 0),
     p_killed := False, p_state := UNUSED\<rparr>) s"

definition reap :: "nat \<Rightarrow> 'a kstate_scheme \<Rightarrow> (int, 'a kstate_scheme) kres" where
  "reap c s =
     (let pid = p_pid (procs s ! c)
      in bindr (kfree (p_kstack (procs s ! c)) s) (\<lambda>_ s.
         let s = upd_proc c (\<lambda>q. q\<lparr>p_kstack := 0\<rparr>) s
         in bindr (freevm (p_pgdir (procs s ! c)) s) (\<lambda>_ s.
              Ret pid (free_slot c s))))"

definition zombie_child :: "nat \<Rightarrow> proc \<Rightarrow> bool" where
  "zombie_child p q \<longleftrightarrow> p_parent q = Some p \<and> p_state q = ZOMBIE"

definition wait :: "'a kstate_scheme \<Rightarrow> (int, 'a kstate_scheme) kres" where
  "wait s = with_proc s (\<lambda>p.
     case first_index (zombie_child p) (procs s) of
       Some c \<Rightarrow> reap c s
     | None \<Rightarrow>
         if (\<forall>q\<in>set (procs s). p_parent q \<noteq> Some p) \<or> p_killed (procs s ! p) then Ret (-1) s
         else sleep (ChanProc p) s)"

text \<open>The part of \<^verbatim>\<open>forkret\<close> that initialises the file system on the first call.\<close>

definition forkret :: "'a kstate_scheme \<Rightarrow> (unit, 'a kstate_scheme) kres" where
  "forkret s =
     (if forkret_first s
      then bindr (iinit ROOTDEV (s\<lparr>forkret_first := False\<rparr>)) (\<lambda>_ s. initlog ROOTDEV s)
      else Ret () s)"

text \<open>
  One pass of \<^verbatim>\<open>scheduler\<close> over the table, up to the first process it switches to; the result says
  which one, if any.
\<close>

definition scheduler_round :: "'a kstate_scheme \<Rightarrow> (nat option, 'a kstate_scheme) kres" where
  "scheduler_round s =
     firstr [0..<NPROC] (\<lambda>p s. bindr (scheduler_at p s) (\<lambda>ran s. Ret (if ran then Some p else None) s)) s"

end
