(* ===== verification/Exec.thy ===== *)
theory Exec
  imports Proc
begin

text \<open>
  Replacing the program of a process: \<^verbatim>\<open>exec.c\<close> and \<^verbatim>\<open>loaduvm\<close> of \<^verbatim>\<open>vm.c\<close>. The path and the
  arguments are the character lists found in user memory when the system call fetched them. The ELF
  structures of \<^verbatim>\<open>elf.h\<close> are read at their byte offsets. \<open>None\<close> in a result stands for the jump to
  the label \<^verbatim>\<open>bad\<close>.
\<close>

section \<open>Loading segments\<close>

function loaduvm_loop :: "u32 \<Rightarrow> u32 \<Rightarrow> nat \<Rightarrow> u32 \<Rightarrow> nat \<Rightarrow> nat \<Rightarrow> 'a kstate_scheme \<Rightarrow> (int, 'a kstate_scheme) kres" where
  "loaduvm_loop pgdir addr ip offset i sz s =
     (if i < sz then
        bindr (walkpgdir pgdir (addr + of_nat i) False s) (\<lambda>r s.
          case r of
            None \<Rightarrow> Panic ''loaduvm: address should exist''
          | Some pte \<Rightarrow>
              let pa = PTE_ADDR (ld32 (mem s) pte);
                  n = (if sz - i < 4096 then of_nat (sz - i) else PGSIZE)
              in bindr (readi ip (offset + of_nat i) n s) (\<lambda>(r, cs) s.
                   let s = s\<lparr>mem := put_bytes (mem s) (P2V pa) cs\<rparr>
                   in if word_of_int r \<noteq> n then Ret (-1) s
                      else loaduvm_loop pgdir addr ip offset (i + 4096) sz s))
      else Ret 0 s)"
  by pat_completeness auto
termination
  by (relation "measure (\<lambda>(pgdir, addr, ip, offset, i, sz, s). sz - i)") auto

declare loaduvm_loop.simps [simp del]

definition loaduvm :: "u32 \<Rightarrow> u32 \<Rightarrow> nat \<Rightarrow> u32 \<Rightarrow> u32 \<Rightarrow> 'a kstate_scheme \<Rightarrow> (int, 'a kstate_scheme) kres" where
  "loaduvm pgdir addr ip offset sz s =
     (if addr mod PGSIZE \<noteq> 0 then Panic ''loaduvm: addr must be page aligned''
      else loaduvm_loop pgdir addr ip offset 0 (unat sz) s)"

abbreviation (input) ELF_MAGIC :: u32 where "ELF_MAGIC \<equiv> 0x464C457F"
abbreviation (input) ELF_PROG_LOAD :: u32 where "ELF_PROG_LOAD \<equiv> 1"

record elfhdr =
  elf_magic :: u32
  elf_entry :: u32
  elf_phoff :: u32
  elf_phnum :: u16

record proghdr =
  ph_type :: u32
  ph_off :: u32
  ph_vaddr :: u32
  ph_filesz :: u32
  ph_memsz :: u32

definition elfhdr_of :: "u8 list \<Rightarrow> elfhdr" where
  "elfhdr_of cs = (let d = as_bytes cs in
     \<lparr>elf_magic = rd32 d 0, elf_entry = rd32 d 24, elf_phoff = rd32 d 28, elf_phnum = rd16 d 44\<rparr>)"

definition proghdr_of :: "u8 list \<Rightarrow> proghdr" where
  "proghdr_of cs = (let d = as_bytes cs in
     \<lparr>ph_type = rd32 d 0, ph_off = rd32 d 4, ph_vaddr = rd32 d 8, ph_filesz = rd32 d 16, ph_memsz = rd32 d 20\<rparr>)"

text \<open>The loop over the program headers with \<open>n\<close> of them left, the next one at \<open>off\<close>.\<close>

fun load_segments :: "nat \<Rightarrow> nat \<Rightarrow> u32 \<Rightarrow> u32 \<Rightarrow> u32 \<Rightarrow> 'a kstate_scheme \<Rightarrow> (u32 option, 'a kstate_scheme) kres" where
  "load_segments ip 0 off pgdir sz s = Ret (Some sz) s"
| "load_segments ip (Suc n) off pgdir sz s =
     bindr (readi ip off 32 s) (\<lambda>(r, cs) s.
       if r \<noteq> 32 then Ret None s
       else let ph = proghdr_of cs
            in if ph_type ph \<noteq> ELF_PROG_LOAD then load_segments ip n (off + 32) pgdir sz s
               else if ph_memsz ph < ph_filesz ph then Ret None s
               else if ph_vaddr ph + ph_memsz ph < ph_vaddr ph then Ret None s
               else bindr (allocuvm pgdir sz (ph_vaddr ph + ph_memsz ph) s) (\<lambda>sz s.
                      if sz = 0 then Ret None s
                      else if ph_vaddr ph mod PGSIZE \<noteq> 0 then Ret None s
                      else bindr (loaduvm pgdir (ph_vaddr ph) ip (ph_off ph) (ph_filesz ph) s) (\<lambda>r s.
                             if r < 0 then Ret None s else load_segments ip n (off + 32) pgdir sz s)))"

section \<open>The user stack\<close>

text \<open>
  Pushing the argument strings: \<open>argc\<close> have been pushed, \<open>us\<close> holds their addresses. The result is
  the stack pointer and all the addresses.
\<close>

fun push_args :: "u32 \<Rightarrow> u8 list list \<Rightarrow> nat \<Rightarrow> u32 \<Rightarrow> u32 list \<Rightarrow> 'a kstate_scheme \<Rightarrow>
    ((u32 \<times> u32 list) option, 'a kstate_scheme) kres" where
  "push_args pgdir [] argc sp us s = Ret (Some (sp, us)) s"
| "push_args pgdir (a # as) argc sp us s =
     (if MAXARG \<le> argc then Ret None s
      else let sp = (sp - of_nat (length a + 1)) AND NOT 3
           in bindr (copyout pgdir sp (as_bytes (a @ [0])) (of_nat (length a + 1)) s) (\<lambda>ok s.
                if \<not> ok then Ret None s else push_args pgdir as (Suc argc) sp (us @ [sp]) s))"

text \<open>The words of \<^verbatim>\<open>ustack\<close>: fake return address, argc, argv, and the argument pointers.\<close>

definition ustack :: "u32 \<Rightarrow> u32 list \<Rightarrow> u32 list" where
  "ustack sp us = [0xFFFFFFFF, of_nat (length us), sp - of_nat ((length us + 1) * 4)] @ us @ [0]"

definition make_stack :: "u32 \<Rightarrow> u32 \<Rightarrow> u8 list list \<Rightarrow> 'a kstate_scheme \<Rightarrow> (u32 option, 'a kstate_scheme) kres" where
  "make_stack pgdir sp argv s =
     bindr (push_args pgdir argv 0 sp [] s) (\<lambda>r s.
       case r of
         None \<Rightarrow> Ret None s
       | Some (sp, us) \<Rightarrow>
           let words = ustack sp us;
               sp = sp - of_nat (4 * length words)
           in bindr (copyout pgdir sp (as_bytes (concat (map le32 words))) (of_nat (4 * length words)) s) (\<lambda>ok s.
                Ret (if ok then Some sp else None) s))"

text \<open>The part of the path after the last slash, which becomes the name of the process.\<close>

definition path_last :: "u8 list \<Rightarrow> u8 list" where
  "path_last path = rev (takeWhile (\<lambda>c. c \<noteq> SLASH) (rev path))"

section \<open>exec\<close>

text \<open>The clean-up at label \<^verbatim>\<open>bad\<close>; \<open>ip\<close> is \<open>None\<close> once the inode has been released.\<close>

definition exec_bad :: "u32 \<Rightarrow> nat option \<Rightarrow> 'a kstate_scheme \<Rightarrow> (int, 'a kstate_scheme) kres" where
  "exec_bad pgdir ip s =
     bindr (if pgdir \<noteq> 0 then freevm pgdir s else Ret () s) (\<lambda>_ s.
     bindr (case ip of None \<Rightarrow> Ret () s | Some ip \<Rightarrow> bindr (iunlockput ip s) (\<lambda>_ s. end_op s)) (\<lambda>_ s.
     Ret (-1) s))"

text \<open>The change to the new image.\<close>

definition exec_commit :: "nat \<Rightarrow> u8 list \<Rightarrow> u32 \<Rightarrow> u32 \<Rightarrow> u32 \<Rightarrow> u32 \<Rightarrow> 'a kstate_scheme \<Rightarrow> (int, 'a kstate_scheme) kres" where
  "exec_commit p path pgdir sz entry sp s =
     (let s = upd_proc p (\<lambda>q. q\<lparr>p_name := safestrcpy (p_name q) (as_bytes (path_last path)) 16\<rparr>) s;
          oldpgdir = p_pgdir (procs s ! p);
          s = upd_proc p (\<lambda>q. q\<lparr>p_pgdir := pgdir, p_sz := sz\<rparr>) s;
          tf = p_tf (procs s ! p);
          s = s\<lparr>mem := st32 (st32 (mem s) (tf + 56) entry) (tf + 68) sp\<rparr>
      in bindr (switchuvm (Some p) s) (\<lambda>_ s. bindr (freevm oldpgdir s) (\<lambda>_ s. Ret 0 s)))"

definition exec :: "u8 list \<Rightarrow> u8 list list \<Rightarrow> 'a kstate_scheme \<Rightarrow> (int, 'a kstate_scheme) kres" where
  "exec path argv s =
     bindr (begin_op s) (\<lambda>_ s.
     bindr (namei path s) (\<lambda>r s.
       case r of
         None \<Rightarrow> bindr (end_op s) (\<lambda>_ s. Ret (-1) s)
       | Some ip \<Rightarrow>
           bindr (ilock (Some ip) s) (\<lambda>_ s.
           bindr (readi ip 0 52 s) (\<lambda>(r, cs) s.
             if r \<noteq> 52 then exec_bad 0 (Some ip) s
             else let elf = elfhdr_of cs
                  in if elf_magic elf \<noteq> ELF_MAGIC then exec_bad 0 (Some ip) s
                     else bindr (setupkvm s) (\<lambda>pgdir s.
                       if pgdir = 0 then exec_bad 0 (Some ip) s
                       else bindr (load_segments ip (unat (elf_phnum elf)) (elf_phoff elf) pgdir 0 s) (\<lambda>r s.
                         case r of
                           None \<Rightarrow> exec_bad pgdir (Some ip) s
                         | Some sz \<Rightarrow>
                             bindr (iunlockput ip s) (\<lambda>_ s.
                             bindr (end_op s) (\<lambda>_ s.
                             bindr (allocuvm pgdir (PGROUNDUP sz) (PGROUNDUP sz + 2 * PGSIZE) s) (\<lambda>sz s.
                               if sz = 0 then exec_bad pgdir None s
                               else bindr (clearpteu pgdir (sz - 2 * PGSIZE) s) (\<lambda>_ s.
                                    bindr (make_stack pgdir sz argv s) (\<lambda>r s.
                                      case r of
                                        None \<Rightarrow> exec_bad pgdir None s
                                      | Some sp \<Rightarrow>
                                          with_proc s (\<lambda>p. exec_commit p path pgdir sz (elf_entry elf) sp s))))))))))))"

end
