(* ===== verification/Sysproc.thy ===== *)
theory Sysproc
  imports Exec
begin

text \<open>
  Fetching system call arguments (\<^verbatim>\<open>syscall.c\<close>) and the process-related system calls
  (\<^verbatim>\<open>sysproc.c\<close>). The kernel reads and writes user memory at user addresses through the page table
  of the current process; a fault in the kernel ends in \<^verbatim>\<open>panic("trap")\<close>. A fetched value is
  \<open>None\<close> where the C function returns \<open>-1\<close>. A string argument is its characters: the text of the
  caller does not change during the call, as the processes share no writable memory.
\<close>

section \<open>User memory\<close>

definition cur_pgdir :: "'a ptable_state_scheme \<Rightarrow> u32" where
  "cur_pgdir s = (case myproc s of None \<Rightarrow> 0 | Some p \<Rightarrow> p_pgdir (procs s ! p))"

definition get_user :: "u32 \<Rightarrow> nat \<Rightarrow> 'a ptable_state_scheme \<Rightarrow> (u8 list, 'a ptable_state_scheme) kres" where
  "get_user va n s =
     (case user_lds (mem s) (cur_pgdir s) va n of None \<Rightarrow> Panic ''trap'' | Some cs \<Rightarrow> Ret cs s)"

definition put_user :: "u32 \<Rightarrow> u8 list \<Rightarrow> 'a ptable_state_scheme \<Rightarrow> (unit, 'a ptable_state_scheme) kres" where
  "put_user va cs s =
     (case user_stb (mem s) (cur_pgdir s) va cs of None \<Rightarrow> Panic ''trap'' | Some m \<Rightarrow> Ret () (s\<lparr>mem := m\<rparr>))"

text \<open>
  The bytes at a user address as a buffer. Every page below the size of a process is mapped, so the
  default is never used within the bounds checked by \<^verbatim>\<open>argptr\<close>.
\<close>

definition user_buf :: "u32 \<Rightarrow> 'a ptable_state_scheme \<Rightarrow> bytes" where
  "user_buf va s = (\<lambda>k. case user_ldb (mem s) (cur_pgdir s) (va + of_nat k) of None \<Rightarrow> 0 | Some c \<Rightarrow> c)"

section \<open>Fetching arguments\<close>

definition fetchint :: "u32 \<Rightarrow> 'a ptable_state_scheme \<Rightarrow> (int option, 'a ptable_state_scheme) kres" where
  "fetchint addr s = with_proc s (\<lambda>p.
     if p_sz (procs s ! p) \<le> addr \<or> p_sz (procs s ! p) < addr + 4 then Ret None s
     else bindr (get_user addr 4 s) (\<lambda>cs s. Ret (Some (sint (rd32 (as_bytes cs) 0))) s))"

text \<open>The scan of \<^verbatim>\<open>fetchstr\<close> over the \<open>n\<close> bytes up to the end of the process.\<close>

fun scan_str :: "nat \<Rightarrow> u32 \<Rightarrow> 'a ptable_state_scheme \<Rightarrow> (u8 list option, 'a ptable_state_scheme) kres" where
  "scan_str 0 a s = Ret None s"
| "scan_str (Suc n) a s =
     bindr (get_user a 1 s) (\<lambda>cs s.
       if hd cs = 0 then Ret (Some []) s
       else bindr (scan_str n (a + 1) s) (\<lambda>r s. Ret (map_option (Cons (hd cs)) r) s))"

definition fetchstr :: "u32 \<Rightarrow> 'a ptable_state_scheme \<Rightarrow> (u8 list option, 'a ptable_state_scheme) kres" where
  "fetchstr addr s = with_proc s (\<lambda>p.
     if p_sz (procs s ! p) \<le> addr then Ret None s
     else scan_str (unat (p_sz (procs s ! p) - addr)) addr s)"

definition argint :: "nat \<Rightarrow> 'a ptable_state_scheme \<Rightarrow> (int option, 'a ptable_state_scheme) kres" where
  "argint n s = with_proc s (\<lambda>p. fetchint (ld32 (mem s) (p_tf (procs s ! p) + 68) + 4 + 4 * of_nat n) s)"

definition argptr :: "nat \<Rightarrow> int \<Rightarrow> 'a ptable_state_scheme \<Rightarrow> (u32 option, 'a ptable_state_scheme) kres" where
  "argptr n sz s = with_proc s (\<lambda>p.
     bindr (argint n s) (\<lambda>r s.
       case r of
         None \<Rightarrow> Ret None s
       | Some i \<Rightarrow>
           if sz < 0 \<or> p_sz (procs s ! p) \<le> word_of_int i \<or>
              p_sz (procs s ! p) < word_of_int i + word_of_int sz
           then Ret None s else Ret (Some (word_of_int i)) s))"

definition argstr :: "nat \<Rightarrow> 'a ptable_state_scheme \<Rightarrow> (u8 list option, 'a ptable_state_scheme) kres" where
  "argstr n s =
     bindr (argint n s) (\<lambda>r s. case r of None \<Rightarrow> Ret None s | Some addr \<Rightarrow> fetchstr (word_of_int addr) s)"

text \<open>The early return of \<open>-1\<close> when an argument cannot be fetched.\<close>

definition arg_or_fail :: "('b option, 's) kres \<Rightarrow> ('b \<Rightarrow> 's \<Rightarrow> (int, 's) kres) \<Rightarrow> (int, 's) kres" where
  "arg_or_fail m f = bindr m (\<lambda>r s. case r of None \<Rightarrow> Ret (-1) s | Some a \<Rightarrow> f a s)"

section \<open>System calls\<close>

abbreviation (input) MAX_SYSCALLS :: int where "MAX_SYSCALLS \<equiv> 26"

definition sys_fork :: "'a kstate_scheme \<Rightarrow> (int, 'a kstate_scheme) kres" where
  "sys_fork s = fork s"

definition sys_exit :: "'a kstate_scheme \<Rightarrow> (int, 'a kstate_scheme) kres" where
  "sys_exit s = exit s"

definition sys_wait :: "'a kstate_scheme \<Rightarrow> (int, 'a kstate_scheme) kres" where
  "sys_wait s = wait s"

definition sys_kill :: "'a kstate_scheme \<Rightarrow> (int, 'a kstate_scheme) kres" where
  "sys_kill s = arg_or_fail (argint 0 s) (\<lambda>pid s. kill pid s)"

definition sys_getpid :: "'a kstate_scheme \<Rightarrow> (int, 'a kstate_scheme) kres" where
  "sys_getpid s = with_proc s (\<lambda>p. Ret (p_pid (procs s ! p)) s)"

definition sys_sbrk :: "'a kstate_scheme \<Rightarrow> (int, 'a kstate_scheme) kres" where
  "sys_sbrk s = arg_or_fail (argint 0 s) (\<lambda>n s. with_proc s (\<lambda>p.
     let addr = sint (p_sz (procs s ! p))
     in bindr (growproc n s) (\<lambda>r s. Ret (if r < 0 then -1 else addr) s)))"

text \<open>
  One turn of the loop of \<^verbatim>\<open>sys_sleep\<close>. The comparison is between unsigned numbers, so a negative
  \<open>n\<close> is a very long time.
\<close>

definition sleep_turn :: "u32 \<Rightarrow> int \<Rightarrow> 'a kstate_scheme \<Rightarrow> (int, 'a kstate_scheme) kres" where
  "sleep_turn ticks0 n s =
     (if ticks s - ticks0 < word_of_int n
      then with_proc s (\<lambda>p. if p_killed (procs s ! p) then Ret (-1) s else sleep ChanTicks s)
      else Ret 0 s)"

definition sys_sleep :: "'a kstate_scheme \<Rightarrow> (int, 'a kstate_scheme) kres" where
  "sys_sleep s = arg_or_fail (argint 0 s) (\<lambda>n s. sleep_turn (ticks s) n s)"

definition sys_uptime :: "'a kstate_scheme \<Rightarrow> (int, 'a kstate_scheme) kres" where
  "sys_uptime s = Ret (sint (ticks s)) s"

text \<open>
  One entry copied by \<^verbatim>\<open>sys_gethistory\<close>: pid at offset 0, name at 4 and memory at 20 of the 24 bytes
  at \<open>va\<close>. \<^verbatim>\<open>safestrcpy\<close> leaves the bytes after the terminating NUL as they are.
\<close>

definition put_history :: "u32 \<Rightarrow> history_entry \<Rightarrow> 'a kstate_scheme \<Rightarrow> (unit, 'a kstate_scheme) kres" where
  "put_history va e s =
     bindr (put_user va (le32 (word_of_int (h_pid e))) s) (\<lambda>_ s.
     bindr (get_user (va + 4) 16 s) (\<lambda>old s.
     bindr (put_user (va + 4) (map (safestrcpy (as_bytes old) (h_name e) CMD_NAME_MAX) [0..<16]) s) (\<lambda>_ s.
     put_user (va + 20) (le32 (h_mem_usage e)) s)))"

definition sys_gethistory :: "'a kstate_scheme \<Rightarrow> (int, 'a kstate_scheme) kres" where
  "sys_gethistory s =
     arg_or_fail (argptr 0 24 s) (\<lambda>hist_buf s.
     arg_or_fail (argint 1 s) (\<lambda>max_entries s.
       let copy_count = (if int (history_count s) < max_entries then int (history_count s) else max_entries);
           start = (if history_count s < MAX_HISTORY then 0 else history_index s)
       in bindr (foreach [0..<nat copy_count] (\<lambda>i s.
              put_history (hist_buf + 24 * of_nat i) (process_history s ! ((start + i) mod MAX_HISTORY)) s) s)
            (\<lambda>_ s. Ret copy_count s)))"

abbreviation (input) SYS_fork :: int where "SYS_fork \<equiv> 1"
abbreviation (input) SYS_exit :: int where "SYS_exit \<equiv> 2"
abbreviation (input) SYS_exec :: int where "SYS_exec \<equiv> 7"
abbreviation (input) SYS_unblock :: int where "SYS_unblock \<equiv> 24"

definition sys_block :: "'a kstate_scheme \<Rightarrow> (int, 'a kstate_scheme) kres" where
  "sys_block s = arg_or_fail (argint 0 s) (\<lambda>id s.
     if id < 0 \<or> MAX_SYSCALLS \<le> id then Ret (-1) s
     else if id = SYS_fork \<or> id = SYS_exit \<or> id = SYS_unblock then Ret (-1) s
     else Ret 0 (s\<lparr>blocked_syscalls := (blocked_syscalls s)[nat id := True]\<rparr>))"

definition sys_unblock :: "'a kstate_scheme \<Rightarrow> (int, 'a kstate_scheme) kres" where
  "sys_unblock s = arg_or_fail (argint 0 s) (\<lambda>id s.
     if id < 0 \<or> MAX_SYSCALLS \<le> id then Ret (-1) s
     else Ret 0 (s\<lparr>blocked_syscalls := (blocked_syscalls s)[nat id := False]\<rparr>))"

section \<open>A sample process\<close>

text \<open>
  A process with one page of memory, at \<open>0x80003000\<close>, whose contents are \<open>pg\<close>. The page directory is
  at \<open>0x80001000\<close>, its page table at \<open>0x80002000\<close>, the trap frame at \<open>0x80004000\<close>; the user stack
  pointer is \<open>0x100\<close>, so that argument \<open>n\<close> of a system call is at \<open>0x104 + 4 * n\<close> of the page.
\<close>

definition user_mem :: "bytes \<Rightarrow> mem" where
  "user_mem pg = (\<lambda>x.
     if x = 0x80001000 \<or> x = 0x80002000 then 7
     else if x = 0x80001001 then 0x20 else if x = 0x80002001 then 0x30
     else if x = 0x80004045 then 1
     else if 0x80003000 \<le> x \<and> x < 0x80004000 then pg (unat (x - 0x80003000)) else 0)"

definition user_proc :: proc where
  "user_proc = no_proc\<lparr>p_sz := 4096, p_pgdir := 0x80001000, p_kstack := 0x80004000, p_state := RUNNING, p_pid := 1,
     p_tf := 0x80004000\<rparr>"

definition sample_user :: "bytes \<Rightarrow> kstate" where
  "sample_user pg = file_state.extend (console_state.extend (inode_state.extend
       (sample_fs\<lparr>mem := user_mem pg, procs := (procs sample_fs)[0 := user_proc]\<rparr>)
       (console_state.fields (\<lambda>_. 0) 0 0 0 False [] 0 (\<lambda>_. 0) (\<lambda>d. d = CONSOLE)))
     (file_state.fields (replicate NFILE \<lparr>f_type = FD_NONE, f_ref = 0, f_readable = False, f_writable = False, f_pipe = 0,
        f_ip = None, f_off = 0\<rparr>)))
     (kstate.fields 0 (replicate 26 False) (-1) True [])"

lemma sample_fs_procs: "procs sample_fs = (replicate 64 no_proc)[0 := no_proc\<lparr>p_state := RUNNING, p_pid := 1\<rparr>]"
  "cpu_proc sample_fs = (\<lambda>c. if c = 0 then Some 0 else None)" "this_cpu sample_fs = 0"
  "freelist sample_fs = 0x80400000"
  by (simp_all add: sample_fs_def sample_log_def boot_bio_def boot_ptable_def ptable_state.defs bio_state.defs
      log_state.defs inode_state.defs del: replicate.simps upt_rec_numeral)

lemma sample_user_fields:
  "mem (sample_user pg) = user_mem pg" "procs (sample_user pg) ! 0 = user_proc" "myproc (sample_user pg) = Some 0"
  "files (sample_user pg) = replicate NFILE \<lparr>f_type = FD_NONE, f_ref = 0, f_readable = False, f_writable = False, f_pipe = 0,
     f_ip = None, f_off = 0\<rparr>"
  "blocked_syscalls (sample_user pg) = replicate 26 False" "length (procs (sample_user pg)) = 64"
  "cpu_proc (sample_user pg) 0 = Some 0" "this_cpu (sample_user pg) = 0"
  "freelist (sample_user pg) = 0x80400000"
  using sample_fs_procs
  by (simp_all add: sample_user_def inode_state.defs console_state.defs file_state.defs kstate.defs myproc_def
      del: replicate.simps)

lemma user_mem_lookup:
  assumes "va < 4096"
  shows "user_ldb (user_mem pg) 0x80001000 va = Some (pg (unat va))"
proof -
  have pd: "ld32 (user_mem pg) 0x80001000 = 0x2007" "ld32 (user_mem pg) 0x80002000 = 0x3007"
    by (simp_all add: ld32_def rd32_def user_mem_def)
  have v: "unat va < 4096"
    using assms by (simp add: word_less_nat_alt)
  then have "unat (PDX va) = 0" "unat (PTX va) = 0"
    by (simp_all add: unat_PDX unat_PTX)
  then have z: "PDX va = 0" "PTX va = 0"
    by (simp_all add: unat_eq_zero)
  have f: "PTE_FLAGS va = va"
    using v unat_and_mask [of va 12] by (simp add: PTE_FLAGS_def mask_12_u32 word_unat_eq_iff)
  have "0x80003000 \<le> 0x80003000 + va" "0x80003000 + va < 0x80004000"
    using v by (simp_all add: word_le_nat_alt word_less_nat_alt unat_word_ariths)
  moreover have "0x80003000 + va \<noteq> 0x80004045" "0x80003000 + va \<noteq> 0x80001000" "0x80003000 + va \<noteq> 0x80002000"
      "0x80003000 + va \<noteq> 0x80001001" "0x80003000 + va \<noteq> 0x80002001"
    using v by (auto simp: word_unat_eq_iff unat_word_ariths)
  ultimately have "user_mem pg (0x80003000 + va) = pg (unat va)"
    by (simp add: user_mem_def)
  then show ?thesis
    by (simp add: user_ldb_def user_addr_def pt_lookup_def z pd f PTE_ADDR_def P2V_def)
qed

lemma user_lds_mem:
  assumes "unat va + n \<le> 4096"
  shows "user_lds (user_mem pg) 0x80001000 va n = Some (map (\<lambda>k. pg (unat va + k)) [0..<n])"
  using assms
proof (induction n arbitrary: va)
  case (Suc n)
  then have "va < 4096" "unat (va + 1) = unat va + 1"
    by (simp_all add: word_less_nat_alt unat_word_ariths)
  moreover have "map (\<lambda>k. pg (unat va + k)) [0..<Suc n] = pg (unat va) # map (\<lambda>k. pg (unat va + 1 + k)) [0..<n]"
    by (simp add: map_upt_Suc del: upt_Suc)
  ultimately show ?case
    using Suc by (simp add: user_mem_lookup del: upt_Suc)
qed simp

text \<open>Fetching an argument of a system call succeeds in the sample and changes nothing.\<close>

lemma argint_sample:
  assumes "n < 100" "mem s = user_mem pg" "myproc s = Some 0" "procs s ! 0 = user_proc\<lparr>p_ofile := fs, p_cwd := d\<rparr>"
  shows "argint n s = Ret (Some (sint (rd32 pg (0x104 + 4 * n)))) s"
proof -
  have esp: "ld32 (user_mem pg) 0x80004044 = 0x100"
    by (simp add: ld32_def rd32_def user_mem_def)
  let ?a = "0x104 + 4 * of_nat n :: u32"
  have u: "unat ?a = 0x104 + 4 * n"
    using assms(1) by (simp add: unat_word_ariths unat_of_nat)
  have "unat (?a + 4) = 0x108 + 4 * n"
    using assms(1) by (simp add: unat_word_ariths unat_of_nat)
  then have b: "\<not> 4096 \<le> ?a" "\<not> 4096 < ?a + 4"
    using u assms(1) by (simp_all add: word_le_nat_alt word_less_nat_alt)
  have l: "user_lds (user_mem pg) 0x80001000 ?a 4 = Some (map (\<lambda>k. pg (0x104 + 4 * n + k)) [0..<4])"
    using user_lds_mem [of ?a 4 pg] u assms(1) by (simp add: add.assoc)
  have r: "rd32 (as_bytes (map (\<lambda>k. pg (0x104 + 4 * n + k)) [0..<4])) 0 = rd32 pg (0x104 + 4 * n)"
    by (simp add: rd32_def as_bytes_def)
  show ?thesis
    using assms(2-4) b l r
    by (simp add: argint_def with_proc_def fetchint_def get_user_def cur_pgdir_def user_proc_def esp add.assoc)
qed

section \<open>The process history\<close>

text \<open>The entries of the ring, oldest first.\<close>

definition history_entries :: "'a ptable_state_scheme \<Rightarrow> history_entry list" where
  "history_entries s =
     (if history_count s < MAX_HISTORY then take (history_count s) (process_history s)
      else drop (history_index s) (process_history s) @ take (history_index s) (process_history s))"

lemma history_entries_view: "history_view s = map entry_view (history_entries s)"
  by (simp add: history_view_def history_entries_def)

lemma history_entries_nth:
  assumes "history_inv s" "i < history_count s"
  shows "process_history s ! (((if history_count s < MAX_HISTORY then 0 else history_index s) + i) mod MAX_HISTORY) =
    history_entries s ! i"
proof (cases "history_count s < MAX_HISTORY")
  case True
  then show ?thesis
    using assms(2) by (simp add: history_entries_def)
next
  case False
  then have c: "history_count s = 100" "history_index s < 100" "length (process_history s) = 100"
    using assms(1) by (auto simp: history_inv_def)
  show ?thesis
  proof (cases "history_index s + i < 100")
    case True
    then show ?thesis
      using c by (simp add: history_entries_def nth_append)
  next
    case False
    then have "(history_index s + i) mod 100 = history_index s + i - 100"
      using assms(2) c by (simp add: mod_if)
    then show ?thesis
      using False c assms(2) by (simp add: history_entries_def nth_append) (metis add.commute diff_diff_right less_imp_le_nat)
  qed
qed

lemma foreach_cong:
  assumes "I s" and "\<And>i s. i \<in> set is \<Longrightarrow> I s \<Longrightarrow> f i s = g i s"
    and "\<And>i s. i \<in> set is \<Longrightarrow> I s \<Longrightarrow> ifr (g i s) (\<lambda>_ t. I t)"
  shows "foreach is f s = foreach is g s"
  using assms
proof (induction "is" arbitrary: s)
  case (Cons i "is")
  have "ifr (g i s) (\<lambda>_ t. I t)" "f i s = g i s"
    using Cons.prems by auto
  then show ?case
    using Cons.IH Cons.prems(2,3) by (cases "g i s") auto
qed simp

lemma put_history_ring: "ifr (put_history va e s) (\<lambda>_ t. process_history t = process_history s)"
  by (simp add: put_history_def put_user_def get_user_def split: option.split)


text \<open>Two exits are recorded, and there is room for one: the first is stored.\<close>

definition two_exits :: kstate where
  "two_exits = (sample_user (\<lambda>k. if k = 0x105 then 2 else if k = 0x108 then 1 else 0))\<lparr>history_count := 2, history_index := 2,
     process_history := \<lparr>h_pid = 5, h_name = (\<lambda>_. 0), h_mem_usage = 4096\<rparr> #
       replicate 99 \<lparr>h_pid = 6, h_name = (\<lambda>_. 0), h_mem_usage = 4096\<rparr>\<rparr>"


end
