(* ===== verification/Sysfile.thy ===== *)
theory Sysfile
  imports Sysproc
begin

text \<open>
  The file system calls, \<^verbatim>\<open>sysfile.c\<close>, with the permission checks on the mode bits of an inode:
  4 for reading, 2 for writing, 1 for executing. An inode pointer that the code dereferences without
  a test is \<open>the\<close> of its option once \<^verbatim>\<open>ilock\<close> has rejected the null pointer.
\<close>

section \<open>Descriptors\<close>

definition argfd :: "nat \<Rightarrow> 'a kstate_scheme \<Rightarrow> ((nat \<times> nat) option, 'a kstate_scheme) kres" where
  "argfd n s =
     bindr (argint n s) (\<lambda>r s.
       case r of
         None \<Rightarrow> Ret None s
       | Some fd \<Rightarrow>
           if fd < 0 \<or> int NOFILE \<le> fd then Ret None s
           else with_proc s (\<lambda>p.
             case p_ofile (procs s ! p) ! nat fd of
               None \<Rightarrow> Ret None s
             | Some f \<Rightarrow> Ret (Some (nat fd, f)) s))"

definition fdalloc :: "nat \<Rightarrow> 'a kstate_scheme \<Rightarrow> (int, 'a kstate_scheme) kres" where
  "fdalloc f s = with_proc s (\<lambda>p.
     case first_index (\<lambda>x. x = None) (take NOFILE (p_ofile (procs s ! p))) of
       None \<Rightarrow> Ret (-1) s
     | Some fd \<Rightarrow> Ret (int fd) (upd_proc p (\<lambda>q. q\<lparr>p_ofile := (p_ofile q)[fd := Some f]\<rparr>) s))"

definition clear_fd :: "nat \<Rightarrow> 'a kstate_scheme \<Rightarrow> (unit, 'a kstate_scheme) kres" where
  "clear_fd fd s = with_proc s (\<lambda>p. Ret () (upd_proc p (\<lambda>q. q\<lparr>p_ofile := (p_ofile q)[fd := None]\<rparr>) s))"

definition sys_dup :: "'a kstate_scheme \<Rightarrow> (int, 'a kstate_scheme) kres" where
  "sys_dup s = arg_or_fail (argfd 0 s) (\<lambda>(_, f) s.
     bindr (fdalloc f s) (\<lambda>fd s.
       if fd < 0 then Ret (-1) s else bindr (filedup f s) (\<lambda>_ s. Ret fd s)))"

section \<open>Reading and writing\<close>

definition ip_mode :: "nat option \<Rightarrow> 'a inode_state_scheme \<Rightarrow> u32" where
  "ip_mode ip s = i_mode (inodes s ! the ip)"

definition sys_read :: "'a kstate_scheme \<Rightarrow> (int, 'a kstate_scheme) kres" where
  "sys_read s =
     arg_or_fail (argfd 0 s) (\<lambda>(_, f) s.
     arg_or_fail (argint 2 s) (\<lambda>n s.
     arg_or_fail (argptr 1 n s) (\<lambda>p s.
       bindr (ilock (f_ip (files s ! f)) s) (\<lambda>_ s.
         let denied = (ip_mode (f_ip (files s ! f)) s AND 4 = 0)
         in bindr (iunlock (f_ip (files s ! f)) s) (\<lambda>_ s.
              if denied then Ret (-1) s
              else bindr (fileread f n s) (\<lambda>(r, cs) s. bindr (put_user p cs s) (\<lambda>_ s. Ret r s)))))))"

definition sys_write :: "'a kstate_scheme \<Rightarrow> (int, 'a kstate_scheme) kres" where
  "sys_write s =
     arg_or_fail (argfd 0 s) (\<lambda>(_, f) s.
     arg_or_fail (argint 2 s) (\<lambda>n s.
     arg_or_fail (argptr 1 n s) (\<lambda>p s.
       bindr (ilock (f_ip (files s ! f)) s) (\<lambda>_ s.
         let denied = (ip_mode (f_ip (files s ! f)) s AND 2 = 0)
         in bindr (iunlock (f_ip (files s ! f)) s) (\<lambda>_ s.
              if denied then Ret (-1) (s\<lparr>last_failed_fd := i_inum (inodes s ! the (f_ip (files s ! f)))\<rparr>)
              else filewrite f (user_buf p s) n (s\<lparr>last_failed_fd := -1\<rparr>))))))"

definition sys_close :: "'a kstate_scheme \<Rightarrow> (int, 'a kstate_scheme) kres" where
  "sys_close s = arg_or_fail (argfd 0 s) (\<lambda>(fd, f) s.
     bindr (clear_fd fd s) (\<lambda>_ s. bindr (fileclose f s) (\<lambda>_ s. Ret 0 s)))"

text \<open>
  \<^verbatim>\<open>struct stat\<close> takes 20 bytes: type at 0, dev at 4, ino at 8, nlink at 12, size at 16.
\<close>

definition put_stat :: "u32 \<Rightarrow> stat \<Rightarrow> 'a kstate_scheme \<Rightarrow> (unit, 'a kstate_scheme) kres" where
  "put_stat a st s =
     bindr (put_user (a + 4) (le32 (st_dev st)) s) (\<lambda>_ s.
     bindr (put_user (a + 8) (le32 (st_ino st)) s) (\<lambda>_ s.
     bindr (put_user a (le16 (st_type st)) s) (\<lambda>_ s.
     bindr (put_user (a + 12) (le16 (st_nlink st)) s) (\<lambda>_ s.
     put_user (a + 16) (le32 (st_size st)) s))))"

definition sys_fstat :: "'a kstate_scheme \<Rightarrow> (int, 'a kstate_scheme) kres" where
  "sys_fstat s =
     arg_or_fail (argfd 0 s) (\<lambda>(_, f) s.
     arg_or_fail (argptr 1 20 s) (\<lambda>a s.
       bindr (filestat f s) (\<lambda>r s.
         case r of None \<Rightarrow> Ret (-1) s | Some st \<Rightarrow> bindr (put_stat a st s) (\<lambda>_ s. Ret 0 s))))"

section \<open>Links\<close>

definition fail_op :: "'a kstate_scheme \<Rightarrow> (int, 'a kstate_scheme) kres" where
  "fail_op s = bindr (end_op s) (\<lambda>_ s. Ret (-1) s)"

text \<open>Label \<^verbatim>\<open>bad\<close> of \<^verbatim>\<open>sys_link\<close>: the link count is taken back.\<close>

definition link_bad :: "nat \<Rightarrow> 'a kstate_scheme \<Rightarrow> (int, 'a kstate_scheme) kres" where
  "link_bad ip s =
     bindr (ilock (Some ip) s) (\<lambda>_ s.
     bindr (iupdate ip (upd_inode ip (\<lambda>i. i\<lparr>i_nlink := i_nlink i - 1\<rparr>) s)) (\<lambda>_ s.
     bindr (iunlockput ip s) (\<lambda>_ s. fail_op s)))"

definition sys_link :: "'a kstate_scheme \<Rightarrow> (int, 'a kstate_scheme) kres" where
  "sys_link s =
     arg_or_fail (argstr 0 s) (\<lambda>old s.
     arg_or_fail (argstr 1 s) (\<lambda>new s.
       bindr (begin_op s) (\<lambda>_ s.
       bindr (namei old s) (\<lambda>r s.
         case r of
           None \<Rightarrow> fail_op s
         | Some ip \<Rightarrow>
             bindr (ilock (Some ip) s) (\<lambda>_ s.
               if i_type (inodes s ! ip) = T_DIR then bindr (iunlockput ip s) (\<lambda>_ s. fail_op s)
               else bindr (iupdate ip (upd_inode ip (\<lambda>i. i\<lparr>i_nlink := i_nlink i + 1\<rparr>) s)) (\<lambda>_ s.
                    bindr (iunlock (Some ip) s) (\<lambda>_ s.
                    bindr (nameiparent new (\<lambda>_. 0) s) (\<lambda>(r, name) s.
                      case r of
                        None \<Rightarrow> link_bad ip s
                      | Some dp \<Rightarrow>
                          bindr (ilock (Some dp) s) (\<lambda>_ s.
                          bindr (if i_dev (inodes s ! dp) \<noteq> i_dev (inodes s ! ip) then Ret (-1) s
                                 else dirlink dp name (i_inum (inodes s ! ip)) s) (\<lambda>l s.
                            if l < 0 then bindr (iunlockput dp s) (\<lambda>_ s. link_bad ip s)
                            else bindr (iunlockput dp s) (\<lambda>_ s.
                                 bindr (iput ip s) (\<lambda>_ s.
                                 bindr (end_op s) (\<lambda>_ s. Ret 0 s)))))))))))))"

text \<open>\<^verbatim>\<open>isdirempty\<close> starts after the entries for \<^verbatim>\<open>.\<close> and \<^verbatim>\<open>..\<close>.\<close>

definition isdirempty :: "nat \<Rightarrow> 'a kstate_scheme \<Rightarrow> (bool, 'a kstate_scheme) kres" where
  "isdirempty dp s =
     bindr (firstr (drop 2 (dir_offs (i_size (inodes s ! dp)))) (\<lambda>off s.
         bindr (readi dp (of_nat off) 16 s) (\<lambda>(r, cs) s.
           if r \<noteq> 16 then Panic ''isdirempty: readi''
           else if de_inum (as_bytes cs) \<noteq> 0 then Ret (Some ()) s else Ret None s)) s)
       (\<lambda>r s. Ret (r = None) s)"

definition unlink_bad :: "nat \<Rightarrow> 'a kstate_scheme \<Rightarrow> (int, 'a kstate_scheme) kres" where
  "unlink_bad dp s = bindr (iunlockput dp s) (\<lambda>_ s. fail_op s)"

definition dot :: bytes where
  "dot = as_bytes [46]"

definition dotdot :: bytes where
  "dotdot = as_bytes [46, 46]"

definition sys_unlink :: "'a kstate_scheme \<Rightarrow> (int, 'a kstate_scheme) kres" where
  "sys_unlink s =
     arg_or_fail (argstr 0 s) (\<lambda>path s.
       bindr (begin_op s) (\<lambda>_ s.
       bindr (nameiparent path (\<lambda>_. 0) s) (\<lambda>(r, name) s.
         case r of
           None \<Rightarrow> fail_op s
         | Some dp \<Rightarrow>
             bindr (ilock (Some dp) s) (\<lambda>_ s.
               if namecmp name dot = 0 \<or> namecmp name dotdot = 0 then unlink_bad dp s
               else bindr (dirlookup dp name s) (\<lambda>r s.
                 case r of
                   None \<Rightarrow> unlink_bad dp s
                 | Some (ip, off) \<Rightarrow>
                     bindr (ilock (Some ip) s) (\<lambda>_ s.
                       if sint (i_nlink (inodes s ! ip)) < 1 then Panic ''unlink: nlink < 1''
                       else bindr (if i_type (inodes s ! ip) = T_DIR then isdirempty ip s else Ret True s) (\<lambda>empty s.
                         if \<not> empty then bindr (iunlockput ip s) (\<lambda>_ s. unlink_bad dp s)
                         else bindr (writei dp (\<lambda>_. 0) off 16 s) (\<lambda>w s.
                           if w \<noteq> 16 then Panic ''unlink: writei''
                           else bindr (if i_type (inodes s ! ip) = T_DIR
                                       then iupdate dp (upd_inode dp (\<lambda>i. i\<lparr>i_nlink := i_nlink i - 1\<rparr>) s)
                                       else Ret () s) (\<lambda>_ s.
                                bindr (iunlockput dp s) (\<lambda>_ s.
                                bindr (iupdate ip (upd_inode ip (\<lambda>i. i\<lparr>i_nlink := i_nlink i - 1\<rparr>) s)) (\<lambda>_ s.
                                bindr (iunlockput ip s) (\<lambda>_ s.
                                bindr (end_op s) (\<lambda>_ s. Ret 0 s)))))))))))))"

section \<open>Creating and opening\<close>

text \<open>The steps of \<^verbatim>\<open>create\<close> on a new inode \<open>ip\<close> in directory \<open>dp\<close>, both locked.\<close>

definition create_new :: "nat \<Rightarrow> nat \<Rightarrow> bytes \<Rightarrow> u16 \<Rightarrow> u16 \<Rightarrow> u16 \<Rightarrow> 'a kstate_scheme \<Rightarrow>
    (nat option, 'a kstate_scheme) kres" where
  "create_new dp ip name type major minor s =
     bindr (iupdate ip (upd_inode ip (\<lambda>i. i\<lparr>i_major := major, i_minor := minor, i_nlink := 1, i_mode := 7\<rparr>) s)) (\<lambda>_ s.
     bindr (if type = T_DIR
            then bindr (iupdate dp (upd_inode dp (\<lambda>i. i\<lparr>i_nlink := i_nlink i + 1\<rparr>) s)) (\<lambda>_ s.
                 bindr (dirlink ip dot (i_inum (inodes s ! ip)) s) (\<lambda>a s.
                 bindr (if a < 0 then Ret (-1) s else dirlink ip dotdot (i_inum (inodes s ! dp)) s) (\<lambda>b s.
                   if b < 0 then Panic ''create dots'' else Ret () s)))
            else Ret () s) (\<lambda>_ s.
     bindr (dirlink dp name (i_inum (inodes s ! ip)) s) (\<lambda>r s.
       if r < 0 then Panic ''create: dirlink''
       else bindr (iunlockput dp s) (\<lambda>_ s. Ret (Some ip) s))))"

definition create :: "u8 list \<Rightarrow> u16 \<Rightarrow> u16 \<Rightarrow> u16 \<Rightarrow> 'a kstate_scheme \<Rightarrow> (nat option, 'a kstate_scheme) kres" where
  "create path type major minor s =
     bindr (nameiparent path (\<lambda>_. 0) s) (\<lambda>(r, name) s.
       case r of
         None \<Rightarrow> Ret None s
       | Some dp \<Rightarrow>
           bindr (ilock (Some dp) s) (\<lambda>_ s.
           bindr (dirlookup dp name s) (\<lambda>r s.
             case r of
               Some (ip, _) \<Rightarrow>
                 bindr (iunlockput dp s) (\<lambda>_ s.
                 bindr (ilock (Some ip) s) (\<lambda>_ s.
                   if type = T_FILE \<and> i_type (inodes s ! ip) = T_FILE then Ret (Some ip) s
                   else bindr (iunlockput ip s) (\<lambda>_ s. Ret None s)))
             | None \<Rightarrow>
                 bindr (ialloc (i_dev (inodes s ! dp)) type s) (\<lambda>ip s.
                 bindr (ilock (Some ip) s) (\<lambda>_ s. create_new dp ip name type major minor s)))))"

abbreviation (input) O_RDONLY :: u32 where "O_RDONLY \<equiv> 0"
abbreviation (input) O_WRONLY :: u32 where "O_WRONLY \<equiv> 1"
abbreviation (input) O_RDWR :: u32 where "O_RDWR \<equiv> 2"
abbreviation (input) O_CREATE :: u32 where "O_CREATE \<equiv> 0x200"

text \<open>The inode to open, locked: created, or looked up and checked against the mode bits.\<close>

definition open_inode :: "u8 list \<Rightarrow> u32 \<Rightarrow> 'a kstate_scheme \<Rightarrow> (nat option, 'a kstate_scheme) kres" where
  "open_inode path omode s =
     (if omode AND O_CREATE \<noteq> 0 then create path T_FILE 0 0 s
      else bindr (namei path s) (\<lambda>r s.
        case r of
          None \<Rightarrow> Ret None s
        | Some ip \<Rightarrow>
            bindr (ilock (Some ip) s) (\<lambda>_ s.
              if omode AND O_RDONLY \<noteq> 0 \<and> i_mode (inodes s ! ip) AND 4 = 0
              then bindr (iunlockput ip s) (\<lambda>_ s. Ret None s)
              else if omode AND O_WRONLY \<noteq> 0 \<and> i_mode (inodes s ! ip) AND 2 = 0
              then bindr (iunlockput ip s) (\<lambda>_ s. Ret None s)
              else if i_type (inodes s ! ip) = T_DIR \<and> omode \<noteq> O_RDONLY
              then bindr (iunlockput ip s) (\<lambda>_ s. Ret None s)
              else Ret (Some ip) s)))"

definition sys_open :: "'a kstate_scheme \<Rightarrow> (int, 'a kstate_scheme) kres" where
  "sys_open s =
     arg_or_fail (argstr 0 s) (\<lambda>path s.
     arg_or_fail (argint 1 s) (\<lambda>om s.
       let omode = word_of_int om
       in bindr (begin_op s) (\<lambda>_ s.
          bindr (open_inode path omode s) (\<lambda>r s.
            case r of
              None \<Rightarrow> fail_op s
            | Some ip \<Rightarrow>
                bindr (filealloc s) (\<lambda>f s.
                bindr (case f of None \<Rightarrow> Ret (-1) s | Some f \<Rightarrow> fdalloc f s) (\<lambda>fd s.
                  if fd < 0 then
                    bindr (close_opt f s) (\<lambda>_ s. bindr (iunlockput ip s) (\<lambda>_ s. fail_op s))
                  else
                    bindr (iunlock (Some ip) s) (\<lambda>_ s.
                    bindr (end_op s) (\<lambda>_ s.
                      Ret fd (upd_file (the f) (\<lambda>x. x\<lparr>f_type := FD_INODE, f_ip := Some ip, f_off := 0,
                        f_readable := (omode AND O_WRONLY = 0),
                        f_writable := (omode AND O_WRONLY \<noteq> 0 \<or> omode AND O_RDWR \<noteq> 0)\<rparr>) s)))))))))"

text \<open>The common ending of \<^verbatim>\<open>sys_mkdir\<close> and \<^verbatim>\<open>sys_mknod\<close>.\<close>

definition close_created :: "nat option \<Rightarrow> 'a kstate_scheme \<Rightarrow> (int, 'a kstate_scheme) kres" where
  "close_created r s =
     (case r of
        None \<Rightarrow> fail_op s
      | Some ip \<Rightarrow> bindr (iunlockput ip s) (\<lambda>_ s. bindr (end_op s) (\<lambda>_ s. Ret 0 s)))"

definition sys_mkdir :: "'a kstate_scheme \<Rightarrow> (int, 'a kstate_scheme) kres" where
  "sys_mkdir s =
     bindr (begin_op s) (\<lambda>_ s.
     bindr (argstr 0 s) (\<lambda>path s.
     bindr (case path of None \<Rightarrow> Ret None s | Some path \<Rightarrow> create path T_DIR 0 0 s) close_created))"

definition sys_mknod :: "'a kstate_scheme \<Rightarrow> (int, 'a kstate_scheme) kres" where
  "sys_mknod s =
     bindr (begin_op s) (\<lambda>_ s.
     bindr (argstr 0 s) (\<lambda>path s.
       case path of
         None \<Rightarrow> fail_op s
       | Some path \<Rightarrow>
           bindr (argint 1 s) (\<lambda>major s.
             case major of
               None \<Rightarrow> fail_op s
             | Some major \<Rightarrow>
                 bindr (argint 2 s) (\<lambda>minor s.
                   case minor of
                     None \<Rightarrow> fail_op s
                   | Some minor \<Rightarrow>
                       bindr (create path T_DEV (word_of_int major) (word_of_int minor) s) close_created))))"

section \<open>Directories, programs, pipes and modes\<close>

definition sys_chdir :: "'a kstate_scheme \<Rightarrow> (int, 'a kstate_scheme) kres" where
  "sys_chdir s = with_proc s (\<lambda>p.
     bindr (begin_op s) (\<lambda>_ s.
     bindr (argstr 0 s) (\<lambda>path s.
     bindr (case path of None \<Rightarrow> Ret None s | Some path \<Rightarrow> namei path s) (\<lambda>r s.
       case r of
         None \<Rightarrow> fail_op s
       | Some ip \<Rightarrow>
           bindr (ilock (Some ip) s) (\<lambda>_ s.
             if i_type (inodes s ! ip) \<noteq> T_DIR then bindr (iunlockput ip s) (\<lambda>_ s. fail_op s)
             else bindr (iunlock (Some ip) s) (\<lambda>_ s.
                  bindr (case p_cwd (procs s ! p) of None \<Rightarrow> Panic ''trap'' | Some d \<Rightarrow> iput d s) (\<lambda>_ s.
                  bindr (end_op s) (\<lambda>_ s.
                  Ret 0 (upd_proc p (\<lambda>q. q\<lparr>p_cwd := Some ip\<rparr>) s)))))))))"

text \<open>
  The loop of \<^verbatim>\<open>sys_exec\<close> that fetches the argument strings, with \<open>n\<close> entries of \<^verbatim>\<open>argv\<close> left; it
  fails when they are used up.
\<close>

fun fetch_argv :: "nat \<Rightarrow> u32 \<Rightarrow> 'a kstate_scheme \<Rightarrow> (u8 list list option, 'a kstate_scheme) kres" where
  "fetch_argv 0 ua s = Ret None s"
| "fetch_argv (Suc n) ua s =
     bindr (fetchint ua s) (\<lambda>r s.
       case r of
         None \<Rightarrow> Ret None s
       | Some uarg \<Rightarrow>
           if uarg = 0 then Ret (Some []) s
           else bindr (fetchstr (word_of_int uarg) s) (\<lambda>r s.
             case r of
               None \<Rightarrow> Ret None s
             | Some a \<Rightarrow> bindr (fetch_argv n (ua + 4) s) (\<lambda>r s. Ret (map_option (Cons a) r) s)))"

definition sys_exec :: "'a kstate_scheme \<Rightarrow> (int, 'a kstate_scheme) kres" where
  "sys_exec s =
     arg_or_fail (argstr 0 s) (\<lambda>path s.
     arg_or_fail (argint 1 s) (\<lambda>uargv s.
     arg_or_fail (fetch_argv MAXARG (word_of_int uargv) s) (\<lambda>argv s.
       bindr (begin_op s) (\<lambda>_ s.
       bindr (namei path s) (\<lambda>r s.
         case r of
           None \<Rightarrow> fail_op s
         | Some ip \<Rightarrow>
             bindr (ilock (Some ip) s) (\<lambda>_ s.
               if i_mode (inodes s ! ip) AND 1 = 0 then bindr (iunlockput ip s) (\<lambda>_ s. fail_op s)
               else bindr (iunlock (Some ip) s) (\<lambda>_ s.
                    bindr (end_op s) (\<lambda>_ s. exec path argv s))))))))"

definition sys_pipe :: "'a kstate_scheme \<Rightarrow> (int, 'a kstate_scheme) kres" where
  "sys_pipe s =
     arg_or_fail (argptr 0 8 s) (\<lambda>fd s.
     arg_or_fail (pipealloc s) (\<lambda>(rf, wf) s.
       bindr (fdalloc rf s) (\<lambda>fd0 s.
       bindr (if fd0 < 0 then Ret (-1) s else fdalloc wf s) (\<lambda>fd1 s.
         if fd0 < 0 \<or> fd1 < 0 then
           bindr (if fd0 \<ge> 0 then clear_fd (nat fd0) s else Ret () s) (\<lambda>_ s.
           bindr (fileclose rf s) (\<lambda>_ s.
           bindr (fileclose wf s) (\<lambda>_ s. Ret (-1) s)))
         else
           bindr (put_user fd (le32 (word_of_int fd0)) s) (\<lambda>_ s.
           bindr (put_user (fd + 4) (le32 (word_of_int fd1)) s) (\<lambda>_ s. Ret 0 s))))))"

definition sys_chmod :: "'a kstate_scheme \<Rightarrow> (int, 'a kstate_scheme) kres" where
  "sys_chmod s =
     arg_or_fail (argstr 0 s) (\<lambda>path s.
     arg_or_fail (argint 1 s) (\<lambda>mode s.
     arg_or_fail (namei path s) (\<lambda>ip s.
       bindr (begin_op s) (\<lambda>_ s.
       bindr (ilock (Some ip) s) (\<lambda>_ s.
       bindr (iupdate ip (upd_inode ip (\<lambda>i. i\<lparr>i_mode := word_of_int mode\<rparr>) s)) (\<lambda>_ s.
       bindr (iunlock (Some ip) s) (\<lambda>_ s.
       bindr (end_op s) (\<lambda>_ s. Ret 0 s))))))))"

section \<open>Permissions\<close>

lemma upd_file_ips: "(\<And>x. f_ip (g x) = f_ip x) \<Longrightarrow> map f_ip (files (upd_file f g s)) = map f_ip (files s)"
  by (cases "f < length (files s)") (simp_all add: upd_file_def map_update list_update_same_conv list_update_beyond)

lemma filealloc_fresh:
  assumes "filealloc s = Ret r t"
  shows "map f_ip (files t) = map f_ip (files s)" "r = Some a \<Longrightarrow> a < length (files s) \<and> f_ref (files s ! a) = 0"
    "map f_ref (files t) = map f_ref (files s) \<or> (\<exists>a. map f_ref (files t) = (map f_ref (files s))[a := 1])"
  using assms by (auto simp: filealloc_def first_index_Some upd_file_ips split: option.splits)
    (auto simp: upd_file_def map_update)

lemma filealloc_returns: "\<exists>r t. filealloc s = Ret r t"
  by (simp add: filealloc_def split: option.split)

lemma pipealloc_no_inode:
  assumes "pipealloc s = Ret (Some (a, b)) t" "\<forall>f\<in>set (files s). f_ref f = 0 \<longrightarrow> f_ip f = None"
  shows "f_ip (files t ! a) = None \<and> f_ip (files t ! b) = None"
proof -
  obtain r0 s0 where 0: "filealloc s = Ret r0 s0"
    using filealloc_returns by blast
  obtain r1 s1 where 1: "filealloc s0 = Ret r1 s1"
    using filealloc_returns by blast
  obtain q s2 where 2: "kalloc s1 = Ret q s2" "files s2 = files s1"
    by (auto simp: kalloc_def Let_def)
  have r: "r0 = Some a \<and> r1 = Some b \<and> map f_ip (files t) = map f_ip (files s2)"
    using assms(1) by (cases r0; cases r1; cases "q = 0") (auto simp: pipealloc_def 0 1 2 Let_def upd_file_ips bindr_eq_Ret)
  then have ips: "map f_ip (files t) = map f_ip (files s)"
    using filealloc_fresh(1) [OF 0] filealloc_fresh(1) [OF 1] 2(2) by simp
  have len: "length (files t) = length (files s)" "length (files s0) = length (files s)"
    using arg_cong [OF ips, of length] arg_cong [OF filealloc_fresh(1) [OF 0], of length] by simp_all
  have a: "a < length (files s)" "f_ref (files s ! a) = 0"
    using filealloc_fresh(2) [OF 0] r by auto
  have b: "b < length (files s)" "f_ref (files s0 ! b) = 0"
    using filealloc_fresh(2) [OF 1] r len by auto
  have "map f_ref (files s0) ! b = 0"
    using b len(2) by simp
  then have "map f_ref (files s) ! b = 0"
    using filealloc_fresh(3) [OF 0] b(1) by (metis length_map nth_list_update_eq nth_list_update_neq zero_neq_one)
  then show ?thesis
    using a b assms(2) len(1) arg_cong [OF ips, of "\<lambda>l. l ! a"] arg_cong [OF ips, of "\<lambda>l. l ! b"] by simp
qed

text \<open>Inode \<open>ip\<close> is cached, loaded and not locked.\<close>

definition ready_inode :: "nat \<Rightarrow> 'a inode_state_scheme \<Rightarrow> bool" where
  "ready_inode ip s \<longleftrightarrow> 1 \<le> i_ref (inodes s ! ip) \<and> i_valid (inodes s ! ip) \<and> \<not> sl_locked (sleeplocks s (InodeLock ip)) \<and> in_proc s"

definition locked_by_me :: "nat \<Rightarrow> 'a inode_state_scheme \<Rightarrow> 'a inode_state_scheme" where
  "locked_by_me ip s = s\<lparr>sleeplocks := (sleeplocks s)(InodeLock ip := \<lparr>sl_locked = True, sl_pid = mypid s\<rparr>)\<rparr>"

lemma ilock_ready: "ready_inode ip s \<Longrightarrow> ilock (Some ip) s = Ret () (locked_by_me ip s)"
  by (simp add: ready_inode_def ilock_def acquiresleep_free locked_by_me_def)

lemma locked_by_me_fields [simp]:
  "inodes (locked_by_me ip s) = inodes s" "bufs (locked_by_me ip s) = bufs s" "disk (locked_by_me ip s) = disk s"
  "mem (locked_by_me ip s) = mem s" "files (locked_by_me ip fs) = files fs" "procs (locked_by_me ip s) = procs s"
  by (simp_all add: locked_by_me_def)

lemma iunlock_ready:
  assumes "ready_inode ip s"
  shows "iunlock (Some ip) (locked_by_me ip s) = Ret () (releasesleep (InodeLock ip) (locked_by_me ip s))"
proof -
  have "mypid (locked_by_me ip s) = mypid s"
    by (simp add: mypid_def myproc_def locked_by_me_def cong: option.case_cong)
  then show ?thesis
    using assms by (simp add: iunlock_def ready_inode_def holdingsleep_def) (simp add: locked_by_me_def)
qed

lemma releasesleep_kept [simp]:
  "inodes (releasesleep l is) = inodes is" "files (releasesleep l fs) = files fs" "mem (releasesleep l s) = mem s"
  by (simp_all add: releasesleep_def) (simp_all add: wakeup_def wakeup1_def)

text \<open>The arguments of \<^verbatim>\<open>read\<close> and \<^verbatim>\<open>write\<close> are in order: open file \<open>f\<close>, length \<open>n\<close>, buffer \<open>p\<close>.\<close>

definition rw_args :: "nat \<Rightarrow> int \<Rightarrow> u32 \<Rightarrow> 'a kstate_scheme \<Rightarrow> bool" where
  "rw_args f n p s \<longleftrightarrow> (\<exists>fd. argfd 0 s = Ret (Some (fd, f)) s) \<and> argint 2 s = Ret (Some n) s \<and> argptr 1 n s = Ret (Some p) s"


text \<open>
  A process with file 0 open as descriptor 0; the arguments of the call are 0, the address 512 and
  the length 4. The contents of the page is \<open>rw_page\<close>.
\<close>

definition rw_page :: bytes where
  "rw_page = (\<lambda>k. if k = 0x109 then 2 else if k = 0x10C then 4 else 0)"

definition sample_rw :: "ofile \<Rightarrow> inode \<Rightarrow> kstate" where
  "sample_rw f i = sample_user rw_page\<lparr>files := (files (sample_user rw_page))[0 := f],
     procs := (procs (sample_user rw_page))[0 := user_proc\<lparr>p_ofile := (replicate 16 None)[0 := Some 0], p_cwd := None\<rparr>],
     inodes := (inodes (sample_user rw_page))[0 := i]\<rparr>"

lemma sample_rw_args: "rw_args 0 4 512 (sample_rw f i)" "files (sample_rw f i) ! 0 = f" "in_proc (sample_rw f i)"
  "inodes (sample_rw f i) ! 0 = i" "sleeplocks (sample_rw f i) = sleeplocks (sample_user rw_page)"
proof -
  have m: "mem (sample_rw f i) = user_mem rw_page" "myproc (sample_rw f i) = Some 0"
      "procs (sample_rw f i) ! 0 = user_proc\<lparr>p_ofile := (replicate 16 None)[0 := Some 0], p_cwd := None\<rparr>"
    by (simp_all add: sample_rw_def sample_user_fields myproc_def)
  note a = argint_sample [OF _ m]
  have "argint 0 (sample_rw f i) = Ret (Some 0) (sample_rw f i)" "argint 1 (sample_rw f i) = Ret (Some 512) (sample_rw f i)"
      "argint 2 (sample_rw f i) = Ret (Some 4) (sample_rw f i)"
    by (simp_all add: a rw_page_def rd32_def)
  then show "rw_args 0 4 512 (sample_rw f i)"
    using m by (simp add: rw_args_def argfd_def argptr_def with_proc_def user_proc_def)
  show "files (sample_rw f i) ! 0 = f" "in_proc (sample_rw f i)" "inodes (sample_rw f i) ! 0 = i"
      "sleeplocks (sample_rw f i) = sleeplocks (sample_user rw_page)"
    using sample_user_fields sample_fs_fields(2) m(2)
    by (simp_all add: sample_rw_def in_proc_def sample_user_def inode_state.defs console_state.defs file_state.defs kstate.defs
        del: replicate.simps)
qed

lemma sample_user_sleeplocks: "sleeplocks (sample_user pg) = (\<lambda>_. \<lparr>sl_locked = False, sl_pid = 0\<rparr>)"
  by (simp add: sample_user_def inode_state.defs console_state.defs file_state.defs kstate.defs sample_fs_fields boot_bio_fields)


text \<open>
  C32: opening a file checks no permission for \<^verbatim>\<open>O_RDONLY\<close>, since \<^verbatim>\<open>omode & O_RDONLY\<close> is always 0, and
  none for \<^verbatim>\<open>O_RDWR\<close>: a file whose mode grants nothing is opened all the same.
\<close>

theorem open_ignores_mode:
  assumes "namei path s = Ret (Some ip) t" "ilock (Some ip) t = Ret () u"
  shows "open_inode path O_RDONLY s = Ret (Some ip) u \<and>
    (i_type (inodes u ! ip) \<noteq> T_DIR \<longrightarrow> open_inode path O_RDWR s = Ret (Some ip) u)"
  using assms by (simp add: open_inode_def)

theorem open_ignores_mode_witness:
  "okr (open_inode [47] O_RDONLY (sample_rw undefined
       \<lparr>i_dev = 1, i_inum = 1, i_ref = 1, i_valid = True, i_type = 1, i_major = 0, i_minor = 0, i_nlink = 1, i_size = 0,
        i_addrs = [], i_mode = 0\<rparr>)) (\<lambda>r t. r = Some 0 \<and> i_mode (inodes t ! 0) = 0)"
proof -
  let ?i = "\<lparr>i_dev = 1, i_inum = 1, i_ref = 1, i_valid = True, i_type = 1, i_major = 0, i_minor = 0, i_nlink = 1, i_size = 0,
        i_addrs = [], i_mode = 0\<rparr> :: inode"
  let ?s = "sample_rw undefined ?i"
  let ?t = "upd_inode 0 (\<lambda>i. i\<lparr>i_ref := i_ref i + 1\<rparr>) ?s"
  have l: "0 < length (inodes ?s)"
    using sample_fs_fields(2)
    by (simp add: sample_rw_def sample_user_def inode_state.defs console_state.defs file_state.defs kstate.defs del: replicate.simps)
  then have "first_index (\<lambda>i. 0 < i_ref i \<and> i_dev i = 1 \<and> i_inum i = 1) (inodes ?s) = Some 0"
    by (simp add: first_index_Some sample_rw_args)
  then have n: "namei [47] ?s = Ret (Some 0) ?t"
    by (simp add: namei_def namex_def iget_def namex_loop.simps [of False "[47]"] skipelem_def)
  have "ready_inode 0 ?t"
    using l by (simp add: ready_inode_def upd_inode_def sample_rw_args sample_user_sleeplocks)
       (use sample_rw_args(3) in \<open>simp add: in_proc_def myproc_def\<close>)
  from open_ignores_mode [OF n ilock_ready [OF this]] show ?thesis
    using l by (simp add: upd_inode_def sample_rw_args)
qed

text \<open>
  Neither end of a pipe can be used: \<^verbatim>\<open>sys_read\<close> and \<^verbatim>\<open>sys_write\<close> lock the inode of the open file,
  which a pipe does not have, and the kernel panics. (Entries of the file table have no inode until
  they are used for a file; a stale one would be locked instead.)
\<close>

lemma pipe_io_panics:
  assumes "pipealloc s = Ret (Some (a, b)) t" "\<forall>f\<in>set (files s). f_ref f = 0 \<longrightarrow> f_ip f = None"
    "files u = files t"
  shows "(rw_args a n p u \<longrightarrow> sys_read u = Panic ''ilock'') \<and> (rw_args b n p u \<longrightarrow> sys_write u = Panic ''ilock'')"
proof -
  have n: "f_ip (files t ! a) = None" "f_ip (files t ! b) = None"
    using pipealloc_no_inode [OF assms(1,2)] by simp_all
  then show ?thesis
    by (auto simp: rw_args_def sys_read_def sys_write_def arg_or_fail_def assms(3) ilock_def)
qed

lemma pipe_io_panics_witness:
  "\<exists>t. pipealloc (sample_user rw_page) = Ret (Some (0, 1)) t \<and> sys_read (sample_rw (files t ! 0) undefined\<lparr>files := files t\<rparr>) = Panic ''ilock''"
proof -
  let ?s = "sample_user rw_page"
  have "freelist ?s = 0x80400000"
    by (rule sample_user_fields)
  moreover obtain x where x: "files ?s = replicate NFILE x" "f_ref x = 0"
    by (simp add: sample_user_fields)
  moreover from x have "first_index (\<lambda>f. f_ref f = 0) (replicate NFILE x) = Some 0"
    by (simp add: first_index_Some del: replicate.simps)
  moreover have "first_index (\<lambda>f. f_ref f = 0) ((replicate NFILE x)[0 := x\<lparr>f_ref := 1\<rparr>]) = Some 1"
    using x(2) by (simp add: first_index_Some nth_list_update del: replicate.simps)
  ultimately obtain t where t: "pipealloc ?s = Ret (Some (0, 1)) t"
    using x(1) by (simp add: pipealloc_def filealloc_def upd_file_def kalloc_def Let_def del: replicate.simps)
  let ?u = "sample_rw (files t ! 0) undefined\<lparr>files := files t\<rparr>"
  have a: "argint n ?u = Ret (Some (sint (rd32 rw_page (0x104 + 4 * n)))) ?u" if "n < 100" for n
    using that by (intro argint_sample) (simp_all add: sample_rw_def sample_user_fields myproc_def)
  have "rw_args 0 4 512 ?u"
    by (simp add: rw_args_def argfd_def argptr_def with_proc_def a)
       (simp add: rw_page_def rd32_def sample_rw_def sample_user_fields myproc_def user_proc_def)
  moreover have "\<forall>f\<in>set (files ?s). f_ref f = 0 \<longrightarrow> f_ip f = None"
    by (simp add: sample_user_fields)
  ultimately show ?thesis
    using t pipe_io_panics [OF t, where u = ?u] by auto
qed

end
