(* ===== verification/Syscall.thy ===== *)
theory Syscall
  imports Sysfile
begin

text \<open>
  The system call dispatcher (\<^verbatim>\<open>syscall\<close> of \<^verbatim>\<open>syscall.c\<close>) with the table of blocked calls, and the
  trap handler (\<^verbatim>\<open>trap.c\<close>). Interrupt descriptor tables and the local interrupt controller are
  hardware state; messages printed on the console are not modelled.
\<close>

section \<open>Dispatch\<close>

text \<open>The table \<^verbatim>\<open>syscalls\<close>: entry 0 is empty.\<close>

definition syscalls :: "int \<Rightarrow> ('a kstate_scheme \<Rightarrow> (int, 'a kstate_scheme) kres) option" where
  "syscalls n =
     (if 1 \<le> n \<and> n \<le> 25 then
        Some ([sys_fork, sys_exit, sys_wait, sys_pipe, sys_read, sys_kill, sys_exec, sys_fstat, sys_chdir,
               sys_dup, sys_getpid, sys_sbrk, sys_sleep, sys_uptime, sys_open, sys_write, sys_mknod,
               sys_unlink, sys_link, sys_mkdir, sys_close, sys_gethistory, sys_block, sys_unblock, sys_chmod]
              ! nat (n - 1))
      else None)"

definition set_eax :: "int \<Rightarrow> 'a kstate_scheme \<Rightarrow> (unit, 'a kstate_scheme) kres" where
  "set_eax r s = with_proc s (\<lambda>p. Ret () (s\<lparr>mem := st32 (mem s) (p_tf (procs s ! p) + 28) (word_of_int r)\<rparr>))"

definition syscall :: "'a kstate_scheme \<Rightarrow> (unit, 'a kstate_scheme) kres" where
  "syscall s = with_proc s (\<lambda>p.
     let num = sint (ld32 (mem s) (p_tf (procs s ! p) + 28))
     in case syscalls num of
          Some f \<Rightarrow>
            if blocked_syscalls s ! nat num \<and> num \<noteq> SYS_exec then set_eax (-1) s
            else bindr (f s) (\<lambda>r s. set_eax r s)
        | None \<Rightarrow> set_eax (-1) s)"

section \<open>Traps\<close>

text \<open>Trap numbers; those of the device interrupts have \<^verbatim>\<open>T_IRQ0\<close>, which is 32, added.\<close>

abbreviation (input) T_SYSCALL :: u32 where "T_SYSCALL \<equiv> 64"
abbreviation (input) IRQ_TIMER :: u32 where "IRQ_TIMER \<equiv> 32"
abbreviation (input) IRQ_KBD :: u32 where "IRQ_KBD \<equiv> 33"
abbreviation (input) IRQ_COM1 :: u32 where "IRQ_COM1 \<equiv> 36"
abbreviation (input) IRQ_IDE :: u32 where "IRQ_IDE \<equiv> 46"

definition tf_trapno :: "u32 \<Rightarrow> mem \<Rightarrow> u32" where "tf_trapno tf m = ld32 m (tf + 48)"
definition tf_user :: "u32 \<Rightarrow> mem \<Rightarrow> bool" where "tf_user tf m \<longleftrightarrow> ld16 m (tf + 60) AND 3 = 3"

definition killed :: "'a ptable_state_scheme \<Rightarrow> bool" where
  "killed s = (case myproc s of None \<Rightarrow> False | Some p \<Rightarrow> p_killed (procs s ! p))"

definition exit_if_killed :: "u32 \<Rightarrow> 'a kstate_scheme \<Rightarrow> (unit, 'a kstate_scheme) kres" where
  "exit_if_killed tf s = (if killed s \<and> tf_user tf (mem s) then exit s else Ret () s)"

definition trap_syscall :: "u32 \<Rightarrow> 'a kstate_scheme \<Rightarrow> (unit, 'a kstate_scheme) kres" where
  "trap_syscall tf s = with_proc s (\<lambda>p.
     if p_killed (procs s ! p) then exit s
     else bindr (syscall (upd_proc p (\<lambda>q. q\<lparr>p_tf := tf\<rparr>) s)) (\<lambda>_ s.
       if_killed s (exit s) (Ret () s)))"

text \<open>
  The device part of \<^verbatim>\<open>trap\<close>. \<open>input\<close> is what the keyboard or the serial port has to offer when the
  handler asks for characters. With the memory disk \<^verbatim>\<open>ideintr\<close> does nothing. In the default case a
  trap from the kernel (or without a process) panics and one from user space kills the process.
\<close>

definition trap_device :: "int list \<Rightarrow> u32 \<Rightarrow> 'a kstate_scheme \<Rightarrow> (unit, 'a kstate_scheme) kres" where
  "trap_device input tf s =
     (let no = tf_trapno tf (mem s)
      in if no = IRQ_TIMER
         then Ret () (if this_cpu s = 0 then wakeup ChanTicks (s\<lparr>ticks := ticks s + 1\<rparr>) else s)
         else if no = IRQ_IDE \<or> no = IRQ_IDE + 1 then Ret () s
         else if no = IRQ_KBD \<or> no = IRQ_COM1 then consoleintr input s
         else if no = 39 \<or> no = 63 then Ret () s
         else case myproc s of
                None \<Rightarrow> Panic ''trap''
              | Some p \<Rightarrow>
                  if ld16 (mem s) (tf + 60) AND 3 = 0 then Panic ''trap''
                  else Ret () (upd_proc p (\<lambda>q. q\<lparr>p_killed := True\<rparr>) s))"

text \<open>
  \<^verbatim>\<open>trap\<close> up to the point where it returns, exits, or has given up the CPU in \<^verbatim>\<open>yield\<close>; what remains
  to be done when the process runs again is \<open>trap_resume\<close>.
\<close>

definition trap :: "int list \<Rightarrow> u32 \<Rightarrow> 'a kstate_scheme \<Rightarrow> (unit, 'a kstate_scheme) kres" where
  "trap input tf s =
     (if tf_trapno tf (mem s) = T_SYSCALL then trap_syscall tf s
      else bindr (trap_device input tf s) (\<lambda>_ s.
           bindr (exit_if_killed tf s) (\<lambda>_ s.
             case myproc s of
               None \<Rightarrow> Ret () s
             | Some p \<Rightarrow>
                 if p_state (procs s ! p) = RUNNING \<and> tf_trapno tf (mem s) = IRQ_TIMER then yield s
                 else exit_if_killed tf s)))"

definition trap_resume :: "u32 \<Rightarrow> 'a kstate_scheme \<Rightarrow> (unit, 'a kstate_scheme) kres" where
  "trap_resume tf s = exit_if_killed tf s"

section \<open>Blocking system calls\<close>

text \<open>
  The tables of blocked calls that \<^verbatim>\<open>sys_block\<close> and \<^verbatim>\<open>sys_unblock\<close>, the only routines that write it,
  can produce, called by any process in any order.
\<close>

inductive block_reach :: "bool list \<Rightarrow> bool" where
  boot: "block_reach (replicate 26 False)"
| block: "block_reach (blocked_syscalls s) \<Longrightarrow> sys_block (s :: kstate) = Ret r t \<Longrightarrow> block_reach (blocked_syscalls t)"
| unblock: "block_reach (blocked_syscalls s) \<Longrightarrow> sys_unblock (s :: kstate) = Ret r t \<Longrightarrow> block_reach (blocked_syscalls t)"

lemma argint_frame: "argint n s = Ret r t \<Longrightarrow> t = s"
  by (auto simp: argint_def fetchint_def with_proc_def get_user_def bindr_eq_Ret split: option.splits if_splits)

lemma sys_block_table:
  assumes "sys_block s = Ret r t"
  shows "blocked_syscalls t = blocked_syscalls s \<or>
    (\<exists>i. 0 \<le> i \<and> i < 26 \<and> i \<notin> {SYS_fork, SYS_exit, SYS_unblock} \<and> blocked_syscalls t = (blocked_syscalls s)[nat i := True])"
proof -
  obtain x where x: "argint 0 s = Ret x s"
    using assms argint_frame [of 0 s] by (cases "argint 0 s") (auto simp: sys_block_def arg_or_fail_def)
  then show ?thesis
    using assms by (cases x) (auto simp: sys_block_def arg_or_fail_def split: if_splits intro!: exI [of _ "the x"])
qed

lemma sys_unblock_table:
  assumes "sys_unblock s = Ret r t"
  shows "blocked_syscalls t = blocked_syscalls s \<or>
    (\<exists>i. 0 \<le> i \<and> i < 26 \<and> blocked_syscalls t = (blocked_syscalls s)[nat i := False])"
proof -
  obtain x where x: "argint 0 s = Ret x s"
    using assms argint_frame [of 0 s] by (cases "argint 0 s") (auto simp: sys_unblock_def arg_or_fail_def)
  then show ?thesis
    using assms by (cases x) (auto simp: sys_unblock_def arg_or_fail_def split: if_splits intro!: exI [of _ "the x"])
qed

definition table_ok :: "bool list \<Rightarrow> bool" where
  "table_ok b \<longleftrightarrow> length b = 26 \<and> \<not> b ! nat SYS_fork \<and> \<not> b ! nat SYS_exit \<and> \<not> b ! nat SYS_unblock"

lemma block_reach_ok: "block_reach b \<Longrightarrow> table_ok b"
proof (induction rule: block_reach.induct)
  case boot
  then show ?case
    by (simp add: table_ok_def)
next
  case (block s r t)
  then show ?case
    using sys_block_table [OF block.hyps(2)] by (auto simp: table_ok_def nth_list_update nat_eq_iff)
next
  case (unblock s r t)
  then show ?case
    using sys_unblock_table [OF unblock.hyps(2)] by (auto simp: table_ok_def nth_list_update split: if_splits)
qed

text \<open>
  C30: whatever calls have been blocked and unblocked, \<^verbatim>\<open>fork\<close>, \<^verbatim>\<open>exit\<close>, \<^verbatim>\<open>unblock\<close> and \<^verbatim>\<open>exec\<close> are
  dispatched to their handlers: no process can lock the others out of the call that lifts a block.
  Blocking \<^verbatim>\<open>exec\<close> is accepted by \<^verbatim>\<open>sys_block\<close> and has no effect.
\<close>

theorem essential_calls_dispatched:
  assumes "block_reach (blocked_syscalls s)" "myproc s = Some p" "num \<in> {SYS_fork, SYS_exit, SYS_exec, SYS_unblock}"
    "sint (ld32 (mem s) (p_tf (procs s ! p) + 28)) = num"
  shows "\<exists>f. syscalls num = Some f \<and> syscall s = bindr (f s) set_eax"
proof -
  have "\<not> (blocked_syscalls s ! nat num \<and> num \<noteq> SYS_exec)"
    using block_reach_ok [OF assms(1)] assms(3) by (auto simp: table_ok_def)
  moreover have "syscalls num \<noteq> None"
    using assms(3) by (auto simp: syscalls_def)
  ultimately show ?thesis
    using assms(2,4) by (auto simp: syscall_def with_proc_def Let_def)
qed

lemma sample_table: "block_reach (blocked_syscalls (sample_user pg))"
  using block_reach.boot by (simp add: sample_user_fields)

theorem essential_calls_dispatched_witness:
  "\<exists>f. syscalls SYS_fork = Some f \<and>
     syscall (sample_user (\<lambda>_. 0)\<lparr>mem := st32 (mem (sample_user (\<lambda>_. 0))) 0x8000401C 1\<rparr>) =
       bindr (f (sample_user (\<lambda>_. 0)\<lparr>mem := st32 (mem (sample_user (\<lambda>_. 0))) 0x8000401C 1\<rparr>)) set_eax"
  by (rule essential_calls_dispatched [where p = 0])
     (use sample_table in \<open>simp_all add: sample_user_fields myproc_def user_proc_def\<close>)

text \<open>
  \<^verbatim>\<open>sys_block\<close> refuses numbers out of range and the essential calls and changes nothing then;
  otherwise every later call with that number, by any process, fails without running its handler
  (\<^verbatim>\<open>exec\<close> excepted) for as long as the entry is set, and \<^verbatim>\<open>sys_unblock\<close> of the number clears it again.
\<close>

lemma block_then_unblock:
  assumes "argint 0 s = Ret (Some i) s" "length (blocked_syscalls s) = 26"
  shows "if 0 \<le> i \<and> i < 26 \<and> i \<notin> {SYS_fork, SYS_exit, SYS_unblock}
    then okr (sys_block s) (\<lambda>r t. r = 0 \<and> t = s\<lparr>blocked_syscalls := (blocked_syscalls s)[nat i := True]\<rparr> \<and>
      (\<forall>u p. blocked_syscalls u ! nat i = blocked_syscalls t ! nat i \<longrightarrow> myproc u = Some p \<longrightarrow>
         sint (ld32 (mem u) (p_tf (procs u ! p) + 28)) = i \<longrightarrow> i \<noteq> SYS_exec \<longrightarrow> syscall u = set_eax (-1) u) \<and>
      (\<forall>u. argint 0 u = Ret (Some i) u \<longrightarrow> blocked_syscalls u = blocked_syscalls t \<longrightarrow>
         okr (sys_unblock u) (\<lambda>r v. r = 0 \<and> v = u\<lparr>blocked_syscalls := (blocked_syscalls s)[nat i := False]\<rparr>)))
    else sys_block s = Ret (-1) s"
proof (cases "0 \<le> i \<and> i < 26 \<and> i \<notin> {SYS_fork, SYS_exit, SYS_unblock}")
  case True
  then have b: "sys_block s = Ret 0 (s\<lparr>blocked_syscalls := (blocked_syscalls s)[nat i := True]\<rparr>)"
    by (simp add: sys_block_def arg_or_fail_def assms)
  have "syscall u = set_eax (-1) u" if "blocked_syscalls u ! nat i" "myproc u = Some p"
      "sint (ld32 (mem u) (p_tf (procs u ! p) + 28)) = i" "i \<noteq> SYS_exec" for u p
    using that by (simp add: syscall_def with_proc_def Let_def split: option.split)
  moreover have "nat i < 26"
    using True by auto
  ultimately show ?thesis
    using True by (auto simp: b assms(2) sys_unblock_def arg_or_fail_def)
qed (auto simp: sys_block_def arg_or_fail_def assms)

lemma block_then_unblock_witness:
  "okr (sys_block (sample_user (\<lambda>k. if k = 0x104 then 16 else 0)))
     (\<lambda>r t. r = 0 \<and> blocked_syscalls t = (replicate 26 False)[16 := True])"
proof -
  let ?pg = "\<lambda>k. if k = 0x104 then 16 else 0 :: u8"
  have "argint 0 (sample_user ?pg) = Ret (Some 16) (sample_user ?pg)"
    by (subst argint_sample [where pg = ?pg and fs = "p_ofile user_proc" and d = "p_cwd user_proc"])
       (simp_all add: sample_user_fields rd32_def)
  from block_then_unblock [OF this] show ?thesis
    by (auto simp: sample_user_fields elim!: okr_mono)
qed

end
