(* ===== verification/Lifecycle.thy ===== *)
theory Lifecycle
  imports Proc
begin

text \<open>
  The life cycle of processes as a transition system on the process table. The steps are the critical
  sections under \<^verbatim>\<open>ptable.lock\<close> of the routines of \<^verbatim>\<open>proc.c\<close>, executed by any CPU in any order, and
  they are made of the definitions of the theories \<open>Ptable\<close> and \<open>Proc\<close>. The invariant shows that
  no process runs twice, that every exited process has a living parent to collect it, and that a
  parent that sleeps in \<^verbatim>\<open>wait\<close> has no exited child: no exit is missed.
\<close>

section \<open>Steps\<close>

text \<open>
  \<open>on_cpu\<close> passes control to another CPU. \<open>sleep\<close> on the channel of the process itself is only done
  by \<^verbatim>\<open>wait\<close>, which has found no exited child in the same critical section.
\<close>

inductive pstep :: "ptable_state \<Rightarrow> ptable_state \<Rightarrow> bool" where
  on_cpu: "pstep s (s\<lparr>this_cpu := c\<rparr>)"
| alloc: "allocproc s = Ret r t \<Longrightarrow> pstep s t"
| fork_fails: "c < NPROC \<Longrightarrow> p_state (procs s ! c) = EMBRYO \<Longrightarrow>
    pstep s (upd_proc c (\<lambda>q. q\<lparr>p_kstack := 0, p_state := UNUSED\<rparr>) s)"
| fork_done: "myproc s = Some p \<Longrightarrow> c < NPROC \<Longrightarrow> p_state (procs s ! c) = EMBRYO \<Longrightarrow>
    pstep s (upd_proc c (\<lambda>q. q\<lparr>p_pgdir := d, p_sz := z, p_parent := Some p, p_state := RUNNABLE\<rparr>) s)"
| wake: "pstep s (wakeup c s)"
| kill: "kill pid s = Ret r t \<Longrightarrow> pstep s t"
| sleep: "(sleep c s :: (unit, ptable_state) kres) = Sleeping d t \<Longrightarrow>
    (\<And>p. myproc s = Some p \<Longrightarrow> c = ChanProc p \<Longrightarrow> first_index (zombie_child p) (procs s) = None) \<Longrightarrow> pstep s t"
| awake: "myproc s = Some p \<Longrightarrow> pstep s (sleep_return p s)"
| yield: "yield s = Ret r t \<Longrightarrow> pstep s t"
| schedule: "myproc s = None \<Longrightarrow> p < NPROC \<Longrightarrow> scheduler_at p s = Ret r t \<Longrightarrow> pstep s t"
| exit: "myproc s = Some p \<Longrightarrow> initproc s \<noteq> Some p \<Longrightarrow> pstep s (exit_finish p s)"
| reap: "myproc s = Some p \<Longrightarrow> first_index (zombie_child p) (procs s) = Some c \<Longrightarrow> pstep s (free_slot c s)"

text \<open>The table after \<^verbatim>\<open>userinit\<close>: process 0 is \<^verbatim>\<open>init\<close>, ready to run.\<close>

definition after_userinit :: "ptable_state \<Rightarrow> bool" where
  "after_userinit s \<longleftrightarrow> length (procs s) = NPROC \<and> initproc s = Some 0 \<and> 1 < nextpid s \<and> cpu_proc s = (\<lambda>_. None) \<and>
     p_state (procs s ! 0) = RUNNABLE \<and> p_pid (procs s ! 0) = 1 \<and>
     (\<forall>i<NPROC. p_parent (procs s ! i) = None \<and> (i \<noteq> 0 \<longrightarrow> p_state (procs s ! i) = UNUSED))"

section \<open>The family invariant\<close>

definition live :: "proc \<Rightarrow> bool" where
  "live q \<longleftrightarrow> p_state q = SLEEPING \<or> p_state q = RUNNABLE \<or> p_state q = RUNNING"

definition started :: "proc \<Rightarrow> bool" where
  "started q \<longleftrightarrow> p_state q \<noteq> UNUSED \<and> p_state q \<noteq> EMBRYO"

text \<open>Process \<open>p\<close>, as entry \<open>q\<close>, sleeps in \<^verbatim>\<open>wait\<close>.\<close>

definition waiting :: "nat \<Rightarrow> proc \<Rightarrow> bool" where
  "waiting p q \<longleftrightarrow> p_state q = SLEEPING \<and> p_chan q = Some (ChanProc p)"

definition childless :: "nat \<Rightarrow> proc list \<Rightarrow> bool" where
  "childless p ps \<longleftrightarrow> (\<forall>i<NPROC. \<not> zombie_child p (ps ! i))"

definition family :: "proc list \<Rightarrow> bool" where
  "family ps \<longleftrightarrow> live (ps ! 0) \<and> p_parent (ps ! 0) = None \<and> (\<forall>i<NPROC. p_parent (ps ! i) \<noteq> Some i) \<and>
     (\<forall>i<NPROC. \<forall>p. p_parent (ps ! i) = Some p \<longrightarrow> p < NPROC \<and> live (ps ! p)) \<and>
     (\<forall>i<NPROC. i \<noteq> 0 \<longrightarrow> started (ps ! i) \<longrightarrow> p_parent (ps ! i) \<noteq> None) \<and>
     (\<forall>p<NPROC. waiting p (ps ! p) \<longrightarrow> childless p ps)"

definition life_inv :: "ptable_state \<Rightarrow> bool" where
  "life_inv s \<longleftrightarrow> ptable_inv s \<and> initproc s = Some 0 \<and> family (procs s)"

lemma familyI:
  assumes "live (ps ! 0)" "\<And>i p. i < NPROC \<Longrightarrow> p_parent (ps ! i) = Some p \<Longrightarrow> p < NPROC \<and> live (ps ! p)"
    "\<And>i. i < NPROC \<Longrightarrow> i \<noteq> 0 \<Longrightarrow> started (ps ! i) \<Longrightarrow> p_parent (ps ! i) \<noteq> None"
    "\<And>p. p < NPROC \<Longrightarrow> waiting p (ps ! p) \<Longrightarrow> childless p ps"
    "p_parent (ps ! 0) = None" "\<And>i. i < NPROC \<Longrightarrow> p_parent (ps ! i) \<noteq> Some i"
  shows "family ps"
  using assms by (simp add: family_def)

lemma familyD:
  assumes "family ps"
  shows "live (ps ! 0)" "\<And>i p. i < NPROC \<Longrightarrow> p_parent (ps ! i) = Some p \<Longrightarrow> p < NPROC \<and> live (ps ! p)"
    "\<And>i. i < NPROC \<Longrightarrow> i \<noteq> 0 \<Longrightarrow> started (ps ! i) \<Longrightarrow> p_parent (ps ! i) \<noteq> None"
    "\<And>p. p < NPROC \<Longrightarrow> waiting p (ps ! p) \<Longrightarrow> childless p ps"
    "p_parent (ps ! 0) = None" "\<And>i. i < NPROC \<Longrightarrow> p_parent (ps ! i) \<noteq> Some i"
  using assms by (auto simp: family_def)

text \<open>A step that keeps parents, does not end or start processes and only puts to sleep the childless.\<close>

lemma family_mono:
  assumes fam: "family ps"
    and parent: "\<And>i. i < NPROC \<Longrightarrow> p_parent (qs ! i) = p_parent (ps ! i)"
    and "\<And>i. i < NPROC \<Longrightarrow> live (ps ! i) \<Longrightarrow> live (qs ! i)"
    and "\<And>i. i < NPROC \<Longrightarrow> p_state (qs ! i) = ZOMBIE \<Longrightarrow> p_state (ps ! i) = ZOMBIE"
    and "\<And>i. i < NPROC \<Longrightarrow> started (qs ! i) \<Longrightarrow> started (ps ! i)"
    and "\<And>i. i < NPROC \<Longrightarrow> waiting i (qs ! i) \<Longrightarrow> waiting i (ps ! i) \<or> childless i ps"
  shows "family qs"
proof -
  have "childless p qs" if "p < NPROC" "waiting p (qs ! p)" for p
  proof -
    have "childless p ps"
      using assms(6) [OF that] fam that(1) by (auto simp: family_def)
    then show ?thesis
      using parent assms(4) by (auto simp: childless_def zombie_child_def)
  qed
  moreover have "live (qs ! 0)"
    using fam assms(3) by (simp add: family_def)
  moreover have "p < NPROC \<and> live (qs ! p)" if "i < NPROC" "p_parent (qs ! i) = Some p" for i p
    using fam assms(3) parent [OF that(1)] that by (auto simp: family_def)
  moreover have "p_parent (qs ! i) \<noteq> None" if "i < NPROC" "i \<noteq> 0" "started (qs ! i)" for i
    using fam parent [OF that(1)] assms(5) [OF that(1,3)] that by (simp add: family_def)
  moreover have "p_parent (qs ! 0) = None"
    using fam parent by (simp add: family_def)
  moreover have "p_parent (qs ! i) \<noteq> Some i" if "i < NPROC" for i
    using fam parent that by (simp add: family_def)
  ultimately show ?thesis
    by (simp add: family_def)
qed

lemma family_upd:
  assumes "family ps" "length ps = NPROC" "k < NPROC" "p_parent q = p_parent (ps ! k)" "live (ps ! k) \<Longrightarrow> live q"
    "p_state q = ZOMBIE \<Longrightarrow> p_state (ps ! k) = ZOMBIE" "started q \<Longrightarrow> started (ps ! k)"
    "waiting k q \<Longrightarrow> waiting k (ps ! k) \<or> childless k ps"
  shows "family (ps[k := q])"
  using assms(2-) by (intro family_mono [OF assms(1)]) (auto simp: nth_list_update split: if_splits)

lemma childless_first: "length ps = NPROC \<Longrightarrow> first_index (zombie_child p) ps = None \<Longrightarrow> childless p ps"
  by (simp add: first_index_None childless_def all_set_conv_all_nth)

section \<open>Preservation\<close>

lemma allocproc_entry:
  assumes "allocproc s = Ret r t" "length (procs s) = NPROC"
  shows "t = s \<or> (\<exists>p q. p < NPROC \<and> p_state (procs s ! p) = UNUSED \<and> procs t = (procs s)[p := q] \<and>
     nextpid t = nextpid s + 1 \<and> cpu_proc t = cpu_proc s \<and> initproc t = initproc s \<and>
     (p_state q = UNUSED \<or> p_state q = EMBRYO \<and> p_pid q = nextpid s) \<and> p_parent q = p_parent (procs s ! p))"
proof (cases "first_index (\<lambda>p. p_state p = UNUSED) (procs s)")
  case None
  then show ?thesis
    using assms(1) by (simp add: allocproc_def)
next
  case (Some p)
  then have p: "p < NPROC" "p_state (procs s ! p) = UNUSED"
    using assms(2) by (simp_all add: first_index_Some)
  show ?thesis
    using assms p Some
    by (intro disjI2 exI [of _ p] exI [of _ "procs t ! p"])
       (auto simp: allocproc_def Let_def kalloc_def list_update_overwrite split: if_splits)
qed

lemma alloc_inv:
  assumes inv: "life_inv s" and step: "allocproc s = Ret r t"
  shows "life_inv t"
proof -
  have I: "ptable_inv s" "family (procs s)" "initproc s = Some 0" and len: "length (procs s) = NPROC"
    using inv by (simp_all add: life_inv_def ptable_inv_def)
  note P = ptable_invD [OF I(1)]
  show ?thesis
  proof (cases "t = s")
    case False
    then obtain p q where p: "p < NPROC" "p_state (procs s ! p) = UNUSED" "procs t = (procs s)[p := q]" "nextpid t = nextpid s + 1"
        "cpu_proc t = cpu_proc s" "initproc t = initproc s" "p_parent q = p_parent (procs s ! p)"
      and q: "p_state q = UNUSED \<or> p_state q = EMBRYO \<and> p_pid q = nextpid s"
      using allocproc_entry [OF step len] by blast
    have ok: "proc_ok (nextpid s + 1) (procs s ! i)" if "i < NPROC" for i
      using P(3) [OF that] by (auto simp: proc_ok_def)
    have fresh: "\<forall>i<length (procs s). p_state (procs s ! i) \<noteq> UNUSED \<longrightarrow> p_pid (procs s ! i) \<noteq> nextpid s"
      using P(1,3) by (fastforce simp: proc_ok_def)
    have "pids_distinct ((procs s)[p := q])"
      using q fresh P(4) by (intro pids_distinct_update) auto
    moreover have "cpus_ok (cpu_proc s) ((procs s)[p := q])"
      using q p P(5) by (intro cpus_ok_update_same) auto
    moreover have "proc_ok (nextpid s + 1) q"
      using q P(2) by (auto simp: proc_ok_def)
    ultimately have "ptable_inv t"
      using P p ok by (simp add: ptable_inv_def nth_list_update)
    moreover have "family ((procs s)[p := q])"
      using p q len by (intro family_upd [OF I(2)]) (auto simp: live_def started_def waiting_def)
    ultimately show ?thesis
      using p I(3) by (simp add: life_inv_def)
  qed (use inv in simp)
qed

lemma upd_life_inv:
  assumes inv: "life_inv s" and k: "k < NPROC" and p: "ptable_inv t" "procs t = (procs s)[k := q]" "initproc t = initproc s"
    and "p_parent q = p_parent (procs s ! k)" "live (procs s ! k) \<Longrightarrow> live q"
    "p_state q = ZOMBIE \<Longrightarrow> p_state (procs s ! k) = ZOMBIE" "started q \<Longrightarrow> started (procs s ! k)"
    "waiting k q \<Longrightarrow> waiting k (procs s ! k) \<or> childless k (procs s)"
  shows "life_inv t"
  using assms by (auto simp: life_inv_def ptable_inv_def intro!: family_upd)

lemma wake_inv: "life_inv s \<Longrightarrow> life_inv (wakeup c s)"
proof -
  assume inv: "life_inv s"
  then have len: "length (procs s) = NPROC"
    by (simp add: life_inv_def ptable_inv_def)
  have fam: "family (procs s)"
    using inv by (simp add: life_inv_def)
  have "family (procs (wakeup c s))"
    by (rule family_mono [OF fam])
       (auto simp: wakeup_nth len live_def started_def waiting_def split: if_splits)
  then show ?thesis
    using inv by (simp add: life_inv_def wakeup_inv)
qed

lemma kill_life_inv:
  assumes inv: "life_inv s" and step: "kill pid s = Ret r t"
  shows "life_inv t"
proof (cases "first_index (\<lambda>p. p_pid p = pid) (procs s)")
  case (Some p)
  have len: "length (procs s) = NPROC"
    using inv by (simp add: life_inv_def ptable_inv_def)
  have p: "p < NPROC"
    using Some len by (simp add: first_index_Some)
  have "ptable_inv t"
    using kill_inv [of s pid] inv step by (simp add: life_inv_def)
  then show ?thesis
    using step Some len p by (intro upd_life_inv [OF inv p, where q = "procs t ! p"]) (auto simp: kill_def live_def started_def waiting_def split: if_splits)
qed (use inv step in \<open>simp add: kill_def\<close>)

lemma running_entry:
  assumes "ptable_inv s" "myproc s = Some p"
  shows "p < NPROC" "p_state (procs s ! p) = RUNNING"
  using cpus_okD(1,2) [OF ptable_invD(5) [OF assms(1)], of "this_cpu s" p] assms ptable_invD(1) [OF assms(1)]
  by (auto simp: myproc_def)

lemma sleep_life_inv:
  assumes inv: "life_inv s" and step: "(sleep c s :: (unit, ptable_state) kres) = Sleeping d t"
    and wait: "\<And>p. myproc s = Some p \<Longrightarrow> c = ChanProc p \<Longrightarrow> first_index (zombie_child p) (procs s) = None"
  shows "life_inv t"
proof -
  have P: "ptable_inv s" and len: "length (procs s) = NPROC"
    using inv by (simp_all add: life_inv_def ptable_inv_def)
  obtain p where p: "myproc s = Some p"
    using step by (auto simp: sleep_def split: option.splits)
  note r = running_entry [OF P(1) p]
  have "ptable_inv t"
    using sleep_inv [OF P(1) p, of c, where ?'b = unit] step by auto
  moreover have "childless p (procs s)" if "c = ChanProc p"
    using childless_first [OF len wait [OF p that]] .
  ultimately show ?thesis
    using step p r len by (intro upd_life_inv [OF inv r(1), where q = "procs t ! p"]) (auto simp: sleep_def sched_def live_def started_def waiting_def)
qed

lemma yield_life_inv:
  assumes inv: "life_inv s" and step: "yield s = Ret r t"
  shows "life_inv t"
proof -
  have P: "ptable_inv s" and len: "length (procs s) = NPROC"
    using inv by (simp_all add: life_inv_def ptable_inv_def)
  obtain p where p: "myproc s = Some p"
    using step by (auto simp: yield_def split: option.splits)
  note r = running_entry [OF P(1) p]
  have "ptable_inv t"
    using yield_inv [OF P] step by simp
  then show ?thesis
    using step p r len by (intro upd_life_inv [OF inv r(1), where q = "procs t ! p"]) (auto simp: yield_def sched_def live_def started_def waiting_def)
qed

lemma awake_inv:
  assumes inv: "life_inv s" and p: "myproc s = Some p"
  shows "life_inv (sleep_return p s)"
proof -
  have P: "ptable_inv s" and len: "length (procs s) = NPROC"
    using inv by (simp_all add: life_inv_def ptable_inv_def)
  note r = running_entry [OF P p]
  have "ptable_inv (sleep_return p s)"
    using r ptable_invD(3) [OF P r(1)] unfolding sleep_return_def
    by (intro ptable_inv_update [OF P]) (auto simp: proc_ok_def)
  then show ?thesis
    using r len by (intro upd_life_inv [OF inv r(1), where q = "procs (sleep_return p s) ! p"]) (auto simp: sleep_return_def live_def started_def waiting_def)
qed

lemma schedule_life_inv:
  assumes inv: "life_inv s" and p: "myproc s = None" "p < NPROC" and step: "scheduler_at p s = Ret r t"
  shows "life_inv t"
proof (cases "p_state (procs s ! p) = RUNNABLE")
  case True
  have len: "length (procs s) = NPROC"
    using inv by (simp add: life_inv_def ptable_inv_def)
  have "ptable_inv t"
    using scheduler_at_inv [OF _ p(2,1)] inv step by (simp add: life_inv_def)
  then show ?thesis
    using step True p len by (intro upd_life_inv [OF inv p(2), where q = "procs t ! p"])
      (auto simp: scheduler_at_def switchuvm_def live_def started_def waiting_def split: if_splits)
qed (use inv step in \<open>simp add: scheduler_at_def\<close>)

lemma fork_fails_inv:
  assumes inv: "life_inv s" and c: "c < NPROC" "p_state (procs s ! c) = EMBRYO"
  shows "life_inv (upd_proc c (\<lambda>q. q\<lparr>p_kstack := 0, p_state := UNUSED\<rparr>) s)"
proof -
  have P: "ptable_inv s" and len: "length (procs s) = NPROC"
    using inv by (simp_all add: life_inv_def ptable_inv_def)
  have "ptable_inv (upd_proc c (\<lambda>q. q\<lparr>p_kstack := 0, p_state := UNUSED\<rparr>) s)"
    using c by (intro ptable_inv_update [OF P]) (auto simp: proc_ok_def)
  then show ?thesis
    using c by (intro upd_life_inv [OF inv c(1), where q = "(procs s ! c)\<lparr>p_kstack := 0, p_state := UNUSED\<rparr>"])
      (auto simp: live_def started_def waiting_def)
qed

lemma fork_done_inv:
  assumes inv: "life_inv s" and p: "myproc s = Some p" and c: "c < NPROC" "p_state (procs s ! c) = EMBRYO"
  shows "life_inv (upd_proc c (\<lambda>q. q\<lparr>p_pgdir := d, p_sz := z, p_parent := Some p, p_state := RUNNABLE\<rparr>) s)"
proof -
  have P: "ptable_inv s" and len: "length (procs s) = NPROC" and fam: "family (procs s)"
    using inv by (simp_all add: life_inv_def ptable_inv_def)
  note r = running_entry [OF P p] and F = familyD [OF fam]
  let ?q = "(procs s ! c)\<lparr>p_pgdir := d, p_sz := z, p_parent := Some p, p_state := RUNNABLE\<rparr>"
  let ?ps = "(procs s)[c := ?q]"
  have n: "?ps ! i = (if i = c then ?q else procs s ! i)" for i
    using c len by (simp add: nth_list_update)
  have live: "live (?ps ! i)" if "live (procs s ! i)" for i
    using that by (simp add: n live_def)
  have "family ?ps"
  proof (rule familyI)
    show "live (?ps ! 0)"
      by (rule live [OF F(1)])
    show "k < NPROC \<and> live (?ps ! k)" if "i < NPROC" "p_parent (?ps ! i) = Some k" for i k
      using that F(2) live r by (cases "i = c") (auto simp: n live_def)
    show "p_parent (?ps ! i) \<noteq> None" if "i < NPROC" "i \<noteq> 0" "started (?ps ! i)" for i
      using that F(3) by (simp add: n split: if_splits)
    show "childless k ?ps" if "k < NPROC" "waiting k (?ps ! k)" for k
      using that F(4) [of k] by (auto simp: n childless_def zombie_child_def waiting_def split: if_splits)
    have ne: "c \<noteq> 0"
      using F(1) c(2) by (cases "c = 0") (simp_all add: live_def)
    have "c \<noteq> p"
      using c(2) r(2) by auto
    show "p_parent (?ps ! 0) = None"
      using F(5) ne by (simp add: n)
    show "p_parent (?ps ! i) \<noteq> Some i" if "i < NPROC" for i
      unfolding n using F(6) [OF that] \<open>c \<noteq> p\<close> by (cases "i = c") simp_all
  qed
  moreover have "ptable_inv (upd_proc c (\<lambda>q. q\<lparr>p_pgdir := d, p_sz := z, p_parent := Some p, p_state := RUNNABLE\<rparr>) s)"
    using c ptable_invD(3) [OF P c(1)] by (intro ptable_inv_update [OF P]) (auto simp: proc_ok_def)
  ultimately show ?thesis
    using inv by (simp add: life_inv_def)
qed

text \<open>An exited process has no children: they have been passed to \<^verbatim>\<open>init\<close>.\<close>

lemma reap_inv:
  assumes inv: "life_inv s" and p: "first_index (zombie_child p) (procs s) = Some c"
  shows "life_inv (free_slot c s)"
proof -
  have P: "ptable_inv s" and len: "length (procs s) = NPROC" and fam: "family (procs s)"
    using inv by (simp_all add: life_inv_def ptable_inv_def)
  note F = familyD [OF fam]
  have c: "c < NPROC" "p_state (procs s ! c) = ZOMBIE"
    using p len by (simp_all add: first_index_Some zombie_child_def)
  then have dead: "\<not> live (procs s ! c)"
    by (simp add: live_def)
  let ?ps = "procs (free_slot c s)"
  let ?q = "(procs s ! c)\<lparr>p_pid := 0, p_parent := None, p_name := (p_name (procs s ! c))(0 := 0),
      p_killed := False, p_state := UNUSED\<rparr>"
  have n: "?ps ! i = (if i = c then ?q else procs s ! i)" for i
    using c len by (simp add: free_slot_def nth_list_update)
  have live: "live (?ps ! i)" if "live (procs s ! i)" for i
    using that dead by (auto simp: n)
  have "family ?ps"
  proof (rule familyI)
    show "live (?ps ! 0)"
      by (rule live [OF F(1)])
    show "k < NPROC \<and> live (?ps ! k)" if "i < NPROC" "p_parent (?ps ! i) = Some k" for i k
      using that F(2) live by (cases "i = c") (auto simp: n)
    show "p_parent (?ps ! i) \<noteq> None" if "i < NPROC" "i \<noteq> 0" "started (?ps ! i)" for i
      using that F(3) by (auto simp: n started_def split: if_splits)
    show "childless k ?ps" if "k < NPROC" "waiting k (?ps ! k)" for k
      using that F(4) [of k] by (auto simp: n childless_def zombie_child_def waiting_def split: if_splits)
    show "p_parent (?ps ! 0) = None"
      using F(5) by (simp add: n)
    show "p_parent (?ps ! i) \<noteq> Some i" if "i < NPROC" for i
      unfolding n using F(6) [OF that] by (cases "i = c") simp_all
  qed
  moreover have "ptable_inv (free_slot c s)"
    using c unfolding free_slot_def by (intro ptable_inv_update [OF P]) (auto simp: proc_ok_def)
  ultimately show ?thesis
    using inv by (simp add: life_inv_def free_slot_def)
qed

section \<open>Exit\<close>

text \<open>Entry \<open>i\<close> after the first \<open>n\<close> turns of the loop that passes the children of \<open>p\<close> to \<open>r\<close>.\<close>

definition passed_on :: "nat \<Rightarrow> nat \<Rightarrow> nat \<Rightarrow> proc list \<Rightarrow> nat \<Rightarrow> proc" where
  "passed_on p r n ps i =
     (let q = ps ! i
      in q\<lparr>p_parent := (if i < n \<and> p_parent q = Some p then Some r else p_parent q),
           p_state := (if waiting r q \<and> (\<exists>j<n. zombie_child p (ps ! j)) then RUNNABLE else p_state q)\<rparr>)"

definition pass_one :: "nat \<Rightarrow> nat \<Rightarrow> nat \<Rightarrow> proc list \<Rightarrow> nat \<Rightarrow> proc" where
  "pass_one p r n ps i =
     (let q = ps ! i
      in q\<lparr>p_parent := (if i = n \<and> p_parent q = Some p then Some r else p_parent q),
           p_state := (if waiting r q \<and> zombie_child p (ps ! n) then RUNNABLE else p_state q)\<rparr>)"

lemma reparent_eq:
  assumes "initproc s = Some r" "n < length (procs s)"
  shows "reparent p n s = s\<lparr>procs := map (pass_one p r n (procs s)) [0..<length (procs s)]\<rparr>"
proof (cases "p_parent (procs s ! n) = Some p")
  case True
  let ?q = "(procs s ! n)\<lparr>p_parent := Some r\<rparr>"
  have nth: "(procs s)[n := ?q] ! i = (if i = n then ?q else procs s ! i)" for i
    using assms(2) by (simp add: nth_list_update)
  show ?thesis
  proof (cases "p_state (procs s ! n) = ZOMBIE")
    case z: True
    have "reparent p n s = s\<lparr>procs := map (\<lambda>q. if waiting r q then q\<lparr>p_state := RUNNABLE\<rparr> else q) ((procs s)[n := ?q])\<rparr>"
      using assms True z by (simp add: reparent_def wakeup_proc_def wakeup1_def upd_proc_def waiting_def)
    moreover have "map (\<lambda>q. if waiting r q then q\<lparr>p_state := RUNNABLE\<rparr> else q) ((procs s)[n := ?q]) =
        map (pass_one p r n (procs s)) [0..<length (procs s)]"
      using True z by (intro nth_equalityI) (simp_all add: nth pass_one_def Let_def zombie_child_def waiting_def)
    ultimately show ?thesis
      by (simp only:)
  next
    case z: False
    have "reparent p n s = s\<lparr>procs := (procs s)[n := ?q]\<rparr>"
      using assms True z by (simp add: reparent_def upd_proc_def)
    moreover have "(procs s)[n := ?q] = map (pass_one p r n (procs s)) [0..<length (procs s)]"
      using True z by (intro nth_equalityI) (simp_all add: nth pass_one_def Let_def zombie_child_def)
    ultimately show ?thesis
      by (simp only:)
  qed
next
  case False
  have "map (pass_one p r n (procs s)) [0..<length (procs s)] = procs s"
    using False by (intro nth_equalityI) (auto simp: zombie_child_def pass_one_def Let_def)
  then show ?thesis
    using False by (simp add: reparent_def)
qed

lemma pass_one_passed:
  assumes "i < length ps" "n < length ps" "r \<noteq> p"
  shows "pass_one p r n (map (passed_on p r n ps) [0..<length ps]) i = passed_on p r (Suc n) ps i"
proof -
  have z: "zombie_child p (passed_on p r n ps n) = zombie_child p (ps ! n)"
    by (auto simp: zombie_child_def passed_on_def Let_def waiting_def)
  have e: "(\<exists>j<Suc n. zombie_child p (ps ! j)) \<longleftrightarrow> (\<exists>j<n. zombie_child p (ps ! j)) \<or> zombie_child p (ps ! n)"
    by (auto simp: less_Suc_eq)
  have i: "map (passed_on p r n ps) [0..<length ps] ! i = passed_on p r n ps i"
      "map (passed_on p r n ps) [0..<length ps] ! n = passed_on p r n ps n"
    using assms(1,2) by simp_all
  have l: "i < Suc n \<longleftrightarrow> i < n \<or> i = n"
    by auto
  define A where "A \<longleftrightarrow> (\<exists>j<n. zombie_child p (ps ! j))"
  obtain q where q: "q = ps ! i"
    by simp
  show ?thesis
    unfolding pass_one_def i z unfolding Let_def passed_on_def e l A_def [symmetric] q [symmetric]
    using assms(3) by (cases A; cases "waiting r q") (auto simp: waiting_def)
qed

lemma fold_reparent:
  assumes "initproc s = Some r" "n \<le> length (procs s)" "r \<noteq> p"
  shows "fold (reparent p) [0..<n] s = s\<lparr>procs := map (passed_on p r n (procs s)) [0..<length (procs s)]\<rparr>"
  using assms
proof (induction n)
  case 0
  have "map (passed_on p r 0 (procs s)) [0..<length (procs s)] = procs s"
    by (rule nth_equalityI) (simp_all add: passed_on_def)
  then show ?case
    by simp
next
  case (Suc n)
  let ?ps = "map (passed_on p r n (procs s)) [0..<length (procs s)]"
  have "map (pass_one p r n ?ps) [0..<length (procs s)] = map (passed_on p r (Suc n) (procs s)) [0..<length (procs s)]"
    using Suc.prems by (simp add: pass_one_passed)
  then show ?case
    using Suc reparent_eq [of "s\<lparr>procs := ?ps\<rparr>" r n p] by simp
qed

lemma exit_finish_procs:
  assumes "initproc s = Some r" "length (procs s) = NPROC" "r \<noteq> p" "p_state (procs s ! p) = RUNNING" "p < NPROC"
    "p_parent (procs s ! p) = Some f" "i < NPROC"
  shows "procs (exit_finish p s) ! i = (let q = procs s ! i in
      q\<lparr>p_parent := (if p_parent q = Some p then Some r else p_parent q),
        p_state := (if i = p then ZOMBIE
          else if waiting f q \<or> waiting r q \<and> \<not> childless p (procs s) then RUNNABLE else p_state q)\<rparr>)"
proof -
  let ?w = "\<lambda>q. if waiting f q then q\<lparr>p_state := RUNNABLE\<rparr> else q"
  have w: "wakeup_proc (Some f) s = s\<lparr>procs := map ?w (procs s)\<rparr>"
    by (simp add: wakeup_proc_def wakeup1_def waiting_def)
  have z: "zombie_child p (?w q) = zombie_child p q" for q
    by (simp add: zombie_child_def waiting_def)
  define M where "M = map (passed_on p r NPROC (map ?w (procs s))) [0..<NPROC]"
  have M: "length M = NPROC" "M ! j = passed_on p r NPROC (map ?w (procs s)) j" if "j < NPROC" for j
    using that by (simp_all add: M_def del: upt_rec_numeral)
  have "fold (reparent p) [0..<NPROC] (wakeup_proc (Some f) s) = s\<lparr>procs := M\<rparr>"
    using fold_reparent [of "s\<lparr>procs := map ?w (procs s)\<rparr>" r NPROC p] assms(1,2,3)
    by (simp add: w M_def del: upt_rec_numeral)
  then have "exit_finish p s = sched (upd_proc p (\<lambda>q. q\<lparr>p_state := ZOMBIE\<rparr>) (s\<lparr>procs := M\<rparr>))"
    by (simp only: exit_finish_def Let_def assms(6))
  then have X: "procs (exit_finish p s) ! i = (if i = p then (passed_on p r NPROC (map ?w (procs s)) p)\<lparr>p_state := ZOMBIE\<rparr>
      else passed_on p r NPROC (map ?w (procs s)) i)"
    using assms(5,7) M by (simp add: sched_def nth_list_update)
  have e: "(\<exists>j<NPROC. zombie_child p (map ?w (procs s) ! j)) \<longleftrightarrow> \<not> childless p (procs s)"
    using assms(2) by (auto simp: childless_def z)
  have v: "passed_on p r NPROC (map ?w (procs s)) j = (let q = ?w (procs s ! j) in
      q\<lparr>p_parent := (if p_parent q = Some p then Some r else p_parent q),
        p_state := (if waiting r q \<and> \<not> childless p (procs s) then RUNNABLE else p_state q)\<rparr>)" if "j < NPROC" for j
    using that assms(2) unfolding passed_on_def e by (simp only: nth_map simp_thms)
  have nw: "\<not> waiting f (procs s ! p)" "\<not> waiting r (procs s ! p)" "\<not> waiting r (q\<lparr>p_state := RUNNABLE\<rparr>)" for q
    using assms(4) by (simp_all add: waiting_def)
  show ?thesis
  proof (cases "i = p")
    case True
    then show ?thesis
      unfolding X v [OF assms(5)] by (simp add: nw Let_def)
  next
    case False
    then show ?thesis
      unfolding X v [OF assms(7)] by (cases "waiting f (procs s ! i)") (simp_all add: nw)
  qed
qed

lemma exit_family:
  assumes fam: "family (procs s)" and P: "initproc s = Some 0" "length (procs s) = NPROC"
    and r: "p < NPROC" "p_state (procs s ! p) = RUNNING" "p \<noteq> 0" and f: "p_parent (procs s ! p) = Some f"
  shows "family (procs (exit_finish p s))"
proof (rule familyI)
  let ?t = "exit_finish p s"
  note F = familyD [OF fam]
  note n = exit_finish_procs [OF P r(3) [symmetric] r(2,1) f, unfolded Let_def]
  have live: "live (procs ?t ! i)" if "i < NPROC" "live (procs s ! i)" "i \<noteq> p" for i
    using that by (simp add: n live_def)
  show z: "live (procs ?t ! 0)"
    using F(1) r(3) by (intro live) auto
  show "k < NPROC \<and> live (procs ?t ! k)" if i: "i < NPROC" "p_parent (procs ?t ! i) = Some k" for i k
    using i z F(2) [OF i(1), of k] live [of k] by (auto simp: n split: if_splits)
  show "p_parent (procs ?t ! i) \<noteq> None" if "i < NPROC" "i \<noteq> 0" "started (procs ?t ! i)" for i
    using that F(3) [OF that(1,2)] r(2) by (auto simp: n started_def waiting_def split: if_splits)
  show "childless k (procs ?t)" if k: "k < NPROC" "waiting k (procs ?t ! k)" for k
  proof -
    have a: "waiting k (procs s ! k)" "k \<noteq> p" "k \<noteq> f" "k = 0 \<Longrightarrow> childless p (procs s)"
      using k by (auto simp: n waiting_def split: if_splits)
    have "zombie_child k (procs s ! i) \<or> k = 0 \<and> zombie_child p (procs s ! i)"
      if "i < NPROC" "zombie_child k (procs ?t ! i)" for i
      using that a(3) f F(6) [OF r(1)] by (auto simp: n zombie_child_def split: if_splits)
    then show ?thesis
      using F(4) [OF k(1) a(1)] a(4) by (auto simp: childless_def)
  qed
  show "p_parent (procs ?t ! 0) = None"
    using F(5) by (simp add: n)
  show "p_parent (procs ?t ! i) \<noteq> Some i" if "i < NPROC" for i
    using F(5) F(6) [OF that] that by (cases "i = 0") (auto simp: n)
qed

lemma ptable_inv_pointwise:
  assumes inv: "ptable_inv s" and len: "length (procs t) = NPROC" and "nextpid t = nextpid s" "cpu_proc t = cpu_proc s"
    and same: "\<And>i. i < NPROC \<Longrightarrow> p_pid (procs t ! i) = p_pid (procs s ! i) \<and>
      (p_state (procs t ! i) = UNUSED \<longleftrightarrow> p_state (procs s ! i) = UNUSED) \<and>
      (p_state (procs t ! i) = RUNNING \<longleftrightarrow> p_state (procs s ! i) = RUNNING) \<and>
      (p_state (procs t ! i) = SLEEPING \<longrightarrow> p_chan (procs t ! i) \<noteq> None)"
  shows "ptable_inv t"
proof -
  note I = ptable_invD [OF inv]
  have "pids_distinct (procs t)"
    using I(1,4) same len by (simp add: pids_distinct_def)
  moreover have "cpus_ok (cpu_proc s) (procs t)"
    using cpus_okD [OF I(5)] same I(1) len by (intro cpus_okI) auto
  moreover have "proc_ok (nextpid s) (procs t ! i)" if "i < NPROC" for i
    using I(3) [OF that] same [OF that] by (auto simp: proc_ok_def)
  ultimately show ?thesis
    using I(2) assms(2-4) by (simp add: ptable_inv_def)
qed

text \<open>\<open>exit_finish\<close> without the switch to the scheduler.\<close>

lemma exit_finish_sched:
  assumes "initproc s = Some r" "length (procs s) = NPROC" "r \<noteq> p" "p_parent (procs s ! p) = Some f"
  shows "\<exists>M. length M = NPROC \<and> exit_finish p s = sched (upd_proc p (\<lambda>q. q\<lparr>p_state := ZOMBIE\<rparr>) (s\<lparr>procs := M\<rparr>)) \<and>
    (\<forall>i<NPROC. p_pid (M ! i) = p_pid (procs s ! i) \<and> p_chan (M ! i) = p_chan (procs s ! i) \<and>
      (p_state (M ! i) = p_state (procs s ! i) \<or> p_state (procs s ! i) = SLEEPING \<and> p_state (M ! i) = RUNNABLE))"
proof -
  let ?w = "\<lambda>q. if waiting f q then q\<lparr>p_state := RUNNABLE\<rparr> else q"
  let ?M = "map (passed_on p r NPROC (map ?w (procs s))) [0..<NPROC]"
  have w: "wakeup_proc (Some f) s = s\<lparr>procs := map ?w (procs s)\<rparr>"
    by (simp add: wakeup_proc_def wakeup1_def waiting_def)
  have "fold (reparent p) [0..<NPROC] (wakeup_proc (Some f) s) = s\<lparr>procs := ?M\<rparr>"
    using fold_reparent [of "s\<lparr>procs := map ?w (procs s)\<rparr>" r NPROC p] assms(1,2,3)
    by (simp add: w del: upt_rec_numeral)
  then have "exit_finish p s = sched (upd_proc p (\<lambda>q. q\<lparr>p_state := ZOMBIE\<rparr>) (s\<lparr>procs := ?M\<rparr>))"
    by (simp only: exit_finish_def Let_def assms(4))
  moreover have "p_pid (?M ! i) = p_pid (procs s ! i) \<and> p_chan (?M ! i) = p_chan (procs s ! i) \<and>
      (p_state (?M ! i) = p_state (procs s ! i) \<or> p_state (procs s ! i) = SLEEPING \<and> p_state (?M ! i) = RUNNABLE)"
    if "i < NPROC" for i
    using that assms(2) by (simp add: passed_on_def Let_def waiting_def del: upt_rec_numeral)
  ultimately show ?thesis
    by (intro exI [of _ ?M]) (simp del: upt_rec_numeral)
qed

lemma exit_life_inv:
  assumes inv: "life_inv s" and p: "myproc s = Some p" "initproc s \<noteq> Some p"
  shows "life_inv (exit_finish p s)"
proof -
  have P: "ptable_inv s" "initproc s = Some 0" "length (procs s) = NPROC" and fam: "family (procs s)"
    using inv by (simp_all add: life_inv_def ptable_inv_def)
  note r = running_entry [OF P(1) p(1)]
  have p0: "p \<noteq> 0"
    using p(2) P(2) by auto
  obtain f where f: "p_parent (procs s ! p) = Some f"
    using familyD(3) [OF fam r(1) p0] r(2) by (auto simp: started_def)
  obtain M where M: "length M = NPROC" "exit_finish p s = sched (upd_proc p (\<lambda>q. q\<lparr>p_state := ZOMBIE\<rparr>) (s\<lparr>procs := M\<rparr>))"
    "\<And>i. i < NPROC \<Longrightarrow> p_pid (M ! i) = p_pid (procs s ! i) \<and> p_chan (M ! i) = p_chan (procs s ! i) \<and>
      (p_state (M ! i) = p_state (procs s ! i) \<or> p_state (procs s ! i) = SLEEPING \<and> p_state (M ! i) = RUNNABLE)"
    using exit_finish_sched [OF P(2,3) p0 [symmetric] f] by blast
  have t: "ptable_inv (s\<lparr>procs := M\<rparr>)"
  proof (rule ptable_inv_pointwise [OF P(1)])
    fix i
    assume "i < NPROC"
    then show "p_pid (procs (s\<lparr>procs := M\<rparr>) ! i) = p_pid (procs s ! i) \<and>
      (p_state (procs (s\<lparr>procs := M\<rparr>) ! i) = UNUSED \<longleftrightarrow> p_state (procs s ! i) = UNUSED) \<and>
      (p_state (procs (s\<lparr>procs := M\<rparr>) ! i) = RUNNING \<longleftrightarrow> p_state (procs s ! i) = RUNNING) \<and>
      (p_state (procs (s\<lparr>procs := M\<rparr>) ! i) = SLEEPING \<longrightarrow> p_chan (procs (s\<lparr>procs := M\<rparr>) ! i) \<noteq> None)"
      using M(3) [of i] ptable_invD(3) [OF P(1), of i] by (auto simp: proc_ok_def)
  qed (simp_all add: M(1))
  have "ptable_inv (exit_finish p s)"
    unfolding M(2) using p(1) M(3) [OF r(1)] ptable_invD(3) [OF t r(1)] r(2)
    by (intro sched_stop_inv [OF t]) (auto simp: proc_ok_def myproc_def)
  moreover have "family (procs (exit_finish p s))"
    by (rule exit_family [OF fam P(2,3) r p0 f])
  ultimately show ?thesis
    using P(2) by (simp add: life_inv_def M(2) sched_def)
qed

lemma pstep_inv: "pstep s t \<Longrightarrow> life_inv s \<Longrightarrow> life_inv t"
proof (induction rule: pstep.induct)
  case (on_cpu s c)
  then show ?case
    by (simp add: life_inv_def ptable_inv_def)
qed (auto intro: alloc_inv fork_fails_inv fork_done_inv wake_inv kill_life_inv sleep_life_inv awake_inv yield_life_inv
    schedule_life_inv exit_life_inv reap_inv)

lemma after_userinit_inv: "after_userinit s \<Longrightarrow> life_inv s"
proof -
  assume a: "after_userinit s"
  have st: "p_state (procs s ! i) = (if i = 0 then RUNNABLE else UNUSED)" if "i < NPROC" for i
    using a that by (simp add: after_userinit_def)
  have "ptable_inv s"
    using a st by (simp add: after_userinit_def ptable_inv_def proc_ok_def pids_distinct_def cpus_ok_def)
  moreover have "family (procs s)"
    using a st by (intro familyI) (auto simp: after_userinit_def live_def started_def waiting_def split: if_splits)
  ultimately show ?thesis
    using a by (simp add: life_inv_def after_userinit_def)
qed

lemma reachable_inv: "pstep\<^sup>*\<^sup>* s t \<Longrightarrow> after_userinit s \<Longrightarrow> life_inv t"
  by (induction rule: rtranclp_induct) (auto intro: pstep_inv after_userinit_inv)

section \<open>Properties\<close>


text \<open>
  C26: every exited process has a living parent that is not asleep in \<^verbatim>\<open>wait\<close>, in every state the kernel
  can reach and even if its first parent has exited: no exit is missed, and the next \<^verbatim>\<open>wait\<close> of the
  parent finds an exited child.
\<close>

theorem no_exit_missed:
  assumes "after_userinit s" "pstep\<^sup>*\<^sup>* s t" "i < NPROC" "p_state (procs t ! i) = ZOMBIE"
  shows "\<exists>f<NPROC. p_parent (procs t ! i) = Some f \<and> live (procs t ! f) \<and> \<not> waiting f (procs t ! f) \<and>
    (\<exists>c. first_index (zombie_child f) (procs t) = Some c)"
proof -
  have inv: "family (procs t)" "length (procs t) = NPROC"
    using reachable_inv [OF assms(2,1)] by (simp_all add: life_inv_def ptable_inv_def)
  note F = familyD [OF inv(1)]
  have "i \<noteq> 0"
    using F(1) assms(4) by (cases "i = 0") (simp_all add: live_def)
  then obtain f where f: "p_parent (procs t ! i) = Some f"
    using F(3) [OF assms(3)] assms(4) by (auto simp: started_def)
  then have z: "zombie_child f (procs t ! i)"
    using assms(4) by (simp add: zombie_child_def)
  then have "first_index (zombie_child f) (procs t) \<noteq> None"
    using assms(3) inv(2) by (auto simp: first_index_None all_set_conv_all_nth)
  moreover have "\<not> waiting f (procs t ! f)"
    using F(2) [OF assms(3) f] F(4) [of f] z assms(3) by (auto simp: childless_def)
  ultimately show ?thesis
    using f F(2) [OF assms(3) f] by auto
qed

text \<open>A run in which \<^verbatim>\<open>init\<close> forks a child and waits for it, and the child exits.\<close>

definition booted :: ptable_state where
  "booted = boot_ptable\<lparr>procs := (replicate NPROC no_proc)[0 := no_proc\<lparr>p_state := RUNNABLE, p_pid := 1,
     p_kstack := 0x80300000, p_pgdir := 0x80301000\<rparr>], nextpid := 2, initproc := Some 0\<rparr>"

lemma booted_init: "after_userinit booted"
  by (auto simp: after_userinit_def booted_def boot_ptable_def no_proc_def nth_list_update)

definition init_runs :: "ptable_state" where
  "init_runs = booted\<lparr>cpu_proc := (cpu_proc booted)(0 := Some 0),
     procs := (procs booted)[0 := (procs booted ! 0)\<lparr>p_state := RUNNING\<rparr>]\<rparr>"

lemma init_runs_step: "pstep booted init_runs"
proof (rule pstep.schedule [of booted 0 True])
  show "scheduler_at 0 booted = Ret True init_runs"
    by (simp add: scheduler_at_def switchuvm_def init_runs_def upd_proc_def booted_def boot_ptable_def)
qed (simp_all add: booted_def boot_ptable_def myproc_def)

lemma init_allocs:
  "\<exists>t. allocproc init_runs = Ret (Some 1) t \<and> p_state (procs t ! 1) = EMBRYO \<and> p_kstack (procs t ! 1) = 0x80400000 \<and>
     procs t ! 0 = procs init_runs ! 0 \<and> length (procs t) = NPROC \<and> cpu_proc t = cpu_proc init_runs \<and> this_cpu t = 0 \<and>
     initproc t = Some 0 \<and> (\<forall>i<NPROC. p_state (procs t ! i) \<noteq> ZOMBIE)"
proof -
  have "first_index (\<lambda>p. p_state p = UNUSED) (procs init_runs) = Some 1"
    by (simp add: first_index_Some init_runs_def booted_def no_proc_def nth_list_update del: replicate.simps)
  moreover have "freelist init_runs = 0x80400000" "length (procs init_runs) = NPROC" "this_cpu init_runs = 0" "initproc init_runs = Some 0"
    by (simp_all add: init_runs_def booted_def boot_ptable_def)
  moreover have "p_state (procs init_runs ! i) \<noteq> ZOMBIE" if "i < NPROC" for i
    using that by (simp add: init_runs_def booted_def no_proc_def nth_list_update del: replicate.simps)
  ultimately show ?thesis
    by (simp add: allocproc_def Let_def kalloc_def nth_list_update)
qed

lemma child_exits:
  "\<exists>t. pstep\<^sup>*\<^sup>* booted t \<and> p_state (procs t ! 1) = ZOMBIE \<and> p_parent (procs t ! 1) = Some 0"
proof -
  obtain a where a: "allocproc init_runs = Ret (Some 1) a" "p_state (procs a ! 1) = EMBRYO" "p_kstack (procs a ! 1) = 0x80400000"
      "procs a ! 0 = procs init_runs ! 0" "length (procs a) = NPROC" "cpu_proc a = cpu_proc init_runs" "this_cpu a = 0"
      "initproc a = Some 0" "\<And>i. i < NPROC \<Longrightarrow> p_state (procs a ! i) \<noteq> ZOMBIE"
    using init_allocs by blast
  have c: "cpu_proc a 0 = Some 0"
    by (simp add: a(6) init_runs_def)
  define b where "b = upd_proc 1 (\<lambda>q. q\<lparr>p_pgdir := 4096, p_sz := 4096, p_parent := Some 0, p_state := RUNNABLE\<rparr>) a"
  define w where "w = sched (upd_proc 0 (\<lambda>q. q\<lparr>p_chan := Some (ChanProc 0), p_state := SLEEPING\<rparr>) b)"
  define r where "r = upd_proc 1 (\<lambda>q. q\<lparr>p_state := RUNNING\<rparr>) (w\<lparr>cpu_proc := (cpu_proc w)(0 := Some 1)\<rparr>)"
  have "pstep init_runs a"
    by (rule pstep.alloc [OF a(1)])
  moreover have "pstep a b"
    unfolding b_def using a(2) by (intro pstep.fork_done) (simp_all add: myproc_def c a(7))
  moreover have "pstep b w"
  proof (rule pstep.sleep [of "ChanProc 0" b "ChanProc 0" w])
    show "(sleep (ChanProc 0) b :: (unit, ptable_state) kres) = Sleeping (ChanProc 0) w"
      by (simp add: sleep_def myproc_def b_def c a(7) w_def)
    show "first_index (zombie_child p) (procs b) = None" for p
      using a(5,9) by (auto simp: first_index_None all_set_conv_all_nth b_def nth_list_update zombie_child_def)
  qed
  moreover have "pstep w r"
  proof (rule pstep.schedule [of w 1 True])
    show "scheduler_at 1 w = Ret True r"
      using a by (simp add: scheduler_at_def switchuvm_def w_def b_def r_def sched_def)
  qed (simp_all add: w_def b_def sched_def myproc_def a)
  moreover have "pstep r (exit_finish 1 r)"
    by (rule pstep.exit) (simp_all add: r_def w_def b_def sched_def myproc_def a)
  ultimately have "pstep\<^sup>*\<^sup>* booted (exit_finish 1 r)"
    using init_runs_step by (meson rtranclp.rtrancl_into_rtrancl rtranclp.rtrancl_refl)
  moreover have "p_state (procs (exit_finish 1 r) ! 1) = ZOMBIE" "p_parent (procs (exit_finish 1 r) ! 1) = Some 0"
    using exit_finish_procs [of r 0 1 0 1] a by (simp_all add: r_def w_def b_def sched_def)
  ultimately show ?thesis
    by blast
qed


theorem no_exit_missed_witness:
  "\<exists>t. pstep\<^sup>*\<^sup>* booted t \<and> p_state (procs t ! 1) = ZOMBIE \<and> live (procs t ! 0) \<and> \<not> waiting 0 (procs t ! 0)"
proof -
  obtain t where t: "pstep\<^sup>*\<^sup>* booted t" "p_state (procs t ! 1) = ZOMBIE" "p_parent (procs t ! 1) = Some 0"
    using child_exits by blast
  show ?thesis
    using t no_exit_missed [OF booted_init t(1) _ t(2)] by auto
qed

text \<open>
  C28: unused entries of the table have pid 0, so \<^verbatim>\<open>kill(0)\<close> succeeds and marks one of them as killed.
  \<^verbatim>\<open>allocproc\<close> does not clear the mark: the next process created is killed before it runs.
\<close>

theorem kill_zero_hits_next_process:
  assumes "ptable_inv s" "first_index (\<lambda>q. p_state q = UNUSED) (procs s) = Some c" "p_pid (procs s ! c) = 0"
  shows "okr (kill 0 s) (\<lambda>r t. r = 0 \<and>
    okr (allocproc t) (\<lambda>k u. (k = Some c \<or> k = None) \<and> p_killed (procs u ! c)))"
proof -
  note I = ptable_invD [OF assms(1)]
  have c: "c < NPROC" "p_state (procs s ! c) = UNUSED" "\<And>j. j < c \<Longrightarrow> p_state (procs s ! j) \<noteq> UNUSED"
    using assms(2) I(1) by (auto simp: first_index_Some)
  then have "p_pid (procs s ! j) \<noteq> 0" if "j < c" for j
    using I(3) [of j] that by (auto simp: proc_ok_def)
  then have "first_index (\<lambda>p. p_pid p = 0) (procs s) = Some c"
    using c(1) assms(3) I(1) by (simp add: first_index_Some)
  then have k: "kill 0 s = Ret 0 (s\<lparr>procs := (procs s)[c := (procs s ! c)\<lparr>p_killed := True, p_state := UNUSED\<rparr>]\<rparr>)"
    using c(2) by (simp add: kill_def upd_proc_def)
  have "first_index (\<lambda>q. p_state q = UNUSED) ((procs s)[c := (procs s ! c)\<lparr>p_killed := True, p_state := UNUSED\<rparr>]) = Some c"
    using c I(1) by (auto simp: first_index_Some nth_list_update)
  then show ?thesis
    using c(1) I(1) by (simp add: k allocproc_def Let_def kalloc_def)
qed

theorem kill_zero_hits_next_process_witness:
  "okr (kill 0 boot_ptable) (\<lambda>r t. okr (allocproc t) (\<lambda>k u. p_killed (procs u ! 0)))"
proof -
  have "first_index (\<lambda>q. p_state q = UNUSED) (procs boot_ptable) = Some 0" "p_pid (procs boot_ptable ! 0) = 0"
    by (simp_all add: first_index_Some boot_ptable_def no_proc_def del: replicate.simps)
  from kill_zero_hits_next_process [OF boot_ptable_inv(1) this] show ?thesis
    by (auto elim!: okr_mono)
qed

end
