(* ===== verification/Spinlock.thy ===== *)
theory Spinlock
  imports Layout
begin

text \<open>
  Spin locks and interrupt masking, \<^verbatim>\<open>spinlock.c\<close>, and the identification of a CPU, \<^verbatim>\<open>mycpu\<close> of
  \<^verbatim>\<open>proc.c\<close>. A CPU is named by its local APIC number, which is what the hardware tells it; a lock by
  a number. \<open>eflags_if\<close> is the interrupt flag of each CPU. The debugging fields of a lock (its name
  and the call stack) are not modelled.

  The other theories take a critical section as one atomic step. This theory justifies that: the
  step relation \<open>lstep\<close> interleaves the single memory accesses of \<^verbatim>\<open>acquire\<close> and \<^verbatim>\<open>release\<close> on all
  CPUs, and in every reachable state at most one CPU is inside a critical section of a lock, with
  its interrupts off.
\<close>

section \<open>State and operations\<close>

record cpu =
  apicid :: u8
  ncli :: int
  intena :: bool

record spinlock =
  locked :: bool
  lk_cpu :: "nat option"

record lock_state =
  cpus :: "cpu list"
  eflags_if :: "u8 \<Rightarrow> bool"
  locks :: "nat \<Rightarrow> spinlock"

definition initlock :: "nat \<Rightarrow> lock_state \<Rightarrow> lock_state" where
  "initlock l s = s\<lparr>locks := (locks s)(l := \<lparr>locked = False, lk_cpu = None\<rparr>)\<rparr>"

definition mycpu :: "u8 \<Rightarrow> lock_state \<Rightarrow> (nat, lock_state) kres" where
  "mycpu a s =
     (if eflags_if s a then Panic ''mycpu called with interrupts enabled''
      else case first_index (\<lambda>c. apicid c = a) (cpus s) of
             None \<Rightarrow> Panic ''unknown apicid''
           | Some i \<Rightarrow> Ret i s)"

definition upd_cpu :: "nat \<Rightarrow> (cpu \<Rightarrow> cpu) \<Rightarrow> lock_state \<Rightarrow> lock_state" where
  "upd_cpu c f s = s\<lparr>cpus := (cpus s)[c := f (cpus s ! c)]\<rparr>"

definition pushcli :: "u8 \<Rightarrow> lock_state \<Rightarrow> (unit, lock_state) kres" where
  "pushcli a s =
     (let eflags = eflags_if s a;
          s = s\<lparr>eflags_if := (eflags_if s)(a := False)\<rparr>
      in bindr (mycpu a s) (\<lambda>c s.
           let s = (if ncli (cpus s ! c) = 0 then upd_cpu c (\<lambda>x. x\<lparr>intena := eflags\<rparr>) s else s)
           in Ret () (upd_cpu c (\<lambda>x. x\<lparr>ncli := ncli x + 1\<rparr>) s)))"

definition popcli :: "u8 \<Rightarrow> lock_state \<Rightarrow> (unit, lock_state) kres" where
  "popcli a s =
     (if eflags_if s a then Panic ''popcli - interruptible''
      else bindr (mycpu a s) (\<lambda>c s.
        let s = upd_cpu c (\<lambda>x. x\<lparr>ncli := ncli x - 1\<rparr>) s
        in if ncli (cpus s ! c) < 0 then Panic ''popcli''
           else Ret () (if ncli (cpus s ! c) = 0 \<and> intena (cpus s ! c)
                        then s\<lparr>eflags_if := (eflags_if s)(a := True)\<rparr> else s)))"

definition holding :: "u8 \<Rightarrow> nat \<Rightarrow> lock_state \<Rightarrow> (bool, lock_state) kres" where
  "holding a l s =
     bindr (pushcli a s) (\<lambda>_ s.
     bindr (mycpu a s) (\<lambda>c s.
       let r = (locked (locks s l) \<and> lk_cpu (locks s l) = Some c)
       in bindr (popcli a s) (\<lambda>_ s. Ret r s)))"

text \<open>
  \<^verbatim>\<open>acquire\<close> in its three stages: up to the loop, one turn of the loop (an atomic exchange, true when
  the lock was free), and the record of the owner.
\<close>

definition acquire_enter :: "u8 \<Rightarrow> nat \<Rightarrow> lock_state \<Rightarrow> (unit, lock_state) kres" where
  "acquire_enter a l s =
     bindr (pushcli a s) (\<lambda>_ s.
     bindr (holding a l s) (\<lambda>h s. if h then Panic ''acquire'' else Ret () s))"

definition acquire_try :: "nat \<Rightarrow> lock_state \<Rightarrow> bool \<times> lock_state" where
  "acquire_try l s = (\<not> locked (locks s l), s\<lparr>locks := (locks s)(l := (locks s l)\<lparr>locked := True\<rparr>)\<rparr>)"

definition acquire_record :: "u8 \<Rightarrow> nat \<Rightarrow> lock_state \<Rightarrow> (unit, lock_state) kres" where
  "acquire_record a l s =
     bindr (mycpu a s) (\<lambda>c s. Ret () (s\<lparr>locks := (locks s)(l := (locks s l)\<lparr>lk_cpu := Some c\<rparr>)\<rparr>))"

text \<open>\<^verbatim>\<open>release\<close> in two: up to clearing the owner, then the store to the lock word.\<close>

definition release_start :: "u8 \<Rightarrow> nat \<Rightarrow> lock_state \<Rightarrow> (unit, lock_state) kres" where
  "release_start a l s =
     bindr (holding a l s) (\<lambda>h s.
       if \<not> h then Panic ''release''
       else Ret () (s\<lparr>locks := (locks s)(l := (locks s l)\<lparr>lk_cpu := None\<rparr>)\<rparr>))"

definition release_finish :: "u8 \<Rightarrow> nat \<Rightarrow> lock_state \<Rightarrow> (unit, lock_state) kres" where
  "release_finish a l s =
     popcli a (s\<lparr>locks := (locks s)(l := (locks s l)\<lparr>locked := False\<rparr>)\<rparr>)"

section \<open>Nested masking\<close>

text \<open>
  The machine as the boot code leaves it: the CPUs have different APIC numbers. \<open>cli_ok\<close> relates the
  nesting depth to the interrupt flag.
\<close>

definition machine_ok :: "lock_state \<Rightarrow> bool" where
  "machine_ok s \<longleftrightarrow> distinct (map apicid (cpus s))"

definition cli_ok :: "lock_state \<Rightarrow> bool" where
  "cli_ok s \<longleftrightarrow> (\<forall>c<length (cpus s). 0 \<le> ncli (cpus s ! c) \<and>
     (0 < ncli (cpus s ! c) \<longrightarrow> \<not> eflags_if s (apicid (cpus s ! c))))"

lemma machine_apicid_eq:
  assumes "machine_ok s" "i < length (cpus s)" "j < length (cpus s)" "apicid (cpus s ! i) = apicid (cpus s ! j)"
  shows "i = j"
  using assms nth_eq_iff_index_eq [of "map apicid (cpus s)" i j] by (simp add: machine_ok_def)

lemma mycpu_eq:
  assumes "machine_ok s" "c < length (cpus s)" "a = apicid (cpus s ! c)" "\<not> eflags_if s a"
  shows "mycpu a s = Ret c s"
proof -
  have "first_index (\<lambda>x. apicid x = a) (cpus s) = Some c"
    unfolding first_index_Some using assms(2,3) machine_apicid_eq [OF assms(1)]
    by (metis less_trans nat_neq_iff)
  then show ?thesis
    using assms(4) by (simp add: mycpu_def)
qed

lemma upd_cpu_fields [simp]:
  "cpus (upd_cpu c f s) = (cpus s)[c := f (cpus s ! c)]" "eflags_if (upd_cpu c f s) = eflags_if s"
  "locks (upd_cpu c f s) = locks s"
  by (simp_all add: upd_cpu_def)

text \<open>The state after a \<^verbatim>\<open>pushcli\<close> on CPU \<open>c\<close>.\<close>

definition pushed :: "nat \<Rightarrow> lock_state \<Rightarrow> lock_state" where
  "pushed c s = s\<lparr>eflags_if := (eflags_if s)(apicid (cpus s ! c) := False),
     cpus := (cpus s)[c := (cpus s ! c)
       \<lparr>intena := (if ncli (cpus s ! c) = 0 then eflags_if s (apicid (cpus s ! c)) else intena (cpus s ! c)),
        ncli := ncli (cpus s ! c) + 1\<rparr>]\<rparr>"

lemma pushcli_eq:
  assumes "machine_ok s" "c < length (cpus s)"
  shows "pushcli (apicid (cpus s ! c)) s = Ret () (pushed c s)"
proof -
  let ?a = "apicid (cpus s ! c)"
  let ?t = "s\<lparr>eflags_if := (eflags_if s)(?a := False)\<rparr>"
  have "mycpu ?a ?t = Ret c ?t"
    using assms by (intro mycpu_eq) (auto simp: machine_ok_def)
  then show ?thesis
    using assms(2) by (simp add: pushcli_def upd_cpu_def pushed_def Let_def)
qed

lemma pushed_apicid [simp]: "i < length (cpus s) \<Longrightarrow> apicid (cpus (pushed c s) ! i) = apicid (cpus s ! i)"
  by (cases "c = i") (auto simp: pushed_def)

lemma map_upd_same: "f y = f (xs ! i) \<Longrightarrow> map f (xs[i := y]) = map f xs"
  by (cases "i < length xs") (simp_all add: map_update list_update_same_conv list_update_beyond)

lemma pushed_facts:
  assumes "c < length (cpus s)"
  shows "machine_ok (pushed c s) = machine_ok s" "length (cpus (pushed c s)) = length (cpus s)"
    "locks (pushed c s) = locks s" "\<not> eflags_if (pushed c s) (apicid (cpus s ! c))"
    "ncli (cpus (pushed c s) ! c) = ncli (cpus s ! c) + 1"
    "d \<noteq> c \<Longrightarrow> cpus (pushed c s) ! d = cpus s ! d"
  using assms by (simp_all add: pushed_def machine_ok_def map_upd_same)

text \<open>Looking at a lock while interrupts are masked changes nothing.\<close>

lemma popcli_eq:
  assumes "machine_ok s" "c < length (cpus s)" "\<not> eflags_if s (apicid (cpus s ! c))" "0 < ncli (cpus s ! c)"
  shows "popcli (apicid (cpus s ! c)) s = Ret ()
    ((upd_cpu c (\<lambda>x. x\<lparr>ncli := ncli x - 1\<rparr>) s)\<lparr>eflags_if := (eflags_if s)
       (apicid (cpus s ! c) := ncli (cpus s ! c) = 1 \<and> intena (cpus s ! c))\<rparr>)"
  using assms mycpu_eq [OF assms(1,2) refl assms(3)]
  by (auto simp: popcli_def Let_def upd_cpu_def fun_upd_idem)

lemma holding_masked:
  assumes "machine_ok s" "c < length (cpus s)" "\<not> eflags_if s (apicid (cpus s ! c))" "0 < ncli (cpus s ! c)"
  shows "holding (apicid (cpus s ! c)) l s = Ret (locked (locks s l) \<and> lk_cpu (locks s l) = Some c) s"
proof -
  note p = pushed_facts [OF assms(2)]
  have a: "apicid (cpus (pushed c s) ! c) = apicid (cpus s ! c)"
    using assms(2) by simp
  have "mycpu (apicid (cpus s ! c)) (pushed c s) = Ret c (pushed c s)"
    using assms p by (intro mycpu_eq) auto
  moreover have "popcli (apicid (cpus s ! c)) (pushed c s) = Ret () s"
    using popcli_eq [of "pushed c s" c] assms p a
    by (simp add: upd_cpu_def pushed_def fun_upd_idem list_update_id)
  ultimately show ?thesis
    using pushcli_eq [OF assms(1,2)] p(3) by (simp add: holding_def Let_def)
qed

section \<open>Interleaving\<close>

text \<open>
  Where each CPU is: running, in the loop of \<^verbatim>\<open>acquire\<close>, past the loop, or between the two stores of
  \<^verbatim>\<open>release\<close>. \<open>held c\<close> are the locks CPU \<open>c\<close> has acquired and not begun to release. A running CPU
  without locks may switch its interrupts on and off, as \<^verbatim>\<open>scheduler\<close> and the trap gates do.
\<close>

datatype cpu_pc = Running | Spinning nat | Acquired nat | Releasing nat

record lsys =
  ls :: lock_state
  pc :: "nat \<Rightarrow> cpu_pc"
  held :: "nat \<Rightarrow> nat list"

definition goto :: "nat \<Rightarrow> cpu_pc \<Rightarrow> lock_state \<Rightarrow> lsys \<Rightarrow> lsys" where
  "goto c p s S = S\<lparr>ls := s, pc := (pc S)(c := p)\<rparr>"

inductive lstep :: "lsys \<Rightarrow> lsys \<Rightarrow> bool" where
  enter: "c < length (cpus (ls S)) \<Longrightarrow> pc S c = Running \<Longrightarrow>
    acquire_enter (apicid (cpus (ls S) ! c)) l (ls S) = Ret () t \<Longrightarrow> lstep S (goto c (Spinning l) t S)"
| try_lock: "c < length (cpus (ls S)) \<Longrightarrow> pc S c = Spinning l \<Longrightarrow> acquire_try l (ls S) = (ok, t) \<Longrightarrow>
    lstep S (goto c (if ok then Acquired l else Spinning l) t S)"
| record_owner: "c < length (cpus (ls S)) \<Longrightarrow> pc S c = Acquired l \<Longrightarrow>
    acquire_record (apicid (cpus (ls S) ! c)) l (ls S) = Ret () t \<Longrightarrow>
    lstep S ((goto c Running t S)\<lparr>held := (held S)(c := l # held S c)\<rparr>)"
| start_release: "c < length (cpus (ls S)) \<Longrightarrow> pc S c = Running \<Longrightarrow>
    release_start (apicid (cpus (ls S) ! c)) l (ls S) = Ret () t \<Longrightarrow>
    lstep S ((goto c (Releasing l) t S)\<lparr>held := (held S)(c := remove1 l (held S c))\<rparr>)"
| finish_release: "c < length (cpus (ls S)) \<Longrightarrow> pc S c = Releasing l \<Longrightarrow>
    release_finish (apicid (cpus (ls S) ! c)) l (ls S) = Ret () t \<Longrightarrow> lstep S (goto c Running t S)"
| set_if: "c < length (cpus (ls S)) \<Longrightarrow> pc S c = Running \<Longrightarrow> ncli (cpus (ls S) ! c) = 0 \<Longrightarrow>
    lstep S (S\<lparr>ls := (ls S)\<lparr>eflags_if := (eflags_if (ls S))(apicid (cpus (ls S) ! c) := b)\<rparr>\<rparr>)"

inductive lreach :: "lsys \<Rightarrow> lsys \<Rightarrow> bool" where
  refl: "lreach S S"
| step: "lreach S T \<Longrightarrow> lstep T U \<Longrightarrow> lreach S U"

definition owns :: "lsys \<Rightarrow> nat \<Rightarrow> nat \<Rightarrow> bool" where
  "owns S l c \<longleftrightarrow> l \<in> set (held S c) \<or> pc S c = Acquired l \<or> pc S c = Releasing l"

definition depth :: "lsys \<Rightarrow> nat \<Rightarrow> int" where
  "depth S c = int (length (held S c)) + (if pc S c = Running then 0 else 1)"

text \<open>
  The invariant, in three parts: the masking depth of every CPU; what each CPU may hold at its control
  point; and the agreement of the lock words with the owners.
\<close>

definition masked_inv :: "lsys \<Rightarrow> bool" where
  "masked_inv S \<longleftrightarrow> machine_ok (ls S) \<and>
     (\<forall>c<length (cpus (ls S)). ncli (cpus (ls S) ! c) = depth S c \<and>
        (0 < depth S c \<longrightarrow> \<not> eflags_if (ls S) (apicid (cpus (ls S) ! c))))"

definition held_inv :: "lsys \<Rightarrow> bool" where
  "held_inv S \<longleftrightarrow> (\<forall>c<length (cpus (ls S)). distinct (held S c) \<and>
     (\<forall>l. pc S c = Spinning l \<or> pc S c = Acquired l \<or> pc S c = Releasing l \<longrightarrow> l \<notin> set (held S c)))"

definition owner_inv :: "lsys \<Rightarrow> bool" where
  "owner_inv S \<longleftrightarrow> (\<forall>l.
     (locked (locks (ls S) l) \<longleftrightarrow> (\<exists>c<length (cpus (ls S)). owns S l c)) \<and>
     (\<forall>c<length (cpus (ls S)). \<forall>d<length (cpus (ls S)). owns S l c \<longrightarrow> owns S l d \<longrightarrow> c = d) \<and>
     (\<forall>c. lk_cpu (locks (ls S) l) = Some c \<longleftrightarrow> c < length (cpus (ls S)) \<and> l \<in> set (held S c)))"

definition lock_inv :: "lsys \<Rightarrow> bool" where
  "lock_inv S \<longleftrightarrow> masked_inv S \<and> held_inv S \<and> owner_inv S"

text \<open>The effect of each operation in a state that satisfies the invariant.\<close>

lemma masked_invD:
  assumes "masked_inv S" "c < length (cpus (ls S))"
  shows "machine_ok (ls S)" "ncli (cpus (ls S) ! c) = depth S c"
    "0 < depth S c \<Longrightarrow> \<not> eflags_if (ls S) (apicid (cpus (ls S) ! c))"
  using assms by (simp_all add: masked_inv_def)

lemma acquire_enter_eq:
  assumes "masked_inv S" "c < length (cpus (ls S))"
  shows "acquire_enter (apicid (cpus (ls S) ! c)) l (ls S) =
     (if locked (locks (ls S) l) \<and> lk_cpu (locks (ls S) l) = Some c then Panic ''acquire''
      else Ret () (pushed c (ls S)))"
proof -
  let ?s = "ls S" and ?a = "apicid (cpus (ls S) ! c)"
  note m = masked_invD [OF assms] and p = pushed_facts [OF assms(2)]
  have "0 \<le> depth S c"
    by (simp add: depth_def)
  then have "holding ?a l (pushed c ?s) = Ret (locked (locks ?s l) \<and> lk_cpu (locks ?s l) = Some c) (pushed c ?s)"
    using holding_masked [of "pushed c ?s" c l] m p assms(2) by simp
  then show ?thesis
    using pushcli_eq [OF m(1) assms(2)] by (simp add: acquire_enter_def)
qed

lemma acquire_record_eq:
  assumes "masked_inv S" "c < length (cpus (ls S))" "pc S c = Acquired l"
  shows "acquire_record (apicid (cpus (ls S) ! c)) l (ls S) =
     Ret () ((ls S)\<lparr>locks := (locks (ls S))(l := (locks (ls S) l)\<lparr>lk_cpu := Some c\<rparr>)\<rparr>)"
  using masked_invD [OF assms(1,2)] assms(2,3) mycpu_eq [of "ls S" c]
  by (simp add: acquire_record_def depth_def)

lemma release_start_eq:
  assumes "masked_inv S" "c < length (cpus (ls S))" "l \<in> set (held S c)"
  shows "release_start (apicid (cpus (ls S) ! c)) l (ls S) =
     (if locked (locks (ls S) l) \<and> lk_cpu (locks (ls S) l) = Some c
      then Ret () ((ls S)\<lparr>locks := (locks (ls S))(l := (locks (ls S) l)\<lparr>lk_cpu := None\<rparr>)\<rparr>)
      else Panic ''release'')"
proof -
  have "0 < depth S c"
    using assms(3) by (cases "held S c") (auto simp: depth_def)
  then show ?thesis
    using masked_invD [OF assms(1,2)] assms(2) holding_masked [of "ls S" c l] by (simp add: release_start_def)
qed

lemma holding_result:
  assumes "machine_ok s" "c < length (cpus s)" "holding (apicid (cpus s ! c)) l s = Ret r t"
  shows "r \<longleftrightarrow> locked (locks s l) \<and> lk_cpu (locks s l) = Some c"
proof -
  note p = pushed_facts [OF assms(2)]
  have "mycpu (apicid (cpus s ! c)) (pushed c s) = Ret c (pushed c s)"
    using assms p by (intro mycpu_eq) auto
  then show ?thesis
    using assms(3) pushcli_eq [OF assms(1,2)] p(3) by (auto simp: holding_def Let_def bindr_eq_Ret)
qed

lemma holding_returns:
  assumes "machine_ok s" "c < length (cpus s)" "0 \<le> ncli (cpus s ! c)"
  shows "\<exists>r t. holding (apicid (cpus s ! c)) l s = Ret r t"
proof -
  note p = pushed_facts [OF assms(2)]
  have "mycpu (apicid (cpus s ! c)) (pushed c s) = Ret c (pushed c s)"
    using assms p by (intro mycpu_eq) auto
  then show ?thesis
    using pushcli_eq [OF assms(1,2)] popcli_eq [of "pushed c s" c] p assms
    by (simp add: holding_def Let_def)
qed

lemma release_start_held:
  assumes "lock_inv S" "c < length (cpus (ls S))" "release_start (apicid (cpus (ls S) ! c)) l (ls S) = Ret () t"
  shows "l \<in> set (held S c)"
proof -
  obtain u where u: "holding (apicid (cpus (ls S) ! c)) l (ls S) = Ret True u"
    using assms(3) by (auto simp: release_start_def bindr_eq_Ret split: if_splits)
  have "lk_cpu (locks (ls S) l) = Some c"
    using holding_result [OF _ assms(2) u] assms(1) by (simp add: lock_inv_def masked_inv_def)
  then show ?thesis
    using assms(1) by (auto simp: lock_inv_def owner_inv_def)
qed

lemma release_finish_eq:
  assumes "masked_inv S" "c < length (cpus (ls S))" "pc S c = Releasing l"
  shows "release_finish (apicid (cpus (ls S) ! c)) l (ls S) = Ret ()
    ((upd_cpu c (\<lambda>x. x\<lparr>ncli := ncli x - 1\<rparr>) (ls S))
      \<lparr>locks := (locks (ls S))(l := (locks (ls S) l)\<lparr>locked := False\<rparr>),
       eflags_if := (eflags_if (ls S))(apicid (cpus (ls S) ! c) :=
         ncli (cpus (ls S) ! c) = 1 \<and> intena (cpus (ls S) ! c))\<rparr>)"
  using popcli_eq [of "(ls S)\<lparr>locks := (locks (ls S))(l := (locks (ls S) l)\<lparr>locked := False\<rparr>)\<rparr>" c]
    masked_invD [OF assms(1,2)] assms(2,3)
  by (simp add: release_finish_def depth_def machine_ok_def upd_cpu_def)

text \<open>Preservation, step by step.\<close>

lemma depth_goto [simp]:
  "depth (goto c p s S) d = (if d = c then int (length (held S c)) + (if p = Running then 0 else 1) else depth S d)"
  by (simp add: depth_def goto_def)

lemma goto_fields [simp]:
  "ls (goto c p s S) = s" "pc (goto c p s S) = (pc S)(c := p)" "held (goto c p s S) = held S"
  by (simp_all add: goto_def)

lemma other_apicid:
  assumes "masked_inv S" "c < length (cpus (ls S))" "d < length (cpus (ls S))" "d \<noteq> c"
  shows "apicid (cpus (ls S) ! d) \<noteq> apicid (cpus (ls S) ! c)"
  using assms machine_apicid_eq [of "ls S" d c] by (auto simp: masked_inv_def)

lemma enter_inv:
  assumes "lock_inv S" "c < length (cpus (ls S))" "pc S c = Running"
    "acquire_enter (apicid (cpus (ls S) ! c)) l (ls S) = Ret () t"
  shows "lock_inv (goto c (Spinning l) t S)"
proof -
  have M: "masked_inv S" and H: "held_inv S" and O: "owner_inv S"
    using assms(1) by (simp_all add: lock_inv_def)
  note p = pushed_facts [OF assms(2)]
  have t: "t = pushed c (ls S)" and n: "\<not> (locked (locks (ls S) l) \<and> lk_cpu (locks (ls S) l) = Some c)"
    using assms(4) acquire_enter_eq [OF M assms(2), of l] by (auto split: if_splits)
  have "masked_inv (goto c (Spinning l) t S)"
    unfolding masked_inv_def
  proof (intro conjI allI impI)
    fix d assume d: "d < length (cpus (ls (goto c (Spinning l) t S)))"
    show "ncli (cpus (ls (goto c (Spinning l) t S)) ! d) = depth (goto c (Spinning l) t S) d"
      using d p masked_invD(2) [OF M] assms(2,3) by (cases "d = c") (simp_all add: t depth_def)
    assume "0 < depth (goto c (Spinning l) t S) d"
    then show "\<not> eflags_if (ls (goto c (Spinning l) t S)) (apicid (cpus (ls (goto c (Spinning l) t S)) ! d))"
      using d p masked_invD(3) [OF M] other_apicid [OF M assms(2)] assms(2)
      by (cases "d = c") (simp_all add: t, simp add: pushed_def)
  qed (use p masked_invD(1) [OF M assms(2)] t in simp)
  moreover have "l \<notin> set (held S c)"
    using n O assms(2) unfolding owner_inv_def owns_def by blast
  then have "held_inv (goto c (Spinning l) t S)"
    using H p unfolding held_inv_def t by auto
  moreover have "owns (goto c (Spinning l) t S) k d = owns S k d" for k d
    using assms(3) by (auto simp: owns_def)
  then have "owner_inv (goto c (Spinning l) t S)"
    using O p unfolding owner_inv_def t by simp
  ultimately show ?thesis
    by (simp add: lock_inv_def)
qed

text \<open>Steps that touch only a lock word and the control point keep the masking part.\<close>

lemma masked_inv_locks:
  assumes "masked_inv S" "ls T = (ls S)\<lparr>locks := k\<rparr>" "\<And>d. d < length (cpus (ls S)) \<Longrightarrow> depth T d = depth S d"
  shows "masked_inv T"
  using assms by (simp add: masked_inv_def machine_ok_def)

lemma try_inv:
  assumes "lock_inv S" "c < length (cpus (ls S))" "pc S c = Spinning l" "acquire_try l (ls S) = (ok, t)"
  shows "lock_inv (goto c (if ok then Acquired l else Spinning l) t S)"
proof -
  let ?T = "goto c (if ok then Acquired l else Spinning l) t S"
  have M: "masked_inv S" and H: "held_inv S" and O: "owner_inv S"
    using assms(1) by (simp_all add: lock_inv_def)
  have ok: "ok \<longleftrightarrow> \<not> locked (locks (ls S) l)"
    and t: "t = (ls S)\<lparr>locks := (locks (ls S))(l := (locks (ls S) l)\<lparr>locked := True\<rparr>)\<rparr>"
    using assms(4) by (auto simp: acquire_try_def)
  have "masked_inv ?T"
    by (rule masked_inv_locks [OF M]) (use assms(3) in \<open>auto simp: t depth_def\<close>)
  moreover have "held_inv ?T"
    using H assms(2,3) unfolding held_inv_def by (auto simp: t)
  moreover have own: "owns ?T k d \<longleftrightarrow> owns S k d \<or> (ok \<and> k = l \<and> d = c)" for k d
    using assms(3) by (auto simp: owns_def)
  have none: "\<not> owns S l d" if ok "d < length (cpus (ls S))" for d
    using O that ok unfolding owner_inv_def by blast
  have "owner_inv ?T"
    unfolding owner_inv_def own
  proof (intro allI conjI impI)
    fix k
    have "locked (locks (ls S) k) \<longleftrightarrow> (\<exists>d<length (cpus (ls S)). owns S k d)"
      using O unfolding owner_inv_def by blast
    then show "locked (locks (ls ?T) k) \<longleftrightarrow> (\<exists>d<length (cpus (ls ?T)). owns S k d \<or> ok \<and> k = l \<and> d = c)"
      using assms(2) ok by (cases "k = l") (auto simp: t)
  next
    fix k d e
    assume "d < length (cpus (ls ?T))" "e < length (cpus (ls ?T))"
      "owns S k d \<or> ok \<and> k = l \<and> d = c" "owns S k e \<or> ok \<and> k = l \<and> e = c"
    then show "d = e"
      using O none unfolding owner_inv_def t by auto
  next
    fix k d
    show "lk_cpu (locks (ls ?T) k) = Some d \<longleftrightarrow> d < length (cpus (ls ?T)) \<and> k \<in> set (held ?T d)"
      using O unfolding owner_inv_def by (auto simp: t)
  qed
  ultimately show ?thesis
    by (simp add: lock_inv_def)
qed

lemma record_inv:
  assumes "lock_inv S" "c < length (cpus (ls S))" "pc S c = Acquired l"
    "acquire_record (apicid (cpus (ls S) ! c)) l (ls S) = Ret () t"
  shows "lock_inv ((goto c Running t S)\<lparr>held := (held S)(c := l # held S c)\<rparr>)"
proof -
  let ?T = "(goto c Running t S)\<lparr>held := (held S)(c := l # held S c)\<rparr>"
  have M: "masked_inv S" and H: "held_inv S" and O: "owner_inv S"
    using assms(1) by (simp_all add: lock_inv_def)
  have t: "t = (ls S)\<lparr>locks := (locks (ls S))(l := (locks (ls S) l)\<lparr>lk_cpu := Some c\<rparr>)\<rparr>"
    using assms(4) acquire_record_eq [OF M assms(2,3)] by simp
  have "masked_inv ?T"
    by (rule masked_inv_locks [OF M]) (use assms(3) in \<open>auto simp: t depth_def\<close>)
  moreover have "l \<notin> set (held S c)"
    using H assms(2,3) unfolding held_inv_def by blast
  then have "held_inv ?T"
    using H unfolding held_inv_def by (auto simp: t)
  moreover have own: "owns ?T k d \<longleftrightarrow> owns S k d" for k d
    using assms(3) by (auto simp: owns_def)
  have only: "d = c" if "l \<in> set (held S d)" "d < length (cpus (ls S))" for d
    using O assms(2,3) that unfolding owner_inv_def owns_def by blast
  have "owner_inv ?T"
    using O only assms(2) unfolding owner_inv_def own by (auto simp: t)
  ultimately show ?thesis
    by (simp add: lock_inv_def)
qed

lemma start_release_inv:
  assumes "lock_inv S" "c < length (cpus (ls S))" "pc S c = Running"
    "release_start (apicid (cpus (ls S) ! c)) l (ls S) = Ret () t"
  shows "lock_inv ((goto c (Releasing l) t S)\<lparr>held := (held S)(c := remove1 l (held S c))\<rparr>)"
proof -
  let ?T = "(goto c (Releasing l) t S)\<lparr>held := (held S)(c := remove1 l (held S c))\<rparr>"
  have M: "masked_inv S" and H: "held_inv S" and O: "owner_inv S"
    using assms(1) by (simp_all add: lock_inv_def)
  have l: "l \<in> set (held S c)"
    by (rule release_start_held [OF assms(1,2,4)])
  have dist: "distinct (held S c)"
    using H assms(2) by (simp add: held_inv_def)
  have t: "t = (ls S)\<lparr>locks := (locks (ls S))(l := (locks (ls S) l)\<lparr>lk_cpu := None\<rparr>)\<rparr>"
    using assms(4) release_start_eq [OF M assms(2) l] by (simp split: if_splits)
  have "Suc (length (remove1 l (held S c))) = length (held S c)"
    using l length_pos_if_in_set [OF l] by (simp add: length_remove1)
  then have "masked_inv ?T"
    by (intro masked_inv_locks [OF M]) (use assms(3) in \<open>auto simp: t depth_def\<close>)
  moreover have "held_inv ?T"
    using H dist unfolding held_inv_def by (auto simp: t)
  moreover have own: "owns ?T k d \<longleftrightarrow> owns S k d" for k d
    using assms(3) l dist by (auto simp: owns_def)
  have only: "d = c" if "l \<in> set (held S d)" "d < length (cpus (ls S))" for d
    using O assms(2) l that unfolding owner_inv_def owns_def by blast
  have "lk_cpu (locks (ls ?T) k) = Some d \<longleftrightarrow> d < length (cpus (ls S)) \<and> k \<in> set (held ?T d)" for k d
  proof (cases "k = l")
    case True
    then show ?thesis
      using only dist by (cases "d = c") (auto simp: t)
  next
    case False
    then show ?thesis
      using O unfolding owner_inv_def by (auto simp: t)
  qed
  then have "owner_inv ?T"
    using O unfolding owner_inv_def own by (simp add: t)
  ultimately show ?thesis
    by (simp add: lock_inv_def)
qed

lemma finish_release_inv:
  assumes "lock_inv S" "c < length (cpus (ls S))" "pc S c = Releasing l"
    "release_finish (apicid (cpus (ls S) ! c)) l (ls S) = Ret () t"
  shows "lock_inv (goto c Running t S)"
proof -
  let ?T = "goto c Running t S"
  have M: "masked_inv S" and H: "held_inv S" and O: "owner_inv S"
    using assms(1) by (simp_all add: lock_inv_def)
  note m = masked_invD [OF M]
  have t: "t = (upd_cpu c (\<lambda>x. x\<lparr>ncli := ncli x - 1\<rparr>) (ls S))
      \<lparr>locks := (locks (ls S))(l := (locks (ls S) l)\<lparr>locked := False\<rparr>),
       eflags_if := (eflags_if (ls S))(apicid (cpus (ls S) ! c) :=
         ncli (cpus (ls S) ! c) = 1 \<and> intena (cpus (ls S) ! c))\<rparr>"
    using assms(4) release_finish_eq [OF M assms(2,3)] by simp
  have "masked_inv ?T"
    unfolding masked_inv_def
  proof (intro conjI allI impI)
    fix d assume d: "d < length (cpus (ls ?T))"
    then show "ncli (cpus (ls ?T) ! d) = depth ?T d"
      using m(2) assms(2,3) by (cases "d = c") (simp_all add: t depth_def)
    assume "0 < depth ?T d"
    then show "\<not> eflags_if (ls ?T) (apicid (cpus (ls ?T) ! d))"
      using d m(2,3) assms(2,3) other_apicid [OF M assms(2)] by (cases "d = c") (simp_all add: t depth_def)
  qed (use m(1) [OF assms(2)] t in \<open>simp add: machine_ok_def upd_cpu_def map_upd_same\<close>)
  moreover have "held_inv ?T"
    using H unfolding held_inv_def by (simp add: t)
  moreover have own: "owns ?T k d \<longleftrightarrow> owns S k d \<and> (k = l \<longrightarrow> d \<noteq> c)" for k d
    using assms(2,3) H by (auto simp: owns_def held_inv_def)
  have only: "d = c" if "owns S l d" "d < length (cpus (ls S))" for d
    using O assms(2,3) that unfolding owner_inv_def owns_def by blast
  have "owner_inv ?T"
    unfolding owner_inv_def own
  proof (intro allI conjI impI)
    fix k
    have "locked (locks (ls S) k) \<longleftrightarrow> (\<exists>d<length (cpus (ls S)). owns S k d)"
      using O unfolding owner_inv_def by blast
    then show "locked (locks (ls ?T) k) \<longleftrightarrow> (\<exists>d<length (cpus (ls ?T)). owns S k d \<and> (k = l \<longrightarrow> d \<noteq> c))"
      using only by (cases "k = l") (auto simp: t)
  next
    fix k d e
    assume "d < length (cpus (ls ?T))" "e < length (cpus (ls ?T))"
      "owns S k d \<and> (k = l \<longrightarrow> d \<noteq> c)" "owns S k e \<and> (k = l \<longrightarrow> e \<noteq> c)"
    then show "d = e"
      using O unfolding owner_inv_def t by auto
  next
    fix k d
    show "lk_cpu (locks (ls ?T) k) = Some d \<longleftrightarrow> d < length (cpus (ls ?T)) \<and> k \<in> set (held ?T d)"
      using O unfolding owner_inv_def by (auto simp: t)
  qed
  ultimately show ?thesis
    by (simp add: lock_inv_def)
qed

lemma set_if_inv:
  assumes "lock_inv S" "c < length (cpus (ls S))" "pc S c = Running" "ncli (cpus (ls S) ! c) = 0"
  shows "lock_inv (S\<lparr>ls := (ls S)\<lparr>eflags_if := (eflags_if (ls S))(apicid (cpus (ls S) ! c) := b)\<rparr>\<rparr>)"
    (is "lock_inv ?T")
proof -
  have M: "masked_inv S" and H: "held_inv S" and O: "owner_inv S"
    using assms(1) by (simp_all add: lock_inv_def)
  have d: "depth ?T d = depth S d" "owns ?T l d = owns S l d" for d l
    by (simp_all add: depth_def owns_def)
  have "0 < depth S d \<Longrightarrow> d \<noteq> c" for d
    using masked_invD(2) [OF M assms(2)] assms(4) by auto
  then have "masked_inv ?T"
    using M other_apicid [OF M assms(2)] unfolding masked_inv_def d by (auto simp: machine_ok_def)
  then show ?thesis
    using H O d unfolding lock_inv_def held_inv_def owner_inv_def by simp
qed

lemma lstep_inv: "lstep S T \<Longrightarrow> lock_inv S \<Longrightarrow> lock_inv T"
  by (induction rule: lstep.induct)
     (rule enter_inv try_inv record_inv start_release_inv finish_release_inv set_if_inv; assumption)+

lemma lreach_inv: "lreach S T \<Longrightarrow> lock_inv S \<Longrightarrow> lock_inv T"
  by (induction rule: lreach.induct) (auto intro: lstep_inv)

text \<open>All CPUs run without locks: the state after boot.\<close>

definition lock_init :: "lsys \<Rightarrow> bool" where
  "lock_init S \<longleftrightarrow> machine_ok (ls S) \<and> (\<forall>c. pc S c = Running \<and> held S c = []) \<and>
     (\<forall>c<length (cpus (ls S)). ncli (cpus (ls S) ! c) = 0) \<and>
     (\<forall>l. locks (ls S) l = \<lparr>locked = False, lk_cpu = None\<rparr>)"

lemma lock_init_inv: "lock_init S \<Longrightarrow> lock_inv S"
  by (simp add: lock_init_def lock_inv_def masked_inv_def held_inv_def owner_inv_def owns_def depth_def)

section \<open>Properties of the locks\<close>

text \<open>
  C15: mutual exclusion. However the CPUs interleave the steps of \<^verbatim>\<open>acquire\<close> and \<^verbatim>\<open>release\<close>, from a
  boot state on, no two CPUs are ever in a critical section of the same lock, and a CPU in a critical
  section has its interrupts disabled, to a depth that counts its locks.
\<close>

theorem spinlock_mutual_exclusion:
  assumes "lock_init S" "lreach S T" "c < length (cpus (ls T))" "owns T l c"
  shows "(\<forall>d<length (cpus (ls T)). owns T l d \<longrightarrow> d = c) \<and> locked (locks (ls T) l) \<and>
     \<not> eflags_if (ls T) (apicid (cpus (ls T) ! c)) \<and> ncli (cpus (ls T) ! c) = depth T c"
proof -
  have I: "masked_inv T" "owner_inv T"
    using lreach_inv [OF assms(2) lock_init_inv [OF assms(1)]] by (simp_all add: lock_inv_def)
  have "0 < depth T c"
    using assms(4) by (cases "held T c") (auto simp: owns_def depth_def)
  then show ?thesis
    using I assms(3,4) masked_invD [OF I(1) assms(3)] unfolding owner_inv_def by blast
qed

definition two_cpus :: lsys where
  "two_cpus = \<lparr>ls = \<lparr>cpus = [\<lparr>apicid = 4, ncli = 0, intena = False\<rparr>, \<lparr>apicid = 9, ncli = 0, intena = False\<rparr>],
     eflags_if = (\<lambda>_. True), locks = (\<lambda>_. \<lparr>locked = False, lk_cpu = None\<rparr>)\<rparr>,
     pc = (\<lambda>_. Running), held = (\<lambda>_. [])\<rparr>"

lemma two_cpus_init: "lock_init two_cpus"
proof -
  have "cpus (ls two_cpus) ! c \<in> set (cpus (ls two_cpus))" if "c < length (cpus (ls two_cpus))" for c
    using that by (rule nth_mem)
  then show ?thesis
    by (fastforce simp: lock_init_def two_cpus_def machine_ok_def)
qed

lemma two_cpus_acquires:
  "\<exists>T. lreach two_cpus T \<and> length (cpus (ls T)) = 2 \<and> pc T 0 = Acquired 7 \<and> pc T 1 = Running \<and> held T 0 = [] \<and> held T 1 = []"
proof -
  let ?s = "ls two_cpus"
  let ?S = "goto 0 (Spinning 7) (pushed 0 ?s) two_cpus"
  let ?t = "snd (acquire_try 7 (ls ?S))"
  have M: "masked_inv two_cpus"
    using lock_init_inv [OF two_cpus_init] by (simp add: lock_inv_def)
  have "lstep two_cpus ?S"
    using acquire_enter_eq [OF M, of 0 7] by (intro lstep.enter) (simp_all add: two_cpus_def)
  moreover have "lstep ?S (goto 0 (if True then Acquired 7 else Spinning 7) ?t ?S)"
    by (rule lstep.try_lock) (simp_all add: two_cpus_def acquire_try_def pushed_def)
  ultimately have "lreach two_cpus (goto 0 (if True then Acquired 7 else Spinning 7) ?t ?S)"
    by (rule lreach.step [OF lreach.step [OF lreach.refl]])
  then show ?thesis
    by (intro exI [of _ "goto 0 (Acquired 7) ?t ?S"]) (simp add: two_cpus_def acquire_try_def pushed_def)
qed

theorem spinlock_mutual_exclusion_witness:
  "\<exists>T. lreach two_cpus T \<and> owns T 7 0 \<and> locked (locks (ls T) 7) \<and> \<not> eflags_if (ls T) (apicid (cpus (ls T) ! 0))"
proof -
  obtain T where T: "lreach two_cpus T" "length (cpus (ls T)) = 2" "pc T 0 = Acquired 7"
    using two_cpus_acquires by blast
  then have o: "owns T 7 0"
    by (simp add: owns_def)
  then show ?thesis
    using spinlock_mutual_exclusion [OF two_cpus_init T(1) _ o] T(1,2) by auto
qed

text \<open>
  The two panics of the locks catch exactly the misuses they are meant for. In a reachable state,
  \<^verbatim>\<open>acquire\<close> panics if and only if the CPU already holds the lock, and otherwise goes on to spin with
  interrupts off; \<^verbatim>\<open>release\<close> panics if and only if the CPU does not hold it.
\<close>

lemma spinlock_panics_exact:
  assumes "lock_init S" "lreach S T" "c < length (cpus (ls T))" "pc T c = Running"
  shows "acquire_enter (apicid (cpus (ls T) ! c)) l (ls T) =
       (if l \<in> set (held T c) then Panic ''acquire'' else Ret () (pushed c (ls T))) \<and>
     (if l \<in> set (held T c) then okr (release_start (apicid (cpus (ls T) ! c)) l (ls T)) (\<lambda>_ t. lk_cpu (locks t l) = None)
      else release_start (apicid (cpus (ls T) ! c)) l (ls T) = Panic ''release'')"
proof -
  have I: "masked_inv T" "owner_inv T"
    using lreach_inv [OF assms(2) lock_init_inv [OF assms(1)]] by (simp_all add: lock_inv_def)
  note m = masked_invD [OF I(1) assms(3)]
  have h: "locked (locks (ls T) l) \<and> lk_cpu (locks (ls T) l) = Some c \<longleftrightarrow> l \<in> set (held T c)"
    using I(2) assms(3) unfolding owner_inv_def owns_def by blast
  obtain r t where r: "holding (apicid (cpus (ls T) ! c)) l (ls T) = Ret r t"
    using holding_returns [OF m(1) assms(3)] m(2) by (force simp: depth_def)
  have "r \<longleftrightarrow> l \<in> set (held T c)"
    using holding_result [OF m(1) assms(3) r] h by simp
  then show ?thesis
    using acquire_enter_eq [OF I(1) assms(3), of l] h r by (simp add: release_start_def)
qed

lemma spinlock_panics_exact_witness:
  "acquire_enter 4 7 (ls two_cpus) = Ret () (pushed 0 (ls two_cpus)) \<and>
   release_start 4 7 (ls two_cpus) = Panic ''release''"
  using spinlock_panics_exact [OF two_cpus_init lreach.refl, of 0 7] by (simp add: two_cpus_def)

end
