(* ===== verification/Paging.thy ===== *)
theory Paging
  imports Vm
begin

text \<open>
  Correctness of the page tables of \<^verbatim>\<open>vm.c\<close>. \<open>pt_ok m d F\<close> is the invariant of the page directory at
  \<open>d\<close>: the directory and the page tables it refers to are different pages, none of them in the set \<open>F\<close>
  of free pages. The abstraction of a page table is the partial map \<open>pt_lookup\<close> from addresses to
  entries, and \<open>map_range\<close> is what \<^verbatim>\<open>mappages\<close> does to it.
\<close>

unbundle bit_operations_syntax

section \<open>Entries of tables\<close>

definition has_table :: "mem \<Rightarrow> u32 \<Rightarrow> u32 \<Rightarrow> bool" where
  "has_table m d i \<longleftrightarrow> ld32 m (d + 4 * i) AND PTE_P \<noteq> 0"

definition table_at :: "mem \<Rightarrow> u32 \<Rightarrow> u32 \<Rightarrow> u32" where
  "table_at m d i = P2V (PTE_ADDR (ld32 m (d + 4 * i)))"

definition pt_ok :: "mem \<Rightarrow> u32 \<Rightarrow> u32 set \<Rightarrow> bool" where
  "pt_ok m d F \<longleftrightarrow> d mod PGSIZE = 0 \<and> d \<notin> F \<and>
     (\<forall>i<1024. has_table m d i \<longrightarrow> table_at m d i \<noteq> d \<and> table_at m d i \<notin> F) \<and>
     (\<forall>i<1024. \<forall>j<1024. has_table m d i \<longrightarrow> has_table m d j \<longrightarrow> table_at m d i = table_at m d j \<longrightarrow> i = j)"

lemma pt_lookup_alt:
  "pt_lookup m d va =
     (if has_table m d (PDX va) \<and> ld32 m (table_at m d (PDX va) + 4 * PTX va) AND PTE_P \<noteq> 0
      then Some (ld32 m (table_at m d (PDX va) + 4 * PTX va)) else None)"
  by (simp add: pt_lookup_def has_table_def table_at_def Let_def)

lemma page_unat: "(p :: u32) mod 4096 = 0 \<longleftrightarrow> unat p mod 4096 = 0"
  by (simp add: word_unat_eq_iff unat_mod_distrib)

lemma unat_4i: "(i :: u32) < 1024 \<Longrightarrow> unat (4 * i) = 4 * unat i \<and> 4 * unat i < 4096"
  by (simp add: word_less_nat_alt unat_word_ariths)

lemma page_top: "(p :: u32) mod 4096 = 0 \<Longrightarrow> unat p + 4096 \<le> 4294967296"
  using unat_less_u32 [of p] div_mult_mod_eq [of "unat p" 4096] unfolding page_unat
  by (cases "unat p div 4096 < 1048576") auto

lemma unat_entry:
  fixes p i :: u32
  assumes "p mod 4096 = 0" "i < 1024"
  shows "unat (p + 4 * i) = unat p + 4 * unat i"
  using unat_4i [OF assms(2)] page_top [OF assms(1)] by (simp add: unat_word_ariths(1))

lemma entry_aligned:
  fixes p i :: u32
  assumes "p mod 4096 = 0" "i < 1024"
  shows "(p + 4 * i) mod 4 = 0"
proof -
  have "unat p mod 4 = 0"
    using assms(1) mod_mod_cancel [of 4 4096 "unat p"] unfolding page_unat by simp
  then show ?thesis
    unfolding word_unat_eq_iff unat_mod_distrib unat_entry [OF assms] by (simp add: mod_add_left_eq [symmetric, of "unat p"])
qed

lemma page_offset_eq:
  fixes a b x y :: nat
  assumes "a mod 4096 = 0" "b mod 4096 = 0" "x < 4096" "y < 4096" "a + x = b + y"
  shows "a = b \<and> x = y"
proof -
  have "(a + x) mod 4096 = x" "(b + y) mod 4096 = y"
    using assms mod_add_left_eq [of a 4096 x] mod_add_left_eq [of b 4096 y] by simp_all
  then show ?thesis
    using assms(5) by simp
qed

lemma entry_inj:
  fixes p q i j :: u32
  assumes "p mod 4096 = 0" "i < 1024" "q mod 4096 = 0" "j < 1024"
  shows "p + 4 * i = q + 4 * j \<longleftrightarrow> p = q \<and> i = j"
proof
  assume "p + 4 * i = q + 4 * j"
  then have "unat p + 4 * unat i = unat q + 4 * unat j"
    using unat_entry [OF assms(1,2)] unat_entry [OF assms(3,4)] by simp
  then have "unat p = unat q" "unat i = unat j"
    using assms unat_4i [OF assms(2)] unat_4i [OF assms(4)] page_offset_eq [of "unat p" "unat q" "4 * unat i" "4 * unat j"]
    unfolding page_unat by auto
  then show "p = q \<and> i = j"
    by (simp add: word_unat_eq_iff)
qed simp

lemma ld_st_entry:
  fixes p q i j :: u32
  assumes "p mod 4096 = 0" "i < 1024" "q mod 4096 = 0" "j < 1024"
  shows "ld32 (st32 m (p + 4 * i) v) (q + 4 * j) = (if p = q \<and> i = j then v else ld32 m (q + 4 * j))"
  using entry_inj [OF assms] ld32_st32_other [OF entry_aligned [OF assms(1,2)] entry_aligned [OF assms(3,4)]]
  by auto

lemma entry_byte:
  fixes p i :: u32
  assumes "i < 1024" "k < 4"
  shows "unat (p + 4 * i + of_nat k - p) < 4096"
proof -
  have "unat (4 * i + of_nat k) = 4 * unat i + k"
    using unat_4i [OF assms(1)] assms(2) by (simp add: unat_word_ariths(1) unat_of_nat)
  then show ?thesis
    using unat_4i [OF assms(1)] assms by (simp add: algebra_simps word_less_nat_alt)
qed

lemma ld_clear_entry:
  fixes p q j :: u32
  assumes "p mod 4096 = 0" "q mod 4096 = 0" "j < 1024"
  shows "ld32 (memset m p 0 PGSIZE) (q + 4 * j) = (if p = q then 0 else ld32 m (q + 4 * j))"
proof (cases "p = q")
  case True
  have "ld32 (memset m p 0 PGSIZE) (q + 4 * j) = ld32 (\<lambda>_. 0) (q + 4 * j)"
    by (rule ld32_cong) (use entry_byte [OF assms(3)] True in \<open>simp add: memset_eq_fill mem_fill_def\<close>)
  then show ?thesis
    using True by (simp add: ld32_def rd32_def)
next
  case False
  have "4096 \<le> unat (q + 4 * j + of_nat k - p)" if "k < 4" for k
    using other_page [OF assms(2,1), of "q + 4 * j + of_nat k"] entry_byte [OF assms(3) that, of q] False by simp
  then show ?thesis
    using False by (simp add: memset_eq_fill ld32_mem_fill_outside)
qed

lemma P2V_aligned: "y mod 4096 = 0 \<Longrightarrow> P2V y mod 4096 = 0"
  using mod_add_left_eq [of "unat y" 4096 2147483648]
  unfolding page_unat by (simp add: P2V_def unat_word_ariths mod_mod_cancel [of 4096 4294967296])

lemma PTE_ADDR_aligned: "PTE_ADDR x mod 4096 = 0"
  using unat_and_not_mask [of x 12] unfolding page_unat
  by (simp add: PTE_ADDR_def mask_12_u32 minus_mod_eq_mult_div)

lemma table_aligned: "table_at m d i mod 4096 = 0"
  unfolding table_at_def by (rule P2V_aligned, rule PTE_ADDR_aligned)

lemma V2P_aligned: "p mod 4096 = 0 \<Longrightarrow> V2P p AND NOT 0xFFF = V2P p"
proof -
  assume "p mod 4096 = 0"
  moreover have "V2P p = P2V p"
    unfolding V2P_def P2V_def by (simp add: diff_conv_add_uminus del: add_uminus_conv_diff)
  ultimately have "unat (V2P p) mod 4096 = 0"
    using P2V_aligned [of p] by (simp only: page_unat)
  then show ?thesis
    using unat_and_not_mask [of "V2P p" 12] by (simp add: mask_12_u32 word_unat_eq_iff)
qed

lemma new_pde:
  assumes "p mod 4096 = 0"
  shows "PTE_ADDR (V2P p OR PTE_P OR PTE_W OR PTE_U) = V2P p" "(V2P p OR PTE_P OR PTE_W OR PTE_U) AND PTE_P \<noteq> 0"
proof -
  have "(V2P p OR 7) AND NOT 0xFFF = V2P p AND NOT 0xFFF OR 7 AND NOT 0xFFF"
    by (rule bit.conj_disj_distrib2)
  then show "PTE_ADDR (V2P p OR PTE_P OR PTE_W OR PTE_U) = V2P p"
    using V2P_aligned [OF assms] by (simp add: PTE_ADDR_def or.assoc)
  have "bit ((V2P p OR 7) AND 1) 0"
    by (simp add: bit_simps)
  then show "(V2P p OR PTE_P OR PTE_W OR PTE_U) AND PTE_P \<noteq> 0"
    by (auto simp: or.assoc)
qed

section \<open>Walking the table\<close>

lemma pt_okD:
  assumes "pt_ok m d F"
  shows "d mod 4096 = 0" "d \<notin> F" "\<And>i. i < 1024 \<Longrightarrow> has_table m d i \<Longrightarrow> table_at m d i \<noteq> d \<and> table_at m d i \<notin> F"
    "\<And>i j. i < 1024 \<Longrightarrow> j < 1024 \<Longrightarrow> has_table m d i \<Longrightarrow> has_table m d j \<Longrightarrow> table_at m d i = table_at m d j \<Longrightarrow> i = j"
  using assms unfolding pt_ok_def by blast+

lemma PDX_lt: "PDX va < 1024" and PTX_lt: "PTX va < 1024"
  using PDX_less [of va] PTX_less [of va] by (simp_all add: word_less_nat_alt)

text \<open>A store to the entry of a page table changes that entry only.\<close>

lemma store_pte:
  fixes v :: u32
  assumes "pt_ok m d F" "has_table m d i" "i < 1024" "k < 1024"
  defines "m' \<equiv> st32 m (table_at m d i + 4 * k) v"
  shows "j < 1024 \<Longrightarrow> has_table m' d j = has_table m d j"
    "j < 1024 \<Longrightarrow> table_at m' d j = table_at m d j"
    "pt_ok m' d F"
    "pt_lookup m' d va = (if PDX va = i \<and> PTX va = k then (if v AND PTE_P \<noteq> 0 then Some v else None) else pt_lookup m d va)"
proof -
  note d = pt_okD [OF assms(1)]
  have pde: "ld32 m' (d + 4 * j) = ld32 m (d + 4 * j)" if "j < 1024" for j
    using ld_st_entry [OF table_aligned assms(4) d(1) that] d(3) [OF assms(3,2)] by (auto simp: m'_def)
  then have h: "has_table m' d j = has_table m d j" and t: "table_at m' d j = table_at m d j" if "j < 1024" for j
    using that by (simp_all add: has_table_def table_at_def)
  show "has_table m' d j = has_table m d j" if "j < 1024"
    using h that .
  show "table_at m' d j = table_at m d j" if "j < 1024"
    using t that .
  show "pt_ok m' d F"
    using assms(1) h t unfolding pt_ok_def by auto
  show "pt_lookup m' d va = (if PDX va = i \<and> PTX va = k then (if v AND PTE_P \<noteq> 0 then Some v else None) else pt_lookup m d va)"
  proof (cases "has_table m d (PDX va)")
    case True
    have "table_at m d i = table_at m d (PDX va) \<longleftrightarrow> i = PDX va"
      using d(4) [OF assms(3) PDX_lt assms(2) True] by auto
    then have "ld32 m' (table_at m d (PDX va) + 4 * PTX va) = (if PDX va = i \<and> PTX va = k then v else ld32 m (table_at m d (PDX va) + 4 * PTX va))"
      using ld_st_entry [OF table_aligned assms(4) table_aligned PTX_lt [of va], of m m d i v m d "PDX va"] by (auto simp: m'_def)
    then show ?thesis
      using h [OF PDX_lt, of va] t [OF PDX_lt, of va] True by (auto simp: pt_lookup_alt)
  next
    case False
    then show ?thesis
      using h [OF PDX_lt, of va] assms(2) by (auto simp: pt_lookup_alt)
  qed
qed

text \<open>A cleared page as a new table changes no translation.\<close>

lemma new_table:
  assumes "pt_ok m d (insert p F)" "p mod 4096 = 0" "p \<notin> F" "\<not> has_table m d i" "i < 1024"
  defines "m' \<equiv> st32 (memset m p 0 PGSIZE) (d + 4 * i) (V2P p OR PTE_P OR PTE_W OR PTE_U)"
  shows "has_table m' d i" "table_at m' d i = p" "pt_ok m' d F" "pt_lookup m' d va = pt_lookup m d va"
    "j < 1024 \<Longrightarrow> has_table m' d j = (j = i \<or> has_table m d j)"
    "j < 1024 \<Longrightarrow> table_at m' d j = (if j = i then p else table_at m d j)"
proof -
  note d = pt_okD [OF assms(1)]
  have pd: "p \<noteq> d"
    using d(2) by auto
  have pde: "ld32 m' (d + 4 * j) = (if j = i then V2P p OR PTE_P OR PTE_W OR PTE_U else ld32 m (d + 4 * j))" if "j < 1024" for j
    using ld_st_entry [OF d(1) assms(5) d(1) that] ld_clear_entry [OF assms(2) d(1) that] pd by (auto simp: m'_def)
  show hi: "has_table m' d i" and ti: "table_at m' d i = p"
    using pde [OF assms(5)] new_pde [OF assms(2)] by (simp_all add: has_table_def table_at_def)
  have h: "has_table m' d j = (j = i \<or> has_table m d j)" and t: "table_at m' d j = (if j = i then p else table_at m d j)" if "j < 1024" for j
    using pde [OF that] hi ti by (auto simp: has_table_def table_at_def)
  show "j < 1024 \<Longrightarrow> has_table m' d j = (j = i \<or> has_table m d j)"
    "j < 1024 \<Longrightarrow> table_at m' d j = (if j = i then p else table_at m d j)"
    using h t by auto
  have np: "table_at m d j \<noteq> p" if "j < 1024" "has_table m d j" for j
    using d(3) [OF that] by auto
  show "pt_ok m' d F"
    unfolding pt_ok_def
  proof (intro conjI allI impI)
    show "d mod PGSIZE = 0" "d \<notin> F"
      using d(1,2) by auto
    show "table_at m' d j \<noteq> d" "table_at m' d j \<notin> F" if "j < 1024" "has_table m' d j" for j
      using that h t d(3) pd assms(3) by auto
    show "j = k" if "j < 1024" "k < 1024" "has_table m' d j" "has_table m' d k" "table_at m' d j = table_at m' d k" for j k
      using that h [of j] h [of k] t [of j] t [of k] np [of j] np [of k] d(4) [of j k] by (auto split: if_splits)
  qed
  show "pt_lookup m' d va = pt_lookup m d va"
  proof (cases "PDX va = i")
    case True
    have "ld32 m' (p + 4 * PTX va) = 0"
      using ld_st_entry [OF d(1) assms(5) assms(2) PTX_lt [of va]] ld_clear_entry [OF assms(2,2) PTX_lt [of va]] pd by (simp add: m'_def)
    then show ?thesis
      using True hi ti assms(4) by (simp add: pt_lookup_alt)
  next
    case False
    have "ld32 m' (table_at m d (PDX va) + 4 * PTX va) = ld32 m (table_at m d (PDX va) + 4 * PTX va)" if "has_table m d (PDX va)"
      using ld_st_entry [OF d(1) assms(5) table_aligned PTX_lt [of va], of _ _ m d "PDX va"] d(3) [OF PDX_lt that] np [OF PDX_lt that]
        ld_clear_entry [OF assms(2) table_aligned PTX_lt [of va], of m m d "PDX va"] by (auto simp: m'_def)
    then show ?thesis
      using False h [OF PDX_lt, of va] t [OF PDX_lt, of va] by (auto simp: pt_lookup_alt)
  qed
qed

text \<open>The pages a page table occupies.\<close>

definition pt_pages :: "mem \<Rightarrow> u32 \<Rightarrow> u32 set" where
  "pt_pages m d = insert d (table_at m d ` {i. i < 1024 \<and> has_table m d i})"

definition same_outside :: "u32 set \<Rightarrow> mem \<Rightarrow> mem \<Rightarrow> bool" where
  "same_outside P m m' \<longleftrightarrow> (\<forall>x. (\<forall>p\<in>P. 4096 \<le> unat (x - p)) \<longrightarrow> m' x = m x)"

lemma same_outsideI: "(\<And>x. (\<And>p. p \<in> P \<Longrightarrow> 4096 \<le> unat (x - p)) \<Longrightarrow> m' x = m x) \<Longrightarrow> same_outside P m m'"
  by (simp add: same_outside_def)

lemma same_outside_refl [simp]: "same_outside P m m"
  by (simp add: same_outside_def)

lemma same_outside_trans: "same_outside P m m' \<Longrightarrow> same_outside P' m' m'' \<Longrightarrow> P \<subseteq> P' \<Longrightarrow> same_outside P' m m''"
  unfolding same_outside_def by (metis subset_iff)

lemma pt_pages_aligned: "pt_ok m d F \<Longrightarrow> p \<in> pt_pages m d \<Longrightarrow> p mod 4096 = 0"
  using table_aligned [of m d] pt_okD(1) [of m d F] by (auto simp only: pt_pages_def insert_iff image_iff)

lemma pt_pages_free: "pt_ok m d F \<Longrightarrow> p \<in> pt_pages m d \<Longrightarrow> p \<notin> F"
  by (auto simp: pt_pages_def pt_ok_def)

lemma st_entry_outside:
  fixes p i :: u32
  assumes "i < 1024" "4096 \<le> unat (x - p)"
  shows "st32 m (p + 4 * i) v x = m x"
  using st32_in_page [OF assms(2), of "4 * unat i" m v] unat_4i [OF assms(1)] by (simp add: word_less_nat_alt)

text \<open>A change within the pages of the table keeps the free list.\<close>

lemma kmem_inv_pt:
  assumes "kmem_inv s ps" "pt_ok m d (set ps)" "same_outside (pt_pages m d) (mem s) (mem t)" "freelist t = freelist s" "kend t = kend s"
  shows "kmem_inv t ps"
proof (rule kmem_inv_frame [OF assms(1,4,5)])
  fix p x
  assume p: "p \<in> set ps" "unat (x - p) < 4096"
  have "p mod 4096 = 0"
    using kmem_invD(3) [OF assms(1) p(1)] by (simp add: page_ok_def)
  then have "4096 \<le> unat (x - q)" if "q \<in> pt_pages m d" for q
    using other_page [OF _ pt_pages_aligned [OF assms(2) that] _ p(2)] pt_pages_free [OF assms(2) that] p(1) by auto
  then show "mem t x = mem s x"
    using assms(3) by (simp add: same_outside_def)
qed

lemma store_pte_pages:
  assumes "pt_ok m d F" "has_table m d i" "i < 1024" "k < 1024"
  shows "pt_pages (st32 m (table_at m d i + 4 * k) v) d = pt_pages m d"
    "same_outside (pt_pages m d) m (st32 m (table_at m d i + 4 * k) v)"
proof -
  show "pt_pages (st32 m (table_at m d i + 4 * k) v) d = pt_pages m d"
    unfolding pt_pages_def using store_pte(1,2) [OF assms, where v = v]
    by (intro arg_cong2 [where f = insert] image_cong) auto
  show "same_outside (pt_pages m d) m (st32 m (table_at m d i + 4 * k) v)"
  proof (rule same_outsideI)
    fix x
    assume "\<And>p. p \<in> pt_pages m d \<Longrightarrow> 4096 \<le> unat (x - p)"
    then have "4096 \<le> unat (x - table_at m d i)"
      using assms(2,3) by (auto simp: pt_pages_def)
    then show "st32 m (table_at m d i + 4 * k) v x = m x"
      by (rule st_entry_outside [OF assms(4)])
  qed
qed

lemma new_table_pages:
  assumes "pt_ok m d (insert p F)" "p mod 4096 = 0" "p \<notin> F" "\<not> has_table m d i" "i < 1024"
  defines "m' \<equiv> st32 (memset m p 0 PGSIZE) (d + 4 * i) (V2P p OR PTE_P OR PTE_W OR PTE_U)"
  shows "pt_pages m' d = insert p (pt_pages m d)" "same_outside (pt_pages m' d) m m'"
proof -
  note h = new_table(5) [OF assms(1-5), folded m'_def] and ta = new_table(6) [OF assms(1-5), folded m'_def]
  have "{j. j < 1024 \<and> has_table m' d j} = insert i {j. j < 1024 \<and> has_table m d j}"
    using h assms(5) by auto
  moreover have "table_at m' d ` {j. j < 1024 \<and> has_table m d j} = table_at m d ` {j. j < 1024 \<and> has_table m d j}"
    using ta assms(4) by (intro image_cong) auto
  ultimately have "table_at m' d ` {j. j < 1024 \<and> has_table m' d j} = insert p (table_at m d ` {j. j < 1024 \<and> has_table m d j})"
    using ta [OF assms(5)] by simp
  then show pp: "pt_pages m' d = insert p (pt_pages m d)"
    by (auto simp: pt_pages_def)
  show "same_outside (pt_pages m' d) m m'"
  proof (rule same_outsideI)
    fix x
    assume "\<And>p. p \<in> pt_pages m' d \<Longrightarrow> 4096 \<le> unat (x - p)"
    then have "4096 \<le> unat (x - p)" "4096 \<le> unat (x - d)"
      unfolding pp by (auto simp: pt_pages_def)
    then show "m' x = m x"
      by (simp add: m'_def st_entry_outside [OF assms(5)] memset_eq_fill mem_fill_outside)
  qed
qed

text \<open>Only memory and the free list differ.\<close>

definition only_mem :: "'a kmem_state_scheme \<Rightarrow> 'a kmem_state_scheme \<Rightarrow> bool" where
  "only_mem s t \<longleftrightarrow> t = s\<lparr>mem := mem t, freelist := freelist t\<rparr>"

lemma only_mem_simps [simp]: "only_mem s s" "only_mem s (s\<lparr>mem := m\<rparr>)" "only_mem s (s\<lparr>freelist := f\<rparr>)"
    "only_mem s (s\<lparr>mem := m, freelist := f\<rparr>)" "only_mem s (s\<lparr>freelist := f, mem := m\<rparr>)"
  by (simp_all add: only_mem_def)

lemma only_mem_kend: "only_mem s t \<Longrightarrow> kend t = kend s"
  by (cases s; cases t) (simp add: only_mem_def)

lemma only_mem_trans: "only_mem s t \<Longrightarrow> only_mem t u \<Longrightarrow> only_mem s u"
  by (cases s; cases t; cases u) (simp add: only_mem_def)

definition walk_post :: "u32 \<Rightarrow> 'a kmem_state_scheme \<Rightarrow> 'a kmem_state_scheme \<Rightarrow> u32 list \<Rightarrow> bool" where
  "walk_post d s t ps \<longleftrightarrow> kmem_inv t ps \<and> pt_ok (mem t) d (set ps) \<and> pt_pages (mem s) d \<subseteq> pt_pages (mem t) d \<and>
     same_outside (pt_pages (mem t) d) (mem s) (mem t) \<and> only_mem s t"

text \<open>Pages leave the free list only to become tables, \<open>n\<close> at most.\<close>

definition tables_used :: "nat \<Rightarrow> u32 \<Rightarrow> 'a kmem_state_scheme \<Rightarrow> 'a kmem_state_scheme \<Rightarrow> u32 list \<Rightarrow> u32 list \<Rightarrow> bool" where
  "tables_used n d s t ps qs \<longleftrightarrow> set qs \<subseteq> set ps \<and> length ps \<le> length qs + n \<and>
     pt_pages (mem t) d \<union> set qs = pt_pages (mem s) d \<union> set ps"

lemma tables_used_refl: "tables_used n d s s ps ps"
  by (simp add: tables_used_def)

lemma tables_used_trans: "tables_used k d s t ps qs \<Longrightarrow> tables_used n d t u qs rs \<Longrightarrow> tables_used (k + n) d s u ps rs"
  by (auto simp: tables_used_def)

lemma walkpgdir_spec:
  assumes "kmem_inv s ps" "pt_ok (mem s) d (set ps)"
  shows "okr (walkpgdir d va True s) (\<lambda>r t. \<exists>qs. walk_post d s t qs \<and> tables_used 1 d s t ps qs \<and> pt_lookup (mem t) d = pt_lookup (mem s) d \<and>
    (case r of None \<Rightarrow> t = s \<and> ps = []
     | Some pte \<Rightarrow> has_table (mem t) d (PDX va) \<and> pte = table_at (mem t) d (PDX va) + 4 * PTX va))"
proof (cases "has_table (mem s) d (PDX va)")
  case True
  then have "walkpgdir d va True s = Ret (Some (table_at (mem s) d (PDX va) + 4 * PTX va)) s"
    by (simp add: walkpgdir_def has_table_def table_at_def)
  moreover have "walk_post d s s ps"
    using assms by (simp add: walk_post_def)
  ultimately show ?thesis
    using True tables_used_refl [of 1 d s ps] by auto
next
  case False
  then have w: "walkpgdir d va True s = bindr (kalloc s) (\<lambda>pgtab s.
      if pgtab = 0 then Ret None s
      else Ret (Some (pgtab + 4 * PTX va))
        (s\<lparr>mem := st32 (memset (mem s) pgtab 0 PGSIZE) (d + 4 * PDX va) (V2P pgtab OR PTE_P OR PTE_W OR PTE_U)\<rparr>))"
    unfolding walkpgdir_def has_table_def Let_def by simp
  show ?thesis
  proof (cases ps)
    case Nil
    have "walk_post d s s []"
      using assms unfolding Nil by (simp add: walk_post_def)
    then show ?thesis
      using assms(1) tables_used_refl [of 1 d s "[]"] unfolding Nil w by (auto simp: kalloc_Nil)
  next
    case (Cons p qs)
    note inv = assms [unfolded Cons]
    let ?s = "s\<lparr>freelist := ld32 (mem s) p\<rparr>"
    let ?m = "st32 (memset (mem s) p 0 PGSIZE) (d + 4 * PDX va) (V2P p OR PTE_P OR PTE_W OR PTE_U)"
    note k = kalloc_Cons [OF inv(1)]
    have p: "p \<noteq> 0" "p mod 4096 = 0" "p \<notin> set qs" "pt_ok (mem s) d (insert p (set qs))"
      using kmem_invD(2) [OF inv(1)] kmem_invD(3) [OF inv(1), of p] page_ok_nonzero [of s p] page_ok_aligned [of s p] inv(2)
      by simp_all
    define m where "m = ?m"
    note n = new_table [OF p(4,2,3) False PDX_lt, folded m_def] new_table_pages [OF p(4,2,3) False PDX_lt, folded m_def]
    have "kmem_inv (?s\<lparr>mem := m\<rparr>) qs"
      by (rule kmem_inv_pt [OF k(2) n(3)]) (simp_all add: n(8))
    then have post: "walk_post d s (?s\<lparr>mem := m\<rparr>) qs"
      using n(3,7,8) by (auto simp: walk_post_def)
    have "walkpgdir d va True s = Ret (Some (p + 4 * PTX va)) (?s\<lparr>mem := m\<rparr>)"
      unfolding w k(1) m_def using p(1) by simp
    then show ?thesis
      using post n(1,2,4,7) Cons by (auto simp: tables_used_def intro!: exI [of _ qs])
  qed
qed

section \<open>Mapping a range\<close>

lemma div_mod_inj: "(m :: nat) div k = n div k \<Longrightarrow> m mod k = n mod k \<Longrightarrow> m = n"
  by (metis div_mult_mod_eq)

lemma page_index:
  "PDX va = PDX a \<and> PTX va = PTX a \<longleftrightarrow> unat va div 4096 = unat a div 4096"
proof -
  have "unat va div 2 ^ 22 = unat va div 4096 div 1024" for va :: u32
    by (simp add: div_mult2_eq [symmetric])
  then show ?thesis
    unfolding word_unat_eq_iff [of "PDX va"] word_unat_eq_iff [of "PTX va"] unat_PDX unat_PTX
    by (auto intro: div_mod_inj)
qed

text \<open>The abstract effect: \<open>n\<close> pages from that of \<open>a\<close> on are translated to \<open>pa\<close> and the pages after it.\<close>

definition map_range :: "u32 \<Rightarrow> u32 \<Rightarrow> u32 \<Rightarrow> nat \<Rightarrow> (u32 \<Rightarrow> u32 option) \<Rightarrow> u32 \<Rightarrow> u32 option" where
  "map_range a pa perm n f va =
     (let i = unat va div 4096; j = unat a div 4096
      in if j \<le> i \<and> i < j + n then Some ((pa + of_nat (4096 * (i - j))) OR perm OR PTE_P) else f va)"

lemma map_range_0 [simp]: "map_range a pa perm 0 f = f"
  by (rule ext) (auto simp: map_range_def Let_def)

lemma map_range_Suc:
  assumes "unat (a + 4096) = unat a + 4096"
  shows "map_range (a + 4096) (pa + 4096) perm n (map_range a pa perm 1 f) = map_range a pa perm (Suc n) f"
proof
  fix va :: u32
  define i j where "i = unat va div 4096" and "j = unat a div 4096"
  have j: "unat (a + 4096) div 4096 = Suc j"
    by (simp add: assms j_def)
  show "map_range (a + 4096) (pa + 4096) perm n (map_range a pa perm 1 f) va = map_range a pa perm (Suc n) f va"
  proof (cases "Suc j \<le> i")
    case True
    then have "i - j = Suc (i - Suc j)"
      by simp
    then have e: "pa + 4096 + of_nat (4096 * (i - Suc j)) = pa + of_nat (4096 * (i - j))"
      by (simp del: of_nat_diff)
    then show ?thesis
      using True unfolding map_range_def Let_def j i_def [symmetric] j_def [symmetric] e by simp
  next
    case False
    then show ?thesis
      unfolding map_range_def Let_def j i_def [symmetric] j_def [symmetric] by auto
  qed
qed

lemma PTE_P_set: "(x OR perm OR PTE_P) AND PTE_P \<noteq> (0 :: u32)"
proof
  assume "(x OR perm OR PTE_P) AND PTE_P = 0"
  moreover have "bit ((x OR perm OR PTE_P) AND PTE_P) 0"
    by (simp add: bit_simps)
  ultimately show False
    by simp
qed

lemma walk_post_trans:
  assumes "walk_post d s t ps" "walk_post d t u qs"
  shows "walk_post d s u qs"
proof -
  have "same_outside (pt_pages (mem u) d) (mem s) (mem u)"
    using assms same_outside_trans [of "pt_pages (mem t) d" "mem s" "mem t" "pt_pages (mem u) d" "mem u"]
    by (simp add: walk_post_def)
  then show ?thesis
    using assms only_mem_trans [of s t u] by (auto simp: walk_post_def)
qed

lemma store_post:
  assumes "walk_post d s t ps" "has_table (mem t) d i" "i < 1024" "k < 1024"
  shows "walk_post d s (t\<lparr>mem := st32 (mem t) (table_at (mem t) d i + 4 * k) v\<rparr>) ps"
proof (rule walk_post_trans [OF assms(1)])
  have ok: "pt_ok (mem t) d (set ps)" "kmem_inv t ps"
    using assms(1) by (auto simp: walk_post_def)
  note p = store_pte_pages [OF ok(1) assms(2-4), of v]
  let ?t = "t\<lparr>mem := st32 (mem t) (table_at (mem t) d i + 4 * k) v\<rparr>"
  have "kmem_inv ?t ps"
    by (rule kmem_inv_pt [OF ok(2,1)]) (simp_all add: p(2))
  then show "walk_post d t ?t ps"
    using p store_pte(3) [OF ok(1) assms(2-4)] by (simp add: walk_post_def)
qed

lemma mappages_step:
  assumes "kmem_inv s ps" "pt_ok (mem s) d (set ps)" "pt_lookup (mem s) d a = None"
  shows "ps = [] \<and> mappages_loop k d a pa perm s = Ret False s \<or>
    (\<exists>t qs. walk_post d s t qs \<and> tables_used 1 d s t ps qs \<and> pt_lookup (mem t) d = map_range a pa perm 1 (pt_lookup (mem s) d) \<and>
      mappages_loop k d a pa perm s = (case k of 0 \<Rightarrow> Ret True t | Suc k \<Rightarrow> mappages_loop k d (a + PGSIZE) (pa + PGSIZE) perm t))"
proof -
  obtain r t qs where w: "walkpgdir d a True s = Ret r t" "walk_post d s t qs" "tables_used 1 d s t ps qs" "pt_lookup (mem t) d = pt_lookup (mem s) d"
      "case r of None \<Rightarrow> t = s \<and> ps = [] | Some pte \<Rightarrow> has_table (mem t) d (PDX a) \<and> pte = table_at (mem t) d (PDX a) + 4 * PTX a"
    using walkpgdir_spec [OF assms(1,2), of a] unfolding okr_iff by blast
  show ?thesis
  proof (cases r)
    case None
    then show ?thesis
      using w by (subst mappages_loop.simps) simp
  next
    case (Some pte)
    let ?v = "pa OR perm OR PTE_P"
    have h: "has_table (mem t) d (PDX a)" and pte: "pte = table_at (mem t) d (PDX a) + 4 * PTX a"
      using w(5) Some by auto
    have ok: "pt_ok (mem t) d (set qs)"
      using w(2) by (simp add: walk_post_def)
    have free: "ld32 (mem t) pte AND PTE_P = 0"
      using assms(3) h unfolding w(4) [symmetric] pte by (simp add: pt_lookup_alt split: if_splits)
    let ?t = "t\<lparr>mem := st32 (mem t) pte ?v\<rparr>"
    have "pt_lookup (mem ?t) d = map_range a pa perm 1 (pt_lookup (mem s) d)"
    proof
      fix va
      show "pt_lookup (mem ?t) d va = map_range a pa perm 1 (pt_lookup (mem s) d) va"
        using store_pte(4) [OF ok h PDX_lt PTX_lt, where v = ?v and va = va] PTE_P_set [of pa perm] page_index [of va a] w(4)
        unfolding pte by (auto simp: map_range_def Let_def)
    qed
    moreover have "walk_post d s ?t qs"
      using store_post [OF w(2) h PDX_lt PTX_lt] unfolding pte by blast
    moreover have "mappages_loop k d a pa perm s = (case k of 0 \<Rightarrow> Ret True ?t | Suc k \<Rightarrow> mappages_loop k d (a + PGSIZE) (pa + PGSIZE) perm ?t)"
      using w(1) Some free by (subst mappages_loop.simps) (simp add: Let_def)
    moreover have "tables_used 1 d s ?t ps qs"
      using w(3) store_pte_pages(1) [OF ok h PDX_lt PTX_lt] unfolding pte tables_used_def by simp
    ultimately show ?thesis
      by blast
  qed
qed

text \<open>
  With \<open>k + 1\<close> pages to map, none of them mapped yet, the loop maps them all, or runs out of pages
  for tables after having mapped fewer.
\<close>

lemma mappages_loop_spec:
  assumes "kmem_inv s ps" "pt_ok (mem s) d (set ps)" "unat a + 4096 * k < 4294967296" "a mod 4096 = 0"
    and "\<And>va. unat a div 4096 \<le> unat va div 4096 \<Longrightarrow> unat va div 4096 \<le> unat a div 4096 + k \<Longrightarrow> pt_lookup (mem s) d va = None"
  shows "okr (mappages_loop k d a pa perm s) (\<lambda>ok t. \<exists>qs n. walk_post d s t qs \<and> tables_used n d s t ps qs \<and>
    pt_lookup (mem t) d = map_range a pa perm n (pt_lookup (mem s) d) \<and> (if ok then n = Suc k else n \<le> k \<and> qs = []))"
  using assms
proof (induction k arbitrary: a pa s ps)
  case (0 a pa s ps)
  then have "pt_lookup (mem s) d a = None"
    by simp
  from mappages_step [OF "0.prems"(1,2) this, of 0 pa perm] show ?case
    using 0 tables_used_refl by (auto simp: walk_post_def intro: exI [of _ 0])
next
  case (Suc k a pa s ps)
  have up: "unat (a + 4096) = unat a + 4096"
    using unat_add_of_nat_u32 [of a 4096] Suc.prems(3) by simp
  have "pt_lookup (mem s) d a = None"
    using Suc.prems(5) [of a] by simp
  then consider "ps = []" "mappages_loop (Suc k) d a pa perm s = Ret False s"
    | t qs where "walk_post d s t qs" "tables_used 1 d s t ps qs" "pt_lookup (mem t) d = map_range a pa perm 1 (pt_lookup (mem s) d)"
        "mappages_loop (Suc k) d a pa perm s = mappages_loop k d (a + 4096) (pa + 4096) perm t"
    using mappages_step [OF Suc.prems(1,2), of a "Suc k" pa perm] by auto
  then show ?case
  proof cases
    case 1
    then show ?thesis
      using Suc.prems(1,2) tables_used_refl [of 0 d s "[]"] by (auto simp: walk_post_def intro!: exI [of _ 0])
  next
    case (2 t qs)
    have al: "(a + 4096) mod 4096 = 0"
      using Suc.prems(4) unfolding page_unat up by simp
    have j: "unat (a + 4096) div 4096 = Suc (unat a div 4096)"
      by (simp add: up)
    have "pt_lookup (mem t) d va = None" if "unat (a + 4096) div 4096 \<le> unat va div 4096" "unat va div 4096 \<le> unat (a + 4096) div 4096 + k" for va
      using that Suc.prems(5) [of va] unfolding 2(3) j by (simp add: map_range_def Let_def)
    then have "okr (mappages_loop k d (a + 4096) (pa + 4096) perm t) (\<lambda>ok u. \<exists>rs n. walk_post d t u rs \<and> tables_used n d t u qs rs \<and>
        pt_lookup (mem u) d = map_range (a + 4096) (pa + 4096) perm n (pt_lookup (mem t) d) \<and> (if ok then n = Suc k else n \<le> k \<and> rs = []))"
      using 2(1) up al Suc.prems(3) by (intro Suc.IH [of t qs]) (auto simp: walk_post_def)
    then obtain ok u rs n where u: "mappages_loop k d (a + 4096) (pa + 4096) perm t = Ret ok u" "walk_post d t u rs" "tables_used n d t u qs rs"
        "pt_lookup (mem u) d = map_range (a + 4096) (pa + 4096) perm n (pt_lookup (mem t) d)" "if ok then n = Suc k else n \<le> k \<and> rs = []"
      unfolding okr_iff by blast
    have "pt_lookup (mem u) d = map_range a pa perm (Suc n) (pt_lookup (mem s) d)"
      unfolding u(4) 2(3) by (rule map_range_Suc [OF up])
    moreover have "walk_post d s u rs"
      by (rule walk_post_trans [OF 2(1) u(2)])
    ultimately show ?thesis
      unfolding 2(4) u(1) using tables_used_trans [OF 2(2) u(3)] u(5) by (auto intro!: exI [of _ rs] exI [of _ "Suc n"])
  qed
qed

lemma unat_PGROUNDDOWN_div: "unat (PGROUNDDOWN a) div 4096 = unat a div 4096"
  by (simp add: unat_PGROUNDDOWN minus_mod_eq_mult_div)

lemma map_range_round: "map_range (PGROUNDDOWN a) pa perm n = map_range a pa perm n"
  by (intro ext) (simp add: map_range_def unat_PGROUNDDOWN_div)

text \<open>The pages that the \<open>sz\<close> bytes at \<open>va\<close> touch.\<close>

definition npages :: "u32 \<Rightarrow> u32 \<Rightarrow> nat" where
  "npages va sz = Suc ((unat va + unat sz - 1) div 4096 - unat va div 4096)"

definition unmapped :: "(u32 \<Rightarrow> u32 option) \<Rightarrow> u32 \<Rightarrow> u32 \<Rightarrow> bool" where
  "unmapped f va sz \<longleftrightarrow>
     (\<forall>x. unat va div 4096 \<le> unat x div 4096 \<longrightarrow> unat x div 4096 < unat va div 4096 + npages va sz \<longrightarrow> f x = None)"

lemma last_page:
  fixes va sz :: u32
  assumes "0 < sz" "unat va + unat sz \<le> 4294967296"
  shows "unat (va + sz - 1) = unat va + unat sz - 1"
proof -
  have "1 \<le> unat sz"
    using assms(1) by (simp add: word_less_nat_alt)
  then have "of_nat (unat va + unat sz - 1) = va + sz - 1"
    by (simp add: of_nat_diff)
  moreover have "unat (of_nat (unat va + unat sz - 1) :: u32) = unat va + unat sz - 1"
    using assms(2) \<open>1 \<le> unat sz\<close> by (simp add: unat_of_nat del: of_nat_diff)
  ultimately show ?thesis
    by (simp only:)
qed

lemma mappages_spec:
  assumes "kmem_inv s ps" "pt_ok (mem s) d (set ps)" "0 < sz" "unat va + unat sz \<le> 4294967296"
    and fresh: "unmapped (pt_lookup (mem s) d) va sz"
  shows "okr (mappages d va sz pa perm s) (\<lambda>ok t. \<exists>qs n. walk_post d s t qs \<and> tables_used n d s t ps qs \<and>
    pt_lookup (mem t) d = map_range va pa perm n (pt_lookup (mem s) d) \<and> (if ok then n = npages va sz else n < npages va sz \<and> qs = []))"
proof -
  let ?a = "PGROUNDDOWN va" and ?l = "PGROUNDDOWN (va + sz - 1)"
  define i j where "i = unat va div 4096" and "j = (unat va + unat sz - 1) div 4096"
  have sz: "1 \<le> unat sz"
    using assms(3) by (simp add: word_less_nat_alt)
  have l: "unat ?l = 4096 * j" and a: "unat ?a = 4096 * i"
    by (simp_all add: unat_PGROUNDDOWN last_page [OF assms(3,4)] i_def j_def minus_mod_eq_mult_div)
  have ij: "i \<le> j"
    unfolding i_def j_def using sz by (intro div_le_mono) simp
  then have k: "unat (?l - ?a) div 4096 = j - i"
    using l a by (simp add: unat_diff_u32 word_le_nat_alt diff_mult_distrib2 [symmetric])
  have "4096 * j \<le> unat va + unat sz - 1"
    by (simp add: j_def)
  then have top: "unat ?a + 4096 * (j - i) < 4294967296"
    using assms(4) ij sz a by (simp add: diff_mult_distrib2)
  have "okr (mappages_loop (j - i) d ?a pa perm s) (\<lambda>ok t. \<exists>qs n. walk_post d s t qs \<and> tables_used n d s t ps qs \<and>
      pt_lookup (mem t) d = map_range ?a pa perm n (pt_lookup (mem s) d) \<and> (if ok then n = Suc (j - i) else n \<le> j - i \<and> qs = []))"
  proof (rule mappages_loop_spec [OF assms(1,2) top])
    show "?a mod 4096 = 0"
      using PGROUNDDOWN_aligned .
    show "pt_lookup (mem s) d x = None" if "unat ?a div 4096 \<le> unat x div 4096" "unat x div 4096 \<le> unat ?a div 4096 + (j - i)" for x
      using that fresh [unfolded unmapped_def, rule_format, of x] unfolding unat_PGROUNDDOWN_div by (simp add: npages_def i_def j_def)
  qed
  then show ?thesis
    unfolding mappages_def Let_def k map_range_round npages_def i_def [symmetric] j_def [symmetric] less_Suc_eq_le .
qed

lemma mappages_remap:
  assumes "pt_lookup (mem s) d (PGROUNDDOWN va) \<noteq> None"
  shows "mappages d va sz pa perm s = Panic ''remap''"
proof -
  have "has_table (mem s) d (PDX (PGROUNDDOWN va))" "ld32 (mem s) (table_at (mem s) d (PDX (PGROUNDDOWN va)) + 4 * PTX (PGROUNDDOWN va)) AND PTE_P \<noteq> 0"
    using assms by (auto simp: pt_lookup_alt split: if_splits)
  then show ?thesis
    unfolding mappages_def Let_def
    by (subst mappages_loop.simps) (simp add: walkpgdir_def has_table_def table_at_def)
qed

section \<open>Properties\<close>

text \<open>
  \<^verbatim>\<open>mappages\<close> refines the update of a partial map. On a well-formed page directory, with none of
  the pages of the range mapped, it translates these pages to consecutive pages from \<open>pa\<close> on with the
  given permissions, and no other address is translated differently. It fails only when the
  free pages run out, and then the pages mapped so far are the first ones of the range. The free
  list and the directory stay well formed, and memory changes within pages of the table only. A range
  whose first page is mapped already is a panic.
\<close>

lemma mappages_maps:
  assumes "kmem_inv s ps" "pt_ok (mem s) d (set ps)" "0 < sz" "unat va + unat sz \<le> 4294967296"
  shows "(pt_lookup (mem s) d (PGROUNDDOWN va) \<noteq> None \<longrightarrow> mappages d va sz pa perm s = Panic ''remap'') \<and>
    (unmapped (pt_lookup (mem s) d) va sz \<longrightarrow>
       okr (mappages d va sz pa perm s) (\<lambda>ok t. \<exists>qs n. kmem_inv t qs \<and> pt_ok (mem t) d (set qs) \<and> same_outside (pt_pages (mem t) d) (mem s) (mem t) \<and>
         pt_pages (mem t) d \<union> set qs = pt_pages (mem s) d \<union> set ps \<and> pt_lookup (mem t) d = map_range va pa perm n (pt_lookup (mem s) d) \<and>
         (if ok then n = npages va sz else n < npages va sz \<and> length ps \<le> n \<and> qs = [])))"
proof (intro conjI impI)
  assume "unmapped (pt_lookup (mem s) d) va sz"
  from mappages_spec [OF assms this, of pa perm]
  show "okr (mappages d va sz pa perm s) (\<lambda>ok t. \<exists>qs n. kmem_inv t qs \<and> pt_ok (mem t) d (set qs) \<and> same_outside (pt_pages (mem t) d) (mem s) (mem t) \<and>
         pt_pages (mem t) d \<union> set qs = pt_pages (mem s) d \<union> set ps \<and> pt_lookup (mem t) d = map_range va pa perm n (pt_lookup (mem s) d) \<and>
         (if ok then n = npages va sz else n < npages va sz \<and> length ps \<le> n \<and> qs = []))"
  proof (rule okr_mono)
    fix ok t
    assume "\<exists>qs n. walk_post d s t qs \<and> tables_used n d s t ps qs \<and>
      pt_lookup (mem t) d = map_range va pa perm n (pt_lookup (mem s) d) \<and> (if ok then n = npages va sz else n < npages va sz \<and> qs = [])"
    then obtain qs n where "walk_post d s t qs" "tables_used n d s t ps qs" "pt_lookup (mem t) d = map_range va pa perm n (pt_lookup (mem s) d)"
      "if ok then n = npages va sz else n < npages va sz \<and> qs = []"
      by blast
    then show "\<exists>qs n. kmem_inv t qs \<and> pt_ok (mem t) d (set qs) \<and> same_outside (pt_pages (mem t) d) (mem s) (mem t) \<and>
         pt_pages (mem t) d \<union> set qs = pt_pages (mem s) d \<union> set ps \<and> pt_lookup (mem t) d = map_range va pa perm n (pt_lookup (mem s) d) \<and>
         (if ok then n = npages va sz else n < npages va sz \<and> length ps \<le> n \<and> qs = [])"
      by (intro exI [of _ qs] exI [of _ n]) (auto simp: walk_post_def tables_used_def split: if_splits)
  qed
qed (simp add: mappages_remap)

text \<open>A state with an empty page directory and three free pages.\<close>

definition sample_kmem :: kmem_state where
  "sample_kmem =
     \<lparr>mem = st32 (st32 (\<lambda>_. 0) 0x80400000 0x80401000) 0x80401000 0x80402000, freelist = 0x80400000, use_lock = True,
      kend = 0x80200000, kdata = 0x80108000\<rparr>"

lemma zero_entry: "ld32 (\<lambda>_. 0) a = 0"
  by (simp add: ld32_def rd32_def)

lemma sample_kmem_word:
  "a mod 4 = 0 \<Longrightarrow> ld32 (mem sample_kmem) a = (if a = 0x80401000 then 0x80402000 else if a = 0x80400000 then 0x80401000 else 0)"
  by (simp add: sample_kmem_def ld32_st32_other zero_entry)

lemma sample_kmem_inv: "kmem_inv sample_kmem [0x80400000, 0x80401000, 0x80402000]"
  by (simp add: kmem_inv_def sample_kmem_word page_ok_def V2P_def) (simp add: sample_kmem_def)

lemma sample_kmem_empty: "i < 1024 \<Longrightarrow> \<not> has_table (mem sample_kmem) 0x80500000 i"
proof -
  assume i: "i < 1024"
  have "(0x80500000 :: u32) mod 4096 = 0" "(0x80400000 :: u32) mod 4096 = 0" "(0x80401000 :: u32) mod 4096 = 0"
    by simp_all
  then have "0x80500000 + 4 * i \<noteq> (0x80400000 :: u32)" "0x80500000 + 4 * i \<noteq> (0x80401000 :: u32)" "(0x80500000 + 4 * i) mod 4 = 0"
    using entry_inj [of "0x80500000" i "0x80400000" 0] entry_inj [of "0x80500000" i "0x80401000" 0] entry_aligned [of "0x80500000" i] i by simp_all
  then show ?thesis
    by (simp add: has_table_def sample_kmem_word)
qed

lemma sample_kmem_pt: "pt_ok (mem sample_kmem) 0x80500000 {0x80400000, 0x80401000, 0x80402000}" "pt_lookup (mem sample_kmem) 0x80500000 va = None"
  using sample_kmem_empty sample_kmem_empty [OF PDX_lt] by (auto simp: pt_ok_def pt_lookup_alt)

lemma mappages_maps_witness:
  "\<exists>t. mappages 0x80500000 0x3FF800 0x1000 0x600000 6 sample_kmem = Ret True t \<and> pt_lookup (mem t) 0x80500000 0x400004 = Some 0x601007 \<and>
     pt_lookup (mem t) 0x80500000 0x401000 = None"
proof -
  have n: "npages 0x3FF800 0x1000 = 2"
    by (simp add: npages_def)
  have "unmapped (pt_lookup (mem sample_kmem) 0x80500000) 0x3FF800 0x1000"
    by (simp add: unmapped_def sample_kmem_pt)
  moreover have "pt_ok (mem sample_kmem) 0x80500000 (set [0x80400000, 0x80401000, 0x80402000])"
    using sample_kmem_pt(1) by simp
  ultimately obtain ok t qs n where "mappages 0x80500000 0x3FF800 0x1000 0x600000 6 sample_kmem = Ret ok t"
      "pt_lookup (mem t) 0x80500000 = map_range 0x3FF800 0x600000 6 n (pt_lookup (mem sample_kmem) 0x80500000)"
      "if ok then n = 2 else n < 2 \<and> length [0x80400000, 0x80401000, 0x80402000 :: u32] \<le> n \<and> qs = ([] :: u32 list)"
    using mappages_maps [OF sample_kmem_inv, of "0x80500000" "0x1000" "0x3FF800" "0x600000" 6] unfolding okr_iff n by auto
  then show ?thesis
    by (auto simp: map_range_def sample_kmem_pt split: if_splits)
qed

end
