(* ===== verification/Uvm.thy ===== *)
theory Uvm
  imports Paging
begin

text \<open>
  User address spaces: \<^verbatim>\<open>deallocuvm\<close>, \<^verbatim>\<open>allocuvm\<close>, \<^verbatim>\<open>freevm\<close> and \<^verbatim>\<open>copyout\<close> of \<^verbatim>\<open>vm.c\<close>. \<open>uvm_ok s d ps\<close>
  says that the page table at \<open>d\<close> is well formed, that \<open>ps\<close> is the free list, and that every user
  address is translated to a page of its own, which is neither free nor part of the table.
\<close>

section \<open>The invariant\<close>

abbreviation (input) page_of :: "u32 \<Rightarrow> u32" where "page_of pte \<equiv> P2V (PTE_ADDR pte)"

definition user_map :: "mem \<Rightarrow> u32 \<Rightarrow> u32 \<Rightarrow> u32 option" where
  "user_map m d va = (if va < KERNBASE then pt_lookup m d va else None)"

definition uvm_ok :: "'a kmem_state_scheme \<Rightarrow> u32 \<Rightarrow> u32 list \<Rightarrow> bool" where
  "uvm_ok s d ps \<longleftrightarrow> kmem_inv s ps \<and> pt_ok (mem s) d (set ps) \<and> KERNBASE < kend s \<and>
     (\<forall>p\<in>pt_pages (mem s) d. page_ok s p) \<and>
     (\<forall>va pte. user_map (mem s) d va = Some pte \<longrightarrow>
        page_ok s (page_of pte) \<and> page_of pte \<notin> set ps \<and> page_of pte \<notin> pt_pages (mem s) d) \<and>
     (\<forall>va va' pte pte'. user_map (mem s) d va = Some pte \<longrightarrow> user_map (mem s) d va' = Some pte' \<longrightarrow>
        page_of pte = page_of pte' \<longrightarrow> unat va div 4096 = unat va' div 4096)"

text \<open>Memory outside the pages of a table does not matter to it.\<close>

definition same_on :: "u32 set \<Rightarrow> mem \<Rightarrow> mem \<Rightarrow> bool" where
  "same_on P m m' \<longleftrightarrow> (\<forall>p\<in>P. \<forall>x. unat (x - p) < 4096 \<longrightarrow> m' x = m x)"

lemma pt_frame:
  assumes "d mod 4096 = 0" "same_on (pt_pages m d) m m'"
  shows "pt_pages m' d = pt_pages m d" "pt_lookup m' d = pt_lookup m d" "pt_ok m' d F = pt_ok m d F"
    "i < 1024 \<Longrightarrow> has_table m' d i = has_table m d i" "i < 1024 \<Longrightarrow> table_at m' d i = table_at m d i"
proof -
  have e: "ld32 m' (p + 4 * i) = ld32 m (p + 4 * i)" if "p \<in> pt_pages m d" "i < 1024" for p i
    by (rule ld32_cong) (use assms(2) that(1) entry_byte [OF that(2), of _ p] in \<open>simp add: same_on_def\<close>)
  have d: "d \<in> pt_pages m d"
    by (simp add: pt_pages_def)
  have h: "has_table m' d i = has_table m d i" and t: "table_at m' d i = table_at m d i" if "i < 1024" for i
    using e [OF d that] by (simp_all add: has_table_def table_at_def)
  show "i < 1024 \<Longrightarrow> has_table m' d i = has_table m d i" "i < 1024 \<Longrightarrow> table_at m' d i = table_at m d i"
    using h t by auto
  show "pt_pages m' d = pt_pages m d"
    unfolding pt_pages_def using h t by (intro arg_cong2 [where f = insert] image_cong) auto
  show "pt_ok m' d F = pt_ok m d F"
    using h t by (auto simp: pt_ok_def)
  show "pt_lookup m' d = pt_lookup m d"
  proof
    fix va
    have "table_at m d (PDX va) \<in> pt_pages m d" if "has_table m d (PDX va)"
      using that PDX_lt by (auto simp: pt_pages_def)
    then show "pt_lookup m' d va = pt_lookup m d va"
      using e [OF _ PTX_lt [of va], of "table_at m d (PDX va)"] h [OF PDX_lt, of va] t [OF PDX_lt, of va] by (auto simp: pt_lookup_alt)
  qed
qed

lemma pt_ok_insert: "pt_ok m d F \<Longrightarrow> p \<notin> pt_pages m d \<Longrightarrow> pt_ok m d (insert p F)"
  by (auto simp: pt_ok_def pt_pages_def)

lemma pt_ok_change: "pt_ok m d F \<Longrightarrow> G \<inter> pt_pages m d = {} \<Longrightarrow> pt_ok m d G"
  by (auto simp: pt_ok_def pt_pages_def)

lemma uvm_okD:
  assumes "uvm_ok s d ps"
  shows "kmem_inv s ps" "pt_ok (mem s) d (set ps)" "KERNBASE < kend s" "d mod 4096 = 0"
    "\<And>p. p \<in> pt_pages (mem s) d \<Longrightarrow> page_ok s p"
    "\<And>va pte. user_map (mem s) d va = Some pte \<Longrightarrow> page_ok s (page_of pte) \<and> page_of pte \<notin> set ps \<and> page_of pte \<notin> pt_pages (mem s) d"
    "\<And>va va' pte pte'. user_map (mem s) d va = Some pte \<Longrightarrow> user_map (mem s) d va' = Some pte' \<Longrightarrow> page_of pte = page_of pte' \<Longrightarrow>
        unat va div 4096 = unat va' div 4096"
  using assms pt_okD(1) [of "mem s" d "set ps"] unfolding uvm_ok_def by blast+

lemma pte_of_page:
  "unat va div 4096 = unat va' div 4096 \<Longrightarrow> pt_lookup m d va = pt_lookup m d va'"
  using page_index [of va va'] by (simp add: pt_lookup_alt)

lemma user_page_below: "unat va div 4096 = unat va' div 4096 \<Longrightarrow> va < KERNBASE \<longleftrightarrow> va' < KERNBASE"
proof -
  assume e: "unat va div 4096 = unat va' div 4096"
  have "x < KERNBASE \<longleftrightarrow> unat x div 4096 < 524288" for x :: u32
    by (simp add: word_less_nat_alt div_less_iff_less_mult)
  then show ?thesis
    using e by simp
qed

lemma user_map_page:
  "unat va div 4096 = unat va' div 4096 \<Longrightarrow> user_map m d va = user_map m d va'"
  using user_page_below [of va va'] pte_of_page [of va va' m d] by (auto simp: user_map_def)

text \<open>Freeing the page at a user address and clearing its entry.\<close>

lemma unmap_step:
  assumes "uvm_ok s d ps" "user_map (mem s) d va = Some pte"
  defines "e \<equiv> table_at (mem s) d (PDX va) + 4 * PTX va"
  shows "PTE_ADDR pte \<noteq> 0" "ld32 (mem s) e = pte"
    "okr (kfree (page_of pte) s) (\<lambda>_ t. let u = t\<lparr>mem := st32 (mem t) e 0\<rparr> in uvm_ok u d (page_of pte # ps) \<and>
       pt_lookup (mem u) d = (\<lambda>x. if unat x div 4096 = unat va div 4096 then None else pt_lookup (mem s) d x) \<and>
       pt_pages (mem u) d = pt_pages (mem s) d \<and> only_mem s u \<and>
       same_outside (insert (page_of pte) (pt_pages (mem s) d)) (mem s) (mem u))"
proof -
  note ok = uvm_okD [OF assms(1)]
  have va: "va < KERNBASE" "pt_lookup (mem s) d va = Some pte"
    using assms(2) by (auto simp: user_map_def split: if_splits)
  then have h: "has_table (mem s) d (PDX va)" and pte: "ld32 (mem s) e = pte"
    by (auto simp: pt_lookup_alt e_def split: if_splits)
  note p = ok(6) [OF assms(2), THEN conjunct1] ok(6) [OF assms(2), THEN conjunct2]
  show "PTE_ADDR pte \<noteq> 0"
    using p(1) ok(3) by (auto simp: page_ok_def P2V_def)
  show "ld32 (mem s) e = pte"
    using pte .
  obtain t where t: "kfree (page_of pte) s = Ret () t" "kmem_inv t (page_of pte # ps)" "kend t = kend s"
      "\<And>x. 4096 \<le> unat (x - page_of pte) \<Longrightarrow> mem t x = mem s x"
    using kfree_spec [OF ok(1) p(1)] p(2) by (auto simp: okr_iff)
  have same: "same_on (pt_pages (mem s) d) (mem s) (mem t)"
    unfolding same_on_def
  proof (intro ballI allI impI, rule t(4), erule other_page [rotated 3])
    fix q
    assume "q \<in> pt_pages (mem s) d"
    then show "q mod 4096 = 0" "page_of pte mod 4096 = 0" "q \<noteq> page_of pte"
      using pt_pages_aligned [OF ok(2)] page_ok_aligned [OF p(1)] p(2) by auto
  qed
  note f = pt_frame [OF ok(4) same]
  have okt: "pt_ok (mem t) d (set (page_of pte # ps))"
    using pt_ok_insert [OF ok(2)] p(2) by (simp add: f(3))
  have ht: "has_table (mem t) d (PDX va)" "table_at (mem t) d (PDX va) = table_at (mem s) d (PDX va)"
    using f(4,5) [OF PDX_lt, of va] h by simp_all
  let ?u = "t\<lparr>mem := st32 (mem t) e 0\<rparr>"
  note st = store_pte [OF okt ht(1) PDX_lt PTX_lt [of va], where v = 0, unfolded ht(2), folded e_def]
  note sp = store_pte_pages [OF okt ht(1) PDX_lt PTX_lt [of va], where v = 0, unfolded ht(2), folded e_def]
  show "okr (kfree (page_of pte) s) (\<lambda>_ t. let u = t\<lparr>mem := st32 (mem t) e 0\<rparr> in uvm_ok u d (page_of pte # ps) \<and>
       pt_lookup (mem u) d = (\<lambda>x. if unat x div 4096 = unat va div 4096 then None else pt_lookup (mem s) d x) \<and>
       pt_pages (mem u) d = pt_pages (mem s) d \<and> only_mem s u \<and>
       same_outside (insert (page_of pte) (pt_pages (mem s) d)) (mem s) (mem u))"
  proof -
    have look: "pt_lookup (mem ?u) d = (\<lambda>x. if unat x div 4096 = unat va div 4096 then None else pt_lookup (mem s) d x)"
      using st(4) f(2) page_index by (auto simp: fun_eq_iff)
    then have um: "user_map (mem ?u) d x = (if unat x div 4096 = unat va div 4096 then None else user_map (mem s) d x)" for x
      by (simp add: user_map_def)
    have pg: "pt_pages (mem ?u) d = pt_pages (mem s) d"
      using sp(1) f(1) by simp
    have "kmem_inv ?u (page_of pte # ps)"
      by (rule kmem_inv_pt [OF t(2) okt]) (simp_all add: sp(2))
    moreover have "page_of pte' \<noteq> page_of pte" if "user_map (mem s) d x = Some pte'" "unat x div 4096 \<noteq> unat va div 4096" for x pte'
      using ok(7) [OF that(1) assms(2)] that(2) by auto
    moreover have "page_ok ?u q = page_ok s q" for q
      by (rule page_ok_cong) (simp add: t(3))
    ultimately have "uvm_ok ?u d (page_of pte # ps)"
      unfolding uvm_ok_def um pg using st(3) t(3) ok(3,5)
      by (auto split: if_splits dest: ok(6) ok(7))
    moreover have "only_mem s ?u"
      using t(1) by (auto simp: kfree_def Let_def only_mem_def split: if_splits)
    moreover have "same_outside (insert (page_of pte) (pt_pages (mem s) d)) (mem s) (mem ?u)"
      using sp(2) t(4) f(1) by (auto simp: same_outside_def)
    ultimately show ?thesis
      using t(1) look pg by (simp add: Let_def)
  qed
qed

section \<open>Releasing a range\<close>

definition page_in :: "nat \<Rightarrow> nat \<Rightarrow> u32 \<Rightarrow> bool" where
  "page_in lo hi va \<longleftrightarrow> lo \<le> unat va div 4096 * 4096 \<and> unat va div 4096 * 4096 < hi"

text \<open>The map without the pages that start between \<open>lo\<close> and \<open>hi\<close>, and the pages this releases.\<close>

definition clear_range :: "nat \<Rightarrow> nat \<Rightarrow> (u32 \<Rightarrow> u32 option) \<Rightarrow> u32 \<Rightarrow> u32 option" where
  "clear_range lo hi f va = (if page_in lo hi va then None else f va)"

definition pages_in :: "nat \<Rightarrow> nat \<Rightarrow> (u32 \<Rightarrow> u32 option) \<Rightarrow> u32 set" where
  "pages_in lo hi f = {page_of pte |va pte. f va = Some pte \<and> page_in lo hi va}"

lemma range_empty: "hi \<le> lo \<Longrightarrow> clear_range lo hi f = f" "hi \<le> lo \<Longrightarrow> pages_in lo hi f = {}"
  by (auto simp: clear_range_def pages_in_def page_in_def fun_eq_iff)

lemma range_skip:
  assumes "lo \<le> mid" "\<And>va. page_in lo (min mid hi) va \<Longrightarrow> f va = None"
  shows "clear_range mid hi f = clear_range lo hi f" "pages_in mid hi f = pages_in lo hi f"
proof -
  have "page_in lo hi va \<longleftrightarrow> page_in mid hi va \<or> page_in lo (min mid hi) va" for va
    using assms(1) by (auto simp: page_in_def)
  then show "clear_range mid hi f = clear_range lo hi f" "pages_in mid hi f = pages_in lo hi f"
    using assms(2) by (fastforce simp: clear_range_def pages_in_def)+
qed

lemma page_in_one:
  assumes "a mod 4096 = 0"
  shows "page_in a (min (a + 4096) hi) va \<longleftrightarrow> unat va div 4096 = a div 4096 \<and> a < hi"
proof -
  obtain k where k: "a = k * 4096"
    using assms by (auto elim: dvdE simp: mod_eq_0_iff_dvd mult.commute)
  have "k * 4096 \<le> i * 4096 \<and> i * 4096 < min (k * 4096 + 4096) hi \<longleftrightarrow> i = k \<and> k * 4096 < hi" for i :: nat
    by linarith
  then show ?thesis
    by (simp add: page_in_def k)
qed

text \<open>The pages of a directory entry.\<close>

lemma page_in_dir:
  assumes "page_in a ((a div 4194304 + 1) * 4194304) va" "a < 4294967296"
  shows "PDX va = PDX (of_nat a)"
proof -
  have "a div 4194304 \<le> unat va div 4194304"
    using assms(1) unfolding page_in_def by (intro div_le_mono) (meson div_times_less_eq_dividend le_trans)
  moreover have "unat va div 4096 < (a div 4194304 + 1) * 1024"
    using assms(1) by (simp add: page_in_def)
  then have "unat va div 4096 div 1024 < a div 4194304 + 1"
    by (simp add: div_less_iff_less_mult)
  then have "unat va div 4194304 \<le> a div 4194304"
    by (simp add: div_mult2_eq [symmetric])
  ultimately show ?thesis
    using assms(2) by (simp add: word_unat_eq_iff unat_PDX unat_of_nat)
qed

definition freed :: "nat \<Rightarrow> nat \<Rightarrow> u32 \<Rightarrow> 'a kmem_state_scheme \<Rightarrow> 'a kmem_state_scheme \<Rightarrow> u32 list \<Rightarrow> u32 list \<Rightarrow> bool" where
  "freed lo hi d s t qs ps \<longleftrightarrow> uvm_ok t d (qs @ ps) \<and> set qs = pages_in lo hi (pt_lookup (mem s) d) \<and>
     pt_lookup (mem t) d = clear_range lo hi (pt_lookup (mem s) d) \<and> pt_pages (mem t) d = pt_pages (mem s) d \<and> only_mem s t \<and>
     same_outside (pages_in lo hi (pt_lookup (mem s) d) \<union> pt_pages (mem s) d) (mem s) (mem t)"

lemma freed_skip:
  assumes "freed mid hi d s t qs ps" "lo \<le> mid" "\<And>va. page_in lo (min mid hi) va \<Longrightarrow> pt_lookup (mem s) d va = None"
  shows "freed lo hi d s t qs ps"
  using assms(1) range_skip [OF assms(2,3)] unfolding freed_def by simp

lemma page_in_split:
  assumes "a mod 4096 = 0" "a < hi"
  shows "page_in a hi va \<longleftrightarrow> page_in (a + 4096) hi va \<or> unat va div 4096 = a div 4096"
proof -
  have "page_in a hi va \<longleftrightarrow> page_in (a + 4096) hi va \<or> page_in a (min (a + 4096) hi) va"
    by (auto simp: page_in_def)
  then show ?thesis
    using page_in_one [OF assms(1)] assms(2) by simp
qed

lemma freed_cons:
  fixes a :: nat
  assumes "freed (a + 4096) hi d u t qs (page_of pte # ps)" "a mod 4096 = 0" "a < hi" "a < 4294967296"
    and u: "pt_lookup (mem u) d = (\<lambda>x. if unat x div 4096 = a div 4096 then None else pt_lookup (mem s) d x)"
      "pt_pages (mem u) d = pt_pages (mem s) d" "only_mem s u"
      "same_outside (insert (page_of pte) (pt_pages (mem s) d)) (mem s) (mem u)"
    and f: "pt_lookup (mem s) d (of_nat a) = Some pte"
  shows "freed a hi d s t (qs @ [page_of pte]) ps"
proof -
  let ?f = "pt_lookup (mem s) d"
  have same: "?f x = Some pte" if "unat x div 4096 = a div 4096" for x
    using pte_of_page [of x "of_nat a" "mem s" d] that assms(4) f by (simp add: unat_of_nat)
  have page: "page_in (a + 4096) hi x \<Longrightarrow> unat x div 4096 \<noteq> a div 4096" for x
    using assms(2) by (auto simp: page_in_def)
  have c: "clear_range (a + 4096) hi (pt_lookup (mem u) d) = clear_range a hi ?f"
    unfolding u(1) clear_range_def page_in_split [OF assms(2,3)] by (rule ext) simp
  have "unat (of_nat a :: u32) div 4096 = a div 4096"
    using assms(4) by (simp add: unat_of_nat)
  then have i: "pages_in a hi ?f = insert (page_of pte) (pages_in (a + 4096) hi (pt_lookup (mem u) d))"
    unfolding pages_in_def u(1) page_in_split [OF assms(2,3)] using same page f by (auto; blast)
  have "same_outside (pages_in a hi ?f \<union> pt_pages (mem s) d) (mem s) (mem t)"
    using assms(1) u(2,4) unfolding i freed_def same_outside_def by (metis (no_types, lifting) Un_iff insert_iff)
  then show ?thesis
    using assms(1) c i u(2) only_mem_trans [OF u(3)] unfolding freed_def by auto
qed

lemma deallocuvm_loop_spec:
  assumes "uvm_ok s d ps" "a mod 4096 = 0" "hi \<le> 2147483648"
  shows "okr (deallocuvm_loop d a hi s) (\<lambda>_ t. \<exists>qs. freed a hi d s t qs ps)"
  using assms
proof (induction "hi - a" arbitrary: a s ps rule: less_induct)
  case less
  show ?case
  proof (cases "a < hi")
    case False
    then show ?thesis
      using less.prems by (subst deallocuvm_loop.simps) (auto simp: freed_def range_empty intro!: exI [of _ "[]"])
  next
    case True
    let ?va = "of_nat a :: u32" and ?nx = "(a div 4194304 + 1) * 4194304"
    have va: "unat ?va = a" "?va < KERNBASE" and big: "a < 4294967296"
      using True less.prems(3) by (simp_all add: unat_of_nat word_less_nat_alt)
    have nx: "a < ?nx" "?nx mod 4096 = 0"
      using next_dir_gt [of a] mod_mult_right_eq [of "a div 4194304 + 1" 4194304 4096] by simp_all
    have al: "(a + 4096) mod 4096 = 0"
      using less.prems(2) by simp
    consider (dir) "\<not> has_table (mem s) d (PDX ?va)"
      | (absent) "has_table (mem s) d (PDX ?va)" "pt_lookup (mem s) d ?va = None"
      | (page) pte where "has_table (mem s) d (PDX ?va)" "pt_lookup (mem s) d ?va = Some pte"
      by fastforce
    then show ?thesis
    proof cases
      case dir
      then have "deallocuvm_loop d a hi s = deallocuvm_loop d ?nx hi s"
        using True by (subst deallocuvm_loop.simps) (simp add: walkpgdir_def has_table_def)
      moreover have "pt_lookup (mem s) d x = None" if "page_in a (min ?nx hi) x" for x
        using page_in_dir [of a x] that dir big by (auto simp: page_in_def pt_lookup_alt)
      moreover have "okr (deallocuvm_loop d ?nx hi s) (\<lambda>_ t. \<exists>qs. freed ?nx hi d s t qs ps)"
        using nx(1) True by (intro less.hyps [OF _ less.prems(1) nx(2) less.prems(3)]) simp
      ultimately show ?thesis
        using freed_skip [of ?nx hi d s _ _ ps a] nx(1) by (auto elim!: okr_mono simp del: mult_Suc add_mult_distrib)
    next
      case absent
      then have "deallocuvm_loop d a hi s = deallocuvm_loop d (a + 4096) hi s"
        using True by (subst deallocuvm_loop.simps) (auto simp: walkpgdir_def has_table_def table_at_def pt_lookup_alt split: if_splits)
      moreover have "pt_lookup (mem s) d x = None" if "page_in a (min (a + 4096) hi) x" for x
        using that page_in_one [OF less.prems(2)] pte_of_page [of x ?va "mem s" d] absent(2) va(1) by simp
      moreover have "okr (deallocuvm_loop d (a + 4096) hi s) (\<lambda>_ t. \<exists>qs. freed (a + 4096) hi d s t qs ps)"
        using True by (intro less.hyps [OF _ less.prems(1) al less.prems(3)]) simp
      ultimately show ?thesis
        using freed_skip [of "a + 4096" hi d s _ _ ps a] by (auto elim!: okr_mono)
    next
      case page
      let ?e = "table_at (mem s) d (PDX ?va) + 4 * PTX ?va"
      have um: "user_map (mem s) d ?va = Some pte"
        using page(2) va(2) by (simp add: user_map_def)
      note st = unmap_step [OF less.prems(1) um]
      obtain t where t: "kfree (page_of pte) s = Ret () t" and u: "let u = t\<lparr>mem := st32 (mem t) ?e 0\<rparr> in uvm_ok u d (page_of pte # ps) \<and>
          pt_lookup (mem u) d = (\<lambda>x. if unat x div 4096 = unat ?va div 4096 then None else pt_lookup (mem s) d x) \<and>
          pt_pages (mem u) d = pt_pages (mem s) d \<and> only_mem s u \<and> same_outside (insert (page_of pte) (pt_pages (mem s) d)) (mem s) (mem u)"
        using st(3) by (auto simp: okr_iff)
      let ?u = "t\<lparr>mem := st32 (mem t) ?e 0\<rparr>"
      note u = u [unfolded Let_def va(1)]
      have "pte AND PTE_P \<noteq> 0"
        using page(2) by (auto simp: pt_lookup_alt split: if_splits)
      then have "deallocuvm_loop d a hi s = deallocuvm_loop d (a + 4096) hi ?u"
        using True page(1) st(1,2) t
        by (subst deallocuvm_loop.simps) (simp add: walkpgdir_def has_table_def table_at_def Let_def)
      moreover have "okr (deallocuvm_loop d (a + 4096) hi ?u) (\<lambda>_ t. \<exists>qs. freed (a + 4096) hi d ?u t qs (page_of pte # ps))"
        using u True by (intro less.hyps [OF _ _ al less.prems(3)]) simp_all
      ultimately show ?thesis
        using freed_cons [OF _ less.prems(2) True big, of d ?u _ _ pte ps s] u page(2)
        by (auto elim!: okr_mono)
    qed
  qed
qed

lemma deallocuvm_spec:
  assumes "uvm_ok s d ps" "unat oldsz \<le> 2147483648"
  shows "okr (deallocuvm d oldsz newsz s) (\<lambda>r t. r = (if oldsz \<le> newsz then oldsz else newsz) \<and>
    (\<exists>qs. freed (unat (PGROUNDUP newsz)) (if oldsz \<le> newsz then 0 else unat oldsz) d s t qs ps))"
proof (cases "oldsz \<le> newsz")
  case True
  then show ?thesis
    using assms(1) by (auto simp: deallocuvm_def freed_def range_empty intro!: exI [of _ "[]"])
next
  case False
  have "unat (PGROUNDUP newsz) mod 4096 = 0"
    using PGROUNDUP_aligned [of newsz] by (simp only: page_unat)
  from deallocuvm_loop_spec [OF assms(1) this assms(2)] show ?thesis
    using False by (auto simp: deallocuvm_def elim!: okr_mono)
qed

section \<open>Releasing an address space\<close>

text \<open>The tables whose directory entries are below \<open>n\<close>, in the order of the loop.\<close>

definition tables_below :: "mem \<Rightarrow> u32 \<Rightarrow> nat \<Rightarrow> u32 list" where
  "tables_below m d n = map (\<lambda>i. table_at m d (of_nat i)) (filter (\<lambda>i. has_table m d (of_nat i)) [0..<n])"

lemma tables_below_Suc:
  "tables_below m d (Suc n) = tables_below m d n @ (if has_table m d (of_nat n) then [table_at m d (of_nat n)] else [])"
  by (simp add: tables_below_def)

lemma index_less: "i < 1024 \<Longrightarrow> (of_nat i :: u32) < 1024"
  by (simp add: word_less_nat_alt unat_of_nat)

lemma tables_below_in:
  assumes "n \<le> 1024" "pt_ok m d F" "p \<in> set (tables_below m d n)"
  shows "p \<in> pt_pages m d" "p \<noteq> d"
proof -
  obtain i where i: "i < n" "has_table m d (of_nat i)" "p = table_at m d (of_nat i)"
    using assms(3) by (auto simp: tables_below_def)
  then have "(of_nat i :: u32) < 1024"
    using assms(1) by (intro index_less) simp
  then show "p \<in> pt_pages m d" "p \<noteq> d"
    using i pt_okD(3) [OF assms(2)] by (auto simp: pt_pages_def)
qed

lemma tables_below_distinct: "n \<le> 1024 \<Longrightarrow> pt_ok m d F \<Longrightarrow> distinct (tables_below m d n)"
proof (induction n)
  case (Suc n)
  have "table_at m d (of_nat n) \<notin> set (tables_below m d n)" if h: "has_table m d (of_nat n)"
  proof
    assume "table_at m d (of_nat n) \<in> set (tables_below m d n)"
    then obtain i where i: "i < n" "has_table m d (of_nat i)" "table_at m d (of_nat i) = table_at m d (of_nat n)"
      by (auto simp: tables_below_def)
    then have "(of_nat i :: u32) = of_nat n"
      using pt_okD(4) [OF Suc.prems(2), of "of_nat i" "of_nat n"] index_less Suc.prems(1) h by auto
    then show False
      using i(1) Suc.prems(1) by (simp add: word_unat_eq_iff unat_of_nat)
  qed
  then show ?case
    using Suc by (simp add: tables_below_Suc)
qed (simp add: tables_below_def)

lemma tables_all: "set (tables_below m d 1024) = table_at m d ` {i. i < 1024 \<and> has_table m d i}"
proof -
  have "{i :: u32. i < 1024} = of_nat ` {..<1024}"
  proof (intro equalityI subsetI)
    fix i :: u32
    assume "i \<in> {i. i < 1024}"
    then show "i \<in> of_nat ` {..<1024}"
      by (intro image_eqI [of _ _ "unat i"]) (simp_all add: word_less_nat_alt)
  qed (use index_less in auto)
  then have "{i. i < 1024 \<and> has_table m d i} = of_nat ` {k. k < 1024 \<and> has_table m d (of_nat k)}"
    by (auto simp: set_eq_iff image_iff)
  moreover have "set (tables_below m d 1024) = (\<lambda>k. table_at m d (of_nat k)) ` {k. k < 1024 \<and> has_table m d (of_nat k)}"
    unfolding tables_below_def set_map set_filter by (intro image_cong) auto
  ultimately show ?thesis
    by (simp only: image_image)
qed

definition user_pages :: "mem \<Rightarrow> u32 \<Rightarrow> u32 set" where
  "user_pages m d = {page_of pte |va pte. user_map m d va = Some pte}"

lemma user_pages_range: "pages_in 0 2147483648 (pt_lookup m d) = user_pages m d"
proof -
  have "page_in 0 2147483648 va \<longleftrightarrow> va < KERNBASE" for va
    using less_mult_imp_div_less [of "unat va" 524288 4096] div_times_less_eq_dividend [of "unat va" 4096]
    by (auto simp: page_in_def word_less_nat_alt)
  then show ?thesis
    by (auto simp: pages_in_def user_pages_def user_map_def)
qed

lemma freevm_tables:
  assumes ok: "kmem_inv s ps" "pt_ok (mem s) d (set ps)" "\<And>p. p \<in> pt_pages (mem s) d \<Longrightarrow> page_ok s p"
  shows "okr (foreach [0..<NPDENTRIES] (\<lambda>i s.
      let pde = ld32 (mem s) (d + 4 * of_nat i) in if pde AND PTE_P \<noteq> 0 then kfree (P2V (PTE_ADDR pde)) s else Ret () s) s)
    (\<lambda>_ t. kmem_inv t (rev (tables_below (mem s) d 1024) @ ps) \<and> only_mem s t \<and> same_outside (pt_pages (mem s) d - {d}) (mem s) (mem t))"
proof (rule foreach_upt)
  fix k t
  assume k: "k < NPDENTRIES" and "kmem_inv t (rev (tables_below (mem s) d k) @ ps) \<and> only_mem s t \<and> same_outside (pt_pages (mem s) d - {d}) (mem s) (mem t)"
  then have t: "kmem_inv t (rev (tables_below (mem s) d k) @ ps)" "only_mem s t" "same_outside (pt_pages (mem s) d - {d}) (mem s) (mem t)"
    by auto
  have al: "d mod 4096 = 0"
    by (rule pt_okD(1) [OF ok(2)])
  have "ld32 (mem t) (d + 4 * of_nat k) = ld32 (mem s) (d + 4 * of_nat k)"
  proof (rule ld32_cong)
    fix j :: nat
    assume "j < 4"
    then have "unat (d + 4 * of_nat k + of_nat j - d) < 4096"
      using entry_byte [OF index_less] k by simp
    then have "4096 \<le> unat (d + 4 * of_nat k + of_nat j - p)" if "p \<in> pt_pages (mem s) d - {d}" for p
      using other_page [OF al, of p] pt_pages_aligned [OF ok(2), of p] that by auto
    then show "mem t (d + 4 * of_nat k + of_nat j) = mem s (d + 4 * of_nat k + of_nat j)"
      using t(3) by (simp add: same_outside_def)
  qed
  moreover have "okr (kfree (table_at (mem s) d (of_nat k)) t) (\<lambda>_ u. kmem_inv u (table_at (mem s) d (of_nat k) # rev (tables_below (mem s) d k) @ ps) \<and>
      only_mem s u \<and> same_outside (pt_pages (mem s) d - {d}) (mem s) (mem u))" if h: "has_table (mem s) d (of_nat k)"
  proof -
    let ?p = "table_at (mem s) d (of_nat k)"
    have p: "?p \<in> pt_pages (mem s) d" "?p \<noteq> d" "?p \<notin> set ps"
      using h index_less k pt_okD(3) [OF ok(2)] by (auto simp: pt_pages_def)
    have "?p \<notin> set (tables_below (mem s) d k)"
      using tables_below_distinct [of "Suc k", OF _ ok(2)] k h by (simp add: tables_below_Suc)
    moreover have "page_ok t ?p"
      using ok(3) [OF p(1)] only_mem_kend [OF t(2)] by (simp cong: page_ok_cong)
    ultimately obtain u where u: "kfree ?p t = Ret () u" "kmem_inv u (?p # rev (tables_below (mem s) d k) @ ps)"
        "\<And>x. 4096 \<le> unat (x - ?p) \<Longrightarrow> mem u x = mem t x"
      using kfree_spec [OF t(1), of ?p] p(3) by (auto simp: okr_iff)
    moreover have "only_mem t u"
      using u(1) by (auto simp: kfree_def Let_def only_mem_def split: if_splits)
    moreover have "same_outside (pt_pages (mem s) d - {d}) (mem s) (mem u)"
      using t(3) u(3) p(1,2) by (auto simp: same_outside_def)
    ultimately show ?thesis
      using only_mem_trans [OF t(2)] by simp
  qed
  ultimately show "okr (let pde = ld32 (mem t) (d + 4 * of_nat k) in if pde AND PTE_P \<noteq> 0 then kfree (P2V (PTE_ADDR pde)) t else Ret () t)
      (\<lambda>_ u. kmem_inv u (rev (tables_below (mem s) d (Suc k)) @ ps) \<and> only_mem s u \<and> same_outside (pt_pages (mem s) d - {d}) (mem s) (mem u))"
    using t by (auto simp: Let_def tables_below_Suc has_table_def table_at_def)
qed (use ok(1) in \<open>simp add: tables_below_def\<close>)

lemma freevm_spec:
  assumes "uvm_ok s d ps"
  shows "okr (freevm d s) (\<lambda>_ t. \<exists>qs. kmem_inv t qs \<and> set qs = set ps \<union> user_pages (mem s) d \<union> pt_pages (mem s) d \<and>
    only_mem s t \<and> same_outside (user_pages (mem s) d \<union> pt_pages (mem s) d) (mem s) (mem t))"
proof -
  note ok = uvm_okD [OF assms]
  have d: "d \<in> pt_pages (mem s) d" "d \<noteq> 0"
    using ok(5) [of d] page_ok_nonzero [of s d] by (auto simp: pt_pages_def)
  have ru: "unat (PGROUNDUP 0) = 0"
    using unat_PGROUNDUP [of 0] by simp
  obtain t1 qs where t1: "deallocuvm d KERNBASE 0 s = Ret 0 t1" "freed 0 2147483648 d s t1 qs ps"
    using deallocuvm_spec [OF assms, of KERNBASE 0] unfolding ru by (auto simp: okr_iff)
  have q: "uvm_ok t1 d (qs @ ps)" "set qs = user_pages (mem s) d" "pt_pages (mem t1) d = pt_pages (mem s) d" "only_mem s t1"
      "same_outside (user_pages (mem s) d \<union> pt_pages (mem s) d) (mem s) (mem t1)"
    using t1(2) unfolding freed_def user_pages_range by auto
  note ok1 = uvm_okD [OF q(1)]
  let ?ts = "rev (tables_below (mem t1) d 1024) @ qs @ ps"
  obtain x t2 where t2: "foreach [0..<NPDENTRIES] (\<lambda>i s.
      let pde = ld32 (mem s) (d + 4 * of_nat i) in if pde AND PTE_P \<noteq> 0 then kfree (P2V (PTE_ADDR pde)) s else Ret () s) t1 = Ret x t2"
      "kmem_inv t2 ?ts" "only_mem t1 t2" "same_outside (pt_pages (mem t1) d - {d}) (mem t1) (mem t2)"
    using freevm_tables [OF ok1(1,2) ok1(5)] unfolding okr_iff by blast
  have "d \<notin> set ?ts"
    using tables_below_in(2) [OF _ ok1(2), of 1024 d] pt_okD(2) [OF ok1(2)] by auto
  moreover have "page_ok t2 d"
    using ok(5) [OF d(1)] only_mem_kend [OF only_mem_trans [OF q(4) t2(3)]] by (simp cong: page_ok_cong)
  ultimately obtain t3 where t3: "kfree d t2 = Ret () t3" "kmem_inv t3 (d # ?ts)" "\<And>x. 4096 \<le> unat (x - d) \<Longrightarrow> mem t3 x = mem t2 x"
    using kfree_spec [OF t2(2), of d] by (auto simp: okr_iff)
  have "only_mem t2 t3"
    using t3(1) by (auto simp: kfree_def Let_def only_mem_def split: if_splits)
  then have om: "only_mem s t3"
    using only_mem_trans [OF only_mem_trans [OF q(4) t2(3)]] by blast
  have f1: "set (d # ?ts) = set ps \<union> user_pages (mem s) d \<union> pt_pages (mem s) d"
    using q(2,3) tables_all [of "mem t1" d] by (auto simp: pt_pages_def)
  have f2: "same_outside (user_pages (mem s) d \<union> pt_pages (mem s) d) (mem s) (mem t3)"
    using q(3,5) t2(4) t3(3) d(1) by (auto simp: same_outside_def)
  have "freevm d s = Ret () t3"
    using d(2) t1(1) t2(1) t3(1) by (simp add: freevm_def del: upt_rec_numeral)
  then show ?thesis
    using t3(2) om f1 f2 by (simp only: okr.simps) blast
qed

section \<open>Mapping a page\<close>

lemma user_pagesI: "user_map m d va = Some pte \<Longrightarrow> page_of pte \<in> user_pages m d"
  by (auto simp: user_pages_def)

lemma user_pagesE:
  assumes "p \<in> user_pages m d"
  obtains va pte where "user_map m d va = Some pte" "p = page_of pte"
  using assms by (auto simp: user_pages_def)

lemma uvm_pages:
  assumes "uvm_ok s d ps" "p \<in> set ps \<union> pt_pages (mem s) d \<union> user_pages (mem s) d"
  shows "page_ok s p"
  using assms(2) uvm_okD(5,6) [OF assms(1)] kmem_invD(3) [OF uvm_okD(1) [OF assms(1)]] by (auto simp: user_pages_def)

lemma uvm_disjoint:
  assumes "uvm_ok s d ps"
  shows "set ps \<inter> pt_pages (mem s) d = {}" "user_pages (mem s) d \<inter> (set ps \<union> pt_pages (mem s) d) = {}"
  using uvm_okD(6) [OF assms] pt_pages_free [OF uvm_okD(2) [OF assms]] by (auto simp: user_pages_def)

lemma same_outside_on:
  assumes "same_outside P m m'" "P \<inter> Q = {}" "\<forall>p\<in>P \<union> Q. p mod 4096 = 0"
  shows "same_on Q m m'"
  unfolding same_on_def
proof (intro ballI allI impI)
  fix q x
  assume "q \<in> Q" "unat (x - q) < 4096"
  then have "4096 \<le> unat (x - p)" if "p \<in> P" for p
    using other_page [of q p x] assms(2,3) that by auto
  then show "m' x = m x"
    using assms(1) by (simp add: same_outside_def)
qed

lemma uvm_ok_cong:
  assumes "uvm_ok s d ps" "kmem_inv t qs" "set qs \<inter> (pt_pages (mem s) d \<union> user_pages (mem s) d) = {}" "kend t = kend s"
    and "same_on (pt_pages (mem s) d) (mem s) (mem t)"
  shows "uvm_ok t d qs" "pt_lookup (mem t) d = pt_lookup (mem s) d" "pt_pages (mem t) d = pt_pages (mem s) d"
    "user_pages (mem t) d = user_pages (mem s) d"
proof -
  note ok = uvm_okD [OF assms(1)]
  note f = pt_frame [OF ok(4) assms(5)]
  show "pt_lookup (mem t) d = pt_lookup (mem s) d" "pt_pages (mem t) d = pt_pages (mem s) d"
    using f by auto
  have um: "user_map (mem t) d = user_map (mem s) d"
    by (rule ext) (simp add: user_map_def f(2))
  then show "user_pages (mem t) d = user_pages (mem s) d"
    by (simp add: user_pages_def)
  have "pt_ok (mem t) d (set qs)"
    using pt_ok_change [OF ok(2)] assms(3) by (auto simp: f(3))
  moreover have "page_of pte \<notin> set qs" if "user_map (mem s) d va = Some pte" for va pte
    using user_pagesI [OF that] assms(3) by auto
  ultimately show "uvm_ok t d qs"
    unfolding uvm_ok_def um f(1) using ok(3,5) assms(2,4) by (auto simp: page_ok_cong [OF assms(4)] dest: ok(6) ok(7))
qed

text \<open>A page taken off the free list and filled by its new owner.\<close>

lemma take_page:
  assumes "uvm_ok s d (m # qs)" "same_outside {m} (mem s) M"
  defines "t \<equiv> s\<lparr>freelist := ld32 (mem s) m, mem := M\<rparr>"
  shows "kalloc s = Ret m (s\<lparr>freelist := ld32 (mem s) m\<rparr>)" "m \<noteq> 0" "page_ok s m"
    "uvm_ok t d qs" "pt_lookup M d = pt_lookup (mem s) d" "pt_pages M d = pt_pages (mem s) d"
    "user_pages M d = user_pages (mem s) d" "m \<notin> set qs \<union> pt_pages M d \<union> user_pages M d" "same_on (user_pages (mem s) d) (mem s) M"
proof -
  note ok = uvm_okD [OF assms(1)]
  show "kalloc s = Ret m (s\<lparr>freelist := ld32 (mem s) m\<rparr>)"
    by (rule kalloc_Cons(1) [OF ok(1)])
  show "page_ok s m"
    using kmem_invD(3) [OF ok(1), of m] by simp
  then show "m \<noteq> 0"
    by (rule page_ok_nonzero)
  have nm: "m \<notin> set qs" "m \<notin> pt_pages (mem s) d" "m \<notin> user_pages (mem s) d"
    using kmem_invD(2) [OF ok(1)] uvm_disjoint [OF assms(1)] by auto
  have al: "\<forall>p\<in>set (m # qs) \<union> pt_pages (mem s) d \<union> user_pages (mem s) d. p mod 4096 = 0"
    using uvm_pages [OF assms(1)] page_ok_aligned by blast
  have "same_on (set qs) (mem s) M"
    using nm(1) al by (intro same_outside_on [OF assms(2)]) auto
  then have "kmem_inv t qs"
    using kmem_inv_frame [OF kalloc_Cons(2) [OF ok(1)], of t] by (auto simp: t_def same_on_def)
  moreover have "same_on (pt_pages (mem s) d) (mem s) (mem t)"
    unfolding t_def using nm(2) al by (simp, intro same_outside_on [OF assms(2)]) auto
  ultimately have u: "uvm_ok t d qs" "pt_lookup (mem t) d = pt_lookup (mem s) d" "pt_pages (mem t) d = pt_pages (mem s) d"
      "user_pages (mem t) d = user_pages (mem s) d"
    using uvm_ok_cong [OF assms(1), of t qs] uvm_disjoint [OF assms(1)] by (auto simp: t_def)
  then show "uvm_ok t d qs" "pt_lookup M d = pt_lookup (mem s) d" "pt_pages M d = pt_pages (mem s) d" "user_pages M d = user_pages (mem s) d"
      "m \<notin> set qs \<union> pt_pages M d \<union> user_pages M d"
    using nm by (auto simp: t_def)
  show "same_on (user_pages (mem s) d) (mem s) M"
    using nm(3) al by (intro same_outside_on [OF assms(2)]) auto
qed

lemma npages_one: "(a :: u32) mod 4096 = 0 \<Longrightarrow> npages a PGSIZE = 1"
proof -
  assume "a mod 4096 = 0"
  then have "unat a mod 4096 = 0"
    by (simp only: page_unat)
  then obtain k where "unat a = 4096 * k"
    by (auto simp: mod_eq_0_iff_dvd)
  then have "(unat a + 4095) div 4096 = unat a div 4096"
    by simp
  then show ?thesis
    by (simp add: npages_def)
qed

lemma flags_page:
  assumes "m mod 4096 = 0" "perm AND NOT 0xFFF = 0"
  shows "page_of (V2P m OR perm OR PTE_P) = m"
proof -
  have "(V2P m OR perm OR 1) AND NOT 0xFFF = (V2P m AND NOT 0xFFF) OR (perm AND NOT 0xFFF) OR (1 AND NOT 0xFFF)"
    by (simp only: bit.conj_disj_distrib2)
  also have "\<dots> = V2P m"
    using V2P_aligned [OF assms(1)] assms(2) by (simp only:) simp
  finally show ?thesis
    by (simp only: PTE_ADDR_def P2V_V2P)
qed

text \<open>Mapping a page that belongs to nobody at an address that is not mapped.\<close>

lemma map_page:
  assumes "uvm_ok s d ps" "page_ok s m" "m \<notin> set ps \<union> pt_pages (mem s) d \<union> user_pages (mem s) d"
    and "a mod 4096 = 0" "a < KERNBASE" "pt_lookup (mem s) d a = None" "perm AND NOT 0xFFF = 0"
  shows "okr (mappages d a PGSIZE (V2P m) perm s) (\<lambda>ok t. \<exists>qs. uvm_ok t d qs \<and> only_mem s t \<and> tables_used 1 d s t ps qs \<and>
    pt_pages (mem s) d \<subseteq> pt_pages (mem t) d \<and> same_on (insert m (user_pages (mem s) d)) (mem s) (mem t) \<and>
    same_outside (pt_pages (mem t) d) (mem s) (mem t) \<and>
    (if ok then pt_lookup (mem t) d = (\<lambda>va. if unat va div 4096 = unat a div 4096 then Some (V2P m OR perm OR PTE_P) else pt_lookup (mem s) d va) \<and>
       user_pages (mem t) d = insert m (user_pages (mem s) d)
     else pt_lookup (mem t) d = pt_lookup (mem s) d \<and> user_pages (mem t) d = user_pages (mem s) d \<and> ps = [] \<and> qs = []))"
proof -
  note ok = uvm_okD [OF assms(1)]
  have one: "npages a PGSIZE = 1"
    by (rule npages_one [OF assms(4)])
  have un: "unmapped (pt_lookup (mem s) d) a PGSIZE"
    unfolding unmapped_def one
  proof (intro allI impI)
    fix x :: u32
    assume "unat a div 4096 \<le> unat x div 4096" "unat x div 4096 < unat a div 4096 + 1"
    then show "pt_lookup (mem s) d x = None"
      using assms(6) pte_of_page [of x a "mem s" d] by simp
  qed
  have le: "unat a + unat PGSIZE \<le> 4294967296" and pos: "0 < PGSIZE"
    using assms(5) by (simp_all add: word_less_nat_alt)
  obtain ok t qs n where t: "mappages d a PGSIZE (V2P m) perm s = Ret ok t" "walk_post d s t qs" "tables_used n d s t ps qs"
      "pt_lookup (mem t) d = map_range a (V2P m) perm n (pt_lookup (mem s) d)" "if ok then n = 1 else n < 1 \<and> qs = []"
    using mappages_spec [OF ok(1,2) pos le un, of "V2P m" perm] unfolding okr_iff one by blast
  have al: "\<forall>p\<in>set ps \<union> pt_pages (mem s) d \<union> insert m (user_pages (mem s) d). p mod 4096 = 0"
    using uvm_pages [OF assms(1)] assms(2) page_ok_aligned by blast
  have pt: "pt_pages (mem t) d \<subseteq> pt_pages (mem s) d \<union> set ps" "set qs \<subseteq> set ps"
    using t(3) by (auto simp: tables_used_def)
  have same: "same_on (insert m (user_pages (mem s) d)) (mem s) (mem t)"
  proof (rule same_outside_on)
    show "same_outside (pt_pages (mem t) d) (mem s) (mem t)"
      using t(2) by (simp add: walk_post_def)
    show "pt_pages (mem t) d \<inter> insert m (user_pages (mem s) d) = {}"
      using pt(1) uvm_disjoint [OF assms(1)] assms(3) by auto
    show "\<forall>p\<in>pt_pages (mem t) d \<union> insert m (user_pages (mem s) d). p mod 4096 = 0"
      using al pt(1) by blast
  qed
  have user: "set ps \<inter> insert m (user_pages (mem s) d) = {}" "pt_pages (mem t) d \<inter> insert m (user_pages (mem s) d) = {}"
    using pt(1) uvm_disjoint [OF assms(1)] assms(3) by auto
  have kend: "kend t = kend s"
    using t(2) only_mem_kend by (auto simp: walk_post_def)
  have n: "n = 1 \<longleftrightarrow> ok" "n = 0 \<longleftrightarrow> \<not> ok"
    using t(5) by (auto split: if_splits)
  have look: "pt_lookup (mem t) d = (\<lambda>va. if ok \<and> unat va div 4096 = unat a div 4096 then Some (V2P m OR perm OR PTE_P) else pt_lookup (mem s) d va)"
  proof (cases ok)
    case True
    then have "n = 1"
      using n(1) by simp
    then show ?thesis
      unfolding t(4) using True by (auto simp: map_range_def Let_def fun_eq_iff)
  next
    case False
    then have "n = 0"
      using n(2) by simp
    then show ?thesis
      unfolding t(4) using False by simp
  qed
  have um: "user_map (mem t) d va = (if ok \<and> unat va div 4096 = unat a div 4096 then Some (V2P m OR perm OR PTE_P) else user_map (mem s) d va)" for va
    using user_page_below [of va a] assms(5) by (auto simp: user_map_def look)
  have pg: "page_of (V2P m OR perm OR PTE_P) = m"
    by (rule flags_page [OF page_ok_aligned [OF assms(2)] assms(7)])
  have up: "user_pages (mem t) d = (if ok then insert m (user_pages (mem s) d) else user_pages (mem s) d)"
  proof (cases ok)
    case True
    have none: "user_map (mem s) d va = None" if "unat va div 4096 = unat a div 4096" for va
      using pte_of_page [OF that, of "mem s" d] assms(6) by (simp add: user_map_def)
    have "user_map (mem t) d a = Some (V2P m OR perm OR PTE_P)"
      using True um by simp
    then have "m \<in> user_pages (mem t) d"
      using user_pagesI [of "mem t" d a] pg by metis
    moreover have "page_of pte \<in> user_pages (mem t) d" if "user_map (mem s) d va = Some pte" for va pte
      using user_pagesI [of "mem t" d va pte] um [of va] none [of va] that by (auto split: if_splits)
    moreover have "page_of pte \<in> insert m (user_pages (mem s) d)" if "user_map (mem t) d va = Some pte" for va pte
      using that pg user_pagesI [of "mem s" d va pte] unfolding um by (auto split: if_splits)
    ultimately have "user_pages (mem s) d \<subseteq> user_pages (mem t) d" "user_pages (mem t) d \<subseteq> insert m (user_pages (mem s) d)" "m \<in> user_pages (mem t) d"
      by (blast elim!: user_pagesE)+
    then show ?thesis
      using True by auto
  next
    case False
    then show ?thesis
      using um by (simp add: user_pages_def)
  qed
  have uok: "uvm_ok t d qs"
    unfolding uvm_ok_def
  proof (intro conjI allI impI ballI)
    show "kmem_inv t qs" "pt_ok (mem t) d (set qs)"
      using t(2) by (auto simp: walk_post_def)
    show "KERNBASE < kend t"
      using ok(3) kend by simp
    show "page_ok t p" if "p \<in> pt_pages (mem t) d" for p
      using uvm_pages [OF assms(1), of p] pt(1) that by (auto simp: page_ok_cong [OF kend])
    fix va pte
    assume v: "user_map (mem t) d va = Some pte"
    then have "page_of pte = m \<or> page_of pte \<in> user_pages (mem s) d"
      unfolding um using pg user_pagesI [of "mem s" d va pte] by (auto split: if_splits)
    then show "page_ok t (page_of pte)" "page_of pte \<notin> set qs" "page_of pte \<notin> pt_pages (mem t) d"
      using user pt(2) assms(2) uvm_pages [OF assms(1), of "page_of pte"] by (auto simp: page_ok_cong [OF kend])
    fix va' pte'
    assume "user_map (mem t) d va' = Some pte'" "page_of pte = page_of pte'"
    then show "unat va div 4096 = unat va' div 4096"
      using v pg ok(7) [of va pte va' pte'] user_pagesI [of "mem s" d va pte] user_pagesI [of "mem s" d va' pte'] assms(3)
      unfolding um by (auto split: if_splits)
  qed
  have "tables_used 1 d s t ps qs" "only_mem s t" "pt_pages (mem s) d \<subseteq> pt_pages (mem t) d" "same_outside (pt_pages (mem t) d) (mem s) (mem t)"
    using t(2,3) n by (auto simp: tables_used_def walk_post_def)
  moreover have "ps = [] \<and> qs = []" if "\<not> ok"
    using t(3,5) that n by (auto simp: tables_used_def)
  ultimately show ?thesis
    unfolding t(1) okr.simps using uok same look up by (intro exI [of _ qs]) (auto split: if_splits)
qed

lemma kfree_only_mem: "kfree p s = Ret u t \<Longrightarrow> only_mem s t"
  by (auto simp: kfree_def Let_def only_mem_def split: if_splits)

text \<open>Giving back a page that is not mapped.\<close>

lemma kfree_page:
  assumes "uvm_ok s d ps" "page_ok s m" "m \<notin> set ps \<union> pt_pages (mem s) d \<union> user_pages (mem s) d"
  shows "okr (kfree m s) (\<lambda>_ t. uvm_ok t d (m # ps) \<and> only_mem s t \<and> pt_lookup (mem t) d = pt_lookup (mem s) d \<and>
    pt_pages (mem t) d = pt_pages (mem s) d \<and> user_pages (mem t) d = user_pages (mem s) d \<and> same_on (user_pages (mem s) d) (mem s) (mem t))"
proof -
  obtain t where t: "kfree m s = Ret () t" "kmem_inv t (m # ps)" "kend t = kend s" "\<And>x. 4096 \<le> unat (x - m) \<Longrightarrow> mem t x = mem s x"
    using kfree_spec [OF uvm_okD(1) [OF assms(1)] assms(2)] assms(3) by (auto simp: okr_iff)
  have so: "same_outside {m} (mem s) (mem t)"
    using t(4) by (simp add: same_outside_def)
  have al: "\<forall>p\<in>pt_pages (mem s) d \<union> user_pages (mem s) d. p mod 4096 = 0" "m mod 4096 = 0"
    using uvm_pages [OF assms(1)] page_ok_aligned assms(2) by blast+
  then have on: "same_on (pt_pages (mem s) d \<union> user_pages (mem s) d) (mem s) (mem t)"
    using assms(3) by (intro same_outside_on [OF so]) auto
  have "set (m # ps) \<inter> (pt_pages (mem s) d \<union> user_pages (mem s) d) = {}"
    using uvm_disjoint [OF assms(1)] assms(3) by auto
  from uvm_ok_cong [OF assms(1) t(2) this t(3)] on kfree_only_mem [OF t(1)] show ?thesis
    unfolding t(1) by (auto simp: same_on_def)
qed

end
