(* ===== verification/Uvm_Grow.thy ===== *)
theory Uvm_Grow
  imports Uvm
begin

text \<open>
  \<^verbatim>\<open>allocuvm\<close> of \<^verbatim>\<open>vm.c\<close> grows an address space. \<open>grown lo hi d s t ps qs\<close> says that the pages from \<open>lo\<close> to \<open>hi\<close>
  have been mapped to fresh cleared pages and that nothing else has changed for the user; when
  memory runs out, the address space is as before.
\<close>

section \<open>Growing an address space\<close>

definition conserved :: "u32 \<Rightarrow> 'a kmem_state_scheme \<Rightarrow> 'a kmem_state_scheme \<Rightarrow> u32 list \<Rightarrow> u32 list \<Rightarrow> bool" where
  "conserved d s t ps qs \<longleftrightarrow> set qs \<union> pt_pages (mem t) d \<union> user_pages (mem t) d = set ps \<union> pt_pages (mem s) d \<union> user_pages (mem s) d"

definition new_page :: "mem \<Rightarrow> u32 \<Rightarrow> bool" where
  "new_page m pte \<longleftrightarrow> PTE_FLAGS pte = PTE_P OR PTE_W OR PTE_U \<and> (\<forall>x. unat (x - page_of pte) < 4096 \<longrightarrow> m x = 0)"

definition grown :: "nat \<Rightarrow> nat \<Rightarrow> u32 \<Rightarrow> 'a kmem_state_scheme \<Rightarrow> 'a kmem_state_scheme \<Rightarrow> u32 list \<Rightarrow> u32 list \<Rightarrow> bool" where
  "grown lo hi d s t ps qs \<longleftrightarrow> only_mem s t \<and> pt_pages (mem s) d \<subseteq> pt_pages (mem t) d \<and> conserved d s t ps qs \<and>
     user_pages (mem s) d \<subseteq> user_pages (mem t) d \<and> same_on (user_pages (mem s) d) (mem s) (mem t) \<and>
     (\<forall>va. if page_in lo hi va then \<exists>pte. pt_lookup (mem t) d va = Some pte \<and> new_page (mem t) pte
           else pt_lookup (mem t) d va = pt_lookup (mem s) d va)"

lemma new_pte_flags: "m mod 4096 = 0 \<Longrightarrow> PTE_FLAGS (V2P m OR (PTE_W OR PTE_U) OR PTE_P) = PTE_P OR PTE_W OR PTE_U"
proof -
  assume m: "m mod 4096 = 0"
  have "V2P m AND 0xFFF = (V2P m AND NOT 0xFFF) AND 0xFFF"
    by (simp only: V2P_aligned [OF m])
  also have "\<dots> = V2P m AND (NOT 0xFFF AND 0xFFF)"
    by (rule and.assoc)
  finally have z: "V2P m AND 0xFFF = 0"
    by simp
  have "(V2P m OR (2 OR 4) OR 1) AND 0xFFF = (V2P m AND 0xFFF) OR ((2 OR 4) AND 0xFFF) OR (1 AND 0xFFF)"
    by (simp only: bit.conj_disj_distrib2)
  then show ?thesis
    unfolding PTE_FLAGS_def z by simp
qed

lemma grownD:
  assumes "grown lo hi d s t ps qs"
  shows "only_mem s t" "pt_pages (mem s) d \<subseteq> pt_pages (mem t) d" "conserved d s t ps qs" "user_pages (mem s) d \<subseteq> user_pages (mem t) d"
    "same_on (user_pages (mem s) d) (mem s) (mem t)"
    "\<And>va. page_in lo hi va \<Longrightarrow> \<exists>pte. pt_lookup (mem t) d va = Some pte \<and> new_page (mem t) pte"
    "\<And>va. \<not> page_in lo hi va \<Longrightarrow> pt_lookup (mem t) d va = pt_lookup (mem s) d va"
  using assms unfolding grown_def by (auto split: if_splits)

lemma same_on_mono: "same_on P m m' \<Longrightarrow> Q \<subseteq> P \<Longrightarrow> same_on Q m m'"
  by (auto simp: same_on_def)

lemma same_on_trans: "same_on P m m' \<Longrightarrow> same_on P m' m'' \<Longrightarrow> same_on P m m''"
  by (auto simp: same_on_def)

lemma new_page_same: "new_page m pte \<Longrightarrow> same_on P m m' \<Longrightarrow> page_of pte \<in> P \<Longrightarrow> new_page m' pte"
  by (auto simp: new_page_def same_on_def)

lemma page_in_user: "page_in lo hi va \<Longrightarrow> hi \<le> 2147483648 \<Longrightarrow> va < KERNBASE"
proof -
  assume "page_in lo hi va" "hi \<le> 2147483648"
  then have "unat va div 4096 < 524288"
    by (simp add: page_in_def)
  then show ?thesis
    by (simp add: word_less_nat_alt div_less_iff_less_mult)
qed

text \<open>Memory changes that keep the user's pages and the translation.\<close>

lemma grown_same:
  assumes "grown lo hi d s t ps qs" "only_mem t u" "pt_pages (mem t) d \<subseteq> pt_pages (mem u) d" "user_pages (mem u) d = user_pages (mem t) d"
    and "same_on (user_pages (mem t) d) (mem t) (mem u)" "pt_lookup (mem u) d = pt_lookup (mem t) d" "hi \<le> 2147483648"
    and "set rs \<union> pt_pages (mem u) d = set qs \<union> pt_pages (mem t) d"
  shows "grown lo hi d s u ps rs"
proof -
  note g = grownD [OF assms(1)]
  have user: "page_of pte \<in> user_pages (mem t) d" if "pt_lookup (mem t) d va = Some pte" "page_in lo hi va" for va pte
    using user_pagesI [of "mem t" d va pte] that(1) page_in_user [OF that(2) assms(7)] by (simp add: user_map_def)
  have "\<exists>pte. pt_lookup (mem u) d va = Some pte \<and> new_page (mem u) pte" if "page_in lo hi va" for va
    using g(6) [OF that] user [OF _ that] new_page_same [OF _ assms(5)] unfolding assms(6) by blast
  moreover have "same_on (user_pages (mem s) d) (mem s) (mem u)"
    using same_on_trans [OF g(5) same_on_mono [OF assms(5) g(4)]] .
  moreover have "conserved d s u ps rs"
    using g(3) assms(4,8) unfolding conserved_def by auto
  ultimately show ?thesis
    using only_mem_trans [OF g(1) assms(2)] g(2,4,7) assms(3,4,6) unfolding grown_def by auto
qed

lemma memset_outside: "same_outside {m} M (memset M m c PGSIZE)"
  by (simp add: same_outside_def memset_eq_fill mem_fill_outside)

lemma page_in_next:
  assumes "lo \<le> a" "a mod 4096 = 0"
  shows "page_in lo (a + 4096) va \<longleftrightarrow> page_in lo a va \<or> unat va div 4096 = a div 4096"
proof -
  obtain k where k: "a = k * 4096"
    using assms(2) by (auto elim: dvdE simp: mod_eq_0_iff_dvd mult.commute)
  have "i * 4096 < k * 4096 + 4096 \<longleftrightarrow> i * 4096 < k * 4096 \<or> i = k" for i :: nat
    by linarith
  then show ?thesis
    using assms(1) by (auto simp: page_in_def k)
qed

text \<open>One turn of the loop, after \<^verbatim>\<open>kalloc\<close> has returned \<open>m\<close>.\<close>

lemma grow_step:
  assumes ok: "uvm_ok s d (m # qs)" and g: "grown lo a d s0 s ps (m # qs)"
    and a: "lo \<le> a" "a mod 4096 = 0" "a < 2147483648" "pt_lookup (mem s0) d (of_nat a) = None"
  defines "s1 \<equiv> s\<lparr>freelist := ld32 (mem s) m, mem := memset (mem s) m 0 PGSIZE\<rparr>"
  shows "okr (mappages d (of_nat a) PGSIZE (V2P m) (PTE_W OR PTE_U) s1) (\<lambda>ok t. \<exists>rs. uvm_ok t d rs \<and> length qs \<le> Suc (length rs) \<and>
    (if ok then grown lo (a + 4096) d s0 t ps rs
     else rs = [] \<and> qs = [] \<and> grown lo a d s0 t ps [m] \<and> page_ok t m \<and> m \<notin> pt_pages (mem t) d \<union> user_pages (mem t) d))"
proof -
  note tp = take_page [OF ok memset_outside [where c = 0], folded s1_def]
  note gd = grownD [OF g]
  have s1: "mem s1 = memset (mem s) m 0 PGSIZE" "only_mem s s1"
    by (simp_all add: s1_def only_mem_def)
  have va: "unat (of_nat a :: u32) = a" "(of_nat a :: u32) < KERNBASE" "(of_nat a :: u32) mod 4096 = 0"
    using a(2,3) unfolding page_unat by (simp_all add: unat_of_nat word_less_nat_alt)
  have "\<not> page_in lo a (of_nat a)"
    using va(1) a(2) by (auto simp: page_in_def)
  then have h1: "pt_lookup (mem s1) d (of_nat a) = None"
    using gd(7) a(4) tp(5) s1(1) by simp
  have h2: "page_ok s1 m"
    using tp(3) by (simp add: s1_def page_ok_def)
  have h3: "m \<notin> set qs \<union> pt_pages (mem s1) d \<union> user_pages (mem s1) d"
    using tp(8) unfolding s1(1) .
  have h4: "(PTE_W OR PTE_U) AND NOT 0xFFF = 0"
    by simp
  obtain ok t rs where t: "mappages d (of_nat a) PGSIZE (V2P m) (PTE_W OR PTE_U) s1 = Ret ok t" "uvm_ok t d rs" "only_mem s1 t"
      "tables_used 1 d s1 t qs rs" "pt_pages (mem s1) d \<subseteq> pt_pages (mem t) d" "same_on (insert m (user_pages (mem s1) d)) (mem s1) (mem t)"
      "if ok then pt_lookup (mem t) d = (\<lambda>va. if unat va div 4096 = unat (of_nat a :: u32) div 4096 then Some (V2P m OR (PTE_W OR PTE_U) OR PTE_P) else pt_lookup (mem s1) d va) \<and>
       user_pages (mem t) d = insert m (user_pages (mem s1) d)
     else pt_lookup (mem t) d = pt_lookup (mem s1) d \<and> user_pages (mem t) d = user_pages (mem s1) d \<and> qs = [] \<and> rs = []"
    using map_page [OF tp(4) h2 h3 va(3,2) h1 h4] unfolding okr_iff by blast
  have len: "length qs \<le> Suc (length rs)" and un: "pt_pages (mem t) d \<union> set rs = pt_pages (mem s1) d \<union> set qs"
    using t(4) by (auto simp: tables_used_def)
  have om: "only_mem s t"
    by (rule only_mem_trans [OF s1(2) t(3)])
  have ptt: "pt_pages (mem s) d \<subseteq> pt_pages (mem t) d" and same: "same_on (user_pages (mem s) d) (mem s) (mem t)"
    using t(5,6) tp(6,7,9) same_on_trans [OF tp(9)] same_on_mono unfolding s1(1) by (auto simp: same_on_def)
  show ?thesis
  proof (cases ok)
    case False
    have "grown lo a d s0 t ps [m]"
      using t(7) False un a(3) unfolding s1(1) tp(5-7)
      by (intro grown_same [OF g om ptt _ same]) (auto simp: s1(1) tp(5-7))
    moreover have "m \<notin> pt_pages (mem t) d \<union> user_pages (mem t) d"
      using t(7) False un h3 by auto
    moreover have "page_ok t m"
      using tp(3) page_ok_cong [OF only_mem_kend [OF om]] by blast
    ultimately show ?thesis
      unfolding t(1) using t(2,7) False len by auto
  next
    case True
    let ?pte = "V2P m OR (PTE_W OR PTE_U) OR PTE_P"
    have look: "pt_lookup (mem t) d va = (if unat va div 4096 = a div 4096 then Some ?pte else pt_lookup (mem s) d va)" for va
      using t(7) True by (simp add: va(1) s1(1) tp(5))
    have up: "user_pages (mem t) d = insert m (user_pages (mem s) d)"
      using t(7) True by (simp add: s1(1) tp(7))
    have al: "m mod 4096 = 0"
      by (rule page_ok_aligned [OF tp(3)])
    have "new_page (mem t) ?pte"
      unfolding new_page_def flags_page [OF al h4] new_pte_flags [OF al]
      using t(6) by (auto simp: same_on_def s1(1) memset_eq_fill mem_fill_def)
    moreover have "\<exists>pte. pt_lookup (mem s) d x = Some pte \<and> new_page (mem t) pte" if x: "page_in lo a x" for x
    proof -
      obtain pte where pte: "pt_lookup (mem s) d x = Some pte" "new_page (mem s) pte"
        using gd(6) [OF x] by blast
      then have "page_of pte \<in> user_pages (mem s) d"
        using user_pagesI [of "mem s" d x pte] page_in_user [OF x] a(3) by (simp add: user_map_def)
      then show ?thesis
        using pte new_page_same [OF pte(2) same] by blast
    qed
    ultimately have "if page_in lo (a + 4096) x then \<exists>pte. pt_lookup (mem t) d x = Some pte \<and> new_page (mem t) pte
        else pt_lookup (mem t) d x = pt_lookup (mem s0) d x" for x
      using gd(7) [of x] unfolding page_in_next [OF a(1,2)] look by auto
    moreover have "conserved d s0 t ps rs"
      using gd(3) un unfolding conserved_def up s1(1) tp(6) by auto
    moreover have "same_on (user_pages (mem s0) d) (mem s0) (mem t)"
      using same_on_trans [OF gd(5) same_on_mono [OF same gd(4)]] .
    ultimately have "grown lo (a + 4096) d s0 t ps rs"
      unfolding grown_def up using only_mem_trans [OF gd(1) om] gd(2,4) ptt by blast
    then show ?thesis
      unfolding t(1) using t(2) len True by auto
  qed
qed

lemma page_in_lo [simp]: "\<not> page_in lo lo va"
  by (simp add: page_in_def)

text \<open>Releasing the range again restores the address space: the range of new pages is empty.\<close>

lemma shrink_back:
  assumes "grown lo a d s t ps qs'" "freed lo hi d t u fs qs" "a \<le> hi" "hi \<le> 2147483648"
    and none: "\<And>va. page_in lo hi va \<Longrightarrow> pt_lookup (mem s) d va = None"
  shows "grown lo lo d s u ps (fs @ qs')" "user_pages (mem u) d = user_pages (mem s) d"
    "set fs \<union> user_pages (mem u) d = user_pages (mem t) d"
proof -
  note g = grownD [OF assms(1)]
  have f: "uvm_ok u d (fs @ qs)" "set fs = pages_in lo hi (pt_lookup (mem t) d)" "pt_lookup (mem u) d = clear_range lo hi (pt_lookup (mem t) d)"
      "pt_pages (mem u) d = pt_pages (mem t) d" "only_mem t u"
      "same_outside (pages_in lo hi (pt_lookup (mem t) d) \<union> pt_pages (mem t) d) (mem t) (mem u)"
    using assms(2) by (auto simp: freed_def)
  have "pt_lookup (mem u) d va = pt_lookup (mem s) d va" for va
  proof (cases "page_in lo hi va")
    case False
    then have "\<not> page_in lo a va"
      using assms(3) by (auto simp: page_in_def)
    then show ?thesis
      using False g(7) by (simp add: f(3) clear_range_def)
  qed (simp add: f(3) clear_range_def none)
  then have look: "pt_lookup (mem u) d = pt_lookup (mem s) d"
    by (rule ext)
  then show up: "user_pages (mem u) d = user_pages (mem s) d"
    by (simp add: user_pages_def user_map_def)
  have "user_pages (mem t) d \<subseteq> set fs \<union> user_pages (mem u) d"
  proof
    fix p
    assume "p \<in> user_pages (mem t) d"
    then obtain va pte where v: "user_map (mem t) d va = Some pte" "p = page_of pte"
      by (rule user_pagesE)
    then have l: "pt_lookup (mem t) d va = Some pte" "va < KERNBASE"
      by (auto simp: user_map_def split: if_splits)
    show "p \<in> set fs \<union> user_pages (mem u) d"
    proof (cases "page_in lo hi va")
      case True
      then show ?thesis
        using l(1) v(2) unfolding f(2) pages_in_def by blast
    next
      case False
      then have "user_map (mem u) d va = Some pte"
        using l by (simp add: user_map_def f(3) clear_range_def)
      then show ?thesis
        using user_pagesI v(2) by blast
    qed
  qed
  moreover have "set fs \<subseteq> user_pages (mem t) d"
  proof
    fix p
    assume "p \<in> set fs"
    then obtain va pte where v: "pt_lookup (mem t) d va = Some pte" "page_in lo hi va" "p = page_of pte"
      unfolding f(2) pages_in_def by blast
    then show "p \<in> user_pages (mem t) d"
      using user_pagesI [of "mem t" d va pte] page_in_user [OF v(2) assms(4)] by (simp add: user_map_def)
  qed
  ultimately show all: "set fs \<union> user_pages (mem u) d = user_pages (mem t) d"
    using up g(4) by auto
  then have con: "conserved d s u ps (fs @ qs')"
    using g(3) unfolding conserved_def f(4) by auto
  have "same_on (user_pages (mem s) d) (mem t) (mem u)"
  proof (rule same_outside_on [OF f(6)])
    show "(pages_in lo hi (pt_lookup (mem t) d) \<union> pt_pages (mem t) d) \<inter> user_pages (mem s) d = {}"
      using uvm_disjoint(2) [OF f(1)] unfolding up f(4) by (auto simp: f(2))
    have "page_ok u p" if "p \<in> set fs \<union> pt_pages (mem u) d \<union> user_pages (mem u) d" for p
      using uvm_pages [OF f(1), of p] that by auto
    then show "\<forall>p\<in>pages_in lo hi (pt_lookup (mem t) d) \<union> pt_pages (mem t) d \<union> user_pages (mem s) d. p mod 4096 = 0"
      using page_ok_aligned unfolding up f(2,4) by blast
  qed
  then have "same_on (user_pages (mem s) d) (mem s) (mem u)"
    by (rule same_on_trans [OF g(5)])
  then show "grown lo lo d s u ps (fs @ qs')"
    unfolding grown_def up using only_mem_trans [OF g(1) f(5)] g(2) con by (simp add: f(4) look)
qed

text \<open>The two ways in which \<^verbatim>\<open>allocuvm\<close> gives up.\<close>

lemma give_up:
  assumes "uvm_ok t d qs" "grown lo a d s t ps qs'" "a \<le> unat newsz" "newsz < KERNBASE" "oldsz < newsz" "lo = unat (PGROUNDUP oldsz)"
    and none: "\<And>va. page_in lo (unat newsz) va \<Longrightarrow> pt_lookup (mem s) d va = None"
  shows "okr (deallocuvm d newsz oldsz t) (\<lambda>_ u. \<exists>fs. uvm_ok u d (fs @ qs) \<and> grown lo lo d s u ps (fs @ qs') \<and> only_mem t u \<and>
    pt_pages (mem u) d = pt_pages (mem t) d \<and> set fs \<union> user_pages (mem u) d = user_pages (mem t) d)"
proof -
  have hi: "unat newsz \<le> 2147483648"
    using assms(4) by (simp add: word_less_nat_alt)
  obtain r u fs where u: "deallocuvm d newsz oldsz t = Ret r u" "freed lo (unat newsz) d t u fs qs"
    using deallocuvm_spec [OF assms(1) hi, of oldsz] assms(5) unfolding assms(6) okr_iff by (auto simp: not_le [symmetric])
  note sb = shrink_back [OF assms(2) u(2) assms(3) hi none]
  have f: "uvm_ok u d (fs @ qs)" "pt_pages (mem u) d = pt_pages (mem t) d" "only_mem t u"
    using u(2) by (auto simp: freed_def)
  then show ?thesis
    unfolding u(1) okr.simps using f sb by blast
qed

lemma give_up_page:
  assumes "uvm_ok t d []" "grown lo a d s t ps [m]" "page_ok t m" "m \<notin> pt_pages (mem t) d \<union> user_pages (mem t) d"
    and "a \<le> unat newsz" "newsz < KERNBASE" "oldsz < newsz" "lo = unat (PGROUNDUP oldsz)" "lo \<le> a"
    and none: "\<And>va. page_in lo (unat newsz) va \<Longrightarrow> pt_lookup (mem s) d va = None"
  shows "okr (bindr (deallocuvm d newsz oldsz t) (\<lambda>_ s. bindr (kfree m s) (\<lambda>_ s. Ret (0 :: u32) s)))
    (\<lambda>r u. \<exists>rs. uvm_ok u d rs \<and> r = 0 \<and> grown lo lo d s u ps rs)"
proof -
  obtain r u fs where u: "deallocuvm d newsz oldsz t = Ret r u" "uvm_ok u d (fs @ [])" "grown lo lo d s u ps (fs @ [m])" "only_mem t u"
      "pt_pages (mem u) d = pt_pages (mem t) d" "set fs \<union> user_pages (mem u) d = user_pages (mem t) d"
    using give_up [OF assms(1,2,5-8) none] unfolding okr_iff by blast
  have ok: "uvm_ok u d fs"
    using u(2) by simp
  have m: "page_ok u m" "m \<notin> set fs \<union> pt_pages (mem u) d \<union> user_pages (mem u) d"
    using assms(3,4) u(5,6) page_ok_cong [OF only_mem_kend [OF u(4)]] by auto
  obtain v where v: "kfree m u = Ret () v" "uvm_ok v d (m # fs)" "only_mem u v" "pt_lookup (mem v) d = pt_lookup (mem u) d"
      "pt_pages (mem v) d = pt_pages (mem u) d" "user_pages (mem v) d = user_pages (mem u) d" "same_on (user_pages (mem u) d) (mem u) (mem v)"
    using kfree_page [OF ok m] unfolding okr_iff by auto
  have "grown lo lo d s v ps (m # fs)"
    using v assms(5,6,9) by (intro grown_same [OF u(3)]) (auto simp: word_less_nat_alt)
  then show ?thesis
    using u(1) v(1,2) by auto
qed

lemma turns_left:
  fixes a lo hi :: nat
  assumes "lo \<le> a" "a < hi" "a mod 4096 = 0" "lo mod 4096 = 0"
  shows "(a - lo) div 4096 < (hi - lo + 4095) div 4096"
proof -
  obtain i j where "a = i * 4096" "lo = j * 4096"
    using assms(3,4) by (auto elim!: dvdE simp: mod_eq_0_iff_dvd mult.commute)
  then have "a - lo = (i - j) * 4096" "(i - j) * 4096 + 4096 \<le> hi - lo + 4095"
    using assms(1,2) by (simp_all add: diff_mult_distrib)
  then show ?thesis
    using div_le_mono [of "(i - j) * 4096 + 4096" "hi - lo + 4095" 4096] by simp
qed

lemma PGROUNDUP_ge: "unat x + 4095 < 4294967296 \<Longrightarrow> unat x \<le> unat (PGROUNDUP x)"
  using unat_PGROUNDUP [of x] by simp

lemma next_turn:
  fixes a lo :: nat
  assumes "lo \<le> a"
  shows "(a + 4096 - lo) div 4096 = Suc ((a - lo) div 4096)"
proof -
  obtain c where "a = lo + c"
    using assms by (auto simp: le_iff_add)
  then show ?thesis
    by simp
qed

lemma page_in_end:
  assumes "hi \<le> a" "a < hi + 4096" "a mod 4096 = 0"
  shows "page_in lo a = page_in lo hi"
proof
  fix va
  obtain k where k: "a = k * 4096"
    using assms(3) by (auto elim: dvdE simp: mod_eq_0_iff_dvd mult.commute)
  have "i * 4096 < k * 4096 \<longleftrightarrow> i * 4096 < hi" for i :: nat
    using assms(1,2) mult_le_mono1 [of "Suc i" k 4096] unfolding k by (cases "i < k") auto
  then show "page_in lo a va = page_in lo hi va"
    by (simp add: page_in_def k)
qed

lemma allocuvm_loop_spec:
  assumes "uvm_ok s d qs" "grown lo a d s0 s ps qs" "lo = unat (PGROUNDUP oldsz)" "lo \<le> a" "a mod 4096 = 0" "a < unat newsz + 4096"
    and "newsz < KERNBASE" "oldsz \<le> newsz" "length ps \<le> length qs + 2 * ((a - lo) div 4096)"
    and none: "\<And>va. page_in lo (unat newsz) va \<Longrightarrow> pt_lookup (mem s0) d va = None"
  shows "okr (allocuvm_loop d a oldsz newsz s) (\<lambda>r t. \<exists>rs. uvm_ok t d rs \<and>
    (r = newsz \<and> grown lo (unat newsz) d s0 t ps rs \<or>
     r = 0 \<and> grown lo lo d s0 t ps rs \<and> length ps < 2 * ((unat newsz - lo + 4095) div 4096)))"
  using assms(1,2,4-6,9)
proof (induction "unat newsz - a" arbitrary: a s qs rule: less_induct)
  case less
  note pr = less.prems
  show ?case
  proof (cases "a < unat newsz")
    case False
    then have "grown lo (unat newsz) d s0 s ps qs"
      using pr(2) page_in_end [of "unat newsz" a lo] pr(4,5) by (simp add: grown_def)
    then show ?thesis
      using False pr(1) by (subst allocuvm_loop.simps) auto
  next
    case True
    have lt: "oldsz < newsz"
      using True pr(3) PGROUNDUP_ge [of oldsz] assms(3,7,8) by (auto simp: word_less_nat_alt word_le_nat_alt)
    have few: "2 * ((a - lo) div 4096) + 2 \<le> 2 * ((unat newsz - lo + 4095) div 4096)"
      using turns_left [OF pr(3) True pr(4)] PGROUNDUP_aligned [of oldsz] unfolding assms(3) page_unat by linarith
    show ?thesis
    proof (cases qs)
      case Nil
      note gu = give_up [OF pr(1,2) less_imp_le [OF True] assms(7) lt assms(3) none]
      have "allocuvm_loop d a oldsz newsz s = bindr (deallocuvm d newsz oldsz s) (\<lambda>_ s. Ret 0 s)"
        using True kalloc_Nil [OF uvm_okD(1) [OF pr(1) [unfolded Nil]]] by (subst allocuvm_loop.simps) simp
      then show ?thesis
        using gu few pr(6) by (auto simp: Nil elim!: okr_mono)
    next
      case (Cons m rs)
      let ?s1 = "s\<lparr>freelist := ld32 (mem s) m, mem := memset (mem s) m 0 PGSIZE\<rparr>"
      have big: "a < 2147483648" "unat (of_nat a :: u32) = a"
        using True assms(7) by (simp_all add: word_less_nat_alt unat_of_nat)
      have "page_in lo (unat newsz) (of_nat a)"
        using True pr(3,4) big(2) by (auto simp: page_in_def)
      then have na: "pt_lookup (mem s0) d (of_nat a) = None"
        by (rule none)
      note k = take_page(1,2) [OF pr(1) [unfolded Cons] memset_outside [of m "mem s" 0]]
      obtain ok t us where t: "mappages d (of_nat a) PGSIZE (V2P m) (PTE_W OR PTE_U) ?s1 = Ret ok t" "uvm_ok t d us" "length rs \<le> Suc (length us)"
          "if ok then grown lo (a + 4096) d s0 t ps us
           else us = [] \<and> rs = [] \<and> grown lo a d s0 t ps [m] \<and> page_ok t m \<and> m \<notin> pt_pages (mem t) d \<union> user_pages (mem t) d"
        using grow_step [OF pr(1,2) [unfolded Cons] pr(3,4) big(1) na] unfolding okr_iff by blast
      have eq: "allocuvm_loop d a oldsz newsz s =
          (if \<not> ok then bindr (deallocuvm d newsz oldsz t) (\<lambda>_ s. bindr (kfree m s) (\<lambda>_ s. Ret 0 s))
           else allocuvm_loop d (a + 4096) oldsz newsz t)"
        using True k t(1) by (subst allocuvm_loop.simps) simp
      show ?thesis
      proof (cases ok)
        case ok: True
        note e = next_turn [OF pr(3)]
        have "l \<le> length us + 2 * Suc q" if "l \<le> Suc (length rs) + 2 * q" for l q
          using that t(3) by simp
        then have len: "length ps \<le> length us + 2 * ((a + 4096 - lo) div 4096)"
          using pr(6) unfolding Cons e by (simp only: list.size add_Suc_right add_0_right)
        have g: "grown lo (a + 4096) d s0 t ps us"
          using t(4) ok by simp
        have "unat newsz - (a + 4096) < unat newsz - a" "lo \<le> a + 4096" "(a + 4096) mod 4096 = 0" "a + 4096 < unat newsz + 4096"
          using True pr(3,4) by simp_all
        from less.hyps [OF this(1) t(2) g this(2-4) len] show ?thesis
          unfolding eq using ok by (simp only: not_True_eq_False if_False)
      next
        case False
        then have f: "us = []" "rs = []" "grown lo a d s0 t ps [m]" "page_ok t m" "m \<notin> pt_pages (mem t) d \<union> user_pages (mem t) d"
          using t(4) by auto
        have "length ps < 2 * ((unat newsz - lo + 4095) div 4096)"
          using pr(6) few unfolding Cons f(2) list.size by linarith
        with give_up_page [OF t(2) [unfolded f(1)] f(3-5) less_imp_le [OF True] assms(7) lt assms(3) pr(3) none] show ?thesis
          unfolding eq okr_iff using False by (simp only: not_False_eq_True if_True) blast
      qed
    qed
  qed
qed

lemma grown_refl: "grown lo lo d s s ps ps"
  by (auto simp: grown_def conserved_def same_on_def)

lemma allocuvm_spec:
  assumes "uvm_ok s d ps" "oldsz \<le> newsz" "newsz < KERNBASE"
    and "\<And>va. page_in (unat (PGROUNDUP oldsz)) (unat newsz) va \<Longrightarrow> pt_lookup (mem s) d va = None"
  shows "okr (allocuvm d oldsz newsz s) (\<lambda>r t. \<exists>qs. uvm_ok t d qs \<and>
    (r = newsz \<and> grown (unat (PGROUNDUP oldsz)) (unat newsz) d s t ps qs \<or>
     r = 0 \<and> grown 0 0 d s t ps qs \<and> length ps < 2 * ((unat newsz - unat (PGROUNDUP oldsz) + 4095) div 4096)))"
proof -
  let ?lo = "unat (PGROUNDUP oldsz)"
  have old: "unat oldsz \<le> unat newsz" "unat newsz < 2147483648"
    using assms(2,3) by (simp_all add: word_le_nat_alt word_less_nat_alt)
  then have "?lo = (unat oldsz + 4095) div 4096 * 4096"
    by (intro unat_PGROUNDUP) simp
  then have lt: "?lo < unat newsz + 4096" and al: "?lo mod 4096 = 0"
    using old(1) by (simp_all add: div_mult_mod_eq [symmetric])
  have e: "grown ?lo ?lo d s t ps qs = grown 0 0 d s t ps qs" for t qs
    by (simp add: grown_def)
  have eq: "allocuvm d oldsz newsz s = allocuvm_loop d ?lo oldsz newsz s"
    using assms(2,3) leD [OF assms(2)] leD [of KERNBASE newsz] by (auto simp: allocuvm_def)
  show ?thesis
    unfolding eq e [symmetric]
    by (rule allocuvm_loop_spec [OF assms(1) grown_refl refl order_refl al lt assms(3,2) _ assms(4)]) simp_all
qed

end
