(* ===== verification/Uvm_Copy.thy ===== *)
theory Uvm_Copy
  imports Uvm
begin

text \<open>
  \<^verbatim>\<open>copyout\<close> and \<^verbatim>\<open>uva2ka\<close> of \<^verbatim>\<open>vm.c\<close>: the kernel writes into an address space through its page table.
  \<open>user_ldb\<close> is the byte a process finds at an address.
\<close>

section \<open>Bytes of a process\<close>

lemma unat_PTE_FLAGS: "unat (PTE_FLAGS x) = unat x mod 4096"
  using unat_and_mask [of x 12] by (simp add: PTE_FLAGS_def mask_12_u32)

lemma user_ldb_map: "x < KERNBASE \<Longrightarrow> user_ldb m d x = map_option (\<lambda>pte. m (page_of pte + PTE_FLAGS x)) (user_map m d x)"
  by (simp add: user_ldb_def user_addr_def user_map_def option.map_comp comp_def)

lemma page_offset_less:
  fixes q :: u32
  assumes "off + n \<le> 4096" "xm < 4096"
  shows "unat (q + of_nat xm - (q + of_nat off)) < n \<longleftrightarrow> off \<le> xm \<and> xm < off + n"
    "off \<le> xm \<Longrightarrow> unat (q + of_nat xm - (q + of_nat off)) = xm - off"
proof -
  have e: "q + of_nat xm - (q + of_nat off) = (of_nat xm - of_nat off :: u32)"
    by simp
  have u: "unat (of_nat xm :: u32) = xm" "unat (of_nat off :: u32) = off"
    using assms by (simp_all add: unat_of_nat)
  show "off \<le> xm \<Longrightarrow> unat (q + of_nat xm - (q + of_nat off)) = xm - off"
    unfolding e unat_diff_u32 by (simp add: u word_le_nat_alt)
  show "unat (q + of_nat xm - (q + of_nat off)) < n \<longleftrightarrow> off \<le> xm \<and> xm < off + n"
    unfolding e unat_diff_u32 word_le_nat_alt u using assms by auto
qed

lemma same_page_range:
  fixes a n y :: nat
  assumes "a mod 4096 + n \<le> 4096" "a \<le> y \<and> y < a + n"
  shows "y div 4096 = a div 4096"
proof (rule antisym)
  have "y < (a div 4096 + 1) * 4096"
    using assms div_mult_mod_eq [of a 4096] unfolding add_mult_distrib by linarith
  then show "y div 4096 \<le> a div 4096"
    using less_mult_imp_div_less [of y "a div 4096 + 1" 4096] by simp
qed (use assms(2) in \<open>simp add: div_le_mono\<close>)

text \<open>The kernel writes \<open>n\<close> bytes within the page of a user address.\<close>

lemma user_write:
  fixes va :: u32 and p :: bytes and k :: nat
  assumes "uvm_ok s d ps" "user_map (mem s) d va = Some pte" "unat va mod 4096 + n \<le> 4096"
  defines "dst \<equiv> page_of pte + of_nat (unat va mod 4096)"
  defines "t \<equiv> s\<lparr>mem := (\<lambda>x. if unat (x - dst) < n then p (k + unat (x - dst)) else mem s x)\<rparr>"
  shows "uvm_ok t d ps" "pt_lookup (mem t) d = pt_lookup (mem s) d" "user_map (mem t) d = user_map (mem s) d"
    "x < KERNBASE \<Longrightarrow> user_ldb (mem t) d x = (if unat va \<le> unat x \<and> unat x < unat va + n then Some (p (k + (unat x - unat va))) else user_ldb (mem s) d x)"
proof -
  note ok = uvm_okD [OF assms(1)]
  let ?off = "unat va mod 4096"
  have p: "page_ok s (page_of pte)" "page_of pte \<notin> set ps" "page_of pte \<notin> pt_pages (mem s) d"
    using ok(6) [OF assms(2)] by auto
  have al: "page_of pte mod 4096 = 0"
    by (rule page_ok_aligned [OF p(1)])
  have so: "same_outside {page_of pte} (mem s) (mem t)"
  proof (rule same_outsideI)
    fix x
    assume "\<And>q. q \<in> {page_of pte} \<Longrightarrow> 4096 \<le> unat (x - q)"
    then have "n \<le> unat (x - dst)"
      unfolding dst_def by (intro offset_in_page assms(3)) simp
    then show "mem t x = mem s x"
      by (simp add: t_def)
  qed
  have aligned: "\<forall>q\<in>set ps \<union> pt_pages (mem s) d \<union> user_pages (mem s) d. q mod 4096 = 0"
    using uvm_pages [OF assms(1)] page_ok_aligned by blast
  have on: "same_on (pt_pages (mem s) d) (mem s) (mem t)" "same_on (set ps) (mem s) (mem t)"
  proof -
    have "\<forall>q\<in>{page_of pte} \<union> pt_pages (mem s) d. q mod 4096 = 0" "\<forall>q\<in>{page_of pte} \<union> set ps. q mod 4096 = 0"
      using al aligned by blast+
    then show "same_on (pt_pages (mem s) d) (mem s) (mem t)" "same_on (set ps) (mem s) (mem t)"
      using p(2,3) by (auto intro!: same_outside_on [OF so] simp only: insert_disjoint Int_empty_left)
  qed
  have km: "kmem_inv t ps"
    by (rule kmem_inv_frame [OF ok(1)]) (use on(2) in \<open>auto simp: t_def same_on_def\<close>)
  have "set ps \<inter> (pt_pages (mem s) d \<union> user_pages (mem s) d) = {}" "kend t = kend s"
    using uvm_disjoint [OF assms(1)] by (auto simp: t_def)
  from uvm_ok_cong [OF assms(1) km this on(1)] show "uvm_ok t d ps" and look: "pt_lookup (mem t) d = pt_lookup (mem s) d"
    by auto
  then show um: "user_map (mem t) d = user_map (mem s) d"
    by (simp add: fun_eq_iff user_map_def)
  assume x: "x < KERNBASE"
  let ?xm = "unat x mod 4096"
  have fl: "PTE_FLAGS x = of_nat ?xm"
    by (simp add: word_unat_eq_iff unat_PTE_FLAGS unat_of_nat)
  have dv: "unat x = unat x div 4096 * 4096 + ?xm" "unat va = unat va div 4096 * 4096 + ?off"
    by simp_all
  show "user_ldb (mem t) d x = (if unat va \<le> unat x \<and> unat x < unat va + n then Some (p (k + (unat x - unat va))) else user_ldb (mem s) d x)"
  proof (cases "unat x div 4096 = unat va div 4096")
    case True
    then have um': "user_map (mem s) d x = Some pte"
      using user_map_page [OF True] assms(2) by simp
    have c: "unat va \<le> unat x \<and> unat x < unat va + n \<longleftrightarrow> ?off \<le> ?xm \<and> ?xm < ?off + n" "unat x - unat va = ?xm - ?off"
      using dv True by linarith+
    have xm: "?xm < 4096"
      by simp
    note po = page_offset_less [OF assms(3) xm, of "page_of pte", folded dst_def]
    show ?thesis
      unfolding user_ldb_map [OF x] um um' c fl using po by (simp add: t_def)
  next
    case False
    then have c: "\<not> (unat va \<le> unat x \<and> unat x < unat va + n)"
      using same_page_range [OF assms(3)] by blast
    have "mem t (page_of pte' + PTE_FLAGS x) = mem s (page_of pte' + PTE_FLAGS x)" if v: "user_map (mem s) d x = Some pte'" for pte'
    proof -
      have "page_of pte' mod 4096 = 0"
        using ok(6) [OF v] page_ok_aligned by blast
      moreover have "page_of pte' \<noteq> page_of pte"
        using ok(7) [OF v assms(2)] False by auto
      moreover have "unat (page_of pte' + PTE_FLAGS x - page_of pte') < 4096"
        by (simp add: unat_PTE_FLAGS)
      ultimately have "4096 \<le> unat (page_of pte' + PTE_FLAGS x - page_of pte)"
        by (rule other_page [OF _ al])
      then show ?thesis
        using so by (simp add: same_outside_def)
    qed
    then show ?thesis
      unfolding user_ldb_map [OF x] um if_not_P [OF c] by (cases "user_map (mem s) d x") simp_all
  qed
qed

section \<open>Copying out\<close>

lemma uva2ka_mapped:
  assumes "pt_lookup (mem s) d va = Some pte" "pte AND PTE_U \<noteq> 0"
  shows "uva2ka d va s = Ret (page_of pte) s"
  using assms by (auto simp: uva2ka_def walkpgdir_def pt_lookup_def Let_def split: if_splits)

lemma PGROUNDDOWN_page: "unat (PGROUNDDOWN va) div 4096 = unat va div 4096" "va - PGROUNDDOWN va = of_nat (unat va mod 4096)"
proof -
  show "unat (PGROUNDDOWN va) div 4096 = unat va div 4096"
    by (rule unat_PGROUNDDOWN_div)
  have "PGROUNDDOWN va \<le> va"
    by (simp add: word_le_nat_alt unat_PGROUNDDOWN)
  then have "unat (va - PGROUNDDOWN va) = unat va mod 4096"
    by (simp add: unat_sub unat_PGROUNDDOWN)
  then show "va - PGROUNDDOWN va = of_nat (unat va mod 4096)"
    by (simp add: word_unat_eq_iff unat_of_nat)
qed

definition user_range :: "mem \<Rightarrow> u32 \<Rightarrow> nat \<Rightarrow> nat \<Rightarrow> bool" where
  "user_range m d lo n \<longleftrightarrow> lo + n \<le> 2147483648 \<and> (\<forall>x. lo \<le> unat x \<and> unat x < lo + n \<longrightarrow> (\<exists>pte. pt_lookup m d x = Some pte \<and> pte AND PTE_U \<noteq> 0))"

lemma copyout_loop_spec:
  assumes "uvm_ok s d ps" "user_range (mem s) d (unat va) len"
  shows "okr (copyout_loop d va p k len s) (\<lambda>ok t. ok \<and> uvm_ok t d ps \<and> pt_lookup (mem t) d = pt_lookup (mem s) d \<and> t = s\<lparr>mem := mem t\<rparr> \<and>
    (\<forall>x<KERNBASE. user_ldb (mem t) d x =
       (if unat va \<le> unat x \<and> unat x < unat va + len then Some (p (k + (unat x - unat va))) else user_ldb (mem s) d x)))"
  using assms
proof (induction len arbitrary: va k s rule: less_induct)
  case (less len)
  show ?case
  proof (cases "len = 0")
    case True
    then show ?thesis
      using less.prems(1) by (subst copyout_loop.simps) auto
  next
    case False
    define n where "n = min len (4096 - unat va mod 4096)"
    have n: "0 < n" "n \<le> len" "unat va mod 4096 + n \<le> 4096" "n < len \<Longrightarrow> unat va mod 4096 + n = 4096"
      using False mod_less_divisor [of 4096 "unat va"] by (auto simp: n_def)
    have top: "unat va + len \<le> 2147483648"
      using less.prems(2) by (simp add: user_range_def)
    obtain pte where pte: "pt_lookup (mem s) d va = Some pte" "pte AND PTE_U \<noteq> 0"
      using less.prems(2) False by (auto simp: user_range_def)
    have um: "user_map (mem s) d va = Some pte"
      using pte(1) top False by (simp add: user_map_def word_less_nat_alt)
    let ?dst = "page_of pte + of_nat (unat va mod 4096)"
    let ?t = "s\<lparr>mem := (\<lambda>x. if unat (x - ?dst) < n then p (k + unat (x - ?dst)) else mem s x)\<rparr>"
    note w = user_write [OF less.prems(1) um n(3), where p = p and k = k]
    have "uva2ka d (PGROUNDDOWN va) s = Ret (page_of pte) s"
      using pte pte_of_page [OF PGROUNDDOWN_page(1), of "mem s" d va] by (intro uva2ka_mapped) auto
    moreover have "page_of pte \<noteq> 0"
      using uvm_okD(6) [OF less.prems(1) um] page_ok_nonzero by blast
    ultimately have eq: "copyout_loop d va p k len s = copyout_loop d (PGROUNDDOWN va + PGSIZE) p (k + n) (len - n) ?t"
      using False by (subst copyout_loop.simps) (simp add: Let_def n_def PGROUNDDOWN_page(2))
    show ?thesis
    proof (cases "n = len")
      case True
      then have "copyout_loop d va p k len s = Ret True ?t"
        unfolding eq by (subst copyout_loop.simps) simp
      then show ?thesis
        using w True by auto
    next
      case False
      let ?va = "PGROUNDDOWN va + PGSIZE"
      have va: "unat ?va = unat va + n"
      proof -
        have "unat va = unat (PGROUNDDOWN va) + unat va mod 4096"
          by (simp add: unat_PGROUNDDOWN)
        then have "unat (PGROUNDDOWN va) + 4096 = unat va + n"
          using n False by simp
        moreover have "unat va + n < 4294967296"
          using top n(2) by simp
        ultimately show ?thesis
          using unat_add_of_nat_u32 [of "PGROUNDDOWN va" 4096] by simp
      qed
      have "user_range (mem ?t) d (unat ?va) (len - n)"
        using less.prems(2) n(2) va unfolding user_range_def w(2) by auto
      from less.IH [OF _ w(1) this, of "k + n"] obtain ok u where u: "copyout_loop d ?va p (k + n) (len - n) ?t = Ret ok u" "ok" "uvm_ok u d ps"
          "pt_lookup (mem u) d = pt_lookup (mem s) d" "u = ?t\<lparr>mem := mem u\<rparr>"
          "\<And>x. x < KERNBASE \<Longrightarrow> user_ldb (mem u) d x =
             (if unat ?va \<le> unat x \<and> unat x < unat ?va + (len - n) then Some (p (k + n + (unat x - unat ?va))) else user_ldb (mem ?t) d x)"
        using n(1) \<open>len \<noteq> 0\<close> w(2) unfolding okr_iff by auto
      have "user_ldb (mem u) d x = (if unat va \<le> unat x \<and> unat x < unat va + len then Some (p (k + (unat x - unat va))) else user_ldb (mem s) d x)"
          if "x < KERNBASE" for x
        using u(6) [OF that] w(4) [OF that] n(1,2) unfolding va by auto
      moreover have "u = s\<lparr>mem := mem u\<rparr>"
        by (subst u(5)) simp
      ultimately show ?thesis
        unfolding eq u(1) using u(2-4) by simp
    qed
  qed
qed

end
