(* ===== verification/Fork_Memory.thy ===== *)
theory Fork_Memory
  imports Uvm_Grow Uvm_Copy
begin

text \<open>
  \<^verbatim>\<open>setupkvm\<close> and \<^verbatim>\<open>copyuvm\<close> of \<^verbatim>\<open>vm.c\<close>, the memory side of \<^verbatim>\<open>fork\<close>. \<open>can_map es f\<close> says that the ranges of
  \<open>es\<close> can be mapped one after the other, and \<open>map_all es f\<close> is the translation that results.
\<close>

section \<open>The kernel part of a page table\<close>

type_synonym kmapping = "u32 \<times> u32 \<times> u32 \<times> u32"

fun can_map :: "kmapping list \<Rightarrow> (u32 \<Rightarrow> u32 option) \<Rightarrow> bool" where
  "can_map [] f \<longleftrightarrow> True"
| "can_map ((virt, pstart, pend, perm) # es) f \<longleftrightarrow>
     0 < pend - pstart \<and> unat virt + unat (pend - pstart) \<le> 4294967296 \<and> KERNBASE \<le> virt \<and>
     unmapped f virt (pend - pstart) \<and> can_map es (map_range virt pstart perm (npages virt (pend - pstart)) f)"

fun map_all :: "kmapping list \<Rightarrow> (u32 \<Rightarrow> u32 option) \<Rightarrow> u32 \<Rightarrow> u32 option" where
  "map_all [] f = f"
| "map_all ((virt, pstart, pend, perm) # es) f = map_all es (map_range virt pstart perm (npages virt (pend - pstart)) f)"

definition setup_step :: "u32 \<Rightarrow> kmapping \<Rightarrow> 'a kmem_state_scheme \<Rightarrow> (unit option, 'a kmem_state_scheme) kres" where
  "setup_step d = (\<lambda>(virt, pstart, pend, perm) s.
     bindr (mappages d virt (pend - pstart) pstart perm s) (\<lambda>ok s.
       if ok then Ret None s else bindr (freevm d s) (\<lambda>_ s. Ret (Some ()) s)))"

lemma pt_pages_card: "card (pt_pages m d) \<le> 1025"
proof -
  have "{i :: u32. i < 1024 \<and> has_table m d i} \<subseteq> of_nat ` {..<1024}"
  proof
    fix i :: u32
    assume "i \<in> {i. i < 1024 \<and> has_table m d i}"
    then show "i \<in> of_nat ` {..<1024}"
      by (intro image_eqI [of _ _ "unat i"]) (simp_all add: word_less_nat_alt)
  qed
  then have "card {i :: u32. i < 1024 \<and> has_table m d i} \<le> card (of_nat ` {..<1024 :: nat} :: u32 set)"
    by (intro card_mono) simp_all
  also have "\<dots> \<le> 1024"
    using card_image_le [of "{..<1024 :: nat}" "of_nat :: nat \<Rightarrow> u32"] by simp
  finally have "card (table_at m d ` {i. i < 1024 \<and> has_table m d i}) \<le> 1024"
    using card_image_le [of "{i :: u32. i < 1024 \<and> has_table m d i}" "table_at m d"] by simp
  then show ?thesis
    by (simp add: pt_pages_def card_insert_if)
qed

text \<open>An address space without user pages.\<close>

definition no_user :: "mem \<Rightarrow> u32 \<Rightarrow> bool" where
  "no_user m d \<longleftrightarrow> (\<forall>va. user_map m d va = None)"

lemma no_user_pages: "no_user m d \<Longrightarrow> user_pages m d = {}"
  by (auto simp: no_user_def user_pages_def)

lemma map_range_user:
  assumes "KERNBASE \<le> virt" "va < KERNBASE"
  shows "map_range virt pa perm n f va = f va"
proof -
  have "unat va div 4096 < 524288" "524288 \<le> unat virt div 4096"
    using assms less_mult_imp_div_less [of "unat va" 524288 4096] div_le_mono [of 2147483648 "unat virt" 4096]
    by (simp_all add: word_less_nat_alt word_le_nat_alt)
  then show ?thesis
    by (simp add: map_range_def Let_def)
qed

definition kernel_only :: "u32 \<Rightarrow> 'a kmem_state_scheme \<Rightarrow> 'a kmem_state_scheme \<Rightarrow> u32 list \<Rightarrow> u32 list \<Rightarrow> bool" where
  "kernel_only d s t ps qs \<longleftrightarrow> uvm_ok t d qs \<and> no_user (mem t) d \<and> only_mem s t \<and> set qs \<union> pt_pages (mem t) d = set ps \<union> pt_pages (mem s) d \<and>
     same_outside (set ps \<union> pt_pages (mem s) d) (mem s) (mem t)"

definition given_back :: "u32 set \<Rightarrow> 'a kmem_state_scheme \<Rightarrow> 'a kmem_state_scheme \<Rightarrow> bool" where
  "given_back P s t \<longleftrightarrow> (\<exists>qs. kmem_inv t qs \<and> set qs = P) \<and> only_mem s t \<and> same_outside P (mem s) (mem t)"

lemma setup_step_spec:
  assumes ok: "uvm_ok s d ps" "no_user (mem s) d" and m: "can_map ((virt, pstart, pend, perm) # es) (pt_lookup (mem s) d)"
  shows "okr (setup_step d (virt, pstart, pend, perm) s) (\<lambda>bad t. case bad of
      None \<Rightarrow> pt_lookup (mem t) d = map_range virt pstart perm (npages virt (pend - pstart)) (pt_lookup (mem s) d) \<and> (\<exists>qs. kernel_only d s t ps qs)
    | Some _ \<Rightarrow> given_back (set ps \<union> pt_pages (mem s) d) s t \<and> card (set ps \<union> pt_pages (mem s) d) \<le> 1025)"
proof -
  note u = uvm_okD [OF ok(1)]
  have c: "0 < pend - pstart" "unat virt + unat (pend - pstart) \<le> 4294967296" "KERNBASE \<le> virt" "unmapped (pt_lookup (mem s) d) virt (pend - pstart)"
    using m by auto
  obtain ok t qs n where t: "mappages d virt (pend - pstart) pstart perm s = Ret ok t" "walk_post d s t qs" "tables_used n d s t ps qs"
      "pt_lookup (mem t) d = map_range virt pstart perm n (pt_lookup (mem s) d)"
      "if ok then n = npages virt (pend - pstart) else n < npages virt (pend - pstart) \<and> qs = []"
    using mappages_spec [OF u(1,2) c(1,2,4), of pstart perm] unfolding okr_iff by blast
  have w: "kmem_inv t qs" "pt_ok (mem t) d (set qs)" "same_outside (pt_pages (mem t) d) (mem s) (mem t)" "only_mem s t"
    using t(2) by (auto simp: walk_post_def)
  have tu: "pt_pages (mem t) d \<union> set qs = pt_pages (mem s) d \<union> set ps"
    using t(3) by (simp add: tables_used_def)
  have "user_map (mem t) d va = user_map (mem s) d va" for va
    using map_range_user [OF c(3)] by (simp add: user_map_def t(4))
  then have nu: "no_user (mem t) d"
    using ok(2) by (simp add: no_user_def)
  have kend: "kend t = kend s"
    by (rule only_mem_kend [OF w(4)])
  have "page_ok t p" if "p \<in> pt_pages (mem t) d" for p
    using uvm_pages [OF ok(1), of p] that tu page_ok_cong [OF kend] by auto
  then have uok: "uvm_ok t d qs"
    using w(1,2) u(3) kend nu by (simp add: uvm_ok_def no_user_def)
  have so: "same_outside (set ps \<union> pt_pages (mem s) d) (mem s) (mem t)"
    using w(3) tu by (auto simp: same_outside_def)
  have ko: "kernel_only d s t ps qs"
    using uok nu w(4) tu so by (auto simp: kernel_only_def)
  show ?thesis
  proof (cases ok)
    case True
    then show ?thesis
      using t(1,4,5) ko by (auto simp: setup_step_def)
  next
    case False
    then have q: "qs = []"
      using t(5) by simp
    obtain v rs where v: "freevm d t = Ret () v" "kmem_inv v rs" "set rs = set qs \<union> user_pages (mem t) d \<union> pt_pages (mem t) d" "only_mem t v"
        "same_outside (user_pages (mem t) d \<union> pt_pages (mem t) d) (mem t) (mem v)"
      using freevm_spec [OF uok] unfolding okr_iff by auto
    have all: "set ps \<union> pt_pages (mem s) d = pt_pages (mem t) d"
      using tu q by auto
    have "given_back (set ps \<union> pt_pages (mem s) d) s v"
      using v(2-5) so only_mem_trans [OF w(4) v(4)] no_user_pages [OF nu] unfolding given_back_def all q by (auto simp: same_outside_def)
    then show ?thesis
      using t(1) v(1) False pt_pages_card [of "mem t" d] by (simp add: setup_step_def all)
  qed
qed

lemma kernel_only_trans:
  assumes "kernel_only d s t ps qs" "kernel_only d t u qs rs"
  shows "kernel_only d s u ps rs"
  using assms only_mem_trans [of s t u] unfolding kernel_only_def same_outside_def by auto

lemma setup_loop:
  assumes "uvm_ok s d ps" "no_user (mem s) d" "can_map es (pt_lookup (mem s) d)"
  shows "okr (firstr es (setup_step d) s) (\<lambda>bad t. case bad of
      None \<Rightarrow> pt_lookup (mem t) d = map_all es (pt_lookup (mem s) d) \<and> (\<exists>qs. kernel_only d s t ps qs)
    | Some _ \<Rightarrow> given_back (set ps \<union> pt_pages (mem s) d) s t \<and> card (set ps \<union> pt_pages (mem s) d) \<le> 1025)"
  using assms
proof (induction es arbitrary: s ps)
  case Nil
  then show ?case
    by (auto simp: kernel_only_def)
next
  case (Cons e es)
  obtain virt pstart pend perm where e: "e = (virt, pstart, pend, perm)"
    by (cases e)
  let ?f = "map_range virt pstart perm (npages virt (pend - pstart)) (pt_lookup (mem s) d)"
  obtain bad t where t: "setup_step d e s = Ret bad t" "case bad of
      None \<Rightarrow> pt_lookup (mem t) d = ?f \<and> (\<exists>qs. kernel_only d s t ps qs)
    | Some _ \<Rightarrow> given_back (set ps \<union> pt_pages (mem s) d) s t \<and> card (set ps \<union> pt_pages (mem s) d) \<le> 1025"
    using setup_step_spec [OF Cons.prems(1,2) Cons.prems(3) [unfolded e]] unfolding e okr_iff by blast
  show ?case
  proof (cases bad)
    case None
    then obtain qs where q: "pt_lookup (mem t) d = ?f" "kernel_only d s t ps qs"
      using t(2) by auto
    have all: "set qs \<union> pt_pages (mem t) d = set ps \<union> pt_pages (mem s) d" "uvm_ok t d qs" "no_user (mem t) d"
        "only_mem s t" "same_outside (set ps \<union> pt_pages (mem s) d) (mem s) (mem t)"
      using q(2) by (auto simp: kernel_only_def)
    have "okr (firstr es (setup_step d) t) (\<lambda>bad u. case bad of
        None \<Rightarrow> pt_lookup (mem u) d = map_all es ?f \<and> (\<exists>rs. kernel_only d t u qs rs)
      | Some _ \<Rightarrow> given_back (set ps \<union> pt_pages (mem s) d) t u \<and> card (set ps \<union> pt_pages (mem s) d) \<le> 1025)"
      using Cons.IH [OF all(2,3)] Cons.prems(3) unfolding q(1) all(1) e by simp
    then have "okr (firstr es (setup_step d) t) (\<lambda>bad u. case bad of
        None \<Rightarrow> pt_lookup (mem u) d = map_all es ?f \<and> (\<exists>rs. kernel_only d s u ps rs)
      | Some _ \<Rightarrow> given_back (set ps \<union> pt_pages (mem s) d) s u \<and> card (set ps \<union> pt_pages (mem s) d) \<le> 1025)"
      by (rule okr_mono)
         (use kernel_only_trans [OF q(2)] only_mem_trans [OF all(4)] all(5) in \<open>auto simp: given_back_def same_outside_def split: option.splits\<close>)
    then show ?thesis
      using t(1) None unfolding e map_all.simps by simp
  next
    case (Some x)
    then show ?thesis
      using t by simp
  qed
qed

text \<open>
  The linker places \<^verbatim>\<open>data\<close> at a page boundary above \<^verbatim>\<open>KERNLINK\<close>, and the kernel fits below \<^verbatim>\<open>PHYSTOP\<close>.
\<close>

definition kdata_ok :: "u32 \<Rightarrow> bool" where
  "kdata_ok k \<longleftrightarrow> k mod PGSIZE = 0 \<and> KERNLINK < k \<and> k < P2V PHYSTOP"

lemma npages_exact:
  assumes "unat va = i * 4096" "unat sz = n * 4096" "0 < n"
  shows "npages va sz = n"
proof -
  obtain m where m: "n = Suc m"
    using assms(3) by (cases n) auto
  have "i * 4096 + n * 4096 - 1 = (i + m) * 4096 + 4095"
    by (simp add: m add_mult_distrib)
  then have "(unat va + unat sz - 1) div 4096 = i + m"
    unfolding assms(1,2) by simp
  then show ?thesis
    by (simp add: npages_def assms(1) m)
qed

lemma map_range_None:
  "map_range va pa perm n f x = None \<longleftrightarrow> f x = None \<and> \<not> (unat va div 4096 \<le> unat x div 4096 \<and> unat x div 4096 < unat va div 4096 + n)"
  by (auto simp: map_range_def Let_def)

lemma kmap_can_map:
  assumes "kdata_ok k"
  shows "can_map (kmap k) (\<lambda>_. None)"
proof -
  obtain j where j: "unat k = j * 4096"
    using assms unfolding kdata_ok_def page_unat by (auto elim!: dvdE simp: mod_eq_0_iff_dvd mult.commute)
  have "unat KERNLINK < unat k" "unat k < unat (P2V PHYSTOP)"
    using assms by (simp_all add: kdata_ok_def word_less_nat_alt)
  then have b: "524544 < j" "j < 581632"
    using j by (simp_all add: P2V_def)
  have v: "unat (V2P k) = (j - 524288) * 4096"
    using b j by (simp add: V2P_def unat_diff_u32 word_le_nat_alt diff_mult_distrib)
  have s2: "unat (V2P k - V2P KERNLINK) = (j - 524544) * 4096"
    using j b by (simp add: unat_diff_u32 word_le_nat_alt V2P_def diff_mult_distrib)
  have s3: "unat (PHYSTOP - V2P k) = (581632 - j) * 4096"
    using v b by (simp add: unat_diff_u32 word_le_nat_alt diff_mult_distrib)
  have n: "npages KERNBASE (EXTMEM - 0) = 256" "npages KERNLINK (V2P k - V2P KERNLINK) = j - 524544"
      "npages k (PHYSTOP - V2P k) = 581632 - j" "npages DEVSPACE (0 - DEVSPACE) = 8192"
    using b j s2 s3 npages_exact [of KERNBASE 524288 "EXTMEM - 0" 256] npages_exact [of KERNLINK 524544 _ "j - 524544"]
      npages_exact [of k j _ "581632 - j"] npages_exact [of DEVSPACE 1040384 "0 - DEVSPACE" 8192]
    by simp_all
  have p: "unat k div 4096 = j" "unat KERNBASE div 4096 = 524288" "unat KERNLINK div 4096 = 524544" "unat DEVSPACE div 4096 = 1040384"
    by (simp_all add: j)
  have pos: "0 < V2P k - V2P KERNLINK" "0 < PHYSTOP - V2P k" "KERNBASE \<le> k"
    using s2 s3 b j by (simp_all add: word_less_nat_alt word_le_nat_alt)
  have top: "unat KERNLINK + unat (V2P k - V2P KERNLINK) \<le> 4294967296" "unat k + unat (PHYSTOP - V2P k) \<le> 4294967296"
    using s2 s3 b j by simp_all
  show ?thesis
    unfolding kmap_def can_map.simps unmapped_def map_range_None n p using pos top b by (auto simp: word_less_nat_alt)
qed

lemma new_dir:
  assumes "kmem_inv s (d # qs)" "KERNBASE < kend s"
  defines "t \<equiv> s\<lparr>freelist := ld32 (mem s) d, mem := memset (mem s) d 0 PGSIZE\<rparr>"
  shows "uvm_ok t d qs" "pt_lookup (mem t) d = (\<lambda>_. None)" "pt_pages (mem t) d = {d}" "same_outside {d} (mem s) (mem t)"
proof -
  have d: "d mod 4096 = 0" "page_ok s d" "d \<notin> set qs"
    using kmem_invD(2,3) [OF assms(1)] page_ok_aligned by auto
  have h: "\<not> has_table (mem t) d i" if "i < 1024" for i
    using ld_clear_entry [OF d(1,1) that] by (simp add: t_def has_table_def)
  then show l: "pt_lookup (mem t) d = (\<lambda>_. None)" and pp: "pt_pages (mem t) d = {d}"
    using PDX_lt by (auto simp: pt_lookup_alt pt_pages_def)
  show so: "same_outside {d} (mem s) (mem t)"
    by (simp add: t_def memset_outside)
  have "p mod 4096 = 0" if "p \<in> insert d (set qs)" for p
    using kmem_invD(3) [OF assms(1), of p] that page_ok_aligned by auto
  then have "same_on (set qs) (mem s) (mem t)"
    using d(3) by (intro same_outside_on [OF so]) (auto simp only:)
  then have "kmem_inv t qs"
    using kmem_inv_frame [OF kalloc_Cons(2) [OF assms(1)], of t] by (auto simp: t_def same_on_def)
  moreover have "pt_ok (mem t) d (set qs)"
    using d h by (simp add: pt_ok_def)
  moreover have "page_ok t d"
    using d(2) by (simp add: t_def page_ok_def)
  ultimately show "uvm_ok t d qs"
    using assms(2) l pp by (simp add: uvm_ok_def user_map_def t_def)
qed

text \<open>
  \<^verbatim>\<open>setupkvm\<close> builds a page table with the kernel's mappings and nothing for the user, or gives every
  page back.
\<close>

lemma setupkvm_spec:
  assumes "kmem_inv s ps" "KERNBASE < kend s" "kdata_ok (kdata s)"
  shows "okr (setupkvm s) (\<lambda>d t. only_mem s t \<and> same_outside (set ps) (mem s) (mem t) \<and>
    (if d = 0 then (\<exists>qs. kmem_inv t qs \<and> set qs = set ps) \<and> length ps \<le> 1025
     else \<exists>qs. uvm_ok t d qs \<and> no_user (mem t) d \<and> set qs \<union> pt_pages (mem t) d = set ps \<and> pt_lookup (mem t) d = map_all (kmap (kdata s)) (\<lambda>_. None)))"
proof (cases ps)
  case Nil
  then show ?thesis
    using assms(1) kalloc_Nil [of s] by (auto simp: setupkvm_def)
next
  case (Cons d qs)
  note inv = assms(1) [unfolded Cons]
  let ?t = "s\<lparr>freelist := ld32 (mem s) d, mem := memset (mem s) d 0 PGSIZE\<rparr>"
  note nd = new_dir [OF inv assms(2)]
  have d: "d \<noteq> 0"
    using kmem_invD(3) [OF inv, of d] page_ok_nonzero by auto
  have eq: "setupkvm s = bindr (firstr (kmap (kdata s)) (setup_step d) ?t) (\<lambda>bad s. Ret (if bad = None then d else 0) s)"
    using d kalloc_Cons(1) [OF inv] by (simp add: setupkvm_def setup_step_def P2V_def)
  have nu: "no_user (mem ?t) d"
    using nd(2) by (simp add: no_user_def user_map_def)
  have all: "set qs \<union> pt_pages (mem ?t) d = set ps"
    using nd(3) Cons by auto
  have "card (set ps) = length ps"
    using kmem_invD(2) [OF assms(1)] by (rule distinct_card)
  moreover have om: "only_mem s ?t"
    by simp
  moreover have "same_outside (set ps) (mem s) (mem ?t)"
    using nd(4) Cons by (auto simp: same_outside_def)
  moreover obtain bad u where u: "firstr (kmap (kdata s)) (setup_step d) ?t = Ret bad u"
      "case bad of
        None \<Rightarrow> pt_lookup (mem u) d = map_all (kmap (kdata s)) (\<lambda>_. None) \<and> (\<exists>rs. kernel_only d ?t u qs rs)
      | Some _ \<Rightarrow> given_back (set ps) ?t u \<and> card (set ps) \<le> 1025"
    using setup_loop [OF nd(1) nu, of "kmap (kdata s)"] kmap_can_map [OF assms(3)] unfolding nd(2) all okr_iff by blast
  ultimately show ?thesis
    unfolding eq using d all only_mem_trans [OF om, of u]
    by (cases bad) (auto simp: kernel_only_def given_back_def same_outside_def)
qed

section \<open>Copying the pages\<close>

text \<open>The page of \<open>pte'\<close> in \<open>m'\<close> is a copy of that of \<open>pte\<close> in \<open>m\<close>, with the same permissions.\<close>

definition page_copy :: "mem \<Rightarrow> u32 \<Rightarrow> mem \<Rightarrow> u32 \<Rightarrow> bool" where
  "page_copy m pte m' pte' \<longleftrightarrow> PTE_FLAGS pte' = PTE_FLAGS pte \<and> (\<forall>i. unat i < 4096 \<longrightarrow> m' (page_of pte' + i) = m (page_of pte + i))"

text \<open>
  After \<open>k\<close> turns of the loop of \<^verbatim>\<open>copyuvm\<close>, started in \<open>s0\<close> with the free pages \<open>ps0\<close>: the child has copies of
  the first \<open>k\<close> pages of the parent and otherwise the translation \<open>K\<close>. All its pages were free.
\<close>

definition copied :: "nat \<Rightarrow> (u32 \<Rightarrow> u32 option) \<Rightarrow> u32 \<Rightarrow> u32 \<Rightarrow> 'a kmem_state_scheme \<Rightarrow> 'a kmem_state_scheme \<Rightarrow> u32 list \<Rightarrow> u32 list \<Rightarrow> bool" where
  "copied k K pd d s0 s ps0 ps \<longleftrightarrow> uvm_ok s d ps \<and> only_mem s0 s \<and> set ps \<union> pt_pages (mem s) d \<union> user_pages (mem s) d = set ps0 \<and>
     same_outside (set ps0) (mem s0) (mem s) \<and> length ps0 \<le> length ps + 2 * k + 1025 \<and>
     (\<forall>va. if page_in 0 (4096 * k) va
           then \<exists>pte pte'. pt_lookup (mem s0) pd va = Some pte \<and> pt_lookup (mem s) d va = Some pte' \<and> page_copy (mem s0) pte (mem s) pte'
           else pt_lookup (mem s) d va = K va)"

lemma copiedD:
  assumes "copied k K pd d s0 s ps0 ps"
  shows "uvm_ok s d ps" "only_mem s0 s" "set ps \<union> pt_pages (mem s) d \<union> user_pages (mem s) d = set ps0" "same_outside (set ps0) (mem s0) (mem s)"
    "length ps0 \<le> length ps + 2 * k + 1025"
    "\<And>va. page_in 0 (4096 * k) va \<Longrightarrow> \<exists>pte pte'. pt_lookup (mem s0) pd va = Some pte \<and> pt_lookup (mem s) d va = Some pte' \<and> page_copy (mem s0) pte (mem s) pte'"
    "\<And>va. \<not> page_in 0 (4096 * k) va \<Longrightarrow> pt_lookup (mem s) d va = K va"
  using assms unfolding copied_def by (auto split: if_splits)

text \<open>The parent does not notice.\<close>

lemma parent_kept:
  assumes "uvm_ok s0 pd ps0" "kmem_inv s ps" "set ps \<subseteq> set ps0" "only_mem s0 s" "same_outside (set ps0) (mem s0) (mem s)"
  shows "uvm_ok s pd ps" "pt_lookup (mem s) pd = pt_lookup (mem s0) pd" "pt_pages (mem s) pd = pt_pages (mem s0) pd"
    "user_pages (mem s) pd = user_pages (mem s0) pd" "same_on (pt_pages (mem s0) pd \<union> user_pages (mem s0) pd) (mem s0) (mem s)"
proof -
  note u = uvm_disjoint [OF assms(1)]
  have al: "\<forall>p\<in>set ps0 \<union> (pt_pages (mem s0) pd \<union> user_pages (mem s0) pd). p mod 4096 = 0"
    using uvm_pages [OF assms(1)] page_ok_aligned by blast
  show on: "same_on (pt_pages (mem s0) pd \<union> user_pages (mem s0) pd) (mem s0) (mem s)"
    by (rule same_outside_on [OF assms(5) _ al]) (use u in auto)
  have "same_on (pt_pages (mem s0) pd) (mem s0) (mem s)"
    by (rule same_on_mono [OF on]) simp
  moreover have "set ps \<inter> (pt_pages (mem s0) pd \<union> user_pages (mem s0) pd) = {}"
    using u assms(3) by auto
  ultimately show "uvm_ok s pd ps" "pt_lookup (mem s) pd = pt_lookup (mem s0) pd" "pt_pages (mem s) pd = pt_pages (mem s0) pd"
      "user_pages (mem s) pd = user_pages (mem s0) pd"
    using uvm_ok_cong [OF assms(1,2) _ only_mem_kend [OF assms(4)]] by auto
qed

lemma page_copy_same:
  assumes "page_copy m pte m' pte'" "same_on P m' m''" "page_of pte' \<in> P"
  shows "page_copy m pte m'' pte'"
  using assms by (simp add: page_copy_def same_on_def)

definition copy_step :: "u32 \<Rightarrow> u32 \<Rightarrow> nat \<Rightarrow> 'a kmem_state_scheme \<Rightarrow> (unit option, 'a kmem_state_scheme) kres" where
  "copy_step pd d i s =
     bindr (walkpgdir pd (of_nat i) False s) (\<lambda>r s.
                case r of
                  None \<Rightarrow> Panic ''copyuvm: pte should exist''
                | Some pte \<Rightarrow>
                    if ld32 (mem s) pte AND PTE_P = 0 then Panic ''copyuvm: page not present''
                    else let pa = PTE_ADDR (ld32 (mem s) pte); flags = PTE_FLAGS (ld32 (mem s) pte)
                         in bindr (kalloc s) (\<lambda>m s.
                              if m = 0 then Ret (Some ()) s
                              else bindr (mappages d (of_nat i) PGSIZE (V2P m) flags
                                            (s\<lparr>mem := memmove (mem s) m (P2V pa) PGSIZE\<rparr>)) (\<lambda>ok s.
                                     if ok then Ret None s
                                     else bindr (kfree m s) (\<lambda>_ s. Ret (Some ()) s))))"

lemma copy_step_mapped:
  assumes "pt_lookup (mem s) pd (of_nat i) = Some pte"
  shows "copy_step pd d i s = bindr (kalloc s) (\<lambda>m s.
    if m = 0 then Ret (Some ()) s
    else bindr (mappages d (of_nat i) PGSIZE (V2P m) (PTE_FLAGS pte) (s\<lparr>mem := memmove (mem s) m (page_of pte) PGSIZE\<rparr>)) (\<lambda>ok s.
           if ok then Ret None s else bindr (kfree m s) (\<lambda>_ s. Ret (Some ()) s)))"
  using assms by (auto simp: copy_step_def walkpgdir_def pt_lookup_def Let_def split: if_splits)

lemma flags_low: "PTE_FLAGS pte AND NOT 0xFFF = 0"
  by (simp add: PTE_FLAGS_def and.assoc)

lemma present_flags:
  assumes "pte AND PTE_P \<noteq> 0" "m mod 4096 = 0"
  shows "PTE_FLAGS (V2P m OR PTE_FLAGS pte OR PTE_P) = PTE_FLAGS pte"
proof -
  have z: "V2P m AND 0xFFF = 0"
    using V2P_aligned [OF assms(2)] and.assoc [of "V2P m" "NOT 0xFFF" "0xFFF"] by simp
  have "odd pte"
    using assms(1) by (simp add: and_one_eq even_iff_mod_2_eq_zero)
  then have "(pte AND 0xFFF) OR 1 = pte AND 0xFFF"
    by (intro bit_word_eqI) (auto simp: bit_simps mask_12_u32 bit_1_iff bit_0)
  moreover have "(V2P m OR PTE_FLAGS pte OR 1) AND 0xFFF = (V2P m AND 0xFFF) OR (PTE_FLAGS pte AND 0xFFF) OR (1 AND 0xFFF)"
    by (simp only: bit.conj_disj_distrib2)
  ultimately show ?thesis
    by (simp add: PTE_FLAGS_def z)
qed

lemma memmove_page:
  assumes "page_ok s m" "page_ok s p"
  shows "memmove M m p PGSIZE = mem_move M m p 4096"
  using memmove_eq_move [of p PGSIZE m M] page_ok_less [OF assms(1)] page_ok_less [OF assms(2)] by simp

lemma pt_lookup_present: "pt_lookup m d va = Some pte \<Longrightarrow> pte AND PTE_P \<noteq> 0"
  by (auto simp: pt_lookup_alt split: if_splits)

lemma same_onE: "same_on P m m' \<Longrightarrow> p \<in> P \<Longrightarrow> unat i < 4096 \<Longrightarrow> m' (p + i) = m (p + i)"
  by (auto simp: same_on_def)

text \<open>The page \<open>m\<close> has become the copy of the next page of the parent.\<close>

lemma copied_next:
  assumes c: "copied k K pd d s0 s ps0 (m # qs)" and k: "4096 * k < 2147483648"
    and par: "pt_lookup (mem s0) pd (of_nat (4096 * k)) = Some pte"
    and t: "uvm_ok t d rs" "only_mem s0 t" "same_outside (set ps0) (mem s0) (mem t)"
      "pt_pages (mem t) d \<union> set rs = pt_pages (mem s) d \<union> set qs" "length qs \<le> Suc (length rs)"
      "same_on (user_pages (mem s) d) (mem s) (mem t)" "user_pages (mem t) d = insert m (user_pages (mem s) d)"
    and look: "\<And>va. pt_lookup (mem t) d va = (if unat va div 4096 = k then Some pte' else pt_lookup (mem s) d va)"
    and copy: "page_copy (mem s0) pte (mem t) pte'"
  shows "copied (Suc k) K pd d s0 t ps0 rs"
proof -
  note cd = copiedD [OF c]
  have nx: "page_in 0 (4096 * Suc k) va \<longleftrightarrow> page_in 0 (4096 * k) va \<or> unat va div 4096 = k" for va
    using page_in_next [of 0 "4096 * k" va] by (simp add: add.commute)
  have new: "pt_lookup (mem s0) pd va = Some pte" if "unat va div 4096 = k" for va
    using pte_of_page [of va "of_nat (4096 * k)" "mem s0" pd] that k par by (simp add: unat_of_nat del: of_nat_mult)
  have old: "\<exists>pte pte'. pt_lookup (mem s0) pd va = Some pte \<and> pt_lookup (mem s) d va = Some pte' \<and> page_copy (mem s0) pte (mem t) pte'"
    if v: "page_in 0 (4096 * k) va" for va
  proof -
    obtain q q' where q: "pt_lookup (mem s0) pd va = Some q" "pt_lookup (mem s) d va = Some q'" "page_copy (mem s0) q (mem s) q'"
      using cd(6) [OF v] by blast
    then have "page_of q' \<in> user_pages (mem s) d"
      using user_pagesI [of "mem s" d va q'] page_in_user [OF v] k by (simp add: user_map_def)
    then show ?thesis
      using q page_copy_same [OF q(3) t(6)] by blast
  qed
  have "if page_in 0 (4096 * Suc k) va
      then \<exists>pte pte'. pt_lookup (mem s0) pd va = Some pte \<and> pt_lookup (mem t) d va = Some pte' \<and> page_copy (mem s0) pte (mem t) pte'
      else pt_lookup (mem t) d va = K va" for va
    using old [of va] new [of va] copy cd(7) [of va] unfolding nx look by auto
  moreover have "length ps0 \<le> length rs + 2 * Suc k + 1025"
    using cd(5) t(5) by simp
  moreover have "set rs \<union> pt_pages (mem t) d \<union> user_pages (mem t) d = set ps0"
    using cd(3) t(4) unfolding t(7) by auto
  ultimately show ?thesis
    using t(1-3) unfolding copied_def by blast
qed

lemma copied_back:
  assumes c: "copied k K pd d s0 s ps0 [m]" and k: "4096 * k \<le> 2147483648"
    and t: "uvm_ok t d rs" "only_mem s0 t" "same_outside (set ps0) (mem s0) (mem t)"
      "set rs \<union> pt_pages (mem t) d = insert m (pt_pages (mem s) d)" "1 \<le> length rs"
      "same_on (user_pages (mem s) d) (mem s) (mem t)" "user_pages (mem t) d = user_pages (mem s) d" "pt_lookup (mem t) d = pt_lookup (mem s) d"
  shows "copied k K pd d s0 t ps0 rs"
proof -
  note cd = copiedD [OF c]
  have "\<exists>pte pte'. pt_lookup (mem s0) pd va = Some pte \<and> pt_lookup (mem t) d va = Some pte' \<and> page_copy (mem s0) pte (mem t) pte'"
    if v: "page_in 0 (4096 * k) va" for va
  proof -
    obtain q q' where q: "pt_lookup (mem s0) pd va = Some q" "pt_lookup (mem s) d va = Some q'" "page_copy (mem s0) q (mem s) q'"
      using cd(6) [OF v] by blast
    then have "page_of q' \<in> user_pages (mem s) d"
      using user_pagesI [of "mem s" d va q'] page_in_user [OF v k] by (simp add: user_map_def)
    then show ?thesis
      using q page_copy_same [OF q(3) t(6)] unfolding t(8) by blast
  qed
  moreover have "set rs \<union> pt_pages (mem t) d \<union> user_pages (mem t) d = set ps0" "length ps0 \<le> length rs + 2 * k + 1025"
    using cd(3,5) t(4,5) unfolding t(7) by auto
  ultimately show ?thesis
    using t(1-3) cd(7) unfolding copied_def t(8) by auto
qed

lemma copy_step_spec:
  assumes c: "copied k K pd d s0 s ps0 ps" and parent: "uvm_ok s0 pd ps0" "pt_lookup (mem s0) pd (of_nat (4096 * k)) = Some pte"
    and k: "4096 * k < 2147483648" and K: "K (of_nat (4096 * k)) = None"
  shows "okr (copy_step pd d (4096 * k) s) (\<lambda>r t. \<exists>qs. if r = None then copied (Suc k) K pd d s0 t ps0 qs else copied k K pd d s0 t ps0 qs \<and> length qs \<le> 1)"
proof -
  note cd = copiedD [OF c]
  let ?va = "of_nat (4096 * k) :: u32"
  have va: "unat ?va = 4096 * k" "?va < KERNBASE" "?va mod 4096 = 0"
    using k unfolding page_unat by (simp_all add: unat_of_nat word_less_nat_alt del: of_nat_mult)
  have free: "set ps \<subseteq> set ps0"
    using cd(3) by auto
  note pk = parent_kept [OF parent(1) uvm_okD(1) [OF cd(1)] free cd(2,4)]
  have um: "user_map (mem s0) pd ?va = Some pte"
    using parent(2) va(2) by (simp add: user_map_def)
  have par: "page_ok s0 (page_of pte)" "page_of pte \<in> user_pages (mem s0) pd" "page_of pte \<notin> set ps0"
    using uvm_okD(6) [OF parent(1) um] user_pagesI [OF um] by auto
  note eq = copy_step_mapped [of s pd "4096 * k" pte d, unfolded pk(2), OF parent(2)]
  show ?thesis
  proof (cases ps)
    case Nil
    then show ?thesis
      using c kalloc_Nil [of s] uvm_okD(1) [OF cd(1)] unfolding eq by (auto intro!: exI [of _ "[]"])
  next
    case (Cons m qs)
    note ok = cd(1) [unfolded Cons]
    have m: "m \<in> set ps0" "page_ok s m"
      using free kmem_invD(3) [OF uvm_okD(1) [OF ok], of m] by (auto simp: Cons)
    have src: "page_ok s (page_of pte)"
      using par(1) page_ok_cong [OF only_mem_kend [OF cd(2)]] by blast
    let ?M = "memmove (mem s) m (page_of pte) PGSIZE"
    have M: "?M = mem_move (mem s) m (page_of pte) 4096"
      by (rule memmove_page [OF m(2) src])
    have so: "same_outside {m} (mem s) ?M"
      unfolding M by (simp add: same_outside_def mem_move_def)
    let ?s1 = "s\<lparr>freelist := ld32 (mem s) m, mem := ?M\<rparr>"
    note tp = take_page [OF ok so]
    have "\<not> page_in 0 (4096 * k) ?va"
      using va(1) by (simp add: page_in_def)
    then have none: "pt_lookup (mem ?s1) d ?va = None"
      using cd(7) K tp(5) by simp
    have pok1: "page_ok ?s1 m"
      using m(2) by (simp add: page_ok_def)
    have nm: "m \<notin> set qs \<union> pt_pages (mem ?s1) d \<union> user_pages (mem ?s1) d"
      using tp(8) by simp
    obtain b t rs where t: "mappages d ?va PGSIZE (V2P m) (PTE_FLAGS pte) ?s1 = Ret b t" "uvm_ok t d rs" "only_mem ?s1 t"
        "tables_used 1 d ?s1 t qs rs" "pt_pages (mem ?s1) d \<subseteq> pt_pages (mem t) d" "same_on (insert m (user_pages (mem ?s1) d)) (mem ?s1) (mem t)"
        "same_outside (pt_pages (mem t) d) (mem ?s1) (mem t)"
        "if b then pt_lookup (mem t) d = (\<lambda>va. if unat va div 4096 = unat ?va div 4096 then Some (V2P m OR PTE_FLAGS pte OR PTE_P) else pt_lookup (mem ?s1) d va) \<and>
         user_pages (mem t) d = insert m (user_pages (mem ?s1) d)
       else pt_lookup (mem t) d = pt_lookup (mem ?s1) d \<and> user_pages (mem t) d = user_pages (mem ?s1) d \<and> qs = [] \<and> rs = []"
      using map_page [OF tp(4) pok1 nm va(3,2) none flags_low] unfolding okr_iff by blast
    have un: "pt_pages (mem t) d \<union> set rs = pt_pages (mem s) d \<union> set qs" "length qs \<le> Suc (length rs)"
      using t(4) tp(6) by (auto simp: tables_used_def)
    have "only_mem s t"
      by (rule only_mem_trans [OF _ t(3)]) simp
    then have om: "only_mem s0 t"
      by (rule only_mem_trans [OF cd(2)])
    have "pt_pages (mem t) d \<subseteq> set ps0"
      using un(1) cd(3) by (auto simp: Cons)
    then have so0: "same_outside (set ps0) (mem s0) (mem t)"
      using cd(4) so t(7) m(1) unfolding same_outside_def by (simp add: subset_iff)
    have keep: "same_on (user_pages (mem s) d) (mem s) (mem t)"
      using tp(7,9) t(6) by (simp add: same_on_def)
    show ?thesis
    proof (cases b)
      case True
      have "page_of (V2P m OR PTE_FLAGS pte OR PTE_P) = m" "PTE_FLAGS (V2P m OR PTE_FLAGS pte OR PTE_P) = PTE_FLAGS pte"
        using flags_page [OF page_ok_aligned [OF m(2)] flags_low] present_flags [OF pt_lookup_present [OF parent(2)] page_ok_aligned [OF m(2)]] .
      moreover have "mem t (m + i) = mem s0 (page_of pte + i)" if i: "unat i < 4096" for i
        using same_onE [OF t(6), of m i] same_onE [OF pk(5), of "page_of pte" i] i par(2) unfolding M by (simp add: mem_move_def)
      ultimately have "page_copy (mem s0) pte (mem t) (V2P m OR PTE_FLAGS pte OR PTE_P)"
        by (simp add: page_copy_def)
      then have "copied (Suc k) K pd d s0 t ps0 rs"
        using t(8) True tp(5,7) va(1)
        by (intro copied_next [OF c [unfolded Cons] k parent(2) t(2) om so0 un keep]) auto
      then show ?thesis
        unfolding eq tp(1) using True t(1) tp(2) by auto
    next
      case False
      then have f: "pt_lookup (mem t) d = pt_lookup (mem s) d" "user_pages (mem t) d = user_pages (mem s) d" "qs = []" "rs = []"
        using t(8) tp(5,7) by auto
      have out: "page_ok t m" "m \<notin> set rs \<union> pt_pages (mem t) d \<union> user_pages (mem t) d"
        using page_ok_cong [OF only_mem_kend [OF t(3)]] pok1 nm un(1) f tp(6,7) by auto
      obtain v where v: "kfree m t = Ret () v" "uvm_ok v d (m # rs)" "only_mem t v" "pt_lookup (mem v) d = pt_lookup (mem t) d"
          "pt_pages (mem v) d = pt_pages (mem t) d" "user_pages (mem v) d = user_pages (mem t) d" "same_on (user_pages (mem t) d) (mem t) (mem v)"
        using kfree_page [OF t(2) out] by (auto simp: okr_iff)
      have "same_outside {m} (mem t) (mem v)"
        using kfree_spec [OF uvm_okD(1) [OF t(2)] out(1)] out(2) v(1) by (auto simp: okr_iff same_outside_def)
      then have "same_outside (set ps0) (mem s0) (mem v)"
        using so0 m(1) unfolding same_outside_def by simp
      moreover have "same_on (user_pages (mem s) d) (mem s) (mem v)"
        using keep v(7) f(2) by (simp add: same_on_def)
      moreover have "set [m] \<union> pt_pages (mem v) d = insert m (pt_pages (mem s) d)"
        using un(1) v(5) f(3,4) by simp
      ultimately have "copied k K pd d s0 v ps0 [m]"
        using v(2,4,6) f k
        by (intro copied_back [OF c [unfolded Cons f(3)] less_imp_le [OF k] _ only_mem_trans [OF om v(3)]]) auto
      then show ?thesis
        unfolding eq tp(1) using False t(1) v(1) tp(2) by auto
    qed
  qed
qed

lemma copied_less: "copied k K pd d s0 s ps0 ps \<Longrightarrow> k \<le> N \<Longrightarrow> length ps \<le> 1 \<Longrightarrow> length ps0 \<le> 1026 + 2 * N"
  using copiedD(5) [of k K pd d s0 s ps0 ps] by linarith

lemma copy_loop:
  assumes parent: "uvm_ok s0 pd ps0" "\<And>k. k < N \<Longrightarrow> pt_lookup (mem s0) pd (of_nat (4096 * k)) \<noteq> None"
    and N: "4096 * N \<le> 2147483648" and K: "\<And>va. va < KERNBASE \<Longrightarrow> K va = None"
    and c: "copied k K pd d s0 s ps0 ps" "k \<le> N"
  shows "okr (firstr (map (\<lambda>k. 4096 * k) [k..<N]) (copy_step pd d) s)
    (\<lambda>r t. \<exists>qs. if r = None then copied N K pd d s0 t ps0 qs else (\<exists>k\<le>N. copied k K pd d s0 t ps0 qs) \<and> length ps0 \<le> 1026 + 2 * N)"
  using c
proof (induction "N - k" arbitrary: k s ps)
  case 0
  then show ?case
    by auto
next
  case (Suc n)
  then have k: "k < N" "4096 * k < 2147483648" and up: "[k..<N] = k # [Suc k..<N]"
    using N by (simp_all add: upt_conv_Cons)
  obtain pte where pte: "pt_lookup (mem s0) pd (of_nat (4096 * k)) = Some pte"
    using parent(2) [OF k(1)] by blast
  have "(of_nat (4096 * k) :: u32) < KERNBASE"
    using k(2) by (simp add: word_less_nat_alt unat_of_nat del: of_nat_mult)
  then obtain r t qs where t: "copy_step pd d (4096 * k) s = Ret r t"
      "if r = None then copied (Suc k) K pd d s0 t ps0 qs else copied k K pd d s0 t ps0 qs \<and> length qs \<le> 1"
    using copy_step_spec [OF Suc.prems(1) parent(1) pte k(2) K] unfolding okr_iff by blast
  show ?case
  proof (cases r)
    case None
    have "n = N - Suc k" "Suc k \<le> N"
      using Suc.hyps(2) k(1) by simp_all
    from Suc.hyps(1) [OF this(1) _ this(2)] show ?thesis
      using t None unfolding up by simp
  next
    case (Some u)
    then show ?thesis
      using t copied_less [of k K pd d s0 t ps0 qs N] k(1) unfolding up by (auto intro!: exI [of _ k])
  qed
qed

lemma copied_start:
  assumes "kmem_inv s ps" "uvm_ok t d qs" "no_user (mem t) d" "only_mem s t" "same_outside (set ps) (mem s) (mem t)"
    and "set qs \<union> pt_pages (mem t) d = set ps"
  shows "copied 0 (pt_lookup (mem t) d) pd d s t ps qs"
proof -
  have "length ps = card (set ps)"
    using distinct_card [OF kmem_invD(2) [OF assms(1)]] by simp
  also have "\<dots> \<le> card (set qs) + card (pt_pages (mem t) d)"
    unfolding assms(6) [symmetric] by (rule card_Un_le)
  also have "\<dots> \<le> length qs + 1025"
    using card_length [of qs] pt_pages_card [of "mem t" d] by linarith
  finally show ?thesis
    using assms no_user_pages [OF assms(3)] by (simp add: copied_def page_in_def)
qed

text \<open>What the child sees after the pages below \<open>sz\<close> have been copied.\<close>

definition memory_copied :: "nat \<Rightarrow> u32 \<Rightarrow> u32 \<Rightarrow> mem \<Rightarrow> mem \<Rightarrow> bool" where
  "memory_copied n pd d m m' \<longleftrightarrow> (\<forall>va<KERNBASE. if page_in 0 n va
     then user_ldb m' d va = user_ldb m pd va \<and> map_option PTE_FLAGS (pt_lookup m' d va) = map_option PTE_FLAGS (pt_lookup m pd va)
     else pt_lookup m' d va = None)"

lemma page_in_up: "page_in 0 (4096 * ((n + 4095) div 4096)) va \<longleftrightarrow> page_in 0 n va"
proof -
  have "v * 4096 < 4096 * ((n + 4095) div 4096) \<longleftrightarrow> v * 4096 < n" for v :: nat
    using less_eq_div_iff_mult_less_eq [of 4096 "Suc v" "n + 4095"] by (simp add: mult.commute Suc_le_eq)
  then show ?thesis
    by (simp add: page_in_def)
qed

lemma copied_memory:
  assumes "copied ((n + 4095) div 4096) K pd d s0 s ps0 ps" "\<And>va. va < KERNBASE \<Longrightarrow> K va = None"
  shows "memory_copied n pd d (mem s0) (mem s)"
proof -
  note cd = copiedD [OF assms(1), unfolded page_in_up]
  have "user_ldb (mem s) d va = user_ldb (mem s0) pd va \<and> map_option PTE_FLAGS (pt_lookup (mem s) d va) = map_option PTE_FLAGS (pt_lookup (mem s0) pd va)"
    if "page_in 0 n va" for va
    using cd(6) [OF that] by (auto simp: page_copy_def user_ldb_def user_addr_def unat_PTE_FLAGS)
  then show ?thesis
    using cd(7) assms(2) by (auto simp: memory_copied_def)
qed

lemma copyuvm_eq:
  "copyuvm pd sz s = bindr (setupkvm s) (\<lambda>d s. if d = 0 then Ret 0 s
     else bindr (firstr (map (\<lambda>k. 4096 * k) [0..<(unat sz + 4095) div 4096]) (copy_step pd d) s)
       (\<lambda>bad s. if bad = None then Ret d s else bindr (freevm d s) (\<lambda>_ s. Ret 0 s)))"
  unfolding copyuvm_def copy_step_def ..

text \<open>The parent is intact, and the free pages \<open>ps\<close> are either all free again or shared between the child and the free list.\<close>

definition fork_post :: "nat \<Rightarrow> u32 \<Rightarrow> 'a kmem_state_scheme \<Rightarrow> u32 list \<Rightarrow> u32 \<Rightarrow> 'a kmem_state_scheme \<Rightarrow> bool" where
  "fork_post n pd s ps d t \<longleftrightarrow> only_mem s t \<and> same_outside (set ps) (mem s) (mem t) \<and>
     (\<exists>qs. if d = 0 then kmem_inv t qs \<and> set qs = set ps \<and> length ps \<le> 1026 + 2 * ((n + 4095) div 4096)
           else uvm_ok t d qs \<and> set qs \<union> pt_pages (mem t) d \<union> user_pages (mem t) d = set ps \<and> memory_copied n pd d (mem s) (mem t))"

lemma fork_fails:
  assumes "copied k K pd d s u ps qs" "length ps \<le> 1026 + 2 * ((n + 4095) div 4096)"
  shows "okr (freevm d u) (\<lambda>_. fork_post n pd s ps 0)"
proof -
  note cd = copiedD [OF assms(1)]
  obtain t rs where t: "freevm d u = Ret () t" "kmem_inv t rs" "set rs = set qs \<union> user_pages (mem u) d \<union> pt_pages (mem u) d"
      "only_mem u t" "same_outside (user_pages (mem u) d \<union> pt_pages (mem u) d) (mem u) (mem t)"
    using freevm_spec [OF cd(1)] by (auto simp: okr_iff)
  have sub: "user_pages (mem u) d \<union> pt_pages (mem u) d \<subseteq> set ps"
    using cd(3) by auto
  have "same_outside (set ps) (mem s) (mem t)"
    using cd(4) t(5) sub unfolding same_outside_def by (metis subsetD)
  moreover have "set rs = set ps"
    using t(3) cd(3) by auto
  ultimately show ?thesis
    unfolding t(1) using t(2) only_mem_trans [OF cd(2) t(4)] assms(2) by (auto simp: fork_post_def)
qed

lemma copyuvm_spec:
  assumes "uvm_ok s pd ps" "kdata_ok (kdata s)" "unat sz \<le> 2147483648"
    and mapped: "\<And>va. page_in 0 (unat sz) va \<Longrightarrow> pt_lookup (mem s) pd va \<noteq> None"
  shows "okr (copyuvm pd sz s) (fork_post (unat sz) pd s ps)"
proof -
  let ?N = "(unat sz + 4095) div 4096"
  note ok = uvm_okD [OF assms(1)]
  obtain d u where d: "setupkvm s = Ret d u" "only_mem s u" "same_outside (set ps) (mem s) (mem u)"
      "if d = 0 then (\<exists>qs. kmem_inv u qs \<and> set qs = set ps) \<and> length ps \<le> 1025
       else \<exists>qs. uvm_ok u d qs \<and> no_user (mem u) d \<and> set qs \<union> pt_pages (mem u) d = set ps \<and> pt_lookup (mem u) d = map_all (kmap (kdata s)) (\<lambda>_. None)"
    using setupkvm_spec [OF ok(1,3) assms(2)] unfolding okr_iff by blast
  show ?thesis
  proof (cases "d = 0")
    case True
    then show ?thesis
      using d by (auto simp: copyuvm_eq fork_post_def)
  next
    case False
    then obtain qs where qs: "uvm_ok u d qs" "no_user (mem u) d" "set qs \<union> pt_pages (mem u) d = set ps"
      using d(4) by auto
    have K: "pt_lookup (mem u) d va = None" if "va < KERNBASE" for va
      using qs(2) that by (auto simp: no_user_def user_map_def split: if_splits)
    have N: "4096 * ?N \<le> 2147483648"
      using div_le_mono [of "unat sz + 4095" "2147483648 + 4095" 4096] assms(3) by simp
    have page: "page_in 0 (unat sz) (of_nat (4096 * k))" if "k < ?N" for k
      using that N by (simp add: page_in_def unat_of_nat del: of_nat_mult)
    obtain bad v rs where v: "firstr (map (\<lambda>k. 4096 * k) [0..<?N]) (copy_step pd d) u = Ret bad v"
        "if bad = None then copied ?N (pt_lookup (mem u) d) pd d s v ps rs
         else (\<exists>k\<le>?N. copied k (pt_lookup (mem u) d) pd d s v ps rs) \<and> length ps \<le> 1026 + 2 * ?N"
      using copy_loop [OF assms(1) mapped [OF page] N K copied_start [OF ok(1) qs(1,2) d(2,3) qs(3)] le0] unfolding okr_iff by blast
    show ?thesis
    proof (cases bad)
      case None
      then have c: "copied ?N (pt_lookup (mem u) d) pd d s v ps rs"
        using v(2) by simp
      have "fork_post (unat sz) pd s ps d v"
        using copiedD(1-4) [OF c] copied_memory [OF c K] False unfolding fork_post_def by auto
      then show ?thesis
        using False None d(1) v(1) by (simp add: copyuvm_eq)
    next
      case (Some a)
      then obtain k where "copied k (pt_lookup (mem u) d) pd d s v ps rs" "length ps \<le> 1026 + 2 * ?N"
        using v(2) by auto
      from fork_fails [OF this] show ?thesis
        using False Some d(1) v(1) by (auto simp: copyuvm_eq okr_iff)
    qed
  qed
qed

text \<open>The parent is unaffected, and the child's pages are not its own.\<close>

lemma fork_parent:
  assumes "uvm_ok s pd ps" "fork_post n pd s ps d t"
  shows "pt_lookup (mem t) pd = pt_lookup (mem s) pd \<and>
    (\<forall>va<KERNBASE. user_ldb (mem t) pd va = user_ldb (mem s) pd va) \<and>
    (\<exists>qs. uvm_ok t pd qs \<and>
      (if d = 0 then set qs = set ps \<and> length ps \<le> 1026 + 2 * ((n + 4095) div 4096)
       else uvm_ok t d qs \<and> set qs \<union> pt_pages (mem t) d \<union> user_pages (mem t) d = set ps \<and>
         (pt_pages (mem t) d \<union> user_pages (mem t) d) \<inter> (pt_pages (mem t) pd \<union> user_pages (mem t) pd) = {} \<and>
         memory_copied n pd d (mem s) (mem t)))"
proof -
  obtain qs where f: "only_mem s t" "same_outside (set ps) (mem s) (mem t)"
      "if d = 0 then kmem_inv t qs \<and> set qs = set ps \<and> length ps \<le> 1026 + 2 * ((n + 4095) div 4096)
       else uvm_ok t d qs \<and> set qs \<union> pt_pages (mem t) d \<union> user_pages (mem t) d = set ps \<and> memory_copied n pd d (mem s) (mem t)"
    using assms(2) unfolding fork_post_def by blast
  have q: "kmem_inv t qs" "set qs \<subseteq> set ps"
    using f(3) uvm_okD(1) [of t d qs] by (auto split: if_splits)
  note pk = parent_kept [OF assms(1) q f(1,2)]
  have "user_ldb (mem t) pd va = user_ldb (mem s) pd va" if va: "va < KERNBASE" for va
  proof -
    have "mem t (page_of pte + PTE_FLAGS va) = mem s (page_of pte + PTE_FLAGS va)" if "user_map (mem s) pd va = Some pte" for pte
      using user_pagesI [OF that] by (intro same_onE [OF pk(5)]) (simp_all add: unat_PTE_FLAGS)
    moreover have "user_map (mem t) pd va = user_map (mem s) pd va"
      using pk(2) by (simp add: user_map_def)
    ultimately show ?thesis
      unfolding user_ldb_map [OF va] by (cases "user_map (mem s) pd va") simp_all
  qed
  moreover have "X \<inter> (pt_pages (mem t) pd \<union> user_pages (mem t) pd) = {}" if "X \<subseteq> set ps" for X
    using uvm_disjoint [OF assms(1)] that unfolding pk(3,4) by auto
  ultimately show ?thesis
    using pk(1,2) f(3) by (intro conjI exI [of _ qs]) (auto split: if_splits)
qed

end
