(* ===== verification/Address_Space.thy ===== *)
theory Address_Space
  imports Fork_Memory
begin

text \<open>
  The properties of user address spaces, stated over the operations of \<^verbatim>\<open>vm.c\<close>: growing, releasing and
  writing to them. The sample address space starts with an empty page directory and three free pages.
\<close>

section \<open>A sample address space\<close>

abbreviation (input) sample_dir :: u32 where "sample_dir \<equiv> 0x80500000"
abbreviation (input) sample_free :: "u32 list" where "sample_free \<equiv> [0x80400000, 0x80401000, 0x80402000]"

lemma sample_uvm: "uvm_ok sample_kmem sample_dir sample_free"
proof -
  have "has_table (mem sample_kmem) sample_dir i = False" if "i < 1024" for i
    using sample_kmem_empty [OF that] by simp
  then have pp: "pt_pages (mem sample_kmem) sample_dir = {sample_dir}"
    by (auto simp: pt_pages_def)
  have um: "user_map (mem sample_kmem) sample_dir va = None" for va
    by (simp add: user_map_def sample_kmem_pt)
  have "kend sample_kmem = 0x80200000"
    by (simp add: sample_kmem_def)
  then show ?thesis
    unfolding uvm_ok_def pp um using sample_kmem_inv sample_kmem_pt(1) by (simp add: page_ok_def V2P_def)
qed

lemma sample_pages: "pt_pages (mem sample_kmem) sample_dir = {sample_dir}" "user_pages (mem sample_kmem) sample_dir = {}"
proof -
  show "pt_pages (mem sample_kmem) sample_dir = {sample_dir}"
    using sample_kmem_empty by (auto simp: pt_pages_def)
  show "user_pages (mem sample_kmem) sample_dir = {}"
    by (simp add: user_pages_def user_map_def sample_kmem_pt)
qed

lemma sample_round: "unat (PGROUNDUP 0) = 0"
  using unat_PGROUNDUP [of 0] by simp

lemma sample_grow:
  assumes "okr (allocuvm sample_dir 0 0x1000 sample_kmem) (\<lambda>r t. \<exists>qs. uvm_ok t sample_dir qs \<and>
      (r = 0x1000 \<and> grown 0 0x1000 sample_dir sample_kmem t sample_free qs \<or>
       r = 0 \<and> grown 0 0 sample_dir sample_kmem t sample_free qs \<and> length sample_free < 2))"
  shows "\<exists>t qs pte. allocuvm sample_dir 0 0x1000 sample_kmem = Ret 0x1000 t \<and> uvm_ok t sample_dir qs \<and>
    grown 0 0x1000 sample_dir sample_kmem t sample_free qs \<and> pt_lookup (mem t) sample_dir 0x123 = Some pte \<and> new_page (mem t) pte"
proof -
  obtain t qs where t: "allocuvm sample_dir 0 0x1000 sample_kmem = Ret 0x1000 t" "uvm_ok t sample_dir qs"
      "grown 0 0x1000 sample_dir sample_kmem t sample_free qs"
    using assms unfolding okr_iff by auto
  have "page_in 0 0x1000 0x123"
    by (simp add: page_in_def)
  then show ?thesis
    using t grownD(6) [OF t(3)] by blast
qed

lemma sample_grown:
  obtains t qs pte where "allocuvm sample_dir 0 0x1000 sample_kmem = Ret 0x1000 t" "uvm_ok t sample_dir qs"
    "pt_lookup (mem t) sample_dir 0x123 = Some pte" "new_page (mem t) pte"
proof -
  have "okr (allocuvm sample_dir 0 0x1000 sample_kmem) (\<lambda>r t. \<exists>qs. uvm_ok t sample_dir qs \<and>
      (r = 0x1000 \<and> grown 0 0x1000 sample_dir sample_kmem t sample_free qs \<or>
       r = 0 \<and> grown 0 0 sample_dir sample_kmem t sample_free qs \<and> length sample_free < 2))"
    using allocuvm_spec [OF sample_uvm, of 0 "0x1000"] by (simp add: sample_round sample_kmem_pt)
  from sample_grow [OF this] show ?thesis
    using that by blast
qed

lemma new_page_user: "new_page m pte \<Longrightarrow> pte AND PTE_U \<noteq> 0"
proof -
  assume "new_page m pte"
  then have "pte AND 0xFFF = PTE_P OR PTE_W OR PTE_U"
    by (simp add: new_page_def PTE_FLAGS_def)
  then have "(pte AND 0xFFF) AND 4 = 4"
    by simp
  then show ?thesis
    by (auto simp: and.assoc)
qed

section \<open>Properties\<close>

text \<open>
  C8: \<^verbatim>\<open>allocuvm\<close> either grows an address space or leaves it as it was. On success every page between the
  old size, rounded up, and the new size is mapped writable for the user to a page of its own full
  of zeros; every other address is translated as before, and the bytes of all pages mapped before are kept. On failure
  the translation and these bytes are as before, and fewer than two pages per page of the range were free. In both
  cases the pages of the free list, of the page table and of the user are together the same as
  before, so none is lost. A size beyond the user's half fails and a smaller size changes nothing.
\<close>

theorem allocuvm_grows_or_restores:
  assumes "uvm_ok s d ps" "\<forall>va. page_in (unat (PGROUNDUP oldsz)) (unat newsz) va \<longrightarrow> pt_lookup (mem s) d va = None"
  shows "if KERNBASE \<le> newsz then allocuvm d oldsz newsz s = Ret 0 s
    else if newsz < oldsz then allocuvm d oldsz newsz s = Ret oldsz s
    else okr (allocuvm d oldsz newsz s) (\<lambda>r t. \<exists>qs. uvm_ok t d qs \<and>
      (r = newsz \<and> grown (unat (PGROUNDUP oldsz)) (unat newsz) d s t ps qs \<or>
       r = 0 \<and> grown 0 0 d s t ps qs \<and> length ps < 2 * ((unat newsz - unat (PGROUNDUP oldsz) + 4095) div 4096)))"
proof -
  consider "KERNBASE \<le> newsz" | "newsz < oldsz" "\<not> KERNBASE \<le> newsz" | "oldsz \<le> newsz" "newsz < KERNBASE"
    by (meson not_le)
  then show ?thesis
  proof cases
    case 3
    then show ?thesis
      using allocuvm_spec [OF assms(1) 3] assms(2) leD [OF 3(1)] leD [of KERNBASE newsz] by auto
  qed (auto simp: allocuvm_def)
qed

theorem allocuvm_grows_or_restores_witness:
  "\<exists>t qs pte. allocuvm sample_dir 0 0x1000 sample_kmem = Ret 0x1000 t \<and> uvm_ok t sample_dir qs \<and>
    grown 0 0x1000 sample_dir sample_kmem t sample_free qs \<and> pt_lookup (mem t) sample_dir 0x123 = Some pte \<and> new_page (mem t) pte"
proof (rule sample_grow)
  have "\<not> KERNBASE \<le> (0x1000 :: u32)" "\<not> 0x1000 < (0 :: u32)"
    by simp_all
  then show "okr (allocuvm sample_dir 0 0x1000 sample_kmem) (\<lambda>r t. \<exists>qs. uvm_ok t sample_dir qs \<and>
      (r = 0x1000 \<and> grown 0 0x1000 sample_dir sample_kmem t sample_free qs \<or>
       r = 0 \<and> grown 0 0 sample_dir sample_kmem t sample_free qs \<and> length sample_free < 2))"
    using allocuvm_grows_or_restores [OF sample_uvm, of 0 "0x1000"] by (simp add: sample_round sample_kmem_pt)
qed

text \<open>
  C9: \<^verbatim>\<open>freevm\<close> returns an address space to the allocator: afterwards the free list consists of the pages
  that were free, the pages of the user, and the pages of the page table, each exactly once. No
  page is lost and none is freed twice, and no other memory is touched.
\<close>

theorem freevm_frees_all:
  assumes "uvm_ok s d ps"
  shows "okr (freevm d s) (\<lambda>_ t. \<exists>qs. kmem_inv t qs \<and> distinct qs \<and> set qs = set ps \<union> user_pages (mem s) d \<union> pt_pages (mem s) d \<and>
    only_mem s t \<and> same_outside (user_pages (mem s) d \<union> pt_pages (mem s) d) (mem s) (mem t))"
  using freevm_spec [OF assms] kmem_invD(2) by (fastforce elim!: okr_mono)

theorem freevm_frees_all_witness:
  "\<exists>t qs. freevm sample_dir sample_kmem = Ret () t \<and> kmem_inv t qs \<and> set qs = {sample_dir, 0x80400000, 0x80401000, 0x80402000}"
  using freevm_frees_all [OF sample_uvm] unfolding okr_iff sample_pages by (auto simp: insert_commute)

text \<open>
  \<^verbatim>\<open>copyout\<close> to a range of addresses that the user can access succeeds; afterwards the process finds
  the copied bytes there and the bytes it had before everywhere else. The translation and the
  invariant are kept.
\<close>

lemma copyout_writes:
  assumes "uvm_ok s d ps" "user_range (mem s) d (unat va) (unat len)"
  shows "okr (copyout d va p len s) (\<lambda>ok t. ok \<and> uvm_ok t d ps \<and> pt_lookup (mem t) d = pt_lookup (mem s) d \<and> t = s\<lparr>mem := mem t\<rparr> \<and>
    (\<forall>x<KERNBASE. user_ldb (mem t) d x =
       (if unat va \<le> unat x \<and> unat x < unat va + unat len then Some (p (unat x - unat va)) else user_ldb (mem s) d x)))"
  using copyout_loop_spec [OF assms, of p 0] unfolding copyout_def add_0_left .

lemma copyout_writes_witness:
  "\<exists>s t. allocuvm sample_dir 0 0x1000 sample_kmem = Ret 0x1000 s \<and> copyout sample_dir 0x100 (\<lambda>i. of_nat i + 65) 4 s = Ret True t \<and>
     user_ldb (mem t) sample_dir 0x102 = Some 67 \<and> user_ldb (mem t) sample_dir 0x104 = Some 0"
proof -
  obtain s qs pte where s: "allocuvm sample_dir 0 0x1000 sample_kmem = Ret 0x1000 s" "uvm_ok s sample_dir qs"
      "pt_lookup (mem s) sample_dir 0x123 = Some pte" "new_page (mem s) pte"
    by (rule sample_grown)
  have look: "pt_lookup (mem s) sample_dir x = Some pte" if "unat x < 4096" for x
    using s(3) pte_of_page [of x "0x123" "mem s" sample_dir] that by simp
  have zero: "user_ldb (mem s) sample_dir 0x104 = Some 0"
    using s(4) look [of "0x104"] by (simp add: user_ldb_def user_addr_def new_page_def unat_PTE_FLAGS)
  have "user_range (mem s) sample_dir (unat (0x100 :: u32)) (unat (4 :: u32))"
    using look new_page_user [OF s(4)] by (auto simp: user_range_def)
  from copyout_writes [OF s(2) this, of "\<lambda>i. of_nat i + 65"] obtain t where
      t: "copyout sample_dir 0x100 (\<lambda>i. of_nat i + 65) 4 s = Ret True t"
      "\<And>x. x < KERNBASE \<Longrightarrow> user_ldb (mem t) sample_dir x =
        (if unat (0x100 :: u32) \<le> unat x \<and> unat x < unat (0x100 :: u32) + unat (4 :: u32) then Some (of_nat (unat x - unat (0x100 :: u32)) + 65)
         else user_ldb (mem s) sample_dir x)"
    unfolding okr_iff by auto
  then have "user_ldb (mem t) sample_dir 0x102 = Some 67" "user_ldb (mem t) sample_dir 0x104 = Some 0"
    using t(2) [of "0x102"] t(2) [of "0x104"] zero by simp_all
  then show ?thesis
    using s(1) t(1) by blast
qed

text \<open>
  C7: \<^verbatim>\<open>copyuvm\<close>, the memory side of \<^verbatim>\<open>fork\<close>, never panics on an address space mapped up to its size. The
  parent keeps its translation and every byte it can read. If the result is a page directory, the child
  is a well-formed address space built only from pages that were free, so it shares no page with
  the parent; below the size it reads the same bytes with the same permissions, and above it nothing is
  mapped for it. If the result is 0, exactly the pages that were free before are free again, and there were
  at most 1026 and two per page to copy.
\<close>

theorem copyuvm_copies_or_restores:
  assumes "uvm_ok s pd ps" "kdata_ok (kdata s)" "sz \<le> KERNBASE" "\<forall>va. page_in 0 (unat sz) va \<longrightarrow> pt_lookup (mem s) pd va \<noteq> None"
  shows "okr (copyuvm pd sz s) (\<lambda>d t. pt_lookup (mem t) pd = pt_lookup (mem s) pd \<and>
    (\<forall>va<KERNBASE. user_ldb (mem t) pd va = user_ldb (mem s) pd va) \<and>
    (\<exists>qs. uvm_ok t pd qs \<and>
      (if d = 0 then set qs = set ps \<and> length ps \<le> 1026 + 2 * ((unat sz + 4095) div 4096)
       else uvm_ok t d qs \<and> set qs \<union> pt_pages (mem t) d \<union> user_pages (mem t) d = set ps \<and>
         (pt_pages (mem t) d \<union> user_pages (mem t) d) \<inter> (pt_pages (mem t) pd \<union> user_pages (mem t) pd) = {} \<and>
         memory_copied (unat sz) pd d (mem s) (mem t))))"
proof (rule okr_mono [OF copyuvm_spec [OF assms(1,2)]])
  show "unat sz \<le> 2147483648"
    using assms(3) by (simp add: word_le_nat_alt)
  show "page_in 0 (unat sz) va \<Longrightarrow> pt_lookup (mem s) pd va \<noteq> None" for va
    using assms(4) by blast
qed (rule fork_parent [OF assms(1)])

lemma big_kmem:
  obtains s :: kmem_state and ps where "kmem_inv s ps" "length ps = 5120" "kend s = 0x80200000" "kdata s = 0x80108000"
proof -
  let ?b = "\<lparr>mem = (\<lambda>_. 0), freelist = 0, use_lock = True, kend = 0x80200000, kdata = 0x80108000\<rparr> :: kmem_state"
  have "PGROUNDUP 0x80200000 = 0x80200000"
    by (simp add: PGROUNDUP_def)
  then obtain t :: kmem_state where "kmem_inv t (rev (page_seq 0x80200000 5120))" "kend t = 0x80200000" "kdata t = 0x80108000"
    using kinit1_free_list [of ?b "0x80200000" "0x81600000"] by (auto simp: okr_iff P2V_def)
  moreover have "length (page_seq p n) = n" for p n
    by (induction n arbitrary: p) simp_all
  ultimately show ?thesis
    using that [of t "rev (page_seq 0x80200000 5120)"] by simp
qed

lemma only_mem_kdata: "only_mem s t \<Longrightarrow> kdata t = kdata s"
  by (cases s; cases t) (simp add: only_mem_def)

text \<open>A process with one page, after booting with 5120 free pages.\<close>

lemma sample_parent:
  obtains s0 s1 s :: kmem_state and pd ps pte where "setupkvm s0 = Ret pd s1" "allocuvm pd 0 0x1000 s1 = Ret 0x1000 s" "uvm_ok s pd ps"
    "kdata s = 0x80108000" "2000 \<le> length ps" "\<forall>va. page_in 0 0x1000 va \<longrightarrow> pt_lookup (mem s) pd va = Some pte" "new_page (mem s) pte"
proof -
  obtain s0 :: kmem_state and ps0 where s0: "kmem_inv s0 ps0" "length ps0 = 5120" "kend s0 = 0x80200000" "kdata s0 = 0x80108000"
    by (rule big_kmem)
  have kd: "kdata_ok (kdata s0)"
    by (simp add: s0 kdata_ok_def P2V_def)
  have "KERNBASE < kend s0"
    by (simp add: s0)
  then obtain pd s1 where s1: "setupkvm s0 = Ret pd s1" "only_mem s0 s1" "same_outside (set ps0) (mem s0) (mem s1)"
      "if pd = 0 then (\<exists>qs. kmem_inv s1 qs \<and> set qs = set ps0) \<and> length ps0 \<le> 1025
       else \<exists>qs. uvm_ok s1 pd qs \<and> no_user (mem s1) pd \<and> set qs \<union> pt_pages (mem s1) pd = set ps0 \<and> pt_lookup (mem s1) pd = map_all (kmap (kdata s0)) (\<lambda>_. None)"
    using setupkvm_spec [OF s0(1) _ kd] unfolding okr_iff by blast
  then obtain qs where qs: "uvm_ok s1 pd qs" "no_user (mem s1) pd" "set qs \<union> pt_pages (mem s1) pd = set ps0"
    using s0(2) by (auto split: if_splits)
  have none: "pt_lookup (mem s1) pd va = None" if "va < KERNBASE" for va
    using qs(2) that by (auto simp: no_user_def user_map_def split: if_splits)
  have user: "va < KERNBASE" if "page_in 0 0x1000 va" for va
    by (rule page_in_user [OF that]) simp
  have "length ps0 \<le> length qs + 1025"
    using copiedD(5) [OF copied_start [OF s0(1) qs(1,2) s1(2,3) qs(3)]] by simp
  then obtain s ps where s: "allocuvm pd 0 0x1000 s1 = Ret 0x1000 s" "uvm_ok s pd ps" "grown 0 0x1000 pd s1 s qs ps"
    using allocuvm_spec [OF qs(1), of 0 "0x1000"] none user s0(2) unfolding okr_iff sample_round by auto
  obtain pte where pte: "pt_lookup (mem s) pd 0 = Some pte" "new_page (mem s) pte"
    using grownD(6) [OF s(3), of 0] by (auto simp: page_in_def)
  have all: "pt_lookup (mem s) pd va = Some pte" if "page_in 0 0x1000 va" for va
    using pte(1) pte_of_page [of va 0 "mem s" pd] that by (simp add: page_in_def)
  have "user_pages (mem s) pd \<subseteq> {page_of pte}"
  proof
    fix p
    assume "p \<in> user_pages (mem s) pd"
    then obtain va q where q: "user_map (mem s) pd va = Some q" "p = page_of q"
      by (auto simp: user_pages_def)
    then have "va < KERNBASE" "pt_lookup (mem s) pd va = Some q"
      by (auto simp: user_map_def split: if_splits)
    then show "p \<in> {page_of pte}"
      using all [of va] grownD(7) [OF s(3), of va] none [of va] q(2) by (cases "page_in 0 0x1000 va") auto
  qed
  then have "card (user_pages (mem s) pd) \<le> 1"
    using card_mono [of "{page_of pte}"] by fastforce
  then have "card (set ps \<union> pt_pages (mem s) pd \<union> user_pages (mem s) pd) \<le> length ps + 1026"
    using card_Un_le [of "set ps \<union> pt_pages (mem s) pd" "user_pages (mem s) pd"] card_Un_le [of "set ps" "pt_pages (mem s) pd"]
      card_length [of ps] pt_pages_card [of "mem s" pd] by linarith
  moreover have "set ps0 = set ps \<union> pt_pages (mem s) pd \<union> user_pages (mem s) pd"
    using grownD(3) [OF s(3)] qs(3) no_user_pages [OF qs(2)] by (auto simp: conserved_def)
  moreover have "card (set ps0) = 5120"
    using distinct_card [OF kmem_invD(2) [OF s0(1)]] s0(2) by simp
  ultimately have "2000 \<le> length ps"
    by simp
  moreover have "kdata s = 0x80108000"
    using only_mem_trans [OF s1(2) grownD(1) [OF s(3)]] s0(4) only_mem_kdata by metis
  ultimately show ?thesis
    using that s1(1) s(1,2) all pte(2) by blast
qed

theorem copyuvm_copies_or_restores_witness:
  "\<exists>(s0 :: kmem_state) pd s1 s d t. setupkvm s0 = Ret pd s1 \<and> allocuvm pd 0 0x1000 s1 = Ret 0x1000 s \<and> copyuvm pd 0x1000 s = Ret d t \<and>
     d \<noteq> 0 \<and> user_ldb (mem t) d 0x123 = Some 0 \<and> pt_lookup (mem t) d 0x1000 = None"
proof -
  obtain s0 s1 s :: kmem_state and pd ps pte where s: "setupkvm s0 = Ret pd s1" "allocuvm pd 0 0x1000 s1 = Ret 0x1000 s" "uvm_ok s pd ps"
      "kdata s = 0x80108000" "2000 \<le> length ps" "\<forall>va. page_in 0 0x1000 va \<longrightarrow> pt_lookup (mem s) pd va = Some pte" "new_page (mem s) pte"
    using sample_parent by metis
  have u: "unat (0x1000 :: u32) = 0x1000" and p: "page_in 0 0x1000 0x123" "\<not> page_in 0 0x1000 0x1000"
    by (simp_all add: page_in_def)
  have "kdata_ok (kdata s)"
    by (simp add: s kdata_ok_def P2V_def)
  then obtain d t where t: "copyuvm pd 0x1000 s = Ret d t" "d \<noteq> 0" "memory_copied 0x1000 pd d (mem s) (mem t)"
    using copyuvm_copies_or_restores [OF s(3), of "0x1000"] s(5,6) unfolding okr_iff u by (auto split: if_splits)
  have "user_ldb (mem s) pd 0x123 = Some 0"
    using s(6,7) p(1) by (simp add: user_ldb_def user_addr_def new_page_def unat_PTE_FLAGS)
  moreover have "0x123 < KERNBASE" "0x1000 < KERNBASE"
    by simp_all
  ultimately have "user_ldb (mem t) d 0x123 = Some 0" "pt_lookup (mem t) d 0x1000 = None"
    using t(3) p unfolding memory_copied_def by metis+
  then show ?thesis
    using s(1,2) t(1,2) by blast
qed

end
