(* ===== verification/Filedata.thy ===== *)
theory Filedata
  imports Fs
begin

text \<open>
  The contents of files, as \<^verbatim>\<open>bmap\<close>, \<^verbatim>\<open>readi\<close> and \<^verbatim>\<open>writei\<close> of \<^verbatim>\<open>fs.c\<close> see them inside a transaction. \<open>fblock s ip k\<close>
  is the disk block of the \<open>k\<close>-th block of a file, 0 when it has none; \<open>file_data\<close> is the abstraction
  of a file, the list of its bytes. \<open>file_inv\<close> says that a file's blocks are its own: allocated in the
  bitmap, different from each other, and neither bitmap blocks nor the block of its inode.
\<close>

section \<open>Steps that may change inodes\<close>

definition io_step :: "nat \<Rightarrow> 'a inode_state_scheme \<Rightarrow> 'a inode_state_scheme \<Rightarrow> bool" where
  "io_step k s t \<longleftrightarrow> tx_step {} k (ldisk t) (s\<lparr>inodes := inodes t\<rparr>) t"

lemma log_fr_inodes:
  fixes s t :: "'a inode_state_scheme"
  shows "log_fr s t \<Longrightarrow> log_fr (s\<lparr>inodes := x\<rparr>) (t\<lparr>inodes := x\<rparr>)"
  by (cases s; cases t) (simp add: log_fr_def bio_frame_def)

lemma held_none [simp]: "tx.held_same {} s t"
  by (simp add: tx.held_same_def)

lemma io_stepI:
  fixes s t :: "'a inode_state_scheme"
  assumes "tx_step {} k D s t"
  shows "io_step k s t"
proof -
  have "s\<lparr>inodes := inodes s\<rparr> = s"
    by simp
  then show ?thesis
    using assms tx_stepD(3,5) [OF assms] by (simp add: io_step_def)
qed

lemma io_step_upd: "io_step k s t \<Longrightarrow> io_step k s (t\<lparr>inodes := x\<rparr>)"
  using log_fr_inodes [of "s\<lparr>inodes := inodes t\<rparr>" t x] by (simp add: io_step_def tx_step_def)

lemma io_step_trans: "io_step j s t \<Longrightarrow> io_step k t u \<Longrightarrow> io_step (j + k) s u"
  using log_fr_inodes [of "s\<lparr>inodes := inodes t\<rparr>" t "inodes u"] log_fr_trans [of "s\<lparr>inodes := inodes u\<rparr>" "t\<lparr>inodes := inodes u\<rparr>" u]
  by (simp add: io_step_def tx_step_def)

lemma io_step_mono: "io_step j s t \<Longrightarrow> j \<le> k \<Longrightarrow> io_step k s t"
  by (auto simp: io_step_def intro: tx_step_mono)

lemma io_stepD:
  assumes "io_step k s t"
  shows "tx_inv {} t" "sb t = sb s" "home_block t = home_block s" "inode_state.more t = inode_state.more s" "log_size t = log_size s"
  using tx_stepD [OF assms [unfolded io_step_def]] by simp_all

lemma io_step_room: "io_step j s t \<Longrightarrow> tx_room {} (j + k) s \<Longrightarrow> tx_room {} k t"
  using tx_step_room [of "{}" j "ldisk t" "s\<lparr>inodes := inodes t\<rparr>" t k] by (simp add: io_step_def)

section \<open>The blocks of a file\<close>

abbreviation (input) indirect :: "'a inode_state_scheme \<Rightarrow> nat \<Rightarrow> u32" where
  "indirect s ip \<equiv> i_addrs (inodes s ! ip) ! 12"

definition fblock :: "'a inode_state_scheme \<Rightarrow> nat \<Rightarrow> nat \<Rightarrow> u32" where
  "fblock s ip k =
     (if k < 12 then i_addrs (inodes s ! ip) ! k
      else if indirect s ip = 0 then 0 else rd32 (ldisk s (indirect s ip)) (4 * (k - 12)))"

text \<open>The blocks a file may use.\<close>

definition data_block :: "'a inode_state_scheme \<Rightarrow> nat \<Rightarrow> u32 \<Rightarrow> bool" where
  "data_block s ip b \<longleftrightarrow> b < sb_size (sb s) \<and> home_block s b \<and> block_used s b \<and> (\<forall>c. c < sb_size (sb s) \<longrightarrow> BBLOCK c (sb s) \<noteq> b) \<and>
     b \<noteq> inode_block s ip"

definition blocks_ok :: "(nat \<Rightarrow> u32) \<Rightarrow> u32 \<Rightarrow> (u32 \<Rightarrow> bool) \<Rightarrow> bool" where
  "blocks_ok f ind U \<longleftrightarrow> (\<forall>k<MAXFILE. f k \<noteq> 0 \<longrightarrow> U (f k) \<and> f k \<noteq> ind) \<and> (ind \<noteq> 0 \<longrightarrow> U ind) \<and>
     (\<forall>j<MAXFILE. \<forall>k<MAXFILE. f j \<noteq> 0 \<longrightarrow> f j = f k \<longrightarrow> j = k)"

text \<open>The file system part of the invariant, and the inode.\<close>

definition fs_inv :: "'a inode_state_scheme \<Rightarrow> nat \<Rightarrow> bool" where
  "fs_inv s ip \<longleftrightarrow> alloc_pre {} s \<and> ip < length (inodes s) \<and> i_dev (inodes s ! ip) = 1 \<and> length (i_addrs (inodes s ! ip)) = 13 \<and>
     0 < sb_size (sb s) \<and> block_used s 0 \<and>
     inode_block s ip < sb_size (sb s) \<and> home_block s (inode_block s ip) \<and> block_used s (inode_block s ip) \<and>
     (\<forall>c. c < sb_size (sb s) \<longrightarrow> BBLOCK c (sb s) \<noteq> inode_block s ip)"

definition file_inv :: "'a inode_state_scheme \<Rightarrow> nat \<Rightarrow> bool" where
  "file_inv s ip \<longleftrightarrow> fs_inv s ip \<and> blocks_ok (fblock s ip) (indirect s ip) (data_block s ip)"

definition filled :: "'a inode_state_scheme \<Rightarrow> nat \<Rightarrow> nat \<Rightarrow> bool" where
  "filled s ip n \<longleftrightarrow> n \<le> MAXFILE * BSIZE \<and> (\<forall>k. k * BSIZE < n \<longrightarrow> fblock s ip k \<noteq> 0)"

definition file_byte :: "'a inode_state_scheme \<Rightarrow> nat \<Rightarrow> nat \<Rightarrow> u8" where
  "file_byte s ip j = ldisk s (fblock s ip (j div BSIZE)) (j mod BSIZE)"

definition file_data :: "'a inode_state_scheme \<Rightarrow> nat \<Rightarrow> u8 list" where
  "file_data s ip = map (file_byte s ip) [0..<unat (i_size (inodes s ! ip))]"

definition free_blocks :: "'a inode_state_scheme \<Rightarrow> nat" where
  "free_blocks s = card {b. b < sb_size (sb s) \<and> \<not> block_used s b}"

lemma fs_invD:
  assumes "fs_inv s ip"
  shows "alloc_pre {} s" "ip < length (inodes s)" "i_dev (inodes s ! ip) = 1" "length (i_addrs (inodes s ! ip)) = 13"
    "0 < sb_size (sb s)" "block_used s 0" "inode_block s ip < sb_size (sb s)" "home_block s (inode_block s ip)" "block_used s (inode_block s ip)"
    "\<And>c. c < sb_size (sb s) \<Longrightarrow> BBLOCK c (sb s) \<noteq> inode_block s ip" "tx_inv {} s"
  using assms by (simp_all add: fs_inv_def alloc_pre_def)

lemma file_invD:
  assumes "file_inv s ip" "k < MAXFILE" "fblock s ip k \<noteq> 0"
  shows "data_block s ip (fblock s ip k)" "fblock s ip k \<noteq> indirect s ip"
  using assms by (auto simp: file_inv_def blocks_ok_def)

lemma file_inv_indirect: "file_inv s ip \<Longrightarrow> indirect s ip \<noteq> 0 \<Longrightarrow> data_block s ip (indirect s ip)"
  by (simp add: file_inv_def blocks_ok_def)

lemma file_inv_inj: "file_inv s ip \<Longrightarrow> j < MAXFILE \<Longrightarrow> k < MAXFILE \<Longrightarrow> fblock s ip j \<noteq> 0 \<Longrightarrow> fblock s ip j = fblock s ip k \<Longrightarrow> j = k"
  by (auto simp: file_inv_def blocks_ok_def)

lemma blocks_ok_fresh:
  assumes "blocks_ok f ind U" "\<not> U b" "b \<noteq> 0" "\<And>c. V c \<longleftrightarrow> c = b \<or> U c"
  shows "blocks_ok f ind V" "blocks_ok (f(k := b)) ind V" "ind = 0 \<Longrightarrow> blocks_ok f b V"
proof -
  have ne: "f j \<noteq> b" "ind \<noteq> b" if "j < MAXFILE" for j
    using assms(1-3) that unfolding blocks_ok_def by metis+
  then have ind: "ind \<noteq> b"
    using ne(2) [of 0] by simp
  show "blocks_ok f ind V" "ind = 0 \<Longrightarrow> blocks_ok f b V"
    using assms(1,4) ne unfolding blocks_ok_def by auto
  show "blocks_ok (f(k := b)) ind V"
    using assms(1,3,4) ne ind unfolding blocks_ok_def by (simp add: all_conj_distrib) (metis (no_types))
qed

section \<open>Allocating a block for a file\<close>

lemma balloc_okr:
  assumes "alloc_pre H s" "tx_room H 2 s" "0 < free_blocks s"
  shows "okr (balloc 1 s) (balloc_post H s)"
proof -
  have "\<not> (\<forall>b. b < sb_size (sb s) \<longrightarrow> block_used s b)"
    using assms(3) by (auto simp: free_blocks_def card_gt_0_iff)
  then show ?thesis
    using balloc_spec [OF assms(1,2)] by (auto simp: okr_iff split: kres.splits)
qed

lemma fs_inv_step:
  assumes "fs_inv s ip" "tx_inv {} t" "sb t = sb s" "home_block t = home_block s" "length (inodes t) = length (inodes s)"
    and "i_dev (inodes t ! ip) = i_dev (inodes s ! ip)" "i_inum (inodes t ! ip) = i_inum (inodes s ! ip)" "length (i_addrs (inodes t ! ip)) = 13"
    and "\<And>c. c < sb_size (sb s) \<Longrightarrow> block_used s c \<Longrightarrow> block_used t c"
  shows "fs_inv t ip"
  using assms unfolding fs_inv_def alloc_pre_def bitmap_ok_def not_held_def by auto

lemma fs_inv_data_block:
  assumes "sb t = sb s" "home_block t = home_block s" "i_inum (inodes t ! ip) = i_inum (inodes s ! ip)"
  shows "data_block t ip c \<longleftrightarrow> block_used t c \<and> c < sb_size (sb s) \<and> home_block s c \<and> (\<forall>d. d < sb_size (sb s) \<longrightarrow> BBLOCK d (sb s) \<noteq> c) \<and> c \<noteq> inode_block s ip"
  unfolding data_block_def assms by auto

lemma balloc_file:
  assumes "block_used s 0" "block_used s (inode_block s ip)" "alloc_pre H s" "balloc_post H s b t"
  shows "tx_step H 2 (ldisk t) s t" "b \<noteq> 0" "\<not> data_block s ip b" "ldisk t b = (\<lambda>_. 0)" "\<And>c. data_block t ip c \<longleftrightarrow> c = b \<or> data_block s ip c"
    "\<And>c. data_block s ip c \<Longrightarrow> ldisk t c = ldisk s c" "\<And>c. c < sb_size (sb s) \<Longrightarrow> block_used t c \<longleftrightarrow> c = b \<or> block_used s c"
    "free_blocks s = Suc (free_blocks t)" "alloc_pre H t"
proof -
  note p = balloc_post_bitmap [OF assms(3,4)]
  have b: "b < sb_size (sb s)" "\<not> block_used s b"
    and t: "tx_step H 2 ((ldisk s)(BBLOCK b (sb s) := marked b (ldisk s (BBLOCK b (sb s))), b := (\<lambda>_. 0))) s t"
    using assms(4) by (simp_all add: balloc_post_def)
  note f = tx_stepD [OF t]
  show "tx_step H 2 (ldisk t) s t"
    using t f(3) by simp
  show "b \<noteq> 0" "\<not> data_block s ip b"
    using b assms(1) by (auto simp: data_block_def)
  show "ldisk t b = (\<lambda>_. 0)" "alloc_pre H t"
    by (rule p)+
  show u: "block_used t c \<longleftrightarrow> c = b \<or> block_used s c" if "c < sb_size (sb s)" for c
    by (rule p(2) [OF that])
  show "ldisk t c = ldisk s c" if "data_block s ip c" for c
    using that b by (intro p(3)) (auto simp: data_block_def)
  have "home_block s b" "\<And>c. c < sb_size (sb s) \<Longrightarrow> BBLOCK c (sb s) \<noteq> b"
    using assms(3) b by (simp_all add: alloc_pre_def bitmap_ok_def)
  moreover have "b \<noteq> inode_block s ip"
    using b assms(2) by auto
  ultimately show "data_block t ip c \<longleftrightarrow> c = b \<or> data_block s ip c" for c
    using u [of c] b(1) by (auto simp: data_block_def f(4-6))
  have "{c. c < sb_size (sb s) \<and> \<not> block_used s c} = insert b {c. c < sb_size (sb t) \<and> \<not> block_used t c}"
    using u b by (auto simp: f(4))
  moreover have "b \<notin> {c. c < sb_size (sb t) \<and> \<not> block_used t c}"
    using u b(1) by auto
  ultimately show "free_blocks s = Suc (free_blocks t)"
    by (simp add: free_blocks_def)
qed

definition file_blocks :: "'a inode_state_scheme \<Rightarrow> nat \<Rightarrow> u32 set" where
  "file_blocks s ip = insert (indirect s ip) (fblock s ip ` {..<MAXFILE}) - {0}"

text \<open>What \<^verbatim>\<open>bmap\<close> does: it gives the file a \<open>k\<close>-th block if it has none and leaves its other blocks alone.\<close>

definition same_files :: "nat \<Rightarrow> 'a inode_state_scheme \<Rightarrow> 'a inode_state_scheme \<Rightarrow> bool" where
  "same_files ip s t \<longleftrightarrow> (\<forall>c. data_block s ip c \<longrightarrow> data_block t ip c \<and> (c \<noteq> indirect s ip \<or> c = 0 \<longrightarrow> ldisk t c = ldisk s c) \<and>
       (c \<in> file_blocks t ip \<longrightarrow> c \<in> file_blocks s ip)) \<and>
     (\<exists>A. length A = 13 \<and> inodes t = (inodes s)[ip := (inodes s ! ip)\<lparr>i_addrs := A\<rparr>])"

definition bmap_post :: "nat \<Rightarrow> nat \<Rightarrow> nat \<Rightarrow> nat \<Rightarrow> 'a inode_state_scheme \<Rightarrow> u32 \<Rightarrow> 'a inode_state_scheme \<Rightarrow> bool" where
  "bmap_post n m ip k s addr t \<longleftrightarrow> io_step n s t \<and> file_inv t ip \<and> addr = fblock t ip k \<and> addr \<noteq> 0 \<and> same_files ip s t \<and>
     (\<forall>j<MAXFILE. j \<noteq> k \<or> fblock s ip k \<noteq> 0 \<longrightarrow> fblock t ip j = fblock s ip j) \<and> free_blocks s \<le> free_blocks t + m"

lemma index_word: "k < MAXFILE \<Longrightarrow> unat (of_nat k :: u32) = k" "k < MAXFILE \<Longrightarrow> (of_nat k :: u32) < 12 \<longleftrightarrow> k < 12"
    "k < MAXFILE \<Longrightarrow> 12 \<le> k \<Longrightarrow> unat ((of_nat k :: u32) - 12) = k - 12" "k < MAXFILE \<Longrightarrow> 12 \<le> k \<Longrightarrow> (of_nat k :: u32) - 12 < 128"
  by (simp_all add: unat_of_nat word_less_nat_alt unat_diff_u32 word_le_nat_alt)

lemma same_files_refl: "ip < length (inodes s) \<Longrightarrow> length (i_addrs (inodes s ! ip)) = 13 \<Longrightarrow> same_files ip s s"
  by (simp add: same_files_def exI [of _ "i_addrs (inodes s ! ip)"])

lemma bmap_post_refl:
  assumes "file_inv s ip" "fblock s ip k \<noteq> 0" "tx_step {} 0 (ldisk s) s t"
  shows "bmap_post n m ip k s (fblock s ip k) t"
proof -
  note f = tx_stepD [OF assms(3)] and i = fs_invD [of s ip]
  have fi: "fs_inv s ip"
    using assms(1) by (simp add: file_inv_def)
  have u: "block_used t = block_used s"
    by (simp add: fun_eq_iff block_used_def f(3,4))
  have d: "data_block t ip = data_block s ip" "fblock t ip = fblock s ip"
    by (simp_all add: fun_eq_iff data_block_def fblock_def f u)
  have "fs_inv t ip"
    using i(4) [OF fi] by (intro fs_inv_step [OF fi f(1,4,6)]) (simp_all add: f u)
  then have "file_inv t ip"
    using assms(1) by (simp add: file_inv_def d f)
  moreover have "same_files ip s t"
    using same_files_refl [OF i(2) [OF fi] i(4) [OF fi]] by (simp add: same_files_def file_blocks_def d f)
  ultimately show ?thesis
    using assms(2) io_step_mono [OF io_stepI [OF assms(3)], of n] by (simp add: bmap_post_def d free_blocks_def u f)
qed

lemma file_inv_set_direct:
  assumes "file_inv s ip" "balloc_post {} s b t" "k < 12" "fblock s ip k = 0"
  shows "bmap_post 2 1 ip k s b (upd_inode ip (\<lambda>i. i\<lparr>i_addrs := (i_addrs i)[k := b]\<rparr>) t)" (is "bmap_post _ _ _ _ _ _ ?u")
proof -
  have fi: "fs_inv s ip" and ok: "blocks_ok (fblock s ip) (indirect s ip) (data_block s ip)"
    using assms(1) by (simp_all add: file_inv_def)
  note i = fs_invD [OF fi] and a = balloc_file [OF fs_invD(6) [OF fi] fs_invD(9) [OF fi] fs_invD(1) [OF fi] assms(2)] and f = tx_stepD [OF balloc_file(1) [OF fs_invD(6) [OF fi] fs_invD(9) [OF fi] fs_invD(1) [OF fi] assms(2)]]
  have inode: "inodes ?u = (inodes s)[ip := (inodes s ! ip)\<lparr>i_addrs := (i_addrs (inodes s ! ip))[k := b]\<rparr>]"
    by (simp add: upd_inode_def f(5))
  have ld: "ldisk ?u = ldisk t" "sb ?u = sb s" "home_block ?u = home_block s" "tx_inv {} ?u" "block_used ?u = block_used t"
    using f by (simp_all add: upd_inode_def fun_eq_iff block_used_def)
  have ind: "indirect ?u ip = indirect s ip"
    using i(2) assms(3) by (simp add: inode)
  have "ldisk t (indirect s ip) = ldisk s (indirect s ip)" if "indirect s ip \<noteq> 0"
    using a(6) file_inv_indirect [OF assms(1) that] .
  then have fb: "fblock ?u ip = (fblock s ip)(k := b)"
    using i(2,4) assms(3) ind by (intro ext) (auto simp: fblock_def inode ld)
  have db: "data_block ?u ip c \<longleftrightarrow> c = b \<or> data_block s ip c" for c
    using a(5) [of c] i(2) by (simp add: data_block_def inode ld f)
  have "fs_inv ?u ip"
    using i a(7) by (intro fs_inv_step [OF fi]) (auto simp: inode ld)
  moreover have "blocks_ok (fblock ?u ip) (indirect ?u ip) (data_block ?u ip)"
    unfolding fb ind by (rule blocks_ok_fresh(2) [OF ok a(3,2) db])
  moreover have "io_step 2 s ?u"
    unfolding upd_inode_def by (rule io_step_upd [OF io_stepI [OF a(1)]])
  moreover have "same_files ip s ?u"
    unfolding same_files_def file_blocks_def ind fb unfolding inode using db a(3,6) i(4)
    by (auto simp: ld intro!: exI [of _ "(i_addrs (inodes s ! ip))[k := b]"])
  ultimately show ?thesis
    using a(2,8) assms(3,4) by (simp add: bmap_post_def file_inv_def fb free_blocks_def ld f)
qed

text \<open>A new indirect block is empty.\<close>

lemma file_inv_set_indirect:
  assumes "file_inv s ip" "balloc_post {} s b t" "indirect s ip = 0"
  defines "u \<equiv> upd_inode ip (\<lambda>i. i\<lparr>i_addrs := (i_addrs i)[12 := b]\<rparr>) t"
  shows "io_step 2 s u" "file_inv u ip" "indirect u ip = b" "b \<noteq> 0" "same_files ip s u" "fblock u ip = fblock s ip"
    "free_blocks s = Suc (free_blocks u)"
proof -
  have fi: "fs_inv s ip" and ok: "blocks_ok (fblock s ip) (indirect s ip) (data_block s ip)"
    using assms(1) by (simp_all add: file_inv_def)
  note i = fs_invD [OF fi] and a = balloc_file [OF fs_invD(6) [OF fi] fs_invD(9) [OF fi] fs_invD(1) [OF fi] assms(2)] and f = tx_stepD [OF balloc_file(1) [OF fs_invD(6) [OF fi] fs_invD(9) [OF fi] fs_invD(1) [OF fi] assms(2)]]
  have inode: "inodes u = (inodes s)[ip := (inodes s ! ip)\<lparr>i_addrs := (i_addrs (inodes s ! ip))[12 := b]\<rparr>]"
    by (simp add: u_def upd_inode_def f(5))
  have ld: "ldisk u = ldisk t" "sb u = sb s" "home_block u = home_block s" "tx_inv {} u" "block_used u = block_used t"
    using f by (simp_all add: u_def upd_inode_def fun_eq_iff block_used_def)
  show ind: "indirect u ip = b" and "b \<noteq> 0"
    using i(2,4) a(2) by (simp_all add: inode)
  show fb: "fblock u ip = fblock s ip"
    using i(2,4) assms(3) a(4) ind by (intro ext) (auto simp: fblock_def inode ld rd32_def)
  have db: "data_block u ip c \<longleftrightarrow> c = b \<or> data_block s ip c" for c
    using a(5) [of c] i(2) by (simp add: data_block_def inode ld f)
  have "fs_inv u ip"
    using i a(7) by (intro fs_inv_step [OF fi]) (auto simp: inode ld)
  moreover have "blocks_ok (fblock u ip) (indirect u ip) (data_block u ip)"
    unfolding fb ind by (rule blocks_ok_fresh(3) [OF ok a(3,2) db assms(3)])
  ultimately show "file_inv u ip"
    by (simp add: file_inv_def)
  show "io_step 2 s u"
    unfolding u_def upd_inode_def by (rule io_step_upd [OF io_stepI [OF a(1)]])
  show "same_files ip s u"
    unfolding same_files_def file_blocks_def ind fb unfolding inode using db a(3,6) i(4)
    by (auto simp: ld intro!: exI [of _ "(i_addrs (inodes s ! ip))[12 := b]"])
  show "free_blocks s = Suc (free_blocks u)"
    using a(8) by (simp add: free_blocks_def ld f)
qed

text \<open>An entry of the indirect block is set.\<close>

lemma file_inv_set_entry:
  assumes "file_inv s ip" "indirect s ip \<noteq> 0" "12 \<le> k" "k < MAXFILE" "fblock s ip k = 0" "tx_step {} 3 (ldisk u) s u"
    and b: "b \<noteq> 0" "\<not> data_block s ip b" "\<And>c. c < sb_size (sb s) \<Longrightarrow> block_used s c \<Longrightarrow> block_used u c"
      "\<And>c. data_block u ip c \<longleftrightarrow> c = b \<or> data_block s ip c" "free_blocks s = Suc (free_blocks u)"
    and ld: "\<And>c. data_block s ip c \<Longrightarrow> c \<noteq> indirect s ip \<Longrightarrow> ldisk u c = ldisk s c"
      "ldisk u (indirect s ip) = wr32 (ldisk s (indirect s ip)) (4 * (k - 12)) b"
  shows "bmap_post 3 1 ip k s b u"
proof -
  have fi: "fs_inv s ip" and ok: "blocks_ok (fblock s ip) (indirect s ip) (data_block s ip)"
    using assms(1) by (simp_all add: file_inv_def)
  note i = fs_invD [OF fi] and f = tx_stepD [OF assms(6)]
  have rd: "rd32 (wr32 d (4 * (k - 12)) b) (4 * (j - 12)) = (if j = k then b else rd32 d (4 * (j - 12)))" if "12 \<le> j" for d j
    using that assms(3) by (cases "j = k") (simp, subst rd32_wr32_disjoint, auto)
  have fb: "fblock u ip = (fblock s ip)(k := b)"
    using assms(2,3) by (intro ext) (auto simp: fblock_def f(5) ld(2) rd)
  have "fs_inv u ip"
    using i b(3) by (intro fs_inv_step [OF fi]) (auto simp: f)
  moreover have "blocks_ok (fblock u ip) (indirect u ip) (data_block u ip)"
    unfolding fb f(5) by (rule blocks_ok_fresh(2) [OF ok b(2,1,4)])
  moreover have "same_files ip s u"
    unfolding same_files_def file_blocks_def fb f(5) using b(2,4) ld(1) i(4) assms(2) by (auto intro!: exI [of _ "i_addrs (inodes s ! ip)"])
  moreover have "io_step 3 s u"
    by (rule io_stepI [OF assms(6)])
  ultimately show ?thesis
    using assms(5) b(1,5) by (simp add: bmap_post_def file_inv_def fb)
qed

lemma held_indirect:
  assumes "file_inv s ip" "indirect s ip \<noteq> 0" "tx_inv {i} t" "log_fr s t" "ldisk t = ldisk s" "b_blockno (bufs t ! i) = indirect s ip"
  shows "alloc_pre {i} t" "sb t = sb s" "inodes t = inodes s" "block_used t = block_used s" "home_block t = home_block s"
    "data_block t ip = data_block s ip" "free_blocks t = free_blocks s"
proof -
  have "log_state.more t = log_state.more s"
    using log_fr_fields(5) [OF assms(4)] .
  then show f: "sb t = sb s" "inodes t = inodes s"
    by (cases s, cases t, simp)+
  show h: "home_block t = home_block s"
    using log_fr_fields(3) [OF assms(4)] .
  show u: "block_used t = block_used s"
    by (simp add: fun_eq_iff block_used_def f assms(5))
  show "data_block t ip = data_block s ip" "free_blocks t = free_blocks s"
    by (simp_all add: fun_eq_iff data_block_def free_blocks_def f u h)
  have "alloc_pre {} s" "data_block s ip (indirect s ip)"
    using assms(1) file_inv_indirect [OF assms(1,2)] fs_invD(1) by (auto simp: file_inv_def)
  then show "alloc_pre {i} t"
    using assms(3,6) by (auto simp: alloc_pre_def bitmap_ok_def not_held_def data_block_def f u h)
qed

lemma bmap_entry:
  assumes s: "file_inv s ip" "indirect s ip \<noteq> 0" "12 \<le> k" "k < MAXFILE" "tx_room {} 4 s" "0 < free_blocks s"
  shows "okr (bindr (bread 1 (indirect s ip) s) (\<lambda>bp s.
      if rd32 (buf_data s bp) (4 * (k - 12)) = 0
      then bindr (balloc (i_dev (inodes s ! ip)) s) (\<lambda>addr s.
           bindr (log_write bp (set_data bp (wr32 (buf_data s bp) (4 * (k - 12)) addr) s)) (\<lambda>_ s.
           bindr (brelse bp s) (\<lambda>_ s. Ret addr s)))
      else bindr (brelse bp s) (\<lambda>_ t. Ret (rd32 (buf_data s bp) (4 * (k - 12))) t))) (bmap_post 3 1 ip k s)"
proof -
  have fi: "fs_inv s ip"
    using s(1) by (simp add: file_inv_def)
  note i = fs_invD [OF fi] and db = file_inv_indirect [OF s(1,2)]
  have fb: "fblock s ip k = rd32 (ldisk s (indirect s ip)) (4 * (k - 12))"
    using s(2,3) by (simp add: fblock_def)
  have pre: "tx_inv {} s" "home_block s (indirect s ip)" "not_held {} (indirect s ip) s" "tx_room {} 1 s"
    using i(11) db s(5) by (auto simp: data_block_def not_held_def tx_room_def)
  show ?thesis
  proof (rule tx_read [OF pre], goal_cases)
    case (1 bp t)
    note h = held_indirect [OF s(1,2) 1(2-4,6)]
    show ?case
    proof (cases "fblock s ip k = 0")
      case False
      have "okr (bindr (brelse bp t) (\<lambda>_ t'. Ret (rd32 (buf_data t bp) (4 * (k - 12))) t')) (bmap_post 3 1 ip k s)"
      proof (rule tx_release [OF 1(2,1,8,3-5,9)])
        fix u
        assume "tx_step {} 0 (ldisk s) s u"
        from bmap_post_refl [OF s(1) False this] show "okr (Ret (rd32 (buf_data t bp) (4 * (k - 12))) u) (bmap_post 3 1 ip k s)"
          by (simp add: 1(7) fb)
      qed
      then show ?thesis
        using False by (simp add: 1(7) fb del: okr_bindr)
    next
      case True
      have room: "tx_room {bp} 2 t"
        using s(5) 1(5) log_fr_fields(1) [OF 1(3)] by (simp add: tx_room_def)
      have "okr (balloc 1 t) (balloc_post {bp} t)"
        using s(6) h(7) by (intro balloc_okr [OF h(1) room]) simp
      then obtain b v where v: "balloc 1 t = Ret b v" "balloc_post {bp} t b v"
        by (rule okrE)
      have "block_used t 0" "block_used t (inode_block t ip)"
        using i(6,9) by (simp_all add: h)
      note a = balloc_file [OF this h(1) v(2)]
      have hv: "tx_inv {bp} v" "log_fr t v" "b_blockno (bufs v ! bp) = indirect s ip" "buf_data v bp = ldisk s (indirect s ip)"
        using a(1) 1(6,7) by (simp_all add: tx_step_def tx.held_same_def)
      have rv: "tx_room {} 1 v"
        using a(1) s(5) 1(5) log_fr_fields(1) [OF 1(3)] log_fr_fields(1) [OF hv(2)] by (auto simp: tx_room_def tx_step_def)
      have "okr (bindr (log_write bp (set_data bp (wr32 (buf_data v bp) (4 * (k - 12)) b) v)) (\<lambda>_ s.
           bindr (brelse bp s) (\<lambda>_ s. Ret b s))) (bmap_post 3 1 ip k s)"
      proof (rule tx_modify [OF hv(1) _ rv tx.frame_refl refl refl held_none hv(3)])
        fix u
        assume u: "tx_step {} 1 ((ldisk v)(indirect s ip := wr32 (buf_data v bp) (4 * (k - 12)) b)) v u"
        have st: "tx_step {} 3 (ldisk u) s u"
          using u a(1) 1(5) log_fr_trans [OF log_fr_trans [OF 1(3) hv(2)], of u] by (auto simp: tx_step_def)
        note f = tx_stepD [OF u]
        have used: "block_used u c \<longleftrightarrow> c = b \<or> block_used s c" if "c < sb_size (sb s)" for c
          using a(7) [of c] that db tx_stepD(4) [OF st] by (auto simp: h block_used_def f data_block_def)
        have uv: "block_used u c \<longleftrightarrow> block_used v c" if "c < sb_size (sb s)" for c
          using used a(7) that by (simp add: h)
        note sf = tx_stepD [OF st] and vf = tx_stepD [OF a(1)]
        have dbu: "data_block u ip c \<longleftrightarrow> c = b \<or> data_block s ip c" for c
          using a(5) [of c] uv [of c] by (auto simp: data_block_def sf vf h)
        have "free_blocks u = free_blocks v"
          using uv by (auto simp: free_blocks_def sf vf h intro!: arg_cong [where f = card])
        then have fr: "free_blocks s = Suc (free_blocks u)"
          using a(8) h(7) by simp
        have "bmap_post 3 1 ip k s b u"
        proof (rule file_inv_set_entry [OF s(1-4) True st a(2) _ _ dbu fr])
          show "\<not> data_block s ip b"
            using a(3) h(6) by simp
          show "block_used u c" if "c < sb_size (sb s)" "block_used s c" for c
            using used that by simp
          show "ldisk u c = ldisk s c" if "data_block s ip c" "c \<noteq> indirect s ip" for c
            using a(6) [of c] that 1(4) by (simp add: f h)
          show "ldisk u (indirect s ip) = wr32 (ldisk s (indirect s ip)) (4 * (k - 12)) b"
            by (simp add: f hv)
        qed
        then show "okr (Ret b u) (bmap_post 3 1 ip k s)"
          by simp
      qed simp
      then show ?thesis
        using True v(1) i(3) by (simp add: 1(7) fb h(3) del: okr_bindr)
    qed
  qed
qed

lemma upd_addrs_trans:
  assumes "\<exists>A. length A = 13 \<and> xs = ys[ip := (ys ! ip)\<lparr>i_addrs := A\<rparr>]" "\<exists>A. length A = 13 \<and> zs = xs[ip := (xs ! ip)\<lparr>i_addrs := A\<rparr>]"
  shows "\<exists>A. length A = 13 \<and> zs = ys[ip := (ys ! ip)\<lparr>i_addrs := A\<rparr>]"
proof -
  obtain A B where "length B = 13" "xs = ys[ip := (ys ! ip)\<lparr>i_addrs := A\<rparr>]" "zs = xs[ip := (xs ! ip)\<lparr>i_addrs := B\<rparr>]"
    using assms by blast
  then have "length B = 13 \<and> zs = ys[ip := (ys ! ip)\<lparr>i_addrs := B\<rparr>]"
    by (cases "ip < length ys") (simp_all add: list_update_beyond)
  then show ?thesis ..
qed

lemma same_files_trans:
  assumes "same_files ip s t" "same_files ip t u" "\<And>c. data_block s ip c \<Longrightarrow> c \<noteq> indirect s ip \<or> c = 0 \<Longrightarrow> c \<noteq> indirect t ip \<or> c = 0"
  shows "same_files ip s u"
proof -
  have "\<exists>A. length A = 13 \<and> inodes u = (inodes s)[ip := (inodes s ! ip)\<lparr>i_addrs := A\<rparr>]"
    by (rule upd_addrs_trans [OF conjunct2 [OF assms(1) [unfolded same_files_def]] conjunct2 [OF assms(2) [unfolded same_files_def]]])
  moreover have "data_block u ip c" "c \<noteq> indirect s ip \<or> c = 0 \<longrightarrow> ldisk u c = ldisk s c" "c \<in> file_blocks u ip \<longrightarrow> c \<in> file_blocks s ip" if "data_block s ip c" for c
    using that assms(1,2) assms(3) [OF that] unfolding same_files_def by simp_all
  ultimately show ?thesis
    unfolding same_files_def by blast
qed

lemma bmap_spec:
  assumes s: "file_inv s ip" "k < MAXFILE" "tx_room {} 6 s" "2 \<le> free_blocks s"
  shows "okr (bmap ip (of_nat k) s) (bmap_post 5 2 ip k s)"
proof -
  have fi: "fs_inv s ip"
    using s(1) by (simp add: file_inv_def)
  note i = fs_invD [OF fi] and w = index_word [OF s(2)]
  have weak: "bmap_post 5 2 ip k s a t" if "bmap_post n m ip k s a t" "n \<le> 5" "m \<le> 2" for n m a t
    using that io_step_mono [of n s t 5] unfolding bmap_post_def by auto
  have room: "tx_room {} 2 s" "tx_room {} 4 s"
    using s(3) by (simp_all add: tx_room_def)
  have bal: "okr (balloc 1 s) (balloc_post {} s)"
    using s(4) by (intro balloc_okr [OF i(1) room(1)]) simp
  consider "k < 12" "fblock s ip k \<noteq> 0" | "k < 12" "fblock s ip k = 0" | "12 \<le> k" "indirect s ip \<noteq> 0" | "12 \<le> k" "indirect s ip = 0"
    by linarith
  then show ?thesis
  proof cases
    case 1
    then show ?thesis
      using bmap_post_refl [OF s(1) 1(2) tx_step_refl [OF i(11)]] w by (simp add: bmap_def fblock_def)
  next
    case 2
    from bal obtain b t where t: "balloc 1 s = Ret b t" "balloc_post {} s b t"
      by (rule okrE)
    show ?thesis
      using weak [OF file_inv_set_direct [OF s(1) t(2) 2]] w(1,2) 2 t(1) i(3) by (simp add: bmap_def fblock_def)
  next
    case 3
    then show ?thesis
      using okr_mono [OF bmap_entry [OF s(1) 3(2,1) s(2) room(2)], of "bmap_post 5 2 ip k s"] weak w s(4) i(3)
      by (simp add: bmap_def Let_def del: okr_bindr)
  next
    case 4
    from bal obtain b t where t: "balloc 1 s = Ret b t" "balloc_post {} s b t"
      by (rule okrE)
    define u where "u = upd_inode ip (\<lambda>i. i\<lparr>i_addrs := (i_addrs i)[12 := b]\<rparr>) t"
    note a = file_inv_set_indirect [OF s(1) t(2) 4(2), folded u_def]
    have "tx_room {} 4 u" "0 < free_blocks u" "indirect u ip \<noteq> 0"
      using io_step_room [OF a(1), of 4] s(3,4) a(3,4,7) by simp_all
    note e = bmap_entry [OF a(2) this(3) 4(1) s(2) this(1,2)]
    have dev: "i_dev (inodes u ! ip) = 1"
      using fs_invD(3) [of u ip] a(2) by (simp add: file_inv_def)
    have "bmap_post 5 2 ip k s x v" if "bmap_post 3 1 ip k u x v" for x v
    proof -
      have "same_files ip u v"
        using that by (simp add: bmap_post_def)
      then have "same_files ip s v"
      proof (rule same_files_trans [OF a(5)])
        show "c \<noteq> indirect u ip \<or> c = 0" if "data_block s ip c" for c
          using balloc_file(3) [OF i(6,9,1) t(2)] that unfolding a(3) by blast
      qed
      then show ?thesis
        using that a(6,7) io_step_trans [OF a(1), of 3 v] unfolding bmap_post_def by auto
    qed
    then show ?thesis
      using okr_mono [OF e, of "bmap_post 5 2 ip k s"] w 4 t(1) i(3) a(3) dev
      by (simp add: bmap_def Let_def u_def [symmetric] del: okr_bindr)
  qed
qed

section \<open>Reading\<close>

text \<open>Changes that spare the bitmap and the indirect block.\<close>

lemma file_inv_kept:
  assumes "file_inv s ip" "tx_step {} n (ldisk t) s t"
    and "\<And>c. c < sb_size (sb s) \<Longrightarrow> ldisk t (BBLOCK c (sb s)) = ldisk s (BBLOCK c (sb s))" "indirect s ip \<noteq> 0 \<Longrightarrow> ldisk t (indirect s ip) = ldisk s (indirect s ip)"
  shows "file_inv t ip" "fblock t ip = fblock s ip" "data_block t ip = data_block s ip" "free_blocks t = free_blocks s"
proof -
  note f = tx_stepD [OF assms(2)]
  have fi: "fs_inv s ip"
    using assms(1) by (simp add: file_inv_def)
  have u: "block_used t c = block_used s c" if "c < sb_size (sb s)" for c
    using assms(3) [OF that] by (simp add: block_used_def f(4))
  show fb: "fblock t ip = fblock s ip"
    using assms(4) by (intro ext) (auto simp: fblock_def f(5))
  show d: "data_block t ip = data_block s ip" "free_blocks t = free_blocks s"
    using u by (auto simp: fun_eq_iff data_block_def free_blocks_def f(4-6) intro!: arg_cong [where f = card])
  have "fs_inv t ip"
    using fs_invD(4) [OF fi] u by (intro fs_inv_step [OF fi f(1,4,6)]) (simp_all add: f)
  then show "file_inv t ip"
    using assms(1) by (simp add: file_inv_def d fb f)
qed

lemma file_inv_read: "file_inv s ip \<Longrightarrow> tx_step {} 0 (ldisk s) s t \<Longrightarrow> file_inv t ip \<and> fblock t ip = fblock s ip \<and> file_byte t ip = file_byte s ip"
  using file_inv_kept [of s ip 0 t] tx_stepD(3) [of "{}" 0 "ldisk s" s t] by (simp add: file_byte_def fun_eq_iff)

lemma bmap_mapped:
  assumes s: "file_inv s ip" "k < MAXFILE" "fblock s ip k \<noteq> 0" "tx_room {} 1 s"
  shows "okr (bmap ip (of_nat k) s) (\<lambda>a t. a = fblock s ip k \<and> tx_step {} 0 (ldisk s) s t)"
proof -
  have fi: "fs_inv s ip"
    using s(1) by (simp add: file_inv_def)
  note i = fs_invD [OF fi] and w = index_word [OF s(2)]
  show ?thesis
  proof (cases "k < 12")
    case True
    then show ?thesis
      using s(3) w tx_step_refl [OF i(11)] by (simp add: bmap_def fblock_def)
  next
    case False
    then have ind: "indirect s ip \<noteq> 0" and fb: "fblock s ip k = rd32 (ldisk s (indirect s ip)) (4 * (k - 12))"
      using s(3) by (auto simp: fblock_def split: if_splits)
    have pre: "tx_inv {} s" "home_block s (indirect s ip)" "not_held {} (indirect s ip) s" "tx_room {} 1 s"
      using i(11) file_inv_indirect [OF s(1) ind] s(4) by (auto simp: data_block_def not_held_def)
    have "okr (bindr (bread 1 (indirect s ip) s) (\<lambda>bp s.
        if rd32 (buf_data s bp) (4 * (k - 12)) = 0 then X s bp
        else bindr (brelse bp s) (\<lambda>_ t. Ret (rd32 (buf_data s bp) (4 * (k - 12))) t))) (\<lambda>a t. a = fblock s ip k \<and> tx_step {} 0 (ldisk s) s t)" for X
    proof (rule tx_read [OF pre], goal_cases)
      case (1 bp t)
      have "okr (bindr (brelse bp t) (\<lambda>_ u. Ret (rd32 (buf_data t bp) (4 * (k - 12))) u)) (\<lambda>a u. a = fblock s ip k \<and> tx_step {} 0 (ldisk s) s u)"
        by (rule tx_release [OF 1(2,1,8,3-5,9)]) (simp add: 1(7) fb)
      then show ?case
        using s(3) by (simp add: 1(7) fb del: okr_bindr)
    qed
    then show ?thesis
      using False ind w i(3) by (simp add: bmap_def Let_def del: okr_bindr)
  qed
qed

lemma bytes_next:
  assumes "m \<le> BSIZE - off mod BSIZE" "m \<le> n"
  shows "map (\<lambda>k. ldisk s (fblock s ip (off div BSIZE)) (off mod BSIZE + k)) [0..<m] @ map (file_byte s ip) [off + m..<off + n] = map (file_byte s ip) [off..<off + n]"
proof -
  have "file_byte s ip (off + k) = ldisk s (fblock s ip (off div BSIZE)) (off mod BSIZE + k)" if "k < m" for k
  proof -
    have "off mod 512 + k < 512"
      using that assms(1) by (simp add: less_diff_conv2)
    moreover have "off + k = off div 512 * 512 + (off mod 512 + k)"
      by simp
    ultimately have "(off + k) div 512 = off div 512" "(off + k) mod 512 = off mod 512 + k"
      by (metis div_mult_self3 div_less add_0_right zero_neq_numeral, metis mod_mult_self3 mod_less)
    then show ?thesis
      by (simp add: file_byte_def)
  qed
  then have "map (\<lambda>k. ldisk s (fblock s ip (off div BSIZE)) (off mod BSIZE + k)) [0..<m] = map (file_byte s ip) [off..<off + m]"
    by (intro nth_equalityI) simp_all
  moreover have "[off..<off + n] = [off..<off + m] @ [off + m..<off + n]"
    using assms(2) upt_add_eq_append [of off "off + m" "n - m"] by simp
  ultimately show ?thesis
    by simp
qed

lemma readi_loop_spec:
  fixes s :: "'a console_state_scheme"
  assumes "file_inv s ip" "off + n \<le> MAXFILE * BSIZE" "\<And>k. k * BSIZE < off + n \<Longrightarrow> fblock s ip k \<noteq> 0" "tx_room {} 1 s"
  shows "okr (readi_loop ip off n s) (\<lambda>cs t. tx_step {} 0 (ldisk s) s t \<and> cs = map (file_byte s ip) [off..<off + n])"
  using assms
proof (induction n arbitrary: off s rule: less_induct)
  case (less n)
  have fi: "fs_inv s ip"
    using less.prems(1) by (simp add: file_inv_def)
  show ?case
  proof (cases "n = 0")
    case True
    then show ?thesis
      using tx_step_refl [OF fs_invD(11) [OF fi]] by (simp add: readi_loop.simps [of ip off 0])
  next
    case False
    let ?k = "off div BSIZE" and ?m = "min n (BSIZE - off mod BSIZE)"
    have k: "?k < MAXFILE" "fblock s ip ?k \<noteq> 0"
      using less.prems(2) False less.prems(3) [of ?k] by (auto simp: less_mult_imp_div_less)
    have m: "0 < ?m" "?m \<le> n" "?m \<le> BSIZE - off mod BSIZE"
      using False by simp_all
    obtain t where t: "bmap ip (of_nat ?k) s = Ret (fblock s ip ?k) t" "tx_step {} 0 (ldisk s) s t"
      using bmap_mapped [OF less.prems(1) k less.prems(4)] by (auto simp: okr_iff)
    note f = tx_stepD [OF t(2)] and ft = file_inv_read [OF less.prems(1) t(2)]
    have "data_block s ip (fblock s ip ?k)"
      by (rule file_invD(1) [OF less.prems(1) k])
    then have pre: "tx_inv {} t" "home_block t (fblock s ip ?k)" "not_held {} (fblock s ip ?k) t" "tx_room {} 1 t"
      using tx_step_room [OF t(2), of 1] less.prems(4) by (simp_all add: f data_block_def not_held_def)
    have dev: "i_dev (inodes t ! ip) = 1"
      using fs_invD(3) [OF fi] by (simp add: f)
    have "okr (bindr (bread 1 (fblock s ip ?k) t) (\<lambda>bp v.
        let cs = map (\<lambda>k. buf_data v bp (off mod BSIZE + k)) [0..<?m]
        in bindr (brelse bp v) (\<lambda>_ s. bindr (readi_loop ip (off + ?m) (n - ?m) s) (\<lambda>ds s. Ret (cs @ ds) s))))
      (\<lambda>cs t. tx_step {} 0 (ldisk s) s t \<and> cs = map (file_byte s ip) [off..<off + n])"
    proof (rule tx_read [OF pre], goal_cases)
      case (1 bp v)
      show ?case
        unfolding Let_def
      proof (rule tx_release [OF 1(2,1,8,3-5,9)])
        fix u
        assume u: "tx_step {} 0 (ldisk t) t u"
        then have su: "tx_step {} 0 (ldisk s) s u"
          using tx_step_trans [OF t(2) u] by (simp add: f)
        note fu = file_inv_read [OF less.prems(1) su]
        have "okr (readi_loop ip (off + ?m) (n - ?m) u) (\<lambda>cs t. tx_step {} 0 (ldisk u) u t \<and> cs = map (file_byte u ip) [off + ?m..<off + ?m + (n - ?m)])"
          using less.prems(2,3) m fu tx_step_room [OF su, of 1] less.prems(4) by (intro less.IH) auto
        then show "okr (bindr (readi_loop ip (off + ?m) (n - ?m) u) (\<lambda>ds s. Ret (map (\<lambda>k. buf_data v bp (off mod BSIZE + k)) [0..<?m] @ ds) s))
            (\<lambda>cs t. tx_step {} 0 (ldisk s) s t \<and> cs = map (file_byte s ip) [off..<off + n])"
          using m fu bytes_next [OF m(3,2), of s ip] tx_step_trans [OF su] tx_stepD(3) [OF su]
          by (auto simp: 1(7) f elim!: okr_mono)
      qed
    qed
    then show ?thesis
      using False t(1) dev by (simp add: readi_loop.simps [of ip off n] Let_def del: okr_bindr)
  qed
qed

definition regular :: "'a inode_state_scheme \<Rightarrow> nat \<Rightarrow> bool" where
  "regular s ip \<longleftrightarrow> file_inv s ip \<and> filled s ip (unat (i_size (inodes s ! ip))) \<and> i_type (inodes s ! ip) \<noteq> T_DEV"

lemma take_min_upt: "take n [k..<m] = [k..<min (k + n) m]"
  by (intro nth_equalityI) auto

lemma sint_below:
  fixes k :: u32
  assumes "k < 2147483648"
  shows "sint k = int (unat k)"
proof -
  have "uint k < 2147483648"
    using assms by (simp add: word_less_def)
  then show ?thesis
    using signed_take_bit_int_eq_self [of 31 "uint k"] order_trans [OF _ uint_ge_0, of "- (2 ^ 31)" k] by (simp add: sint_uint)
qed

lemma length_file_data: "length (file_data s ip) = unat (i_size (inodes s ! ip))"
  by (simp add: file_data_def)

lemma readi_spec:
  fixes s :: "'a console_state_scheme"
  assumes "regular s ip" "tx_room {} 1 s"
  shows "okr (readi ip off n s) (\<lambda>(r, cs) t. tx_step {} 0 (ldisk s) s t \<and>
    (if i_size (inodes s ! ip) < off \<or> off + n < off then r = -1 \<and> cs = []
     else r = int (length cs) \<and> cs = take (unat n) (drop (unat off) (file_data s ip))))"
proof (cases "i_size (inodes s ! ip) < off \<or> off + n < off")
  case True
  then show ?thesis
    using assms tx_step_refl [of "{}" s 0] fs_invD(11) [of s ip] by (simp add: readi_def regular_def file_inv_def)
next
  case False
  let ?z = "i_size (inodes s ! ip)"
  define k where "k = (if ?z < off + n then ?z - off else n)"
  have off: "unat off \<le> unat ?z" "unat (off + n) = unat off + unat n"
    using False unat_plus_simple [of off n] by (simp_all add: word_le_nat_alt not_less)
  then have k: "unat k = min (unat n) (unat ?z - unat off)"
    by (auto simp: k_def word_less_nat_alt unat_sub word_le_nat_alt)
  have ok: "file_inv s ip" "unat ?z \<le> 71680" "\<And>k. k * BSIZE < unat ?z \<Longrightarrow> fblock s ip k \<noteq> 0" "i_type (inodes s ! ip) \<noteq> T_DEV"
    using assms(1) by (simp_all add: regular_def filled_def)
  have le: "unat off + unat k \<le> unat ?z"
    using off(1) unfolding k by linarith
  have "okr (readi_loop ip (unat off) (unat k) s) (\<lambda>cs t. tx_step {} 0 (ldisk s) s t \<and> cs = map (file_byte s ip) [unat off..<unat off + unat k])"
  proof (rule readi_loop_spec [OF ok(1) _ _ assms(2)])
    show "unat off + unat k \<le> MAXFILE * BSIZE"
      using le ok(2) by simp
    show "fblock s ip j \<noteq> 0" if "j * BSIZE < unat off + unat k" for j
      using that le by (intro ok(3)) linarith
  qed
  moreover have "map (file_byte s ip) [unat off..<unat off + unat k] = take (unat n) (drop (unat off) (file_data s ip))"
  proof -
    have "unat off + unat k = min (unat off + unat n) (unat ?z)"
      using off(1) unfolding k by linarith
    then show ?thesis
      by (simp add: file_data_def drop_map take_map take_min_upt)
  qed
  moreover have "sint k = int (min (unat n) (unat ?z - unat off))"
    unfolding k [symmetric] using le ok(2) by (intro sint_below) (simp add: word_less_nat_alt)
  ultimately show ?thesis
    using False ok(4) by (auto simp: readi_def Let_def k_def [symmetric] okr_iff length_file_data min.commute)
qed

section \<open>Writing\<close>

text \<open>
  After writing the bytes \<open>g\<close> to the offsets from \<open>off\<close> to \<open>off + n\<close>, with \<open>b\<close> turns of the loop: the file has these bytes
  there and its old bytes elsewhere, and no block of another file has changed.
\<close>

definition wrote :: "nat \<Rightarrow> nat \<Rightarrow> (nat \<Rightarrow> u8) \<Rightarrow> nat \<Rightarrow> nat \<Rightarrow> 'a inode_state_scheme \<Rightarrow> 'a inode_state_scheme \<Rightarrow> bool" where
  "wrote b ip g off n s t \<longleftrightarrow> io_step (6 * b) s t \<and> file_inv t ip \<and> free_blocks s \<le> free_blocks t + 2 * b \<and>
     (\<exists>A. length A = 13 \<and> inodes t = (inodes s)[ip := (inodes s ! ip)\<lparr>i_addrs := A\<rparr>]) \<and>
     (\<forall>k<MAXFILE. (fblock s ip k \<noteq> 0 \<longrightarrow> fblock t ip k = fblock s ip k) \<and> (0 < n \<longrightarrow> off div BSIZE \<le> k \<longrightarrow> k * BSIZE < off + n \<longrightarrow> fblock t ip k \<noteq> 0)) \<and>
     (\<forall>j<MAXFILE * BSIZE. if off \<le> j \<and> j < off + n then file_byte t ip j = g j
        else fblock s ip (j div BSIZE) \<noteq> 0 \<longrightarrow> file_byte t ip j = file_byte s ip j) \<and>
     (\<forall>c. data_block s ip c \<longrightarrow> c \<notin> file_blocks s ip \<longrightarrow> data_block t ip c \<and> ldisk t c = ldisk s c \<and> c \<notin> file_blocks t ip)"

lemma wroteD:
  assumes "wrote b ip g off n s t"
  shows "io_step (6 * b) s t" "file_inv t ip" "free_blocks s \<le> free_blocks t + 2 * b"
    "\<exists>A. length A = 13 \<and> inodes t = (inodes s)[ip := (inodes s ! ip)\<lparr>i_addrs := A\<rparr>]"
    "\<And>k. k < MAXFILE \<Longrightarrow> fblock s ip k \<noteq> 0 \<Longrightarrow> fblock t ip k = fblock s ip k"
    "\<And>k. k < MAXFILE \<Longrightarrow> 0 < n \<Longrightarrow> off div BSIZE \<le> k \<Longrightarrow> k * BSIZE < off + n \<Longrightarrow> fblock t ip k \<noteq> 0"
    "\<And>j. j < MAXFILE * BSIZE \<Longrightarrow> off \<le> j \<Longrightarrow> j < off + n \<Longrightarrow> file_byte t ip j = g j"
    "\<And>j. j < MAXFILE * BSIZE \<Longrightarrow> \<not> (off \<le> j \<and> j < off + n) \<Longrightarrow> fblock s ip (j div BSIZE) \<noteq> 0 \<Longrightarrow> file_byte t ip j = file_byte s ip j"
    "\<And>c. data_block s ip c \<Longrightarrow> c \<notin> file_blocks s ip \<Longrightarrow> data_block t ip c \<and> ldisk t c = ldisk s c \<and> c \<notin> file_blocks t ip"
  using assms unfolding wrote_def by (simp_all split: if_splits)

lemma wrote_trans:
  assumes "wrote a ip g off m s t" "wrote b ip g (off + m) n t u"
  shows "wrote (a + b) ip g off (m + n) s u"
proof -
  note x = wroteD [OF assms(1)] and y = wroteD [OF assms(2)]
  have "io_step (6 * (a + b)) s u"
    using io_step_trans [OF x(1) y(1)] by (simp add: distrib_left)
  moreover have "(fblock s ip k \<noteq> 0 \<longrightarrow> fblock u ip k = fblock s ip k) \<and> (0 < m + n \<longrightarrow> off div BSIZE \<le> k \<longrightarrow> k * BSIZE < off + (m + n) \<longrightarrow> fblock u ip k \<noteq> 0)"
    if k: "k < MAXFILE" for k
  proof (cases "0 < m \<and> k * BSIZE < off + m")
    case True
    then show ?thesis
      using x(5,6) [OF k] y(5) [OF k] by auto
  next
    case False
    then have "off div BSIZE \<le> k \<Longrightarrow> (off + m) div BSIZE \<le> k" "0 < n \<or> off + (m + n) \<le> k * BSIZE \<or> m + n = 0"
      using div_le_mono [of "off + m" "k * BSIZE" BSIZE] by auto
    then show ?thesis
      using x(5) [OF k] y(5,6) [OF k] by (auto simp: add.assoc)
  qed
  moreover have "if off \<le> j \<and> j < off + (m + n) then file_byte u ip j = g j
      else fblock s ip (j div BSIZE) \<noteq> 0 \<longrightarrow> file_byte u ip j = file_byte s ip j" if j: "j < MAXFILE * BSIZE" for j
  proof -
    have k: "j div BSIZE < MAXFILE"
      using j by (simp add: less_mult_imp_div_less)
    have "fblock t ip (j div BSIZE) \<noteq> 0" if "off \<le> j" "j < off + m"
      using that by (intro x(6) [OF k]) (auto simp: div_le_mono intro: le_less_trans [OF div_times_less_eq_dividend])
    then show ?thesis
      using x(5) [OF k] x(7,8) [OF j] y(7,8) [OF j] by (cases "off + m \<le> j") (auto simp: add.assoc)
  qed
  ultimately show ?thesis
    unfolding wrote_def using upd_addrs_trans [OF x(4) y(4)] x(3,9) y(2,3,9) by (auto simp: distrib_left)
qed

text \<open>One turn: block \<open>a\<close> of the file is found or allocated, and \<open>m\<close> bytes of it replaced.\<close>

lemma split_offset_aux:
  fixes p q r y m :: nat
  assumes "y < 512" "r + m \<le> 512"
  shows "512 * q + r \<le> 512 * p + y \<and> 512 * p + y < 512 * q + r + m \<longleftrightarrow> p = q \<and> r \<le> y \<and> y < r + m"
proof (cases p q rule: linorder_cases)
  case less
  then have "512 * Suc p \<le> 512 * q"
    by (intro mult_le_mono2) simp
  then show ?thesis
    using less assms by simp
next
  case greater
  then have "512 * Suc q \<le> 512 * p"
    by (intro mult_le_mono2) simp
  then show ?thesis
    using greater assms by simp
qed simp

lemma split_offset:
  fixes x off m :: nat
  assumes "m \<le> 512 - off mod 512"
  shows "off \<le> x \<and> x < off + m \<longleftrightarrow> x div 512 = off div 512 \<and> off mod 512 \<le> x mod 512 \<and> x mod 512 < off mod 512 + m"
proof -
  have "off mod 512 + m \<le> 512"
    using assms by (simp add: le_diff_conv2 add.commute)
  then show ?thesis
    using split_offset_aux [of "x mod 512" "off mod 512" m "off div 512" "x div 512"] by simp
qed

lemma only_block:
  fixes off m j :: nat
  assumes "m \<le> 512 - off mod 512" "off div 512 \<le> j" "j * 512 < off + m"
  shows "j = off div 512"
proof (rule ccontr)
  assume "j \<noteq> off div 512"
  then have "Suc (off div 512) * 512 \<le> j * 512"
    using assms(2) by (intro mult_le_mono1) simp
  then show False
    using assms(1,3) div_mult_mod_eq [of off 512] mod_less_divisor [of 512 off] by (simp only: mult_Suc)
qed

lemma write_block:
  assumes s: "file_inv s ip" "k = off div BSIZE" "k < MAXFILE" "0 < m" "m \<le> BSIZE - off mod BSIZE"
    and t: "bmap_post 5 2 ip k s a t"
    and u: "tx_step {} 1 ((ldisk t)(a := blit (ldisk t a) (off mod BSIZE) src i m)) t u"
  shows "wrote 1 ip (\<lambda>j. src (i + j - off)) off m s u"
proof -
  have bt: "io_step 5 s t" "file_inv t ip" "a = fblock t ip k" "a \<noteq> 0" "same_files ip s t" "free_blocks s \<le> free_blocks t + 2"
    "\<And>j. j < MAXFILE \<Longrightarrow> j \<noteq> k \<or> fblock s ip k \<noteq> 0 \<Longrightarrow> fblock t ip j = fblock s ip j"
    using t unfolding bmap_post_def by blast+
  note f = tx_stepD [OF u] and da = file_invD [OF bt(2) s(3), folded bt(3), OF bt(4)]
  have keep: "file_inv u ip" "fblock u ip = fblock t ip" "data_block u ip = data_block t ip" "free_blocks u = free_blocks t"
    using file_inv_kept [OF bt(2), of 1 u] u da by (auto simp: f(3) data_block_def)
  have fb: "file_blocks u ip = file_blocks t ip"
    by (simp add: file_blocks_def keep(2) f(5))
  have same: "data_block t ip c \<and> ldisk t c = ldisk s c" if "data_block s ip c" "c \<noteq> indirect s ip \<or> c = 0" for c
    using bt(5) that by (simp add: same_files_def)
  have other: "data_block u ip c \<and> ldisk u c = ldisk s c \<and> c \<notin> file_blocks u ip" if c: "data_block s ip c" "c \<notin> file_blocks s ip" for c
  proof -
    have "c \<notin> file_blocks t ip" "c \<noteq> indirect s ip \<or> c = 0"
      using bt(5) c by (auto simp: same_files_def file_blocks_def)
    moreover from this have "c \<noteq> a"
      using bt(3,4) s(3) by (auto simp: file_blocks_def)
    ultimately show ?thesis
      using same [OF c(1)] fb by (simp add: f(3) keep)
  qed
  have byte: "if off \<le> j \<and> j < off + m then file_byte u ip j = src (i + j - off)
      else fblock s ip (j div BSIZE) \<noteq> 0 \<longrightarrow> file_byte u ip j = file_byte s ip j" if j: "j < MAXFILE * BSIZE" for j
  proof -
    have k: "j div BSIZE < MAXFILE"
      using j by (simp add: less_mult_imp_div_less)
    have old: "ldisk t (fblock s ip (j div BSIZE)) = ldisk s (fblock s ip (j div BSIZE))" if "fblock s ip (j div BSIZE) \<noteq> 0"
      using same file_invD [OF s(1) k that] by blast
    show ?thesis
    proof (cases "j div BSIZE = k")
      case True
      have "j mod 512 - off mod 512 + i = i + j - off" if "off mod 512 \<le> j mod 512"
        using that True s(2) div_mult_mod_eq [of j 512] div_mult_mod_eq [of off 512] by linarith
      then show ?thesis
        using split_offset [OF s(5), of j] True s(2) bt(3,7) old s(3) by (auto simp: file_byte_def keep f(3) blit_def)
    next
      case False
      have "fblock t ip (j div BSIZE) = fblock s ip (j div BSIZE)"
        using bt(7) [OF k] False by simp
      moreover have "fblock t ip (j div BSIZE) \<noteq> a" if "fblock t ip (j div BSIZE) \<noteq> 0"
        using file_inv_inj [OF bt(2) k s(3) that] bt(3) False by auto
      ultimately show ?thesis
        using split_offset [OF s(5), of j] False s(2) old by (auto simp: file_byte_def keep f(3))
    qed
  qed
  have "(fblock s ip j \<noteq> 0 \<longrightarrow> fblock u ip j = fblock s ip j) \<and> (0 < m \<longrightarrow> off div BSIZE \<le> j \<longrightarrow> j * BSIZE < off + m \<longrightarrow> fblock u ip j \<noteq> 0)" if j: "j < MAXFILE" for j
  proof -
    have "j = k" if "off div BSIZE \<le> j" "j * BSIZE < off + m"
      using only_block [OF s(5) that] s(2) by simp
    then show ?thesis
      using bt(3,4,7) j s(3) keep(2) by auto
  qed
  moreover have "io_step 6 s u"
    using io_step_trans [OF bt(1) io_stepI [OF u]] by simp
  moreover have "\<exists>A. length A = 13 \<and> inodes u = (inodes s)[ip := (inodes s ! ip)\<lparr>i_addrs := A\<rparr>]"
    using bt(5) unfolding same_files_def f(5) by blast
  ultimately show ?thesis
    using keep(1,4) bt(6) byte other unfolding wrote_def by simp
qed

text \<open>The number of blocks a write touches.\<close>

definition turns :: "nat \<Rightarrow> nat \<Rightarrow> nat" where
  "turns off n = (off mod BSIZE + n + 511) div BSIZE"

lemma turns_next:
  assumes "BSIZE - off mod BSIZE < n" "m = BSIZE - off mod BSIZE"
  shows "turns off n = Suc (turns (off + m) (n - m))"
proof -
  have "(off + m) mod 512 = 0"
    using assms(2) mod_add_left_eq [of off 512 m] by simp
  moreover have "off mod 512 + n + 511 = (n - m + 511) + 512"
    using assms mod_less_divisor [of 512 off] by linarith
  ultimately show ?thesis
    by (simp add: turns_def)
qed

lemma turns_pos: "0 < n \<Longrightarrow> 0 < turns off n"
  by (simp add: turns_def div_greater_zero_iff)

lemma wrote_refl:
  assumes "file_inv s ip"
  shows "wrote 0 ip g off 0 s s"
proof -
  have fi: "fs_inv s ip"
    using assms by (simp add: file_inv_def)
  have "io_step 0 s s"
    by (rule io_stepI [OF tx_step_refl [OF fs_invD(11) [OF fi]]])
  moreover have "\<exists>A. length A = 13 \<and> inodes s = (inodes s)[ip := (inodes s ! ip)\<lparr>i_addrs := A\<rparr>]"
    using fs_invD(4) [OF fi] by (intro exI [of _ "i_addrs (inodes s ! ip)"]) simp
  ultimately show ?thesis
    using assms unfolding wrote_def by auto
qed

lemma write_turn:
  fixes s :: "'a console_state_scheme"
  assumes s: "file_inv s ip" "off < MAXFILE * BSIZE" "0 < m" "m \<le> BSIZE - off mod BSIZE" "tx_room {} 7 s" "2 \<le> free_blocks s"
    and f: "\<And>u. wrote 1 ip (\<lambda>j. src (i + j - off)) off m s u \<Longrightarrow> okr (f u) Q"
  shows "okr (bindr (bmap ip (of_nat (off div BSIZE)) s) (\<lambda>addr s.
      bindr (bread (i_dev (inodes s ! ip)) addr s) (\<lambda>bp s.
        bindr (log_write bp (set_data bp (blit (buf_data s bp) (off mod BSIZE) src i m) s)) (\<lambda>_ s.
        bindr (brelse bp s) (\<lambda>_ s. f s))))) Q"
proof -
  have k: "off div BSIZE < MAXFILE"
    using s(2) by (simp add: less_mult_imp_div_less)
  have "tx_room {} 6 s"
    using s(5) by (simp add: tx_room_def)
  then obtain a t where t: "bmap ip (of_nat (off div BSIZE)) s = Ret a t" "bmap_post 5 2 ip (off div BSIZE) s a t"
    using bmap_spec [OF s(1) k _ s(6)] by (auto simp: okr_iff)
  have bt: "io_step 5 s t" "file_inv t ip" "a = fblock t ip (off div BSIZE)" "a \<noteq> 0"
    using t(2) unfolding bmap_post_def by blast+
  have fi: "fs_inv t ip"
    using bt(2) by (simp add: file_inv_def)
  have pre: "tx_inv {} t" "home_block t a" "not_held {} a t" "tx_room {} 1 t"
    using fs_invD(11) [OF fi] file_invD(1) [OF bt(2) k] bt(3,4) io_step_room [OF bt(1), of 1] s(5)
    by (auto simp: data_block_def not_held_def tx_room_def)
  have "okr (bindr (bread 1 a t) (\<lambda>bp s.
        bindr (log_write bp (set_data bp (blit (buf_data s bp) (off mod BSIZE) src i m) s)) (\<lambda>_ s.
        bindr (brelse bp s) (\<lambda>_ s. f s)))) Q"
  proof (rule tx_read [OF pre], goal_cases)
    case (1 bp v)
    show ?case
    proof (rule tx_modify [OF 1(2,1) pre(4) 1(3-5,9,6)])
      fix u
      assume "tx_step {} 1 ((ldisk t)(a := blit (buf_data v bp) (off mod BSIZE) src i m)) t u"
      then show "okr (f u) Q"
        unfolding 1(7) by (intro f write_block [OF s(1) refl k s(3,4) t(2)])
    qed
  qed
  then show ?thesis
    using t(1) fs_invD(3) [OF fi] by (simp del: okr_bindr)
qed

lemma writei_loop_spec:
  fixes s :: "'a console_state_scheme"
  assumes "file_inv s ip" "off + n \<le> MAXFILE * BSIZE" "tx_room {} (6 * turns off n + 1) s" "2 * turns off n \<le> free_blocks s"
  shows "okr (writei_loop ip src i off n s) (\<lambda>_ t. \<exists>b\<le>turns off n. wrote b ip (\<lambda>j. src (i + j - off)) off n s t)"
  using assms
proof (induction n arbitrary: i off s rule: less_induct)
  case (less n)
  show ?case
  proof (cases "n = 0")
    case True
    then show ?thesis
      using wrote_refl [OF less.prems(1)] by (auto simp: writei_loop.simps [of ip src i off 0])
  next
    case False
    define m where "m = min n (BSIZE - off mod BSIZE)"
    have m: "0 < m" "m \<le> n" "m \<le> BSIZE - off mod BSIZE"
      using False by (simp_all add: m_def)
    let ?T = "turns (off + m) (n - m)"
    have tn: "m = n \<or> turns off n = Suc ?T"
    proof (cases "BSIZE - off mod BSIZE < n")
      case True
      then have "m = BSIZE - off mod BSIZE"
        by (simp add: m_def)
      from turns_next [OF True this] show ?thesis ..
    qed (simp add: m_def)
    have t1: "1 \<le> turns off n"
      using turns_pos [of n off] False by simp
    have "off < MAXFILE * BSIZE" "tx_room {} 7 s" "2 \<le> free_blocks s"
      using less.prems(2-4) False t1 by (simp_all add: tx_room_def)
    note turn = write_turn [OF less.prems(1) this(1) m(1,3) this(2,3)]
    have "okr (writei_loop ip src (i + m) (off + m) (n - m) u) (\<lambda>_ t. \<exists>b\<le>turns off n. wrote b ip (\<lambda>j. src (i + j - off)) off n s t)"
      if u: "wrote 1 ip (\<lambda>j. src (i + j - off)) off m s u" for u
    proof (cases "m = n")
      case True
      then show ?thesis
        using u t1 by (auto simp: writei_loop.simps [of ip src _ _ 0])
    next
      case False
      then have T: "turns off n = Suc ?T"
        using tn by blast
      note w = wroteD [OF u]
      have "tx_room {} (6 * ?T + 1) u"
        using io_step_room [OF w(1), of "6 * ?T + 1"] less.prems(3) by (simp add: T)
      then have "okr (writei_loop ip src (i + m) (off + m) (n - m) u) (\<lambda>_ t. \<exists>b\<le>?T. wrote b ip (\<lambda>j. src (i + m + j - (off + m))) (off + m) (n - m) u t)"
        using less.prems(2,4) m w(2,3) T by (intro less.IH) auto
      then show ?thesis
        using wrote_trans [OF u, of _ "n - m"] m(2) T by (fastforce elim!: okr_mono)
    qed
    from turn [of src i, OF this] show ?thesis
      using False by (simp add: writei_loop.simps [of ip src i off n] Let_def m_def del: okr_bindr)
  qed
qed

lemma set_size:
  fixes u :: "'a inode_state_scheme" and z :: u32
  assumes "file_inv u ip"
  defines "v \<equiv> upd_inode ip (\<lambda>i. i\<lparr>i_size := z\<rparr>) u"
  shows "file_inv v ip" "fblock v ip = fblock u ip" "data_block v ip = data_block u ip" "file_blocks v ip = file_blocks u ip" "file_byte v ip = file_byte u ip"
    "inodes v ! ip = (inodes u ! ip)\<lparr>i_size := z\<rparr>" "ldisk v = ldisk u"
proof -
  have ip: "ip < length (inodes u)"
    using assms(1) fs_invD(2) by (auto simp: file_inv_def)
  then show n: "inodes v ! ip = (inodes u ! ip)\<lparr>i_size := z\<rparr>"
    by (simp add: v_def upd_inode_def)
  show ld: "ldisk v = ldisk u"
    by (simp add: v_def upd_inode_def)
  have f: "sb v = sb u" "home_block v = home_block u" "tx_inv {} v = tx_inv {} u" "length (inodes v) = length (inodes u)"
    by (simp_all add: v_def upd_inode_def)
  have u: "block_used v = block_used u"
    by (simp add: fun_eq_iff block_used_def ld f)
  show d: "fblock v ip = fblock u ip" "data_block v ip = data_block u ip"
    by (simp_all add: fun_eq_iff fblock_def data_block_def n ld f u)
  show "file_blocks v ip = file_blocks u ip" "file_byte v ip = file_byte u ip"
    by (simp_all add: fun_eq_iff file_blocks_def file_byte_def d n ld)
  have fi: "fs_inv u ip"
    using assms(1) by (simp add: file_inv_def)
  have "fs_inv v ip"
    using fs_invD [OF fi] by (intro fs_inv_step [OF fi]) (simp_all add: f n u)
  then show "file_inv v ip"
    using assms(1) by (simp add: file_inv_def d n)
qed

lemma iupdate_file:
  assumes "file_inv s ip" "tx_room {} 1 s"
  shows "okr (iupdate ip s) (\<lambda>_ t. tx_step {} 1 (ldisk t) s t \<and> file_inv t ip \<and> fblock t ip = fblock s ip \<and> data_block t ip = data_block s ip \<and>
    (\<forall>c. c \<noteq> inode_block s ip \<longrightarrow> ldisk t c = ldisk s c) \<and> (\<forall>k<MAXFILE. fblock s ip k \<noteq> 0 \<longrightarrow> ldisk t (fblock s ip k) = ldisk s (fblock s ip k)))"
proof -
  have fi: "fs_inv s ip"
    using assms(1) by (simp add: file_inv_def)
  note i = fs_invD [OF fi]
  have "not_held {} (inode_block s ip) s"
    by (simp add: not_held_def)
  from iupdate_spec [OF i(11,8) this assms(2) i(3)] show ?thesis
  proof (rule okr_mono)
    fix x t
    assume t: "tx_step {} 1 ((ldisk s)(inode_block s ip := store_dinode (inodes s ! ip) (dinode_off (inodes s ! ip)) (ldisk s (inode_block s ip)))) s t"
    note f = tx_stepD [OF t]
    have d: "c \<noteq> inode_block s ip" if "data_block s ip c" for c
      using that by (simp add: data_block_def)
    have t': "tx_step {} 1 (ldisk t) s t"
      using t f(3) by simp
    have "ldisk t (indirect s ip) = ldisk s (indirect s ip)" if "indirect s ip \<noteq> 0"
      using d [OF file_inv_indirect [OF assms(1) that]] by (simp add: f)
    moreover have "ldisk t (BBLOCK c (sb s)) = ldisk s (BBLOCK c (sb s))" if "c < sb_size (sb s)" for c
      using i(10) [OF that] by (simp add: f)
    ultimately have "file_inv t ip" "fblock t ip = fblock s ip" "data_block t ip = data_block s ip"
      using file_inv_kept [OF assms(1) t'] by blast+
    then show "tx_step {} 1 (ldisk t) s t \<and> file_inv t ip \<and> fblock t ip = fblock s ip \<and> data_block t ip = data_block s ip \<and>
      (\<forall>c. c \<noteq> inode_block s ip \<longrightarrow> ldisk t c = ldisk s c) \<and> (\<forall>k<MAXFILE. fblock s ip k \<noteq> 0 \<longrightarrow> ldisk t (fblock s ip k) = ldisk s (fblock s ip k))"
      using t' d [OF file_invD(1) [OF assms(1)]] by (simp add: f(3))
  qed
qed

text \<open>The list of bytes after the write.\<close>

definition overwrite :: "u8 list \<Rightarrow> nat \<Rightarrow> u8 list \<Rightarrow> u8 list" where
  "overwrite xs off ys = take off xs @ ys @ drop (off + length ys) xs"

lemma overwrite_nth:
  assumes "off \<le> length xs"
  shows "length (overwrite xs off ys) = max (length xs) (off + length ys)"
    "j < max (length xs) (off + length ys) \<Longrightarrow> overwrite xs off ys ! j = (if off \<le> j \<and> j < off + length ys then ys ! (j - off) else xs ! j)"
proof -
  show "length (overwrite xs off ys) = max (length xs) (off + length ys)"
    using assms by (simp add: overwrite_def)
  have "drop (off + length ys) xs ! (j - (off + length ys)) = xs ! j" if "off + length ys \<le> j" "j < length xs"
    using that nth_drop [of "off + length ys" xs "j - (off + length ys)"] by simp
  then show "overwrite xs off ys ! j = (if off \<le> j \<and> j < off + length ys then ys ! (j - off) else xs ! j)" if "j < max (length xs) (off + length ys)"
    using that assms by (auto simp: overwrite_def nth_append)
qed

lemma wrote_data:
  assumes "regular s ip" "wrote b ip (\<lambda>j. src (0 + j - off)) off n s t" "off \<le> unat (i_size (inodes s ! ip))" "off + n \<le> MAXFILE * BSIZE"
  defines "z \<equiv> max (unat (i_size (inodes s ! ip))) (off + n)"
  shows "map (file_byte t ip) [0..<z] = overwrite (file_data s ip) off (map src [0..<n])" "filled t ip z"
proof -
  let ?z = "unat (i_size (inodes s ! ip))"
  have s: "?z \<le> 71680" "\<And>k. k * BSIZE < ?z \<Longrightarrow> fblock s ip k \<noteq> 0"
    using assms(1) by (simp_all add: regular_def filled_def)
  note w = wroteD [OF assms(2)]
  have z: "z \<le> MAXFILE * BSIZE"
    using s(1) assms(4) by (simp add: z_def)
  have byte: "file_byte t ip j = (if off \<le> j \<and> j < off + n then src (j - off) else file_byte s ip j)" if "j < z" for j
  proof (cases "off \<le> j \<and> j < off + n")
    case True
    then show ?thesis
      using w(7) [of j] that z by simp
  next
    case False
    then have "j < ?z"
      using that assms(3) by (auto simp: z_def)
    then have "j div BSIZE * BSIZE < ?z"
      by (rule le_less_trans [OF div_times_less_eq_dividend])
    then show ?thesis
      using w(8) [OF _ False s(2)] False that z by auto
  qed
  show "map (file_byte t ip) [0..<z] = overwrite (file_data s ip) off (map src [0..<n])"
  proof (intro nth_equalityI)
    show l: "length (map (file_byte t ip) [0..<z]) = length (overwrite (file_data s ip) off (map src [0..<n]))"
      using overwrite_nth(1) [of off "file_data s ip" "map src [0..<n]"] assms(3) by (simp add: length_file_data z_def)
    fix j
    assume "j < length (map (file_byte t ip) [0..<z])"
    then show "map (file_byte t ip) [0..<z] ! j = overwrite (file_data s ip) off (map src [0..<n]) ! j"
      using byte [of j] overwrite_nth(2) [of off "file_data s ip" j "map src [0..<n]"] assms(3)
      by (auto simp: length_file_data file_data_def z_def)
  qed
  have "fblock t ip k \<noteq> 0" if k: "k * BSIZE < z" for k
  proof -
    have "k < MAXFILE"
      using k z by simp
    moreover have "k * BSIZE < ?z \<or> 0 < n \<and> off div BSIZE \<le> k \<and> k * BSIZE < off + n"
      using k assms(3) div_le_mono [of off "k * BSIZE" BSIZE] by (auto simp: z_def)
    ultimately show ?thesis
      using w(5,6) s(2) by auto
  qed
  then show "filled t ip z"
    using z by (simp add: filled_def)
qed

text \<open>The result of a write to a regular file.\<close>

definition written :: "nat \<Rightarrow> nat \<Rightarrow> u8 list \<Rightarrow> nat \<Rightarrow> 'a inode_state_scheme \<Rightarrow> 'a inode_state_scheme \<Rightarrow> bool" where
  "written k ip cs off s t \<longleftrightarrow> io_step k s t \<and> regular t ip \<and> file_data t ip = overwrite (file_data s ip) off cs \<and>
     (\<exists>A z. inodes t = (inodes s)[ip := (inodes s ! ip)\<lparr>i_addrs := A, i_size := z\<rparr>]) \<and>
     (\<forall>c. data_block s ip c \<longrightarrow> c \<notin> file_blocks s ip \<longrightarrow> data_block t ip c \<and> ldisk t c = ldisk s c \<and> c \<notin> file_blocks t ip)"

lemma wrote_written:
  assumes "regular s ip" "wrote b ip (\<lambda>j. src (0 + j - off)) off n s t" "off + n \<le> unat (i_size (inodes s ! ip))"
  shows "written (6 * b + 1) ip (map src [0..<n]) off s t"
proof -
  let ?z = "unat (i_size (inodes s ! ip))"
  have s: "?z \<le> 71680" "file_inv s ip" "i_type (inodes s ! ip) \<noteq> T_DEV"
    using assms(1) by (simp_all add: regular_def filled_def)
  note w = wroteD [OF assms(2)]
  obtain A where A: "inodes t = (inodes s)[ip := (inodes s ! ip)\<lparr>i_addrs := A\<rparr>]"
    using w(4) by blast
  have ip: "ip < length (inodes s)"
    using s(2) fs_invD(2) by (auto simp: file_inv_def)
  have "max ?z (off + n) = ?z"
    using assms(3) by simp
  note d = wrote_data [OF assms(1,2), unfolded this]
  have "regular t ip" "file_data t ip = overwrite (file_data s ip) off (map src [0..<n])"
    using d assms(3) s w(2) A ip by (simp_all add: regular_def file_data_def)
  moreover have "\<exists>A z. inodes t = (inodes s)[ip := (inodes s ! ip)\<lparr>i_addrs := A, i_size := z\<rparr>]"
    unfolding A by (intro exI [of _ A] exI [of _ "i_size (inodes s ! ip)"]) (cases "inodes s ! ip", simp)
  moreover have "io_step (6 * b + 1) s t"
    by (rule io_step_mono [OF w(1)]) simp
  ultimately show ?thesis
    using w(9) by (simp add: written_def)
qed

lemma wrote_iupdate:
  assumes s: "regular s ip" "wrote b ip (\<lambda>j. src (0 + j - unat off)) (unat off) (unat n) s t" "i_size (inodes s ! ip) < off + n"
      "unat (off + n) = unat off + unat n" "unat off + unat n \<le> MAXFILE * BSIZE" "unat off \<le> unat (i_size (inodes s ! ip))"
    and room: "tx_room {} 1 t"
  shows "okr (iupdate ip (upd_inode ip (\<lambda>i. i\<lparr>i_size := off + n\<rparr>) t)) (\<lambda>_. written (6 * b + 1) ip (map src [0..<unat n]) (unat off) s)"
proof -
  let ?z = "unat (i_size (inodes s ! ip))" and ?u = "upd_inode ip (\<lambda>i. i\<lparr>i_size := off + n\<rparr>) t"
  have r: "file_inv s ip" "i_type (inodes s ! ip) \<noteq> T_DEV"
    using s(1) by (simp_all add: regular_def)
  note w = wroteD [OF s(2)]
  note u = set_size [OF w(2), of "off + n"]
  obtain A where A: "inodes t = (inodes s)[ip := (inodes s ! ip)\<lparr>i_addrs := A\<rparr>]"
    using w(4) by blast
  have ip: "ip < length (inodes s)"
    using r(1) fs_invD(2) by (auto simp: file_inv_def)
  have inode: "inodes ?u = (inodes s)[ip := (inodes s ! ip)\<lparr>i_addrs := A, i_size := off + n\<rparr>]"
    using A ip by (simp add: upd_inode_def)
  have "max ?z (unat off + unat n) = unat (off + n)"
    using s(3,4) by (simp add: word_less_nat_alt)
  note d = wrote_data [OF s(1,2) s(6,5), unfolded this]
  have "tx_room {} 1 ?u"
    using room by (simp add: upd_inode_def)
  from iupdate_file [OF u(1) this] show ?thesis
  proof (rule okr_mono, elim conjE)
    fix v
    assume v: "tx_step {} 1 (ldisk v) ?u v" "file_inv v ip" "fblock v ip = fblock ?u ip" "data_block v ip = data_block ?u ip"
      "\<forall>c. c \<noteq> inode_block ?u ip \<longrightarrow> ldisk v c = ldisk ?u c" "\<forall>k<MAXFILE. fblock ?u ip k \<noteq> 0 \<longrightarrow> ldisk v (fblock ?u ip k) = ldisk ?u (fblock ?u ip k)"
    note f = tx_stepD [OF v(1)]
    have size: "i_size (inodes v ! ip) = off + n" "i_type (inodes v ! ip) = i_type (inodes s ! ip)"
      using ip by (simp_all add: f(5) inode)
    have fl: "filled v ip (unat (off + n))"
      using d(2) by (simp add: filled_def v(3) u(2))
    have "file_byte v ip j = file_byte t ip j" if "j < unat (off + n)" for j
    proof -
      have "j div BSIZE * BSIZE < unat (off + n)"
        by (rule le_less_trans [OF div_times_less_eq_dividend that])
      moreover from this have "j div BSIZE < MAXFILE"
        using s(4,5) by simp
      ultimately show ?thesis
        using d(2) v(6) by (simp add: file_byte_def v(3) u(2,7) filled_def)
    qed
    then have "map (file_byte v ip) [0..<unat (off + n)] = overwrite (file_data s ip) (unat off) (map src [0..<unat n])"
      unfolding d(1) [symmetric] by simp
    then have "file_data v ip = overwrite (file_data s ip) (unat off) (map src [0..<unat n])"
      unfolding file_data_def [of v] size .
    moreover have same: "ldisk v c = ldisk t c" if "data_block t ip c" for c
      using v(5) that u(7) u(6) by (simp add: data_block_def upd_inode_def)
    moreover have "data_block v ip c \<and> ldisk v c = ldisk s c \<and> c \<notin> file_blocks v ip" if "data_block s ip c" "c \<notin> file_blocks s ip" for c
      using w(9) [OF that] same [of c] v(3,4) u(2-4) f(5) by (simp add: file_blocks_def)
    moreover have "io_step (6 * b + 1) s v"
      using io_step_trans [OF io_step_upd [OF w(1)] io_stepI [OF v(1) [unfolded upd_inode_def]]] by simp
    ultimately show "written (6 * b + 1) ip (map src [0..<unat n]) (unat off) s v"
      unfolding written_def f(5) inode using v(2) fl r(2) size by (auto simp: regular_def)
  qed
qed

lemma writei_spec:
  fixes s :: "'a console_state_scheme"
  assumes "regular s ip" "tx_room {} (6 * turns (unat off) (unat n) + 2) s" "2 * turns (unat off) (unat n) \<le> free_blocks s"
  shows "if i_size (inodes s ! ip) < off \<or> off + n < off \<or> of_nat (MAXFILE * BSIZE) < off + n then writei ip src off n s = Ret (-1) s
    else okr (writei ip src off n s) (\<lambda>r t. r = int (unat n) \<and> (\<exists>b\<le>turns (unat off) (unat n). written (6 * b + 1) ip (map src [0..<unat n]) (unat off) s t))"
proof (cases "i_size (inodes s ! ip) < off \<or> off + n < off \<or> of_nat (MAXFILE * BSIZE) < off + n")
  case True
  then show ?thesis
    using assms(1) by (auto simp: writei_def regular_def Let_def)
next
  case False
  let ?T = "turns (unat off) (unat n)"
  have sum: "unat (off + n) = unat off + unat n"
    using False unat_plus_simple [of off n] by (simp add: not_less)
  have bounds: "unat off \<le> unat (i_size (inodes s ! ip))" "unat off + unat n \<le> MAXFILE * BSIZE"
    using False unfolding sum [symmetric] by (simp_all add: not_less word_le_nat_alt)
  have "tx_room {} (6 * ?T + 1) s" "file_inv s ip" "i_type (inodes s ! ip) \<noteq> T_DEV"
    using assms(1,2) by (simp_all add: tx_room_def regular_def)
  then obtain t b where t: "writei_loop ip src 0 (unat off) (unat n) s = Ret () t" "b \<le> ?T" "wrote b ip (\<lambda>j. src (0 + j - unat off)) (unat off) (unat n) s t"
    using writei_loop_spec [OF _ bounds(2) _ assms(3), of ip src 0] by (auto simp: okr_iff)
  note w = wroteD [OF t(3)]
  have size: "i_size (inodes t ! ip) = i_size (inodes s ! ip)"
    using w(4) fs_invD(2) [of s ip] \<open>file_inv s ip\<close> by (auto simp: file_inv_def)
  have n: "sint n = int (unat n)"
    using bounds(2) by (intro sint_below) (simp add: word_less_nat_alt)
  have head: "writei ip src off n s = bindr (if 0 < n \<and> i_size (inodes s ! ip) < off + n
      then iupdate ip (upd_inode ip (\<lambda>i. i\<lparr>i_size := off + n\<rparr>) t) else Ret () t) (\<lambda>_ s. Ret (int (unat n)) s)"
    using False \<open>i_type (inodes s ! ip) \<noteq> T_DEV\<close> t(1) n by (simp add: writei_def Let_def size)
  show ?thesis
  proof (cases "0 < n \<and> i_size (inodes s ! ip) < off + n")
    case True
    have "tx_room {} (6 * b + 1) s"
      using assms(2) t(2) by (simp add: tx_room_def)
    from wrote_iupdate [OF assms(1) t(3) _ sum bounds(2,1) io_step_room [OF w(1) this]] show ?thesis
      using False True t(2) unfolding head by (auto elim!: okr_mono)
  next
    case small: False
    have "unat off + unat n \<le> unat (i_size (inodes s ! ip))"
      using small bounds(1) sum by (auto simp: not_less word_le_nat_alt word_less_nat_alt)
    from wrote_written [OF assms(1) t(3) this] show ?thesis
      using False small t(2) unfolding head by auto
  qed
qed

section \<open>A sample file\<close>

definition sample_files :: "u16 \<Rightarrow> console_state" where
  "sample_files ty = inode_state.extend
     (sample_fs\<lparr>inodes := \<lparr>i_dev = 1, i_inum = 2, i_ref = 1, i_valid = True, i_type = ty, i_major = 0, i_minor = 0,
        i_nlink = 1, i_size = 0, i_addrs = replicate 13 0, i_mode = 7\<rparr> # replicate 49 (inodes sample_fs ! 0)\<rparr>)
     (console_state.fields (\<lambda>_. 0) 0 0 0 False [] 0 (\<lambda>_. 0) (\<lambda>_. False))"

lemma extend_inv:
  "tx_inv H (inode_state.extend s x) = tx_inv H s" "ldisk (inode_state.extend s x) = ldisk s" "home_block (inode_state.extend s x) = home_block s"
  "tx_room H k (inode_state.extend s x) = tx_room H k s" "not_held H b (inode_state.extend s x) = not_held H b s" "sb (inode_state.extend s x) = sb s" "inodes (inode_state.extend s x) = inodes s"
  by (simp_all add: inode_state.defs tx_inv_def cache_inv_def uniq_bufs_def in_proc_def myproc_def mypid_def log_ok_def log_geom_def
      logged_def log_region_def dirty_blocks_def ldisk_def home_block_def not_held_def tx_room_def fun_eq_iff cong: option.case_cong)

lemma sample_files_fields:
  "inodes (sample_files ty) = \<lparr>i_dev = 1, i_inum = 2, i_ref = 1, i_valid = True, i_type = ty, i_major = 0, i_minor = 0,
     i_nlink = 1, i_size = 0, i_addrs = replicate 13 0, i_mode = 7\<rparr> # replicate 49 (inodes sample_fs ! 0)"
  "sb (sample_files ty) = sb sample_fs" "ldisk (sample_files ty) = ldisk sample_fs" "home_block (sample_files ty) = home_block sample_fs"
  "block_used (sample_files ty) = block_used sample_fs" "tx_inv {} (sample_files ty)" "k \<le> 29 \<Longrightarrow> tx_room {} k (sample_files ty)"
proof -
  have "tx_room {} k sample_fs" if "k \<le> 29"
    using that by (simp add: tx_room_def sample_fs_fields)
  then show "inodes (sample_files ty) = \<lparr>i_dev = 1, i_inum = 2, i_ref = 1, i_valid = True, i_type = ty, i_major = 0, i_minor = 0,
       i_nlink = 1, i_size = 0, i_addrs = replicate 13 0, i_mode = 7\<rparr> # replicate 49 (inodes sample_fs ! 0)"
    "sb (sample_files ty) = sb sample_fs" "ldisk (sample_files ty) = ldisk sample_fs" "home_block (sample_files ty) = home_block sample_fs"
    "block_used (sample_files ty) = block_used sample_fs" "tx_inv {} (sample_files ty)" "k \<le> 29 \<Longrightarrow> tx_room {} k (sample_files ty)"
    using sample_fs_tx(1) by (simp_all add: sample_files_def extend_inv fun_eq_iff block_used_def del: replicate.simps)
qed

lemma sample_files_regular: "ty \<noteq> T_DEV \<Longrightarrow> regular (sample_files ty) 0"
proof -
  assume ty: "ty \<noteq> T_DEV"
  have b: "BBLOCK c (sb sample_fs) = 33" if "c < 100" for c
    using that by (simp add: BBLOCK_def sample_fs_fields word_less_nat_alt word_unat_eq_iff unat_div_distrib unat_word_ariths)
  have "alloc_pre {} (sample_files ty)"
    using sample_fs_alloc(1) sample_files_fields(6) by (simp add: alloc_pre_def bitmap_ok_def not_held_def sample_files_fields)
  moreover have "home_block sample_fs 32"
    by (simp add: home_block_def log_region_def sample_fs_fields)
  moreover have "IBLOCK 2 (sb sample_fs) = 32" "sb_size (sb sample_fs) = 100"
    by (simp_all add: IBLOCK_def sample_fs_fields)
  ultimately have "fs_inv (sample_files ty) 0"
    using b sample_fs_used [of 0] sample_fs_used [of 32] by (simp add: fs_inv_def sample_files_fields)
  moreover have "fblock (sample_files ty) 0 k = 0" "indirect (sample_files ty) 0 = 0" for k
    by (simp_all add: fblock_def sample_files_fields nth_Cons' del: replicate.simps)
  ultimately show ?thesis
    using ty by (simp add: regular_def file_inv_def blocks_ok_def filled_def sample_files_fields)
qed

lemma sample_files_free: "4 \<le> free_blocks (sample_files ty)"
proof -
  have "{50, 51, 52, 53} \<subseteq> {b. b < sb_size (sb (sample_files ty)) \<and> \<not> block_used (sample_files ty) b}"
    using sample_fs_used [of 50] sample_fs_used [of 51] sample_fs_used [of 52] sample_fs_used [of 53] by (simp add: sample_files_fields sample_fs_fields)
  from card_mono [OF _ this] show ?thesis
    by (simp add: free_blocks_def)
qed

lemma sample_files_data: "file_data (sample_files ty) 0 = []"
  by (simp add: file_data_def sample_files_fields)

section \<open>Properties\<close>

text \<open>
  C19: \<^verbatim>\<open>readi\<close> on a regular file or directory returns the bytes of the file from the offset on, as many as were asked
  for or as there are, and -1 for an offset beyond the end or an overflowing range. It changes neither the disk nor an inode.
\<close>

theorem readi_returns_contents:
  fixes s :: "'a console_state_scheme"
  assumes "regular s ip" "tx_room {} 1 s"
  shows "okr (readi ip off n s) (\<lambda>(r, cs) t. ldisk t = ldisk s \<and> inodes t = inodes s \<and> tx_inv {} t \<and>
    (if i_size (inodes s ! ip) < off \<or> off + n < off then r = -1 \<and> cs = []
     else r = int (length cs) \<and> cs = take (unat n) (drop (unat off) (file_data s ip))))"
  using readi_spec [OF assms] by (rule okr_mono) (auto dest: tx_stepD split: if_splits)


lemma sample_write:
  "okr (writei 0 of_nat 0 600 (sample_files T_FILE)) (\<lambda>r t. r = 600 \<and> regular t 0 \<and> file_data t 0 = map of_nat [0..<600] \<and> i_size (inodes t ! 0) = 600 \<and> tx_room {} 1 t)"
proof -
  have t: "turns (unat (0 :: u32)) (unat (600 :: u32)) = 2"
    by (simp add: turns_def)
  have c: "\<not> (i_size (inodes (sample_files T_FILE) ! 0) < 0 \<or> 0 + 600 < (0 :: u32) \<or> of_nat (MAXFILE * BSIZE) < (0 + 600 :: u32))"
    by (simp add: sample_files_fields)
  have "okr (writei 0 of_nat 0 600 (sample_files T_FILE)) (\<lambda>r t. r = int (unat (600 :: u32)) \<and>
      (\<exists>b\<le>2. written (6 * b + 1) 0 (map of_nat [0..<unat (600 :: u32)]) (unat (0 :: u32)) (sample_files T_FILE) t))"
    using writei_spec [OF sample_files_regular, of T_FILE 0 600 of_nat] sample_files_free [of T_FILE] sample_files_fields(7) [of 14] c
    unfolding t by (simp only: if_False) simp
  then show ?thesis
  proof (rule okr_mono, elim conjE exE)
    fix r t b
    assume r: "r = int (unat (600 :: u32))" "b \<le> 2"
      and w: "written (6 * b + 1) 0 (map of_nat [0..<unat (600 :: u32)]) (unat (0 :: u32)) (sample_files T_FILE) t"
    have "file_data t 0 = map of_nat [0..<600]"
      using w by (simp add: written_def sample_files_data overwrite_def del: upt_rec_numeral)
    moreover from this have "i_size (inodes t ! 0) = 600"
      using length_file_data [of t 0] by (simp add: word_unat_eq_iff del: upt_rec_numeral)
    moreover have "tx_room {} 1 t"
      using io_step_room [of "6 * b + 1" "sample_files T_FILE" t 1] w r(2) sample_files_fields(7) [of "6 * b + 2"] by (simp add: written_def)
    ultimately show "r = 600 \<and> regular t 0 \<and> file_data t 0 = map of_nat [0..<600] \<and> i_size (inodes t ! 0) = 600 \<and> tx_room {} 1 t"
      using r w by (simp add: written_def del: upt_rec_numeral)
  qed
qed


theorem readi_returns_contents_witness:
  "\<exists>t u. writei 0 of_nat 0 600 (sample_files T_FILE) = Ret 600 t \<and> readi 0 510 4 t = Ret (4, [254, 255, 0, 1]) u"
proof -
  obtain t where t: "writei 0 of_nat 0 600 (sample_files T_FILE) = Ret 600 t" "regular t 0" "file_data t 0 = map of_nat [0..<600]"
      "i_size (inodes t ! 0) = 600" "tx_room {} 1 t"
    using sample_write by (auto simp: okr_iff simp del: upt_rec_numeral)
  have "take 4 (drop 510 (map of_nat [0..<600])) = ([254, 255, 0, 1] :: u8 list)"
    unfolding drop_map take_map drop_upt take_min_upt by (simp add: upt_rec)
  then show ?thesis
    using readi_returns_contents [OF t(2,5), of 510 4] t(1,3,4) by (auto simp: okr_iff simp del: upt_rec_numeral)
qed

end
