(* ===== verification/Directory.thy ===== *)
theory Directory
  imports Filedata
begin

text \<open>
  Directories as maps from names to inode numbers: \<^verbatim>\<open>dirlookup\<close> and \<^verbatim>\<open>dirlink\<close> of \<^verbatim>\<open>fs.c\<close> over the file
  contents of \<open>Filedata\<close>. A slot is the 16 bytes of one entry; \<open>dir_lookup\<close> is the map, with the text of a
  name cut to \<open>DIRSIZ\<close> characters as its key.
\<close>

section \<open>The slots of a directory\<close>

definition dir_slot :: "'a inode_state_scheme \<Rightarrow> nat \<Rightarrow> nat \<Rightarrow> bytes" where
  "dir_slot s dp k = (\<lambda>i. if i < 16 then file_byte s dp (16 * k + i) else 0)"

definition slots :: "'a inode_state_scheme \<Rightarrow> nat \<Rightarrow> bytes list" where
  "slots s dp = map (dir_slot s dp) [0..<unat (i_size (inodes s ! dp)) div 16]"

definition dir_ok :: "'a inode_state_scheme \<Rightarrow> nat \<Rightarrow> bool" where
  "dir_ok s dp \<longleftrightarrow> regular s dp \<and> i_type (inodes s ! dp) = T_DIR \<and> unat (i_size (inodes s ! dp)) mod 16 = 0"

definition slot_name :: "bytes \<Rightarrow> u8 list" where
  "slot_name de = cstr DIRSIZ (de_name de)"

definition slot_is :: "u8 list \<Rightarrow> bytes \<Rightarrow> bool" where
  "slot_is nm de \<longleftrightarrow> de_inum de \<noteq> 0 \<and> slot_name de = nm"

definition dir_lookup :: "'a inode_state_scheme \<Rightarrow> nat \<Rightarrow> u8 list \<Rightarrow> u16 option" where
  "dir_lookup s dp nm = map_option (\<lambda>k. de_inum (slots s dp ! k)) (first_index (slot_is nm) (slots s dp))"

lemma dir_offs_exact: "unat sz mod 16 = 0 \<Longrightarrow> dir_offs sz = map (\<lambda>k. 16 * k) [0..<unat sz div 16]"
proof -
  assume "unat sz mod 16 = 0"
  then obtain q where q: "unat sz = 16 * q"
    by (auto simp: mod_eq_0_iff_dvd elim: dvdE)
  then have "(unat sz + 15) div 16 = unat sz div 16"
    by simp
  then show ?thesis
    by (simp add: dir_offs_def)
qed

text \<open>Reading one slot.\<close>

lemma read_slot:
  fixes s t :: "'a console_state_scheme"
  assumes "dir_ok s dp" "tx_step {} 0 (ldisk s) s t" "tx_room {} 1 s" "k < length (slots s dp)"
  shows "\<exists>cs u. readi dp (of_nat (16 * k)) 16 t = Ret (16, cs) u \<and> as_bytes cs = dir_slot s dp k \<and> tx_step {} 0 (ldisk s) s u"
proof -
  let ?z = "unat (i_size (inodes s ! dp))"
  have r: "regular s dp" and z: "?z \<le> 71680" "16 * k + 16 \<le> ?z"
    using assms(1,4) by (auto simp: dir_ok_def regular_def filled_def slots_def)
  note f = tx_stepD [OF assms(2)]
  have ft: "file_inv t dp" "fblock t dp = fblock s dp" "file_byte t dp = file_byte s dp"
    using file_inv_read [OF _ assms(2)] r by (simp_all add: regular_def)
  then have rt: "regular t dp" "file_data t dp = file_data s dp"
    using r f(5) by (simp_all add: regular_def filled_def file_data_def)
  have u: "unat (of_nat (16 * k) :: u32) = 16 * k"
    using z by (simp add: unat_of_nat del: of_nat_mult)
  have c: "\<not> (i_size (inodes t ! dp) < of_nat (16 * k) \<or> of_nat (16 * k) + 16 < (of_nat (16 * k) :: u32))"
    using z u by (simp add: f(5) word_less_nat_alt unat_word_ariths del: of_nat_mult)
  have "tx_room {} 1 t"
    using tx_step_room [OF assms(2), of 1] assms(3) by simp
  from readi_spec [OF rt(1) this, of "of_nat (16 * k)" 16] obtain cs v where
      v: "readi dp (of_nat (16 * k)) 16 t = Ret (int (length cs), cs) v" "tx_step {} 0 (ldisk t) t v" "cs = take 16 (drop (16 * k) (file_data s dp))"
    using c by (auto simp: okr_iff u rt(2) simp del: of_nat_mult)
  have len: "length cs = 16"
    using v(3) z by (simp add: length_file_data)
  have "as_bytes cs = dir_slot s dp k"
    using z len v(3) by (auto simp: fun_eq_iff as_bytes_def dir_slot_def file_data_def)
  then show ?thesis
    using v(1,2) len tx_step_trans [OF assms(2) v(2)] f(3) by auto
qed

text \<open>A loop over the slots that stops at the first one with property \<open>P\<close>.\<close>

lemma scan_slots:
  assumes step: "\<And>k t. k < N \<Longrightarrow> R t \<Longrightarrow> \<exists>u. R u \<and> f (16 * k) t = (if P k then bindr (g k u) (\<lambda>x s. Ret (Some x) s) else Ret None u)"
    and "R s" "j \<le> N"
  shows "\<exists>u. R u \<and> firstr (map (\<lambda>k. 16 * k) [j..<N]) f s =
    (case first_index P [j..<N] of None \<Rightarrow> Ret None u | Some i \<Rightarrow> bindr (g (j + i) u) (\<lambda>x s. Ret (Some x) s))"
  using assms(2,3)
proof (induction "N - j" arbitrary: j s)
  case 0
  then show ?case
    by auto
next
  case (Suc d)
  then have j: "j < N" "[j..<N] = j # [Suc j..<N]"
    by (simp_all add: upt_conv_Cons)
  obtain u where u: "R u" "f (16 * j) s = (if P j then bindr (g j u) (\<lambda>x s. Ret (Some x) s) else Ret None u)"
    using step [OF j(1) Suc.prems(1)] by blast
  show ?case
  proof (cases "P j")
    case True
    have "firstr (map (\<lambda>k. 16 * k) [j..<N]) f s = bindr (g j u) (\<lambda>x s. Ret (Some x) s)"
      unfolding j(2) using True u(2) by (cases "g j u") simp_all
    then show ?thesis
      using True u(1) j(2) by auto
  next
    case False
    have "d = N - Suc j" "Suc j \<le> N"
      using Suc.hyps(2) j(1) by simp_all
    from Suc.hyps(1) [OF this(1) u(1) this(2)] show ?thesis
      using False u(2) unfolding j(2) by (auto split: option.splits)
  qed
qed

section \<open>Looking up\<close>

lemma namecmp_slot: "namecmp name (de_name de) = 0 \<longleftrightarrow> slot_name de = cstr DIRSIZ name"
  by (auto simp: namecmp_def strncmp_eq_0 slot_name_def)

lemma first_index_slots: "first_index P (slots s dp) = first_index (\<lambda>k. P (dir_slot s dp k)) [0..<length (slots s dp)]"
proof -
  have "first_index P (map h xs) = first_index (\<lambda>k. P (h k)) xs" for h :: "nat \<Rightarrow> bytes" and xs
    by (induction xs) simp_all
  then show ?thesis
    by (simp add: slots_def)
qed

lemma slots_nth: "k < length (slots s dp) \<Longrightarrow> slots s dp ! k = dir_slot s dp k"
  by (simp add: slots_def)

definition lookup_step :: "nat \<Rightarrow> bytes \<Rightarrow> nat \<Rightarrow> 'a console_state_scheme \<Rightarrow> ((nat \<times> u32) option, 'a console_state_scheme) kres" where
  "lookup_step dp name off s =
     bindr (readi dp (of_nat off) 16 s) (\<lambda>(r, cs) s.
       if r \<noteq> 16 then Panic ''dirlookup read''
       else let de = as_bytes cs
            in if de_inum de = 0 then Ret None s
               else if namecmp name (de_name de) = 0
               then bindr (iget (i_dev (inodes s ! dp)) (ucast (de_inum de)) s) (\<lambda>ip s. Ret (Some (ip, of_nat off)) s)
               else Ret None s)"

definition found :: "bytes \<Rightarrow> nat \<Rightarrow> 'a console_state_scheme \<Rightarrow> (nat \<times> u32, 'a console_state_scheme) kres" where
  "found de k s = bindr (iget 1 (ucast (de_inum de)) s) (\<lambda>ip t. Ret (ip, of_nat (16 * k)) t)"

lemma dirlookup_spec:
  fixes s :: "'a console_state_scheme"
  assumes "dir_ok s dp" "tx_room {} 1 s"
  shows "\<exists>u. tx_step {} 0 (ldisk s) s u \<and> dirlookup dp name s =
    (case first_index (slot_is (cstr DIRSIZ name)) (slots s dp) of
       None \<Rightarrow> Ret None u
     | Some k \<Rightarrow> bindr (found (slots s dp ! k) k u) (\<lambda>x t. Ret (Some x) t))"
proof -
  let ?P = "\<lambda>k. slot_is (cstr DIRSIZ name) (dir_slot s dp k)" and ?R = "\<lambda>u. tx_step {} 0 (ldisk s) s u" and ?n = "length (slots s dp)"
  have d: "i_dev (inodes s ! dp) = 1" "i_type (inodes s ! dp) = T_DIR" "tx_inv {} s" "unat (i_size (inodes s ! dp)) mod 16 = 0"
    using assms(1) fs_invD(3,11) [of s dp] by (simp_all add: dir_ok_def regular_def file_inv_def)
  have "\<exists>u. ?R u \<and> lookup_step dp name (16 * k) t = (if ?P k then bindr (found (dir_slot s dp k) k u) (\<lambda>x s. Ret (Some x) s) else Ret None u)"
    if k: "k < ?n" and t: "?R t" for k t
  proof -
    obtain cs u where u: "readi dp (of_nat (16 * k)) 16 t = Ret (16, cs) u" "as_bytes cs = dir_slot s dp k" "?R u"
      using read_slot [OF assms(1) t assms(2) k] by blast
    have "i_dev (inodes u ! dp) = 1"
      using d(1) tx_stepD(5) [OF u(3)] by simp
    then have "lookup_step dp name (16 * k) t = (if ?P k then bindr (found (dir_slot s dp k) k u) (\<lambda>x s. Ret (Some x) s) else Ret None u)"
      using u(1,2) unfolding lookup_step_def found_def slot_is_def
      by (cases "iget 1 (ucast (de_inum (dir_slot s dp k))) u") (simp_all add: Let_def namecmp_slot del: of_nat_mult)
    then show ?thesis
      using u(3) by blast
  qed
  from scan_slots [of ?n ?R "lookup_step dp name" ?P "\<lambda>k. found (dir_slot s dp k) k" s 0, OF this tx_step_refl [OF d(3)] le0] obtain u where u: "?R u"
      "firstr (map (\<lambda>k. 16 * k) [0..<?n]) (lookup_step dp name) s =
        (case first_index ?P [0..<?n] of None \<Rightarrow> Ret None u | Some i \<Rightarrow> bindr (found (dir_slot s dp i) i u) (\<lambda>x s. Ret (Some x) s))"
    unfolding add_0 by blast
  have "dirlookup dp name s = firstr (map (\<lambda>k. 16 * k) [0..<?n]) (lookup_step dp name) s"
    using d by (simp add: dirlookup_def lookup_step_def [abs_def] dir_offs_exact slots_def)
  moreover have "i < ?n" if "first_index ?P [0..<?n] = Some i" for i
    using first_indexD(1) [OF that] by simp
  ultimately show ?thesis
    using u unfolding first_index_slots by (intro exI [of _ u]) (cases "first_index ?P [0..<?n]", simp_all add: slots_nth)
qed

section \<open>Adding an entry\<close>

text \<open>The slot \<^verbatim>\<open>dirlink\<close> writes over the old slot \<open>de\<close>.\<close>

definition new_slot :: "bytes \<Rightarrow> u32 \<Rightarrow> bytes \<Rightarrow> bytes" where
  "new_slot name inum de =
     wr16 (\<lambda>i. if 2 \<le> i \<and> i < 16 then strncpy (de_name de) name 14 (i - 2) else de i) 0 (ucast inum)"

lemma new_slot_entry: "de_inum (new_slot name inum de) = ucast inum" "slot_name (new_slot name inum de) = cstr DIRSIZ name"
proof -
  show "de_inum (new_slot name inum de) = ucast inum"
    by (simp add: de_inum_def new_slot_def)
  have "cstr 14 (de_name (new_slot name inum de)) = cstr 14 (strncpy (de_name de) name 14)"
    by (rule cstr_cong) (simp add: de_name_def new_slot_def wr16_def)
  also have "\<dots> = cstr 14 name"
    using strncpy_text [of 14] by simp
  finally show "slot_name (new_slot name inum de) = cstr DIRSIZ name"
    by (simp add: slot_name_def)
qed

definition free_step :: "nat \<Rightarrow> nat \<Rightarrow> 'a console_state_scheme \<Rightarrow> ((nat \<times> bytes) option, 'a console_state_scheme) kres" where
  "free_step dp off s =
     bindr (readi dp (of_nat off) 16 s) (\<lambda>(r, cs) s.
       if r \<noteq> 16 then Panic ''dirlink read''
       else if de_inum (as_bytes cs) = 0 then Ret (Some (off, as_bytes cs)) s
       else Ret None s)"

lemma free_slot_spec:
  fixes s :: "'a console_state_scheme"
  assumes "dir_ok s dp" "tx_room {} 1 s"
  shows "\<exists>u. tx_step {} 0 (ldisk s) s u \<and> firstr (dir_offs (i_size (inodes s ! dp))) (free_step dp) s =
    Ret (map_option (\<lambda>k. (16 * k, slots s dp ! k)) (first_index (\<lambda>de. de_inum de = 0) (slots s dp))) u"
proof -
  let ?P = "\<lambda>k. de_inum (dir_slot s dp k) = 0" and ?R = "\<lambda>u. tx_step {} 0 (ldisk s) s u" and ?n = "length (slots s dp)"
  have d: "tx_inv {} s" "unat (i_size (inodes s ! dp)) mod 16 = 0"
    using assms(1) fs_invD(11) [of s dp] by (simp_all add: dir_ok_def regular_def file_inv_def)
  have "\<exists>u. ?R u \<and> free_step dp (16 * k) t = (if ?P k then bindr (Ret (16 * k, dir_slot s dp k) u) (\<lambda>x s. Ret (Some x) s) else Ret None u)"
    if k: "k < ?n" and t: "?R t" for k t
    using read_slot [OF assms(1) t assms(2) k] unfolding free_step_def by (auto simp del: of_nat_mult)
  from scan_slots [of ?n ?R "free_step dp" ?P "\<lambda>k. Ret (16 * k, dir_slot s dp k)" s 0, OF this tx_step_refl [OF d(1)] le0] obtain u where u: "?R u"
      "firstr (map (\<lambda>k. 16 * k) [0..<?n]) (free_step dp) s =
        (case first_index ?P [0..<?n] of None \<Rightarrow> Ret None u | Some i \<Rightarrow> Ret (Some (16 * i, dir_slot s dp i)) u)"
    unfolding add_0 bindr.simps by blast
  moreover have "i < ?n" if "first_index ?P [0..<?n] = Some i" for i
    using first_indexD(1) [OF that] by simp
  ultimately show ?thesis
    using d(2) unfolding first_index_slots
    by (intro exI [of _ u]) (cases "first_index ?P [0..<?n]", simp_all add: slots_nth dir_offs_exact slots_def)
qed

text \<open>The slots of a list of bytes.\<close>

definition slot_of :: "u8 list \<Rightarrow> nat \<Rightarrow> bytes" where
  "slot_of xs j = (\<lambda>i. if i < 16 then xs ! (16 * j + i) else 0)"

lemma slots_data: "slots s dp = map (slot_of (file_data s dp)) [0..<length (file_data s dp) div 16]"
proof -
  have "dir_slot s dp j = slot_of (file_data s dp) j" if "j < unat (i_size (inodes s ! dp)) div 16" for j
    using that by (auto simp: fun_eq_iff dir_slot_def slot_of_def file_data_def)
  then show ?thesis
    by (simp add: slots_def length_file_data)
qed

lemma slot_of_overwrite:
  assumes "16 * k \<le> length xs" "length ys = 16" "16 * j + 16 \<le> max (length xs) (16 * k + 16)"
  shows "slot_of (overwrite xs (16 * k) ys) j = (if j = k then slot_of ys 0 else slot_of xs j)"
proof -
  have "overwrite xs (16 * k) ys ! (16 * j + i) = (if j = k then ys ! i else xs ! (16 * j + i))" if "i < 16" for i
  proof -
    have "16 * k \<le> 16 * j + i \<and> 16 * j + i < 16 * k + 16 \<longleftrightarrow> j = k"
      using that by auto
    then show ?thesis
      using overwrite_nth(2) [OF assms(1), of "16 * j + i" ys] assms(2,3) that by auto
  qed
  then show ?thesis
    by (auto simp: fun_eq_iff slot_of_def)
qed

lemma slots_written:
  assumes "dir_ok s dp" "k \<le> length (slots s dp)" "length ys = 16" "regular t dp" "file_data t dp = overwrite (file_data s dp) (16 * k) ys"
    and "i_type (inodes t ! dp) = T_DIR"
  shows "dir_ok t dp" "slots t dp = (if k < length (slots s dp) then (slots s dp)[k := slot_of ys 0] else slots s dp @ [slot_of ys 0])"
proof -
  let ?xs = "file_data s dp" and ?n = "length (slots s dp)"
  have n: "length ?xs = 16 * ?n"
    using assms(1) by (auto simp: dir_ok_def length_file_data slots_def)
  have len: "length (file_data t dp) = 16 * max ?n (Suc k)"
    using overwrite_nth(1) [of "16 * k" ?xs ys] n assms(2,3,5) by (simp add: max_def)
  then show "dir_ok t dp"
    using assms(4,6) by (simp add: dir_ok_def length_file_data)
  have new: "slot_of (file_data t dp) j = (if j = k then slot_of ys 0 else slot_of ?xs j)" if "j < max ?n (Suc k)" for j
    unfolding assms(5) using that n assms(2,3) by (intro slot_of_overwrite) (auto simp: max_def split: if_splits)
  have t: "slots t dp = map (slot_of (file_data t dp)) [0..<max ?n (Suc k)]"
    unfolding slots_data [of t] len by simp
  have old: "slots s dp ! j = slot_of ?xs j" if "j < ?n" for j
    using that by (simp add: slots_data [of s])
  show "slots t dp = (if k < ?n then (slots s dp)[k := slot_of ys 0] else slots s dp @ [slot_of ys 0])"
  proof (cases "k < ?n")
    case True
    then have "max ?n (Suc k) = ?n"
      by simp
    then show ?thesis
      unfolding t using True new old by (intro nth_equalityI) (simp_all add: nth_list_update)
  next
    case False
    then have "k = ?n" "max ?n (Suc k) = Suc ?n"
      using assms(2) by simp_all
    then show ?thesis
      unfolding t using new old by (intro nth_equalityI) (auto simp: nth_append less_Suc_eq)
  qed
qed

text \<open>Replacing a slot that is not in use, or adding one at the end, changes the map at one name.\<close>

lemma first_index_update:
  assumes "\<not> P (xs ! k)" "k < length xs"
  shows "\<not> P y \<Longrightarrow> first_index P (xs[k := y]) = first_index P xs" "P y \<Longrightarrow> first_index P xs = None \<Longrightarrow> first_index P (xs[k := y]) = Some k"
  using assms
  by (induction xs arbitrary: k) (auto split: nat.splits if_splits simp: nth_Cons')

lemma first_index_append: "first_index P (xs @ [y]) = (case first_index P xs of None \<Rightarrow> if P y then Some (length xs) else None | Some k \<Rightarrow> Some k)"
  by (induction xs) (auto split: option.splits)

lemma dir_lookup_update:
  assumes slots: "slots t dp = (if k < length (slots s dp) then (slots s dp)[k := y] else slots s dp @ [y])" "k \<le> length (slots s dp)"
    and free: "k < length (slots s dp) \<Longrightarrow> de_inum (slots s dp ! k) = 0" and y: "de_inum y \<noteq> 0" and absent: "dir_lookup s dp (slot_name y) = None"
  shows "dir_lookup t dp nm = (if nm = slot_name y then Some (de_inum y) else dir_lookup s dp nm)"
proof -
  let ?xs = "slots s dp"
  have none: "first_index (slot_is (slot_name y)) ?xs = None"
    using absent by (simp add: dir_lookup_def)
  show ?thesis
  proof (cases "k < length ?xs")
    case True
    then have k: "\<not> slot_is nm (?xs ! k)" for nm
      using free by (simp add: slot_is_def)
    have "i \<noteq> k" if "first_index (slot_is nm) ?xs = Some i" for i
      using first_indexD(2) [OF that] k by auto
    then show ?thesis
      using first_index_update [of "slot_is nm" ?xs k y] k none True y
      by (cases "first_index (slot_is nm) ?xs") (auto simp: dir_lookup_def slots slot_is_def)
  next
    case False
    have "i < length ?xs" if "first_index (slot_is nm) ?xs = Some i" for i
      using first_indexD(1) [OF that] .
    then show ?thesis
      using False none y by (auto simp: dir_lookup_def slots first_index_append slot_is_def nth_append split: option.splits)
  qed
qed

text \<open>The slot that is used: the first free one, or a new one at the end.\<close>

definition link_slot :: "'a inode_state_scheme \<Rightarrow> nat \<Rightarrow> nat" where
  "link_slot s dp = (case first_index (\<lambda>de. de_inum de = 0) (slots s dp) of Some k \<Rightarrow> k | None \<Rightarrow> length (slots s dp))"

lemma link_slot_le: "link_slot s dp \<le> length (slots s dp)"
  by (auto simp: link_slot_def first_index_Some split: option.splits)

lemma link_slot_free: "link_slot s dp < length (slots s dp) \<Longrightarrow> de_inum (slots s dp ! link_slot s dp) = 0"
  by (auto simp: link_slot_def dest: first_indexD split: option.splits)

lemma dir_same:
  assumes "dir_ok s dp" "tx_step {} 0 (ldisk s) s t"
  shows "dir_ok t dp" "slots t dp = slots s dp" "free_blocks t = free_blocks s" "file_data t dp = file_data s dp" "inodes t = inodes s" "regular t dp"
proof -
  note f = tx_stepD [OF assms(2)]
  have r: "regular s dp"
    using assms(1) by (simp add: dir_ok_def)
  have ft: "file_inv t dp" "fblock t dp = fblock s dp" "file_byte t dp = file_byte s dp"
    using file_inv_read [OF _ assms(2)] r by (simp_all add: regular_def)
  then show "regular t dp" "file_data t dp = file_data s dp" "inodes t = inodes s"
    using r f(5) by (simp_all add: regular_def filled_def file_data_def)
  then show "dir_ok t dp" "slots t dp = slots s dp"
    using assms(1) by (simp_all add: dir_ok_def slots_data)
  show "free_blocks t = free_blocks s"
    by (simp add: free_blocks_def block_used_def f)
qed

lemma turns_slot: "turns (16 * k) 16 = 1"
proof -
  have "16 * k mod 512 = 16 * (k mod 32)"
    using mult_mod_right [of 16 k 32] by simp
  moreover have "k mod 32 \<le> 31"
    using mod_less_divisor [of 32 k] by simp
  ultimately have "512 \<le> 16 * k mod 512 + 16 + 511" "16 * k mod 512 + 16 + 511 < 2 * 512"
    by simp_all
  then show ?thesis
    unfolding turns_def by (simp add: div_nat_eqI)
qed

lemma dirlink_spec:
  fixes s :: "'a console_state_scheme"
  assumes s: "dir_ok s dp" "tx_room {} 8 s" "2 \<le> free_blocks s" and absent: "dir_lookup s dp (cstr DIRSIZ name) = None"
    and inum: "ucast inum \<noteq> (0 :: u16)" and fits: "16 * link_slot s dp + 16 \<le> MAXFILE * BSIZE"
  shows "okr (dirlink dp name inum s) (\<lambda>r t. r = 0 \<and> dir_ok t dp \<and> tx_room {} 1 t \<and> (\<forall>i. i \<noteq> dp \<longrightarrow> inodes t ! i = inodes s ! i) \<and>
    length (inodes t) = length (inodes s) \<and> (\<forall>nm. dir_lookup t dp nm = (if nm = cstr DIRSIZ name then Some (ucast inum) else dir_lookup s dp nm)))"
proof -
  let ?k = "link_slot s dp"
  have room: "tx_room {} 1 s"
    using s(2) by (simp add: tx_room_def)
  obtain u where u: "tx_step {} 0 (ldisk s) s u" "dirlookup dp name s = Ret None u"
    using dirlookup_spec [OF s(1) room, of name] absent by (auto simp: dir_lookup_def)
  note du = dir_same [OF s(1) u(1)]
  have "tx_room {} 1 u"
    using tx_step_room [OF u(1), of 1] room by simp
  from free_slot_spec [OF du(1) this] obtain v where v: "tx_step {} 0 (ldisk u) u v"
      "firstr (dir_offs (i_size (inodes u ! dp))) (free_step dp) u = Ret (map_option (\<lambda>k. (16 * k, slots s dp ! k)) (first_index (\<lambda>de. de_inum de = 0) (slots s dp))) v"
    unfolding du(2) by blast
  have sv: "tx_step {} 0 (ldisk s) s v"
    using tx_step_trans [OF u(1) v(1)] tx_stepD(3) [OF u(1)] by simp
  note dv = dir_same [OF s(1) sv]
  obtain de where de: "(case map_option (\<lambda>k. (16 * k, slots s dp ! k)) (first_index (\<lambda>de. de_inum de = 0) (slots s dp)) of
      Some (off, de) \<Rightarrow> (off, de) | None \<Rightarrow> (16 * ((unat (i_size (inodes v ! dp)) + 15) div 16), \<lambda>_. 0)) = (16 * ?k, de)"
  proof -
    have "(unat (i_size (inodes s ! dp)) + 15) div 16 = length (slots s dp)"
      using s(1) by (auto simp: dir_ok_def slots_def elim!: dvdE simp: mod_eq_0_iff_dvd)
    then show ?thesis
      using that by (cases "first_index (\<lambda>de. de_inum de = 0) (slots s dp)") (simp_all add: link_slot_def dv(5))
  qed
  let ?de = "new_slot name inum de"
  have dl: "dirlink dp name inum s = bindr (writei dp ?de (of_nat (16 * ?k)) 16 v) (\<lambda>w s. if w \<noteq> 16 then Panic ''dirlink'' else Ret 0 s)"
    using u(2) v(2) de by (simp add: dirlink_def free_step_def [abs_def] new_slot_def Let_def del: of_nat_mult)
  let ?off = "of_nat (16 * ?k) :: u32" and ?y = "slot_of (map ?de [0..<16]) 0"
  have z: "16 * ?k \<le> unat (i_size (inodes v ! dp))"
    using link_slot_le [of s dp] s(1) by (auto simp: dv(5) dir_ok_def slots_def)
  have un: "unat ?off = 16 * ?k" "unat (16 :: u32) = 16" "unat (?off + 16) = 16 * ?k + 16"
    using fits by (simp_all add: unat_of_nat unat_word_ariths del: of_nat_mult)
  have c: "\<not> (i_size (inodes v ! dp) < ?off \<or> ?off + 16 < ?off \<or> of_nat (MAXFILE * BSIZE) < ?off + 16)"
    using z un fits by (simp add: word_less_nat_alt del: of_nat_mult)
  have rv: "tx_room {} 8 v"
    using tx_step_room [OF sv, of 8] s(2) by simp
  then have "okr (writei dp ?de ?off 16 v) (\<lambda>r t. r = 16 \<and> (\<exists>b\<le>1. written (6 * b + 1) dp (map ?de [0..<16]) (16 * ?k) v t))"
    using writei_spec [OF dv(6), of ?off 16 ?de] c s(3) dv(3) unfolding un turns_slot
    by (auto elim!: okr_mono simp del: of_nat_mult upt_rec_numeral)
  moreover have "dir_ok t dp \<and> tx_room {} 1 t \<and> (\<forall>i. i \<noteq> dp \<longrightarrow> inodes t ! i = inodes s ! i) \<and> length (inodes t) = length (inodes s) \<and>
      (\<forall>nm. dir_lookup t dp nm = (if nm = cstr DIRSIZ name then Some (ucast inum) else dir_lookup s dp nm))"
    if b: "b \<le> 1" and w: "written (6 * b + 1) dp (map ?de [0..<16]) (16 * ?k) v t" for b t
  proof -
    have "tx_room {} (6 * b + 1 + 1) v"
      using rv b by (simp add: tx_room_def)
    then have rt: "tx_room {} 1 t"
      using w io_step_room [of "6 * b + 1" v t 1] unfolding written_def by blast
    have ot: "inodes t ! i = inodes s ! i" "length (inodes t) = length (inodes s)" if "i \<noteq> dp" for i
      using w that by (auto simp: written_def dv(5))
    have "i_type (inodes t ! dp) = T_DIR"
      using w dv(1) fs_invD(2) [of v dp] by (auto simp: written_def dir_ok_def regular_def file_inv_def)
    note sw = slots_written [OF dv(1) _ _ _ _ this, of ?k "map ?de [0..<16]", unfolded dv(2)]
    have sl: "slots t dp = (if ?k < length (slots s dp) then (slots s dp)[?k := ?y] else slots s dp @ [?y])" "dir_ok t dp"
      using sw w link_slot_le [of s dp] by (simp_all add: written_def del: upt_rec_numeral)
    have y: "de_inum ?y = ucast inum"
      using new_slot_entry(1) [of name inum de] by (simp add: de_inum_def rd16_def slot_of_def del: upt_rec_numeral)
    have nm: "slot_name ?y = cstr DIRSIZ name"
      unfolding new_slot_entry(2) [of name inum de, symmetric] slot_name_def by (rule cstr_cong) (simp add: de_name_def slot_of_def del: upt_rec_numeral)
    show ?thesis
      using dir_lookup_update [OF sl(1) link_slot_le link_slot_free] sl(2) inum absent rt ot(1) ot(2) [of "Suc dp"] unfolding y nm by simp
  qed
  ultimately show ?thesis
    unfolding dl by (fastforce simp: okr_iff)
qed

section \<open>Properties\<close>

lemma iget_okr:
  assumes "\<exists>n\<in>set (inodes s). i_ref n = 0"
  shows "okr (iget dev inum s) (\<lambda>ip t. names dev inum (inodes t ! ip) \<and> ldisk t = ldisk s)"
proof (cases "first_index (\<lambda>i. 0 < i_ref i \<and> i_dev i = dev \<and> i_inum i = inum) (inodes s)")
  case (Some ip)
  then show ?thesis
    using first_indexD [OF Some] by (auto simp: iget_def upd_inode_def names_def)
next
  case None
  obtain ip where "first_index (\<lambda>i. i_ref i = 0) (inodes s) = Some ip"
    using assms by (cases "first_index (\<lambda>i. i_ref i = 0) (inodes s)") (auto simp: first_index_None)
  then show ?thesis
    using None by (auto simp: iget_def upd_inode_def names_def dest: first_indexD)
qed

lemma dirlookup_map:
  fixes s :: "'a console_state_scheme"
  assumes "dir_ok s dp" "tx_room {} 1 s" "\<exists>n\<in>set (inodes s). i_ref n = 0"
  shows "okr (dirlookup dp name s) (\<lambda>r t. ldisk t = ldisk s \<and>
    (case dir_lookup s dp (cstr DIRSIZ name) of
       None \<Rightarrow> r = None \<and> inodes t = inodes s
     | Some inum \<Rightarrow> \<exists>ip off. r = Some (ip, off) \<and> names 1 (ucast inum) (inodes t ! ip)))"
proof -
  obtain u where u: "tx_step {} 0 (ldisk s) s u" "dirlookup dp name s =
    (case first_index (slot_is (cstr DIRSIZ name)) (slots s dp) of
       None \<Rightarrow> Ret None u
     | Some k \<Rightarrow> bindr (found (slots s dp ! k) k u) (\<lambda>x t. Ret (Some x) t))"
    using dirlookup_spec [OF assms(1,2), of name] by blast
  note f = tx_stepD [OF u(1)]
  show ?thesis
  proof (cases "first_index (slot_is (cstr DIRSIZ name)) (slots s dp)")
    case None
    then show ?thesis
      using u(2) f by (simp add: dir_lookup_def)
  next
    case (Some k)
    then show ?thesis
      using u(2) iget_okr [of u 1 "ucast (de_inum (slots s dp ! k))"] assms(3) f
      by (auto simp: dir_lookup_def found_def elim!: okr_mono)
  qed
qed

text \<open>
  C21: \<^verbatim>\<open>dirlookup\<close> implements the map from names to inode numbers that a directory stands for: an unknown name
  gives a null pointer and changes nothing, and a known name gives the cache entry of the inode
  the map holds. Names are compared on their first \<open>DIRSIZ\<close> characters.
\<close>

theorem dirlookup_refines_map:
  fixes s :: "'a console_state_scheme"
  assumes "dir_ok s dp" "tx_room {} 1 s" "\<exists>n\<in>set (inodes s). i_ref n = 0"
  shows "okr (dirlookup dp name s) (\<lambda>r t. ldisk t = ldisk s \<and>
    (case dir_lookup s dp (cstr DIRSIZ name) of
       None \<Rightarrow> r = None \<and> inodes t = inodes s
     | Some inum \<Rightarrow> \<exists>ip off. r = Some (ip, off) \<and> names 1 (ucast inum) (inodes t ! ip)))"
  by (rule dirlookup_map [OF assms])


lemma sample_dir: "dir_ok (sample_files T_DIR) 0" "slots (sample_files T_DIR) 0 = []" "dir_lookup (sample_files T_DIR) 0 nm = None"
proof -
  show "dir_ok (sample_files T_DIR) 0"
    using sample_files_regular [of T_DIR] by (simp add: dir_ok_def sample_files_fields)
  show "slots (sample_files T_DIR) 0 = []"
    by (simp add: slots_def sample_files_fields)
  then show "dir_lookup (sample_files T_DIR) 0 nm = None"
    by (simp add: dir_lookup_def)
qed


theorem dirlookup_refines_map_witness:
  "\<exists>t u ip off. dirlink 0 (as_bytes [97, 98]) 7 (sample_files T_DIR) = Ret 0 t \<and>
     dirlookup 0 (as_bytes [97, 98]) t = Ret (Some (ip, off)) u \<and> i_inum (inodes u ! ip) = 7"
proof -
  have n: "cstr DIRSIZ (as_bytes [97, 98]) = [97, 98]"
    by (simp add: cstr_def as_bytes_def upt_rec)
  obtain t where t: "dirlink 0 (as_bytes [97, 98]) 7 (sample_files T_DIR) = Ret 0 t" "dir_ok t 0" "tx_room {} 1 t" "dir_lookup t 0 [97, 98] = Some 7"
      "inodes t ! 1 = inodes (sample_files T_DIR) ! 1" "length (inodes t) = length (inodes (sample_files T_DIR))"
    using dirlink_spec [OF sample_dir(1), of "as_bytes [97, 98]" 7] sample_dir(2,3) sample_files_fields(7) [of 8 T_DIR] sample_files_free [of T_DIR]
    unfolding n okr_iff by (auto simp: link_slot_def)
  have "i_ref (inodes t ! 1) = 0" "1 < length (inodes t)"
    using t(5,6) by (simp_all add: sample_files_fields sample_fs_fields del: replicate.simps)
  then have "\<exists>n\<in>set (inodes t). i_ref n = 0"
    using nth_mem by blast
  from dirlookup_refines_map [OF t(2,3) this, of "as_bytes [97, 98]"] show ?thesis
    using t(1,4) unfolding n okr_iff by (auto simp: names_def)
qed

end
