(* ===== verification/Ide.thy ===== *)
theory Ide
  imports Bio
begin

text \<open>
  The disk driver \<^verbatim>\<open>ide.c\<close>: the queue of buffers, linked through \<^verbatim>\<open>qnext\<close>, the interrupt handler and the
  port writes that start a request. The status bytes that a polling loop reads are arguments, as is the data that
  \<^verbatim>\<open>insl\<close> takes from the data port; a routine is \<open>None\<close> when it is still polling after them. \<open>io_out\<close> is the
  sequence of port writes, and \<open>drive_step\<close> the register interface of the drive: the sector number in four registers and a
  command in the fifth. The waiting of \<^verbatim>\<open>iderw\<close> is one step per wake-up.
\<close>

section \<open>State and operations\<close>

abbreviation (input) FSSIZE :: u32 where "FSSIZE \<equiv> 1000"
abbreviation (input) IDE_BSY :: u8 where "IDE_BSY \<equiv> 0x80"
abbreviation (input) IDE_DRDY :: u8 where "IDE_DRDY \<equiv> 0x40"
abbreviation (input) IDE_DF :: u8 where "IDE_DF \<equiv> 0x20"
abbreviation (input) IDE_ERR :: u8 where "IDE_ERR \<equiv> 0x01"
abbreviation (input) IDE_CMD_READ :: u8 where "IDE_CMD_READ \<equiv> 0x20"
abbreviation (input) IDE_CMD_WRITE :: u8 where "IDE_CMD_WRITE \<equiv> 0x30"

datatype ide_io = Outb nat u8 | Outsl bytes

record ide_state = bio_state +
  idequeue :: "nat option"
  qnext :: "nat \<Rightarrow> nat option"
  havedisk1 :: bool
  io_out :: "ide_io list"

fun idewait :: "u8 list \<Rightarrow> bool \<Rightarrow> int option" where
  "idewait [] checkerr = None"
| "idewait (r # rs) checkerr =
     (if r AND (IDE_BSY OR IDE_DRDY) \<noteq> IDE_DRDY then idewait rs checkerr
      else Some (if checkerr \<and> r AND (IDE_DF OR IDE_ERR) \<noteq> 0 then -1 else 0))"

definition emit :: "ide_io list \<Rightarrow> 'a ide_state_scheme \<Rightarrow> 'a ide_state_scheme" where
  "emit os s = s\<lparr>io_out := io_out s @ os\<rparr>"

text \<open>\<open>probes\<close> are the status bytes of the (at most) 1000 reads that look for the second disk.\<close>

definition ideinit :: "u8 list \<Rightarrow> u8 list \<Rightarrow> 'a ide_state_scheme \<Rightarrow> 'a ide_state_scheme option" where
  "ideinit polls probes s =
     (case idewait polls False of
        None \<Rightarrow> None
      | Some _ \<Rightarrow>
          (let s = emit [Outb 0x1f6 (0xe0 OR push_bit 4 1)] s;
               s = (if \<exists>r\<in>set (take 1000 probes). r \<noteq> 0 then s\<lparr>havedisk1 := True\<rparr> else s)
           in Some (emit [Outb 0x1f6 (0xe0 OR push_bit 4 0)] s)))"

definition idestart :: "u8 list \<Rightarrow> nat option \<Rightarrow> 'a ide_state_scheme \<Rightarrow> (unit, 'a ide_state_scheme) kres option" where
  "idestart polls p s =
     (case p of
        None \<Rightarrow> Some (Panic ''idestart'')
      | Some i \<Rightarrow>
          (let b = bufs s ! i; sector = b_blockno b
           in if FSSIZE \<le> b_blockno b then Some (Panic ''incorrect blockno'')
              else case idewait polls False of
                     None \<Rightarrow> None
                   | Some _ \<Rightarrow>
                       (let s = emit [Outb 0x3f6 0, Outb 0x1f2 1, Outb 0x1f3 (ucast (sector AND 0xff)), Outb 0x1f4 (ucast (drop_bit 8 sector AND 0xff)),
                                      Outb 0x1f5 (ucast (drop_bit 16 sector AND 0xff)),
                                      Outb 0x1f6 (0xe0 OR ucast (push_bit 4 (b_dev b AND 1)) OR ucast (drop_bit 24 sector AND 0x0f))] s
                        in Some (Ret () (if b_flags b AND B_DIRTY \<noteq> 0 then emit [Outb 0x1f7 IDE_CMD_WRITE, Outsl (b_data b)] s
                                         else emit [Outb 0x1f7 IDE_CMD_READ] s)))))"

definition ideintr :: "u8 list \<Rightarrow> bytes \<Rightarrow> u8 list \<Rightarrow> 'a ide_state_scheme \<Rightarrow> (unit, 'a ide_state_scheme) kres option" where
  "ideintr polls dat polls' s =
     (case idequeue s of
        None \<Rightarrow> Some (Ret () s)
      | Some i \<Rightarrow>
          (let s = s\<lparr>idequeue := qnext s i\<rparr>
           in case (if b_flags (bufs s ! i) AND B_DIRTY = 0 then idewait polls True else Some (-1)) of
                None \<Rightarrow> None
              | Some r \<Rightarrow>
                  (let s = (if 0 \<le> r then upd_buf i (\<lambda>b. b\<lparr>b_data := dat\<rparr>) s else s);
                       s = upd_buf i (\<lambda>b. b\<lparr>b_flags := (b_flags b OR B_VALID) AND NOT B_DIRTY\<rparr>) s;
                       s = wakeup (ChanBuf i) s
                   in if idequeue s \<noteq> None then idestart polls' (idequeue s) s else Some (Ret () s))))"

text \<open>The loop that walks to the end of the queue, and the request up to the waiting loop.\<close>

partial_function (option) queue_end :: "(nat \<Rightarrow> nat option) \<Rightarrow> nat \<Rightarrow> nat option" where
  "queue_end nx p = (case nx p of None \<Rightarrow> Some p | Some q \<Rightarrow> queue_end nx q)"

definition append_buf :: "nat \<Rightarrow> 'a ide_state_scheme \<Rightarrow> 'a ide_state_scheme option" where
  "append_buf i s =
     (let s = s\<lparr>qnext := (qnext s)(i := None)\<rparr>
      in case idequeue s of
           None \<Rightarrow> Some (s\<lparr>idequeue := Some i\<rparr>)
         | Some p \<Rightarrow> (case queue_end (qnext s) p of None \<Rightarrow> None | Some q \<Rightarrow> Some (s\<lparr>qnext := (qnext s)(q := Some i)\<rparr>)))"

definition submit :: "u8 list \<Rightarrow> nat \<Rightarrow> 'a ide_state_scheme \<Rightarrow> (unit, 'a ide_state_scheme) kres option" where
  "submit polls i s =
     (case append_buf i s of
        None \<Rightarrow> None
      | Some s \<Rightarrow> if idequeue s = Some i then idestart polls (Some i) s else Some (Ret () s))"

definition ide_wait :: "nat \<Rightarrow> 'a ide_state_scheme \<Rightarrow> (unit, 'a ide_state_scheme) kres" where
  "ide_wait i s = (if b_flags (bufs s ! i) AND (B_VALID OR B_DIRTY) \<noteq> B_VALID then sleep (ChanBuf i) s else Ret () s)"

definition ide_rw :: "u8 list \<Rightarrow> nat \<Rightarrow> 'a ide_state_scheme \<Rightarrow> (unit, 'a ide_state_scheme) kres option" where
  "ide_rw polls i s =
     (let b = bufs s ! i
      in if \<not> holdingsleep (BufLock i) s then Some (Panic ''iderw: buf not locked'')
         else if b_flags b AND (B_VALID OR B_DIRTY) = B_VALID then Some (Panic ''iderw: nothing to do'')
         else if b_dev b \<noteq> 0 \<and> \<not> havedisk1 s then Some (Panic ''iderw: ide disk 1 not present'')
         else (case submit polls i s of None \<Rightarrow> None | Some r \<Rightarrow> Some (bindr r (\<lambda>_ s. ide_wait i s))))"

section \<open>The drive\<close>

text \<open>A command: the drive, the sector, and the data of a write.\<close>

type_synonym ide_cmd = "bool \<times> nat \<times> bytes option"

definition lba :: "(nat \<Rightarrow> u8) \<Rightarrow> nat" where
  "lba r = unat (r 0x1f3) + 256 * unat (r 0x1f4) + 65536 * unat (r 0x1f5) + 16777216 * unat (r 0x1f6 AND 0x0f)"

fun drive_step :: "ide_io \<Rightarrow> (nat \<Rightarrow> u8) \<times> ide_cmd list \<Rightarrow> (nat \<Rightarrow> u8) \<times> ide_cmd list" where
  "drive_step (Outb p v) (r, cs) = (r(p := v), if p = 0x1f7 \<and> v = IDE_CMD_READ then cs @ [(bit (r 0x1f6) 4, lba r, None)] else cs)"
| "drive_step (Outsl d) (r, cs) = (r, if r 0x1f7 = IDE_CMD_WRITE then cs @ [(bit (r 0x1f6) 4, lba r, Some d)] else cs)"

definition issued :: "'a ide_state_scheme \<Rightarrow> ide_cmd list" where
  "issued s = snd (fold drive_step (io_out s) (\<lambda>_. 0, []))"

definition request :: "'a ide_state_scheme \<Rightarrow> nat \<Rightarrow> ide_cmd" where
  "request s i = (let b = bufs s ! i in (bit (b_dev b) 0, unat (b_blockno b), if b_flags b AND B_DIRTY \<noteq> 0 then Some (b_data b) else None))"

definition is_ready :: "u8 list \<Rightarrow> bool" where
  "is_ready polls \<longleftrightarrow> (\<exists>r\<in>set polls. r AND (IDE_BSY OR IDE_DRDY) = IDE_DRDY)"

lemma idewait_ready: "is_ready polls \<Longrightarrow> \<exists>r. idewait polls c = Some r"
  by (induction polls) (auto simp: is_ready_def)

lemma low_byte: "unat (ucast (x AND 0xff) :: u8) = unat x mod 256" for x :: u32
proof -
  have m: "x AND 0xff = x AND mask 8"
    by (simp add: mask_eq_exp_minus_1)
  show ?thesis
    using unat_and_mask [of x 8] unfolding m by (simp add: unsigned_ucast_eq take_bit_eq_mod)
qed

lemma drive_select: "(0xe0 OR ucast (push_bit 4 d AND 0x10)) AND 0x0f = (0 :: u8)" "bit ((0xe0 :: u8) OR ucast (push_bit 4 d AND 0x10)) 4 = bit d 0" for d :: u32
proof -
  have p: "push_bit 4 d AND 0x10 = push_bit 4 (d AND 1)"
    by simp
  have "d AND 1 = 0 \<or> d AND 1 = 1" "bit d 0 \<longleftrightarrow> d AND 1 = 1"
    by (auto simp: and_one_eq odd_iff_mod_2_eq_one bit_0)
  then show "(0xe0 OR ucast (push_bit 4 d AND 0x10)) AND 0x0f = (0 :: u8)" "bit ((0xe0 :: u8) OR ucast (push_bit 4 d AND 0x10)) 4 = bit d 0"
    unfolding p by (elim disjE; simp del: push_bit_and)+
qed

text \<open>The registers hold the sector number, and starting a request gives exactly its command to the drive.\<close>

lemma idestart_issues:
  assumes "b_blockno (bufs s ! i) < FSSIZE" "is_ready polls"
  shows "\<exists>os. idestart polls (Some i) s = Some (Ret () (emit os s)) \<and> issued (emit os s) = issued s @ [request s i]"
proof -
  let ?b = "bufs s ! i"
  let ?n = "b_blockno ?b"
  obtain w where w: "idewait polls False = Some w"
    using idewait_ready [OF assms(2)] by blast
  have n: "unat ?n < 1000"
    using assms(1) by (simp add: word_less_nat_alt)
  have d: "unat (drop_bit 8 ?n) = unat ?n div 256" "unat (drop_bit 16 ?n) = 0" "unat (drop_bit 24 ?n) = 0"
    unfolding unat_drop_bit_eq drop_bit_eq_div [where ?'a = nat] using n by simp_all
  have hi: "drop_bit 16 ?n = 0" "drop_bit 24 ?n = 0"
    using d(2,3) by (simp_all add: unat_eq_0)
  have "unat ?n mod 256 + 256 * (unat ?n div 256 mod 256) = unat ?n"
    using n by (simp add: mod_less)
  then have lba: "lba r = unat ?n" if "r 0x1f3 = ucast (?n AND 0xff)" "r 0x1f4 = ucast (drop_bit 8 ?n AND 0xff)" "r 0x1f5 = 0" "r 0x1f6 AND 0x0f = 0" for r
    using that by (simp add: lba_def low_byte d(1))
  obtain r cs where rc: "fold drive_step (io_out s) (\<lambda>_. 0, []) = (r, cs)"
    by (cases "fold drive_step (io_out s) (\<lambda>_. 0, [])")
  show ?thesis
  proof (cases "b_flags ?b AND B_DIRTY = 0")
    case True
    then show ?thesis
      using w n by (auto simp: idestart_def emit_def Let_def not_le [symmetric] word_le_nat_alt issued_def rc hi lba drive_select request_def intro!: exI)
  next
    case False
    then show ?thesis
      using w n by (auto simp: idestart_def emit_def Let_def not_le [symmetric] word_le_nat_alt issued_def rc hi lba drive_select request_def intro!: exI)
  qed
qed

section \<open>The queue\<close>

fun queue_at :: "(nat \<Rightarrow> nat option) \<Rightarrow> nat option \<Rightarrow> nat list \<Rightarrow> bool" where
  "queue_at nx p [] \<longleftrightarrow> p = None"
| "queue_at nx p (x # xs) \<longleftrightarrow> p = Some x \<and> queue_at nx (nx x) xs"

lemma queue_at_cong: "(\<And>x. x \<in> set xs \<Longrightarrow> nx' x = nx x) \<Longrightarrow> queue_at nx' p xs = queue_at nx p xs"
  by (induction xs arbitrary: p) auto

lemma queue_at_unique: "queue_at nx p xs \<Longrightarrow> queue_at nx p ys \<Longrightarrow> xs = ys"
  by (induction xs arbitrary: p ys) (case_tac ys; auto)+

lemma queue_end_last: "queue_at nx (Some p) xs \<Longrightarrow> queue_end nx p = Some (last xs)"
proof (induction xs arbitrary: p)
  case (Cons x xs)
  then show ?case
    by (subst queue_end.simps) (cases xs; auto split: option.splits)
qed simp

lemma queue_at_snoc: "queue_at nx p xs \<Longrightarrow> distinct xs \<Longrightarrow> i \<notin> set xs \<Longrightarrow> xs \<noteq> [] \<Longrightarrow> nx i = None \<Longrightarrow> queue_at (nx(last xs := Some i)) p (xs @ [i])"
proof (induction xs arbitrary: p)
  case (Cons x xs)
  then show ?case
    by (cases xs) auto
qed simp

lemma append_buf_queue:
  assumes "queue_at (qnext s) (idequeue s) xs" "distinct xs" "i \<notin> set xs"
  obtains t where "append_buf i s = Some t" "queue_at (qnext t) (idequeue t) (xs @ [i])" "bufs t = bufs s" "io_out t = io_out s"
proof (cases xs)
  case Nil
  then show ?thesis
    using assms(1) that [of "s\<lparr>qnext := (qnext s)(i := None), idequeue := Some i\<rparr>"] by (simp add: append_buf_def)
next
  case (Cons p ps)
  let ?nx = "(qnext s)(i := None)"
  have q: "queue_at ?nx (Some p) xs" "idequeue s = Some p"
  proof -
    have "queue_at ?nx (idequeue s) xs"
      using assms(1,3) by (subst queue_at_cong [where nx = "qnext s"]) auto
    then show "queue_at ?nx (Some p) xs" "idequeue s = Some p"
      using Cons by simp_all
  qed
  then have "append_buf i s = Some (s\<lparr>qnext := ?nx(last xs := Some i)\<rparr>)"
    using queue_end_last [OF q(1)] by (simp add: append_buf_def Let_def)
  moreover have "queue_at (?nx(last xs := Some i)) (Some p) (xs @ [i])"
    using q(1) assms(2,3) Cons by (intro queue_at_snoc) auto
  ultimately show ?thesis
    using that q(2) by simp
qed

text \<open>A buffer that waits for the disk, and the invariant: \<open>R\<close> are the requests in the order of their arrival, \<open>k\<close> of them have been completed.\<close>

definition waiting :: "'a ide_state_scheme \<Rightarrow> nat \<Rightarrow> bool" where
  "waiting s i \<longleftrightarrow> i < length (bufs s) \<and> b_blockno (bufs s ! i) < FSSIZE \<and> b_flags (bufs s ! i) AND (B_VALID OR B_DIRTY) \<noteq> B_VALID"

definition ide_inv :: "'a ide_state_scheme \<Rightarrow> ide_cmd list \<Rightarrow> nat \<Rightarrow> bool" where
  "ide_inv s R k \<longleftrightarrow> (\<exists>xs. queue_at (qnext s) (idequeue s) xs \<and> distinct xs \<and> (\<forall>i\<in>set xs. waiting s i) \<and>
     k \<le> length R \<and> map (request s) xs = drop k R \<and> issued s = take (if xs = [] then k else Suc k) R)"

lemma emit_fields [simp]:
  "request (emit os s) = request s" "waiting (emit os s) = waiting s" "qnext (emit os s) = qnext s" "idequeue (emit os s) = idequeue s" "bufs (emit os s) = bufs s"
  by (simp_all add: fun_eq_iff request_def waiting_def emit_def)

lemma submit_ok:
  assumes inv: "ide_inv s R k" and i: "waiting s i" "\<And>xs. queue_at (qnext s) (idequeue s) xs \<Longrightarrow> i \<notin> set xs" and polls: "is_ready polls"
  shows "\<exists>t. submit polls i s = Some (Ret () t) \<and> ide_inv t (R @ [request s i]) k \<and> bufs t = bufs s"
proof -
  obtain xs where q: "queue_at (qnext s) (idequeue s) xs" "distinct xs" "\<forall>j\<in>set xs. waiting s j" "k \<le> length R" "map (request s) xs = drop k R"
    "issued s = take (if xs = [] then k else Suc k) R"
    using inv by (auto simp: ide_inv_def)
  have ix: "i \<notin> set xs"
    using i(2) q(1) .
  obtain u where u: "append_buf i s = Some u" "queue_at (qnext u) (idequeue u) (xs @ [i])" "bufs u = bufs s" "io_out u = io_out s"
    by (rule append_buf_queue [OF q(1,2) ix])
  have same: "request u = request s" "waiting u = waiting s" "issued u = issued s"
    using u(3,4) by (simp_all add: request_def waiting_def issued_def fun_eq_iff)
  have len: "length xs = length R - k"
    using arg_cong [OF q(5), of length] by simp
  show ?thesis
  proof (cases xs)
    case Nil
    then have p: "idequeue u = Some i" "k = length R"
      using u(2) len q(4) by simp_all
    obtain os where os: "idestart polls (Some i) u = Some (Ret () (emit os u))" "issued (emit os u) = issued u @ [request u i]"
      using idestart_issues [of u i polls] polls i(1) u(3) by (auto simp: waiting_def)
    have "ide_inv (emit os u) (R @ [request s i]) k"
      unfolding ide_inv_def using u i(1) p os(2) q(6) Nil same
      by (intro exI [of _ "[i]"]) auto
    then show ?thesis
      using u(1,3) p(1) os(1) by (simp add: submit_def)
  next
    case (Cons p ps)
    have "idequeue u \<noteq> Some i"
      using u(2) ix Cons by auto
    moreover have "ide_inv u (R @ [request s i]) k"
      unfolding ide_inv_def using u(2) q i(1) ix same len Cons by (intro exI [of _ "xs @ [i]"]) auto
    ultimately show ?thesis
      using u(1,3) by (simp add: submit_def)
  qed
qed

text \<open>The interrupt completes the request at the front, wakes its process and starts the next one.\<close>

definition completed :: "u8 list \<Rightarrow> bytes \<Rightarrow> nat \<Rightarrow> 'a ide_state_scheme \<Rightarrow> 'a ide_state_scheme \<Rightarrow> bool" where
  "completed polls dat i s t \<longleftrightarrow>
     b_flags (bufs t ! i) AND (B_VALID OR B_DIRTY) = B_VALID \<and>
     b_data (bufs t ! i) = (if b_flags (bufs s ! i) AND B_DIRTY = 0 \<and> idewait polls True = Some 0 then dat else b_data (bufs s ! i)) \<and>
     (\<forall>j. j \<noteq> i \<longrightarrow> bufs t ! j = bufs s ! j) \<and> (\<forall>p\<in>set (procs t). \<not> (p_state p = SLEEPING \<and> p_chan p = Some (ChanBuf i)))"

lemma idewait_values: "idewait polls c = Some r \<Longrightarrow> r = 0 \<or> r = -1"
  by (induction polls) (auto split: if_splits)

lemma complete_head:
  assumes "idequeue s = Some i" "is_ready polls" "i < length (bufs s)"
  obtains u where "ideintr polls dat polls' s = (if idequeue u \<noteq> None then idestart polls' (idequeue u) u else Some (Ret () u))"
    "idequeue u = qnext s i" "qnext u = qnext s" "io_out u = io_out s" "length (bufs u) = length (bufs s)" "completed polls dat i s u"
proof -
  let ?s = "s\<lparr>idequeue := qnext s i\<rparr>"
  obtain r where r: "(if b_flags (bufs ?s ! i) AND B_DIRTY = 0 then idewait polls True else Some (-1)) = Some r"
    using idewait_ready [OF assms(2), of True] by (cases "b_flags (bufs ?s ! i) AND B_DIRTY = 0") auto
  let ?t = "if 0 \<le> r then upd_buf i (\<lambda>b. b\<lparr>b_data := dat\<rparr>) ?s else ?s"
  let ?u = "wakeup (ChanBuf i) (upd_buf i (\<lambda>b. b\<lparr>b_flags := (b_flags b OR B_VALID) AND NOT B_DIRTY\<rparr>) ?t)"
  have fl: "((f OR B_VALID) AND NOT B_DIRTY) AND (B_VALID OR B_DIRTY) = B_VALID" for f
    unfolding flags_nothing_to_do using bit_flag_updates [of 2 4, OF bit_two_four] by simp
  have rd: "0 \<le> r \<longleftrightarrow> b_flags (bufs s ! i) AND B_DIRTY = 0 \<and> idewait polls True = Some 0"
    using r idewait_values [of polls True r] by (auto split: if_splits)
  have "completed polls dat i s ?u"
    using assms(3) rd fl by (auto simp: completed_def wakeup_def wakeup1_def upd_buf_def)
  moreover have "ideintr polls dat polls' s = (if idequeue ?u \<noteq> None then idestart polls' (idequeue ?u) ?u else Some (Ret () ?u))"
    using assms(1) r by (simp add: ideintr_def Let_def)
  ultimately show ?thesis
    by (intro that [of ?u]) (simp_all add: wakeup_def wakeup1_def upd_buf_def)
qed

lemma ideintr_ok:
  assumes inv: "ide_inv s R k" and i: "idequeue s = Some i" and polls: "is_ready polls" "is_ready polls'"
  shows "\<exists>t. ideintr polls dat polls' s = Some (Ret () t) \<and> ide_inv t R (Suc k) \<and> completed polls dat i s t"
proof -
  obtain xs where q: "queue_at (qnext s) (idequeue s) xs" "distinct xs" "\<forall>j\<in>set xs. waiting s j" "k \<le> length R" "map (request s) xs = drop k R"
    "issued s = take (if xs = [] then k else Suc k) R"
    using inv by (auto simp: ide_inv_def)
  then obtain ys where ys: "xs = i # ys" "queue_at (qnext s) (qnext s i) ys" "i \<notin> set ys" "distinct ys"
    using i by (cases xs) auto
  have R: "k < length R" "map (request s) ys = drop (Suc k) R"
  proof -
    have "drop k R = request s i # map (request s) ys"
      using q(5) ys(1) by simp
    then show "k < length R" "map (request s) ys = drop (Suc k) R"
      by (metis drop_eq_Nil list.distinct(1) not_le) (metis \<open>drop k R = request s i # map (request s) ys\<close> drop_Suc list.sel(3) tl_drop)
  qed
  obtain u where u: "ideintr polls dat polls' s = (if idequeue u \<noteq> None then idestart polls' (idequeue u) u else Some (Ret () u))"
    "idequeue u = qnext s i" "qnext u = qnext s" "io_out u = io_out s" "length (bufs u) = length (bufs s)" "completed polls dat i s u"
    by (rule complete_head [OF i polls(1), of dat polls']) (use q(3) ys(1) in \<open>auto simp: waiting_def\<close>)
  have same: "request u j = request s j" "waiting u j = waiting s j" if "j \<in> set ys" for j
    using u(5,6) ys(3) that by (auto simp: request_def waiting_def completed_def)
  have iss: "issued u = take (Suc k) R"
    using q(6) ys(1) u(4) by (simp add: issued_def)
  have m: "map (request u) ys = drop (Suc k) R"
    using R(2) same(1) by (metis map_cong)
  show ?thesis
  proof (cases ys)
    case Nil
    then have "ide_inv u R (Suc k)"
      unfolding ide_inv_def using ys u R iss m by (intro exI [of _ "[]"]) auto
    then show ?thesis
      using u ys(2) Nil by auto
  next
    case (Cons j zs)
    have j: "idequeue u = Some j" "waiting u j"
      using ys u(2) Cons q(3) same(2) by auto
    obtain os where os: "idestart polls' (Some j) u = Some (Ret () (emit os u))" "issued (emit os u) = issued u @ [request u j]"
      using idestart_issues [of u j polls'] polls(2) j(2) by (auto simp: waiting_def)
    have "take (Suc (Suc k)) R = take (Suc k) R @ [request u j]"
      using m Cons by (metis append_eq_conv_conj list.simps(9) take_Suc_conv_app_nth drop_eq_Nil hd_drop_conv_nth list.distinct(1) list.sel(1) not_le)
    then have "ide_inv (emit os u) R (Suc k)"
      unfolding ide_inv_def using ys u(2,3) R os(2) iss m q(3) same(2) Cons
      by (intro exI [of _ ys]) auto
    moreover have "completed polls dat i s (emit os u)"
      using u(6) by (simp add: completed_def emit_def)
    ultimately show ?thesis
      using u(1) j(1) os(1) by auto
  qed
qed

section \<open>All runs of the driver\<close>

text \<open>
  The runs of the driver from a quiet start: processes submit requests for buffers they have locked and that are not queued, and the disk
  interrupts at any time. \<open>R\<close> collects the requests in the order of their arrival and \<open>k\<close> counts the completed ones.
\<close>

inductive ide_run :: "ide_state \<Rightarrow> ide_cmd list \<Rightarrow> nat \<Rightarrow> bool" where
  start: "idequeue s = None \<Longrightarrow> issued s = [] \<Longrightarrow> ide_run s [] 0"
| submit: "ide_run s R k \<Longrightarrow> waiting s i \<Longrightarrow> (\<And>xs. queue_at (qnext s) (idequeue s) xs \<Longrightarrow> i \<notin> set xs) \<Longrightarrow> is_ready polls \<Longrightarrow>
    submit polls i s = Some (Ret () t) \<Longrightarrow> ide_run t (R @ [request s i]) k"
| interrupt: "ide_run s R k \<Longrightarrow> is_ready polls \<Longrightarrow> is_ready polls' \<Longrightarrow> ideintr polls dat polls' s = Some (Ret () t) \<Longrightarrow>
    ide_run t R (if idequeue s = None then k else Suc k)"
| other: "ide_run s R k \<Longrightarrow> (\<And>xs i. queue_at (qnext s) (idequeue s) xs \<Longrightarrow> i \<in> set xs \<Longrightarrow> bufs t ! i = bufs s ! i) \<Longrightarrow> length (bufs t) = length (bufs s) \<Longrightarrow>
    idequeue t = idequeue s \<Longrightarrow> qnext t = qnext s \<Longrightarrow> io_out t = io_out s \<Longrightarrow> ide_run t R k"

lemma ide_run_inv: "ide_run s R k \<Longrightarrow> ide_inv s R k"
proof (induction rule: ide_run.induct)
  case (start s)
  then show ?case
    by (auto simp: ide_inv_def intro: exI [of _ "[]"])
next
  case (submit s R k i polls t)
  then show ?case
    using submit_ok [of s R k i polls] by auto
next
  case (interrupt s R k polls polls' dat t)
  show ?case
  proof (cases "idequeue s")
    case None
    then show ?thesis
      using interrupt by (simp add: ideintr_def)
  next
    case (Some i)
    then show ?thesis
      using interrupt ideintr_ok [of s R k i polls polls' dat] by auto
  qed
next
  case (other s R k t)
  then obtain xs where q: "queue_at (qnext s) (idequeue s) xs" "distinct xs" "\<forall>j\<in>set xs. waiting s j" "k \<le> length R" "map (request s) xs = drop k R"
    "issued s = take (if xs = [] then k else Suc k) R"
    by (auto simp: ide_inv_def)
  have same: "request t j = request s j" "waiting t j = waiting s j" if "j \<in> set xs" for j
    using other.hyps(2) [OF q(1) that] other.hyps(3) by (simp_all add: request_def waiting_def)
  have m: "map (request t) xs = map (request s) xs"
    using same(1) by simp
  show ?case
    unfolding ide_inv_def using q other.hyps(4-6) same(2) m
    by (intro exI [of _ xs]) (simp add: issued_def)
qed

section \<open>Properties\<close>

text \<open>
  C6: The disk driver serves every request, in order. In every run, the commands that the drive has received are the requests in the order
  of their arrival, each with its sector number, its direction and its data: all completed ones and the one at the front of the queue, if
  there is one, and never a later one. And the next interrupt completes the request at the front: its buffer becomes valid
  and clean, a read gets the data of the drive unless the drive reports an error, no other buffer changes, no
  process stays asleep on the buffer, and the command of the next request goes out.
\<close>

theorem ide_serves_in_order:
  assumes "ide_run s R k"
  shows "k \<le> length R \<and> issued s = take (if idequeue s = None then k else Suc k) R \<and>
    (\<forall>i polls dat polls'. idequeue s = Some i \<and> is_ready polls \<and> is_ready polls' \<longrightarrow>
      (\<exists>t. ideintr polls dat polls' s = Some (Ret () t) \<and> completed polls dat i s t \<and> issued t = take (if idequeue t = None then Suc k else Suc (Suc k)) R))"
proof -
  have iss: "k \<le> length R" "issued s = take (if idequeue s = None then k else Suc k) R" if i: "ide_inv s R k" for s :: ide_state and R k
  proof -
    obtain xs where "queue_at (qnext s) (idequeue s) xs" "k \<le> length R" "issued s = take (if xs = [] then k else Suc k) R"
      using i unfolding ide_inv_def by blast
    then show "k \<le> length R" "issued s = take (if idequeue s = None then k else Suc k) R"
      by (cases xs; simp)+
  qed
  have inv: "ide_inv s R k"
    using assms by (rule ide_run_inv)
  show ?thesis
    using iss [OF inv] ideintr_ok [OF inv] iss(2) by (metis (no_types, lifting))
qed

definition sample_ide :: ide_state where
  "sample_ide = bio_state.extend (boot_bio\<lparr>bufs := (bufs boot_bio)[3 := \<lparr>b_flags = 0, b_dev = 1, b_blockno = 300, b_refcnt = 1, b_data = \<lambda>_. 0\<rparr>]\<rparr>)
     (ide_state.fields None (\<lambda>_. None) True [])"

theorem ide_serves_in_order_witness:
  "\<exists>s t. submit [0xD0, 0x50] 3 sample_ide = Some (Ret () s) \<and> issued s = [(True, 300, None)] \<and>
    ideintr [0x50] (\<lambda>_. 9) [0x50] s = Some (Ret () t) \<and> b_data (bufs t ! 3) = (\<lambda>_. 9)"
proof -
  have b: "bufs sample_ide ! 3 = \<lparr>b_flags = 0, b_dev = 1, b_blockno = 300, b_refcnt = 1, b_data = \<lambda>_. 0\<rparr>" "length (bufs sample_ide) = 30"
    "idequeue sample_ide = None" "qnext sample_ide = (\<lambda>_. None)" "io_out sample_ide = []"
    by (simp_all add: sample_ide_def bio_state.defs ide_state.defs boot_bio_fields)
  have w: "waiting sample_ide 3" "request sample_ide 3 = (True, 300, None)" "is_ready [0xD0, 0x50]" "is_ready [0x50]" "idewait [0x50] True = Some 0"
    by (simp_all add: waiting_def request_def is_ready_def b)
  have r: "ide_run sample_ide [] 0"
    by (rule ide_run.start) (simp_all add: b issued_def)
  have q: "3 \<notin> set xs" if "queue_at (qnext sample_ide) (idequeue sample_ide) xs" for xs
    using that by (cases xs) (simp_all add: b)
  obtain s where s: "submit [0xD0, 0x50] 3 sample_ide = Some (Ret () s)" "bufs s = bufs sample_ide"
    using submit_ok [OF ide_run_inv [OF r] w(1) q w(3)] by blast
  have run: "ide_run s [(True, 300, None)] 0"
    using ide_run.submit [OF r w(1) q w(3) s(1)] w(2) by simp
  have h: "idequeue s = Some 3"
    using s(1) by (auto simp: submit_def append_buf_def b idestart_def emit_def Let_def)
  obtain t where t: "ideintr [0x50] (\<lambda>_. 9) [0x50] s = Some (Ret () t)" "completed [0x50] (\<lambda>_. 9) 3 s t"
    using ide_serves_in_order [OF run] h w(4) by blast
  have "issued s = [(True, 300, None)]"
    using ide_serves_in_order [OF run] h by simp
  moreover have "b_data (bufs t ! 3) = (\<lambda>_. 9)"
    using t(2) w(5) s(2) by (simp add: completed_def b)
  ultimately show ?thesis
    using s(1) t(1) by blast
qed

end
