(* ===== verification/Mp.thy ===== *)
theory Mp
  imports Memory
begin

text \<open>
  The search for the tables that describe the processors, \<^verbatim>\<open>mp.c\<close>, on the memory the BIOS leaves. \<open>mp_state\<close> is what
  \<^verbatim>\<open>mpinit\<close> sets: the local APIC numbers of the CPUs found (\<^verbatim>\<open>ncpu\<close> is their number), the I/O APIC, the
  address of the local APIC and whether the IMCR was written. The loop over the entries of the table need not end, so it is a
  partial function with \<open>None\<close> for a loop that runs forever.
\<close>

section \<open>Operations\<close>

abbreviation (input) NCPU :: nat where "NCPU \<equiv> 8"

record mp_state =
  apicids :: "u8 list"
  ioapicid :: u8
  lapic :: u32
  imcr_masked :: bool

definition bytes_at :: "mem \<Rightarrow> u32 \<Rightarrow> nat \<Rightarrow> u8 list" where
  "bytes_at m p n = map (\<lambda>k. m (p + of_nat k)) [0..<n]"

primrec sum_loop :: "nat \<Rightarrow> mem \<Rightarrow> u32 \<Rightarrow> int \<Rightarrow> int" where
  "sum_loop 0 m a acc = acc"
| "sum_loop (Suc n) m a acc = sum_loop n m (a + 1) (acc + uint (m a))"

definition mp_sum :: "mem \<Rightarrow> u32 \<Rightarrow> nat \<Rightarrow> u8" where
  "mp_sum m a len = word_of_int (sum_loop len m a 0)"

definition ld16 :: "mem \<Rightarrow> u32 \<Rightarrow> nat" where
  "ld16 m p = unat (m p) + 256 * unat (m (p + 1))"

definition mpsearch1 :: "mem \<Rightarrow> u32 \<Rightarrow> nat \<Rightarrow> u32" where
  "mpsearch1 m a len =
     (case find (\<lambda>p. bytes_at m p 4 = [95, 77, 80, 95] \<and> mp_sum m p 16 = 0) (map (\<lambda>k. P2V a + of_nat (16 * k)) [0..<(len + 15) div 16]) of
        Some p \<Rightarrow> p
      | None \<Rightarrow> 0)"

definition mpsearch :: "mem \<Rightarrow> u32" where
  "mpsearch m =
     (let bda = P2V 0x400; p = push_bit 4 (of_nat (ld16 m (bda + 0x0E))) :: u32;
          mp = (if p \<noteq> 0 then mpsearch1 m p 1024
                else mpsearch1 m (of_nat (ld16 m (bda + 0x13) * 1024) - 1024) 1024)
      in if mp \<noteq> 0 then mp else mpsearch1 m 0xF0000 0x10000)"

definition mpconfig :: "mem \<Rightarrow> (u32 \<times> u32) option" where
  "mpconfig m =
     (let mp = mpsearch m
      in if mp = 0 \<or> ld32 m (mp + 4) = 0 then None
         else let conf = P2V (ld32 m (mp + 4))
              in if bytes_at m conf 4 \<noteq> [80, 67, 77, 80] then None
                 else if m (conf + 6) \<noteq> 1 \<and> m (conf + 6) \<noteq> 4 then None
                 else if mp_sum m conf (ld16 m (conf + 4)) \<noteq> 0 then None
                 else Some (mp, conf))"

partial_function (option) mp_entries :: "mem \<Rightarrow> u32 \<Rightarrow> u32 \<Rightarrow> bool \<Rightarrow> mp_state \<Rightarrow> (bool \<times> mp_state) option" where
  "mp_entries m e p ismp s =
     (if p < e then
        (if m p = 0 then
           mp_entries m e (p + 20) ismp (if length (apicids s) < NCPU then s\<lparr>apicids := apicids s @ [m (p + 1)]\<rparr> else s)
         else if m p = 2 then mp_entries m e (p + 8) ismp (s\<lparr>ioapicid := m (p + 1)\<rparr>)
         else if m p = 1 \<or> m p = 3 \<or> m p = 4 then mp_entries m e (p + 8) ismp s
         else mp_entries m e p False s)
      else Some (ismp, s))"

definition mpinit :: "mem \<Rightarrow> mp_state \<Rightarrow> (unit, mp_state) kres option" where
  "mpinit m s =
     (case mpconfig m of
        None \<Rightarrow> Some (Panic ''Expect to run on an SMP'')
      | Some (mp, conf) \<Rightarrow>
          (case mp_entries m (conf + of_nat (ld16 m (conf + 4))) (conf + 44) True (s\<lparr>lapic := ld32 m (conf + 36)\<rparr>) of
             None \<Rightarrow> None
           | Some (ismp, s) \<Rightarrow>
               Some (if \<not> ismp then Panic (''Didn'' @ [CHR 0x27] @ ''t find a suitable machine'')
                     else Ret () (if m (mp + 12) \<noteq> 0 then s\<lparr>imcr_masked := True\<rparr> else s))))"

section \<open>The checksum\<close>

lemma sum_loop_sum: "sum_loop n m a acc = acc + (\<Sum>k<n. uint (m (a + of_nat k)))"
proof (induction n arbitrary: a acc)
  case (Suc n)
  then show ?case
    by (simp add: sum.lessThan_Suc_shift ac_simps del: sum.lessThan_Suc)
qed simp

lemma word_zero: "(word_of_int x :: u8) = 0 \<longleftrightarrow> 256 dvd x"
  using word_of_int_eq_iff [where ?'a = 8, of x 0] by (simp add: take_bit_eq_mod dvd_eq_mod_eq_0)

lemma mp_sum_zero: "mp_sum m a n = 0 \<longleftrightarrow> 256 dvd (\<Sum>k<n. uint (m (a + of_nat k)))"
  unfolding mp_sum_def sum_loop_sum word_zero by simp

section \<open>The entries of the table\<close>

text \<open>\<open>entries m p es q\<close>: from \<open>p\<close> on, memory holds the entries \<open>es\<close>, and \<open>q\<close> is the address after them.\<close>

datatype mp_entry = Processor u8 | Ioapic u8 | Other

fun entries :: "mem \<Rightarrow> u32 \<Rightarrow> mp_entry list \<Rightarrow> u32 \<Rightarrow> bool" where
  "entries m p [] q \<longleftrightarrow> q = p"
| "entries m p (Processor a # es) q \<longleftrightarrow> m p = 0 \<and> m (p + 1) = a \<and> unat p + 20 < 4294967296 \<and> entries m (p + 20) es q"
| "entries m p (Ioapic a # es) q \<longleftrightarrow> m p = 2 \<and> m (p + 1) = a \<and> unat p + 8 < 4294967296 \<and> entries m (p + 8) es q"
| "entries m p (Other # es) q \<longleftrightarrow> m p \<in> {1, 3, 4} \<and> unat p + 8 < 4294967296 \<and> entries m (p + 8) es q"

fun found_cpus :: "mp_entry list \<Rightarrow> u8 list" where
  "found_cpus [] = []"
| "found_cpus (Processor a # es) = a # found_cpus es"
| "found_cpus (_ # es) = found_cpus es"

fun found_ioapic :: "u8 \<Rightarrow> mp_entry list \<Rightarrow> u8" where
  "found_ioapic i [] = i"
| "found_ioapic i (Ioapic a # es) = found_ioapic a es"
| "found_ioapic i (_ # es) = found_ioapic i es"

lemma entries_grow: "entries m p es q \<Longrightarrow> p \<le> q"
proof (induction m p es q rule: entries.induct)
  case (2 m p a es q)
  then show ?case
    using unat_add_of_nat_u32 [of p 20] by (simp add: word_le_nat_alt)
next
  case (3 m p a es q)
  then show ?case
    using unat_add_of_nat_u32 [of p 8] by (simp add: word_le_nat_alt)
next
  case (4 m p es q)
  then show ?case
    using unat_add_of_nat_u32 [of p 8] by (simp add: word_le_nat_alt)
qed simp

lemma step_below:
  assumes "entries m (p + of_nat k) es q" "0 < k" "unat p + k < 4294967296" "q \<le> e"
  shows "p < e"
proof -
  have "unat p < unat (p + of_nat k)"
    using unat_add_of_nat_u32 [of p k] assms(2,3) by simp
  then show ?thesis
    using entries_grow [OF assms(1)] assms(4) by (simp add: word_less_nat_alt word_le_nat_alt)
qed

lemma mp_entries_prefix:
  "entries m p es q \<Longrightarrow> q \<le> e \<Longrightarrow> length (apicids s) \<le> NCPU \<Longrightarrow>
   mp_entries m e p ismp s = mp_entries m e q ismp (s\<lparr>apicids := take NCPU (apicids s @ found_cpus es), ioapicid := found_ioapic (ioapicid s) es\<rparr>)"
proof (induction m p es q arbitrary: s rule: entries.induct)
  case (2 m p a es q)
  have p: "p < e" "m p = 0" "m (p + 1) = a" "entries m (p + 20) es q"
    using 2 step_below [of m p 20 es q e] by simp_all
  let ?s = "if length (apicids s) < NCPU then s\<lparr>apicids := apicids s @ [a]\<rparr> else s"
  have "mp_entries m e p ismp s = mp_entries m e (p + 20) ismp ?s"
    using p(1-3) by (subst mp_entries.simps) simp
  also have "\<dots> = mp_entries m e q ismp (?s\<lparr>apicids := take NCPU (apicids ?s @ found_cpus es), ioapicid := found_ioapic (ioapicid ?s) es\<rparr>)"
    using 2(4) by (intro 2(1) p(4) 2(3)) simp
  also have "?s\<lparr>apicids := take NCPU (apicids ?s @ found_cpus es), ioapicid := found_ioapic (ioapicid ?s) es\<rparr> =
      s\<lparr>apicids := take NCPU (apicids s @ found_cpus (Processor a # es)), ioapicid := found_ioapic (ioapicid s) (Processor a # es)\<rparr>"
    using 2(4) by (auto simp: take_Cons')
  finally show ?case .
next
  case (3 m p a es q)
  have p: "p < e" "m p = 2" "m (p + 1) = a" "entries m (p + 8) es q"
    using 3 step_below [of m p 8 es q e] by simp_all
  then have "mp_entries m e p ismp s = mp_entries m e (p + 8) ismp (s\<lparr>ioapicid := a\<rparr>)"
    by (subst mp_entries.simps) simp
  then show ?case
    using 3(1) [OF p(4) 3(3), of "s\<lparr>ioapicid := a\<rparr>"] 3(4) by simp
next
  case (4 m p es q)
  have p: "p < e" "m p = 1 \<or> m p = 3 \<or> m p = 4" "entries m (p + 8) es q"
    using 4 step_below [of m p 8 es q e] by auto
  then have "mp_entries m e p ismp s = mp_entries m e (p + 8) ismp s"
    by (subst mp_entries.simps) auto
  then show ?case
    using 4(1) [OF p(3) 4(3,4)] by simp
qed simp

text \<open>At an entry of an unknown type the loop stands still.\<close>

lemma mp_entries_stuck:
  assumes "mp_entries m e p ismp s = Some y" "p < e"
  shows "m p \<le> 4"
proof -
  have "p < e \<longrightarrow> m p \<le> 4"
    using assms(1)
    by (rule mp_entries.raw_induct [rotated]) (auto split: if_splits)
  then show ?thesis
    using assms(2) by simp
qed

section \<open>Properties\<close>

text \<open>
  C39: \<^verbatim>\<open>mpinit\<close> on a machine whose configuration table is found with its signature and checksum. If the entries fill the table,
  it returns with the APIC numbers of the first eight processors in the order of the table, the last I/O APIC and the address
  of the local APIC. If they are followed by an entry of an unknown type, it does not panic, as it means to: its loop leaves the
  \<^verbatim>\<open>switch\<close> only and stays at that entry forever.
\<close>

theorem mpinit_reads_table:
  assumes "mpconfig m = Some (mp, conf)" "entries m (conf + 44) es q" "apicids s = []"
  shows "(q = conf + of_nat (ld16 m (conf + 4)) \<longrightarrow>
      (\<exists>t. mpinit m s = Some (Ret () t) \<and> apicids t = take NCPU (found_cpus es) \<and> ioapicid t = found_ioapic (ioapicid s) es \<and> lapic t = ld32 m (conf + 36))) \<and>
    (q < conf + of_nat (ld16 m (conf + 4)) \<and> 4 < m q \<longrightarrow> mpinit m s = None)"
proof -
  let ?e = "conf + of_nat (ld16 m (conf + 4))"
  let ?s = "s\<lparr>lapic := ld32 m (conf + 36)\<rparr>"
  have walk: "mp_entries m ?e (conf + 44) True ?s = mp_entries m ?e q True (?s\<lparr>apicids := take NCPU (found_cpus es), ioapicid := found_ioapic (ioapicid s) es\<rparr>)" if "q \<le> ?e"
    using mp_entries_prefix [OF assms(2) that, of ?s True] assms(3) by simp
  have fin: "mp_entries m q q True t = Some (True, t)" for t
    by (subst mp_entries.simps) simp
  have stuck: "mp_entries m ?e q True t = None" if "q < ?e" "4 < m q" for t
    using mp_entries_stuck [of m ?e q True t] that by (cases "mp_entries m ?e q True t") auto
  show ?thesis
    using walk fin stuck assms(1) by (auto simp: mpinit_def)
qed

definition sample_table :: "u8 list" where
  "sample_table = [95, 77, 80, 95, 16, 252, 9, 0, 1, 4, 138, 0, 1, 0, 0, 0, 80, 67, 77, 80, 72, 0, 4, 173, 0, 0, 0, 0, 0, 0, 0, 0, 0, 0, 0, 0, 0, 0, 0, 0, 0, 0, 0, 0, 0, 0, 0, 0, 0, 0, 2, 0, 0, 0, 224, 254, 0, 0, 0, 0, 0, 5, 20, 3, 0, 0, 0, 0, 0, 0, 0, 0, 0, 0, 0, 0, 0, 0, 0, 0, 2, 9, 17, 1, 0, 0, 192, 254]"

definition sample_bios :: mem where
  "sample_bios a =
     (if a = 0x8000040E then 0xC0 else if a = 0x8000040F then 0x9F
      else if unat (a - 0x8009FC00) < 88 then sample_table ! unat (a - 0x8009FC00) else 0)"

lemma sample_bytes:
  assumes "k + n \<le> 88"
  shows "bytes_at sample_bios (0x8009FC00 + of_nat k) n = take n (drop k sample_table)"
proof (rule nth_equalityI)
  fix i
  assume "i < length (bytes_at sample_bios (0x8009FC00 + of_nat k) n)"
  then have i: "i < n"
    by (simp add: bytes_at_def)
  have u: "unat (of_nat (k + i) :: u32) = k + i"
    using assms i unat_add_of_nat_u32 [of 0 "k + i"] by simp
  have a: "unat (0x8009FC00 + of_nat k + of_nat i :: u32) = 0x8009FC00 + (k + i)"
    using assms i unat_add_of_nat_u32 [of "0x8009FC00" "k + i"] by (simp add: add.assoc)
  have "(0x8009FC00 + of_nat k + of_nat i) - 0x8009FC00 = (of_nat (k + i) :: u32)"
    by simp
  moreover have "0x8009FC00 + of_nat k + of_nat i \<noteq> (0x8000040E :: u32)" "0x8009FC00 + of_nat k + of_nat i \<noteq> (0x8000040F :: u32)"
    using a by (auto simp: word_unat_eq_iff)
  ultimately show "bytes_at sample_bios (0x8009FC00 + of_nat k) n ! i = take n (drop k sample_table) ! i"
    using assms i u by (simp add: bytes_at_def sample_bios_def sample_table_def)
qed (use assms in \<open>simp add: bytes_at_def sample_table_def\<close>)

lemma mp_sum_bytes: "mp_sum m a n = sum_list (bytes_at m a n)"
  unfolding mp_sum_def sum_loop_sum bytes_at_def by (simp add: interv_sum_list_conv_sum_set_nat lessThan_atLeast0)

theorem mpinit_reads_table_witness:
  "\<exists>t. mpinit sample_bios \<lparr>apicids = [], ioapicid = 0, lapic = 0, imcr_masked = False\<rparr> = Some (Ret () t) \<and> apicids t = [5] \<and> ioapicid t = 9 \<and> lapic t = 0xFEE00000"
proof -
  have b: "bytes_at sample_bios 0x8009FC00 n = take n sample_table" if "n \<le> 88" for n
    using sample_bytes [of 0 n] that by simp
  have b': "bytes_at sample_bios 0x8009FC10 n = take n (drop 16 sample_table)" if "n \<le> 72" for n
    using sample_bytes [of 16 n] that by simp
  have c0: "ld16 sample_bios 0x8000040E = 0x9FC0"
    by (simp add: ld16_def sample_bios_def)
  have "find (\<lambda>p. bytes_at sample_bios p 4 = [95, 77, 80, 95] \<and> mp_sum sample_bios p 16 = 0) (map (\<lambda>k. 0x8009FC00 + of_nat (16 * k)) (0 # ks)) = Some 0x8009FC00" for ks
    by (simp add: b mp_sum_bytes) (simp add: sample_table_def)
  then have c1: "mpsearch sample_bios = 0x8009FC00"
    using upt_conv_Cons [of 0 64] by (simp add: mpsearch_def mpsearch1_def P2V_def c0)
  have c2: "ld32 sample_bios 0x8009FC04 = 0x9FC10" "ld16 sample_bios 0x8009FC14 = 72" "ld32 sample_bios 0x8009FC34 = 0xFEE00000"
    by (simp_all add: ld32_def rd32_def ld16_def sample_bios_def sample_table_def)
  have c: "mpconfig sample_bios = Some (0x8009FC00, 0x8009FC10)"
    by (simp add: mpconfig_def c1 c2 P2V_def b' mp_sum_bytes) (simp add: sample_bios_def sample_table_def)
  have e: "entries sample_bios (0x8009FC10 + 44) [Processor 5, Ioapic 9] 0x8009FC58"
    by (simp add: sample_bios_def sample_table_def)
  show ?thesis
    using mpinit_reads_table [OF c e, of "\<lparr>apicids = [], ioapicid = 0, lapic = 0, imcr_masked = False\<rparr>"] by (simp add: c2)
qed

end
