(* ===== verification/Kbd.thy ===== *)
theory Kbd
  imports Console
begin

text \<open>
  The keyboard driver, \<^verbatim>\<open>kbd.c\<close> and the tables of \<^verbatim>\<open>kbd.h\<close>, and the receiving side of the serial port, \<^verbatim>\<open>uart.c\<close>. The controller's status and data ports
  are arguments of \<open>kbdgetc\<close>: each byte that the keyboard sends is one call with the data bit of the status set. The
  static variable \<^verbatim>\<open>shift\<close> is passed along. A read beyond the end of a table is \<open>None\<close>. The interrupt
  handler hands the characters to the console.
\<close>

section \<open>Tables\<close>

abbreviation (input) SHIFT :: u32 where "SHIFT \<equiv> 1"
abbreviation (input) CTL :: u32 where "CTL \<equiv> 2"
abbreviation (input) CAPSLOCK :: u32 where "CAPSLOCK \<equiv> 8"
abbreviation (input) E0ESC :: u32 where "E0ESC \<equiv> 0x40"

text \<open>A C array of 256 bytes from its leading elements and its designated ones; the others are 0.\<close>

definition kbd_table :: "u8 list \<Rightarrow> (nat \<times> u8) list \<Rightarrow> u8 list" where
  "kbd_table row ext = map (\<lambda>i. case map_of ext i of Some c \<Rightarrow> c | None \<Rightarrow> if i < length row then row ! i else 0) [0..<256]"

definition shiftcode :: "u8 list" where
  "shiftcode = kbd_table [] [(0x1D, 2), (0x2A, 1), (0x36, 1), (0x38, 4), (0x9D, 2), (0xB8, 4)]"

definition togglecode :: "u8 list" where
  "togglecode = kbd_table [] [(0x3A, 8), (0x45, 16), (0x46, 32)]"

definition normalmap :: "u8 list" where
  "normalmap = kbd_table
     [0, 27, 49, 50, 51, 52, 53, 54, 55, 56, 57, 48, 45, 61, 8, 9,
      113, 119, 101, 114, 116, 121, 117, 105, 111, 112, 91, 93, 10, 0, 97, 115,
      100, 102, 103, 104, 106, 107, 108, 59, 39, 96, 0, 92, 122, 120, 99, 118,
      98, 110, 109, 44, 46, 47, 0, 42, 0, 32, 0, 0, 0, 0, 0, 0,
      0, 0, 0, 0, 0, 0, 0, 55, 56, 57, 45, 52, 53, 54, 43, 49,
      50, 51, 48, 46, 0, 0, 0, 0]
     [(0x9C, 10), (0xB5, 47), (0xC8, 226), (0xD0, 227), (0xC9, 230), (0xD1, 231), (0xCB, 228), (0xCD, 229), (0x97, 224), (0xCF, 225), (0xD2, 232), (0xD3, 233)]"

definition shiftmap :: "u8 list" where
  "shiftmap = kbd_table
     [0, 27, 33, 64, 35, 36, 37, 94, 38, 42, 40, 41, 95, 43, 8, 9,
      81, 87, 69, 82, 84, 89, 85, 73, 79, 80, 123, 125, 10, 0, 65, 83,
      68, 70, 71, 72, 74, 75, 76, 58, 34, 126, 0, 124, 90, 88, 67, 86,
      66, 78, 77, 60, 62, 63, 0, 42, 0, 32, 0, 0, 0, 0, 0, 0,
      0, 0, 0, 0, 0, 0, 0, 55, 56, 57, 45, 52, 53, 54, 43, 49,
      50, 51, 48, 46, 0, 0, 0, 0]
     [(0x9C, 10), (0xB5, 47), (0xC8, 226), (0xD0, 227), (0xC9, 230), (0xD1, 231), (0xCB, 228), (0xCD, 229), (0x97, 224), (0xCF, 225), (0xD2, 232), (0xD3, 233)]"

definition ctlmap :: "u8 list" where
  "ctlmap = kbd_table
     [0, 0, 0, 0, 0, 0, 0, 0, 0, 0, 0, 0, 0, 0, 0, 0,
      17, 23, 5, 18, 20, 25, 21, 9, 15, 16, 0, 0, 13, 0, 1, 19,
      4, 6, 7, 8, 10, 11, 12, 0, 0, 0, 0, 28, 26, 24, 3, 22,
      2, 14, 13, 0, 0, 239, 0, 0]
     [(0x9C, 13), (0xB5, 239), (0xC8, 226), (0xD0, 227), (0xC9, 230), (0xD1, 231), (0xCB, 228), (0xCD, 229), (0x97, 224), (0xCF, 225), (0xD2, 232), (0xD3, 233)]"

definition charcode :: "u8 list list" where
  "charcode = [normalmap, shiftmap, ctlmap, ctlmap]"

section \<open>Operations\<close>

definition at :: "'a list \<Rightarrow> u32 \<Rightarrow> 'a option" where
  "at xs i = (if unat i < length xs then Some (xs ! unat i) else None)"

definition caps :: "u32 \<Rightarrow> u32" where
  "caps c = (if 97 \<le> c \<and> c \<le> 122 then c + (65 - 97) else if 65 \<le> c \<and> c \<le> 90 then c + (97 - 65) else c)"

definition key_down :: "u32 \<Rightarrow> u32 \<Rightarrow> (int \<times> u32) option" where
  "key_down d shift =
     (case at shiftcode d of
        None \<Rightarrow> None
      | Some k \<Rightarrow>
          (case at togglecode d of
             None \<Rightarrow> None
           | Some t \<Rightarrow>
               (let shift = (shift OR ucast k) XOR ucast t
                in case at charcode (shift AND (CTL OR SHIFT)) of
                     None \<Rightarrow> None
                   | Some tab \<Rightarrow>
                       (case at tab d of
                          None \<Rightarrow> None
                        | Some c \<Rightarrow> Some (uint (if shift AND CAPSLOCK \<noteq> 0 then caps (ucast c) else ucast c), shift)))))"

definition kbdgetc :: "u8 \<Rightarrow> u8 \<Rightarrow> u32 \<Rightarrow> (int \<times> u32) option" where
  "kbdgetc st dat shift =
     (let d = ucast dat :: u32
      in if st AND 1 = 0 then Some (-1, shift)
         else if d = 0xE0 then Some (0, shift OR E0ESC)
         else if d AND 0x80 \<noteq> 0 then
           (let d = (if shift AND E0ESC \<noteq> 0 then d else d AND 0x7F)
            in case at shiftcode d of
                 None \<Rightarrow> None
               | Some k \<Rightarrow> Some (0, shift AND NOT (ucast k OR E0ESC)))
         else if shift AND E0ESC \<noteq> 0 then key_down (d OR 0x80) (shift AND NOT E0ESC)
         else key_down d shift)"

text \<open>The calls of \<open>kbdgetc\<close> that one interrupt makes, for the bytes waiting in the controller; the last finds none.\<close>

fun kbd_chars :: "u8 list \<Rightarrow> u32 \<Rightarrow> (int list \<times> u32) option" where
  "kbd_chars [] shift = (case kbdgetc 0 0 shift of None \<Rightarrow> None | Some (c, shift) \<Rightarrow> Some ([c], shift))"
| "kbd_chars (d # ds) shift =
     (case kbdgetc 1 d shift of
        None \<Rightarrow> None
      | Some (c, shift) \<Rightarrow> (case kbd_chars ds shift of None \<Rightarrow> None | Some (cs, shift) \<Rightarrow> Some (c # cs, shift)))"

definition kbdintr :: "u8 list \<Rightarrow> u32 \<Rightarrow> 'a console_state_scheme \<Rightarrow> (u32, 'a console_state_scheme) kres option" where
  "kbdintr ds shift s =
     (case kbd_chars ds shift of
        None \<Rightarrow> None
      | Some (cs, shift) \<Rightarrow> Some (bindr (consoleintr cs s) (\<lambda>_ s. Ret shift s)))"

text \<open>The serial port is the second source of input: \<open>lsr\<close> is its line status, \<open>dat\<close> its data register.\<close>

definition uartgetc :: "u8 \<Rightarrow> u8 \<Rightarrow> 'a console_state_scheme \<Rightarrow> int" where
  "uartgetc lsr dat s = (if \<not> uart s then -1 else if lsr AND 1 = 0 then -1 else uint dat)"

definition uartintr :: "u8 list \<Rightarrow> 'a console_state_scheme \<Rightarrow> (unit, 'a console_state_scheme) kres" where
  "uartintr ds s = consoleintr (map (\<lambda>d. uartgetc 1 d s) ds @ [uartgetc 0 0 s]) s"

section \<open>The tables are never left\<close>

lemma table_length [simp]: "length (kbd_table row ext) = 256"
  by (simp add: kbd_table_def)

lemma code_lengths [simp]: "length shiftcode = 256" "length togglecode = 256" "length normalmap = 256" "length shiftmap = 256" "length ctlmap = 256"
  by (simp_all add: shiftcode_def togglecode_def normalmap_def shiftmap_def ctlmap_def)

lemma at_table: "length xs = 256 \<Longrightarrow> d < 256 \<Longrightarrow> at xs d = Some (xs ! unat d)"
  by (simp add: at_def word_less_nat_alt)

lemma at_charcode: "\<exists>tab. at charcode (k AND (CTL OR SHIFT)) = Some tab \<and> length tab = 256"
proof -
  have "unat (k AND 3) < 4"
    using unat_and_mask [of k 2] by (simp add: mask_eq_exp_minus_1)
  then have "unat (k AND 3) \<in> {0, 1, 2, 3}"
    by auto
  then show ?thesis
    by (auto simp: at_def charcode_def)
qed

lemma byte_less: "(ucast (d :: u8) :: u32) < 256"
proof -
  have "unat (ucast d :: u32) \<le> unat d"
    by (simp add: unsigned_ucast_eq)
  also have "unat d < 256"
    using unsigned_less [of d] by simp
  finally show ?thesis
    by (simp add: word_less_nat_alt)
qed

lemma byte_bounds: "(ucast (d :: u8) :: u32) AND 0x7F < 256" "(ucast (d :: u8) :: u32) OR 0x80 < 256"
  using byte_less [of "d AND 0x7F"] byte_less [of "d OR 0x80"] by (simp_all add: unsigned_and_eq unsigned_or_eq)

text \<open>Only the seven flags of \<^verbatim>\<open>kbd.h\<close> are ever set.\<close>

definition flags_ok :: "u32 \<Rightarrow> bool" where
  "flags_ok shift \<longleftrightarrow> shift AND NOT 0x7F = 0"

lemma flags_ops:
  assumes "flags_ok a"
  shows "flags_ok b \<Longrightarrow> flags_ok (a OR b)" "flags_ok b \<Longrightarrow> flags_ok (a XOR b)" "flags_ok (a AND b)"
  using assms unfolding flags_ok_def by (auto simp: bit_eq_iff bit_simps)

lemma flags_table: "\<forall>k\<in>set shiftcode \<union> set togglecode. flags_ok (ucast k)"
  unfolding flags_ok_def shiftcode_def togglecode_def by (auto simp: kbd_table_def split: option.splits if_splits)

lemma caps_byte: "c < 256 \<Longrightarrow> caps c < 256"
  by (auto simp: caps_def word_less_nat_alt word_le_nat_alt unat_sub_if_size unat_word_ariths)

lemma key_down_typed:
  assumes e: "e < 256" and f: "flags_ok f"
  shows "\<exists>c f'. key_down e f = Some (c, f') \<and> 0 \<le> c \<and> c < 256 \<and> flags_ok f'"
proof -
  have i: "unat e < 256"
    using e by (simp add: word_less_nat_alt)
  let ?s = "(f OR ucast (shiftcode ! unat e)) XOR ucast (togglecode ! unat e)"
  obtain tab where tab: "at charcode (?s AND (CTL OR SHIFT)) = Some tab" "length tab = 256"
    using at_charcode by blast
  have k: "flags_ok (ucast (shiftcode ! unat e))" "flags_ok (ucast (togglecode ! unat e))"
    using flags_table nth_mem [of "unat e" shiftcode] nth_mem [of "unat e" togglecode] i by auto
  have "flags_ok ?s"
    using f k by (intro flags_ops)
  moreover have "uint (if ?s AND CAPSLOCK \<noteq> 0 then caps (ucast c) else ucast c) < 256" for c :: u8
    using caps_byte [OF byte_less [of c]] byte_less [of c] by (simp add: word_less_def)
  ultimately show ?thesis
    using tab e by (simp add: at_table key_down_def Let_def)
qed

text \<open>One byte from the keyboard: the call stays inside the tables and gives a byte, and the flags stay flags.\<close>

lemma kbdgetc_typed:
  assumes "flags_ok shift"
  shows "\<exists>c shift'. kbdgetc 1 d shift = Some (c, shift') \<and> 0 \<le> c \<and> c < 256 \<and> flags_ok shift'"
proof -
  have esc: "flags_ok (shift OR E0ESC)"
    using assms by (intro flags_ops(1)) (simp_all add: flags_ok_def)
  have up: "at shiftcode (if shift AND E0ESC \<noteq> 0 then ucast d else ucast d AND 0x7F) \<noteq> None"
    using byte_less [of d] byte_bounds(1) [of d] by (simp add: at_table)
  show ?thesis
    using esc up flags_ops(3) [OF assms] key_down_typed [OF byte_less assms, of d] key_down_typed [OF byte_bounds(2) flags_ops(3) [OF assms], of d "NOT E0ESC"]
    unfolding kbdgetc_def Let_def by (auto split: option.splits)
qed

lemma kbd_chars_typed:
  "flags_ok shift \<Longrightarrow> \<exists>cs shift'. kbd_chars ds shift = Some (cs @ [-1], shift') \<and> length cs = length ds \<and> (\<forall>c\<in>set cs. 0 \<le> c \<and> c < 256) \<and> flags_ok shift'"
proof (induction ds arbitrary: shift)
  case (Cons d ds)
  obtain c shift' where "kbdgetc 1 d shift = Some (c, shift')" "0 \<le> c" "c < 256" "flags_ok shift'"
    using kbdgetc_typed [OF Cons.prems] by blast
  then show ?case
    using Cons.IH [of shift'] by fastforce
qed (simp add: kbdgetc_def)

end
