(* ===== verification/Tty.thy ===== *)
theory Tty
  imports Kbd
begin

text \<open>
  What the console promises for its input: a line editor. \<open>edit\<close> is its specification, on the bytes that are ready to be
  read and the line that is still being typed; the interrupt handler of \<^verbatim>\<open>console.c\<close>, with its ring
  buffer and its three free-running indices, refines it, and \<^verbatim>\<open>consoleread\<close> takes the ready bytes off the front. The last
  property composes the keyboard driver with it.
\<close>

section \<open>The line editor\<close>

fun edit :: "int \<Rightarrow> u8 list \<times> u8 list \<Rightarrow> u8 list \<times> u8 list" where
  "edit c (q, l) =
     (if c = 16 then (q, l)
      else if c = 21 then (q, [])
      else if c = 8 \<or> c = 127 then (q, butlast l)
      else if c \<noteq> 0 \<and> length q + length l < INPUT_BUF then
        (let c = (if c = 13 then 10 else c); l = l @ [word_of_int c]
         in if c = 10 \<or> c = 4 \<or> length q + length l = INPUT_BUF then (q @ l, []) else (q, l))
      else (q, l))"

text \<open>What one read of at most \<open>n\<close> bytes takes from the ready bytes, or \<open>None\<close> when it has to wait for more; \<open>acc\<close> has been taken already.\<close>

fun take_line :: "nat \<Rightarrow> u8 list \<Rightarrow> u8 list \<Rightarrow> (u8 list \<times> u8 list) option" where
  "take_line 0 acc q = Some (acc, q)"
| "take_line (Suc n) acc [] = None"
| "take_line (Suc n) acc (c # q) =
     (if c = 4 then Some (acc, if acc = [] then q else c # q)
      else if c = 10 then Some (acc @ [c], q)
      else take_line n (acc @ [c]) q)"

section \<open>The ring buffer\<close>

definition cell :: "'a console_state_scheme \<Rightarrow> nat \<Rightarrow> u8" where
  "cell s i = input_buf s ((unat (input_r s) + i) mod INPUT_BUF)"

definition ready :: "'a console_state_scheme \<Rightarrow> u8 list" where
  "ready s = map (cell s) [0..<unat (input_w s - input_r s)]"

definition typed :: "'a console_state_scheme \<Rightarrow> u8 list" where
  "typed s = map (cell s) [unat (input_w s - input_r s)..<unat (input_e s - input_r s)]"

definition cons_inv :: "'a console_state_scheme \<Rightarrow> bool" where
  "cons_inv s \<longleftrightarrow> 0 \<le> cga_pos s \<and> cga_pos s < 1920 \<and> unat (input_w s - input_r s) \<le> unat (input_e s - input_r s) \<and>
     unat (input_e s - input_r s) \<le> INPUT_BUF \<and> 10 \<notin> set (typed s)"

lemma unat_mod_128: "unat (a + b) mod INPUT_BUF = (unat a + unat b) mod INPUT_BUF" for a b :: u32
proof -
  have "unat (a + b) mod 128 = (unat a + unat b) mod 4294967296 mod 128"
    by (simp add: unat_word_ariths)
  also have "\<dots> = (unat a + unat b) mod 128"
    by (rule mod_mod_cancel) simp
  finally show ?thesis .
qed

lemma cgaputc_ok:
  assumes "0 \<le> pos" "pos < 1920"
  shows "\<exists>pos' m'. cgaputc c (pos, m) = Some (pos', m') \<and> 0 \<le> pos' \<and> pos' < 1920"
proof -
  have "pos div 80 \<le> 23"
    using assms(2) by simp
  then have "pos + (80 - pos mod 80) \<le> 1920"
    using mult_div_mod_eq [of 80 pos] by linarith
  then have b: "pos + (80 - pos mod 80) \<le> 1920" "0 \<le> pos + (80 - pos mod 80)"
    using assms(1) pos_mod_bound [of 80 pos] by linarith+
  let ?f = "if c = 10 then (pos + (80 - pos mod 80), m) else if c = BACKSPACE then (if pos > 0 then pos - 1 else pos, m)
    else (pos + 1, m(nat pos := (word_of_int c AND 0xFF) OR 0x0700))"
  obtain p k where p: "?f = (p, k)"
    by (cases ?f)
  have "0 \<le> p" "p \<le> 1920"
    using p b assms by (auto split: if_splits)
  moreover from this have "\<not> 24 \<le> p div 80 \<Longrightarrow> p < 1920" "24 \<le> p div 80 \<Longrightarrow> p = 1920"
    by auto
  ultimately show ?thesis
    unfolding cgaputc_def Let_def prod.case p by auto
qed

lemma consputc_ok:
  assumes "0 \<le> cga_pos s" "cga_pos s < 1920"
  obtains out pos m where "consputc c s = Ret () (s\<lparr>cons_out := out, cga_pos := pos, crt := m\<rparr>)" "0 \<le> pos" "pos < 1920"
proof -
  let ?s = "if c = BACKSPACE then uartputc 8 (uartputc 32 (uartputc 8 s)) else uartputc (word_of_int c) s"
  obtain pos m where p: "cgaputc c (cga_pos s, crt s) = Some (pos, m)" "0 \<le> pos" "pos < 1920"
    using cgaputc_ok [OF assms, of c "crt s"] by blast
  have u: "\<exists>out. uartputc b t = t\<lparr>cons_out := out\<rparr>" for b t
    by (cases "uart t") (auto simp: uartputc_def intro: exI [of _ "cons_out t"])
  obtain out where out: "?s = s\<lparr>cons_out := out\<rparr>"
    using u [of "word_of_int c" s] u [of 8 s] u [of 32 "uartputc 8 s"] u [of 8 "uartputc 32 (uartputc 8 s)"] by (cases "c = BACKSPACE") auto
  then have "consputc c s = Ret () (s\<lparr>cons_out := out, cga_pos := pos, crt := m\<rparr>)"
    using p(1) unfolding consputc_def Let_def out by simp
  then show ?thesis
    using that p(2,3) by blast
qed

text \<open>The bytes depend on the buffer and its indices only.\<close>

definition same_input :: "'a console_state_scheme \<Rightarrow> 'a console_state_scheme \<Rightarrow> bool" where
  "same_input s t \<longleftrightarrow> input_buf t = input_buf s \<and> input_r t = input_r s \<and> input_w t = input_w s \<and> input_e t = input_e s"

lemma same_input_view: "same_input s t \<Longrightarrow> ready t = ready s \<and> typed t = typed s"
  by (simp add: same_input_def ready_def typed_def cell_def [abs_def])

lemma cons_inv_same:
  assumes "cons_inv s" "same_input s t" "0 \<le> cga_pos t" "cga_pos t < 1920"
  shows "cons_inv t"
  using assms same_input_view [OF assms(2)] by (simp add: cons_inv_def same_input_def)

lemma view_length:
  assumes "cons_inv s"
  shows "length (ready s) = unat (input_w s - input_r s)" "length (ready s) + length (typed s) = unat (input_e s - input_r s)"
  using assms by (simp_all add: ready_def typed_def cons_inv_def)

lemma index_from_r: "unat (r + d) mod INPUT_BUF = (unat r + unat d) mod INPUT_BUF" for r d :: u32
  by (rule unat_mod_128)

lemma last_index:
  assumes "e \<noteq> (w :: u32)" "unat (w - r) \<le> unat (e - r)"
  shows "unat (w - r) < unat (e - r)" "unat (e - 1 - r) = unat (e - r) - 1" "unat (e - 1) mod INPUT_BUF = (unat r + (unat (e - r) - 1)) mod INPUT_BUF"
proof -
  have "unat (w - r) \<noteq> unat (e - r)"
    using assms(1) by (simp add: word_unat_eq_iff [symmetric])
  then show lt: "unat (w - r) < unat (e - r)"
    using assms(2) by simp
  have c: "e - 1 - r = (e - r) - 1"
    by simp
  show d: "unat (e - 1 - r) = unat (e - r) - 1"
    unfolding c using lt unat_diff_u32 [of "e - r" 1] by (simp add: word_le_nat_alt)
  have "e - 1 = r + (e - 1 - r)"
    by simp
  then show "unat (e - 1) mod INPUT_BUF = (unat r + (unat (e - r) - 1)) mod INPUT_BUF"
    using index_from_r [of r "e - 1 - r"] d by simp
qed

lemma kill_count_all:
  assumes "\<forall>j. unat (w - r) \<le> j \<and> j < unat (e - r) \<longrightarrow> b ((unat r + j) mod INPUT_BUF) \<noteq> 10" "unat (w - r) \<le> unat (e - r)" "unat (e - r) - unat (w - r) \<le> k"
  shows "kill_count k b w e = unat (e - r) - unat (w - r)"
  using assms
proof (induction k arbitrary: e)
  case 0
  then show ?case
    by simp
next
  case (Suc k)
  show ?case
  proof (cases "e = w")
    case False
    note l = last_index [OF False Suc.prems(2)]
    have "b (unat (e - 1) mod INPUT_BUF) \<noteq> 10"
      unfolding l(3) by (rule Suc.prems(1) [rule_format]) (use l(1) in simp)
    moreover have "kill_count k b w (e - 1) = unat (e - 1 - r) - unat (w - r)"
      using Suc.prems(1,3) l(1,2) by (intro Suc.IH) auto
    ultimately show ?thesis
      using False l(1,2) by simp
  qed simp
qed

lemma erase_ok:
  assumes "cons_inv s" "input_e s \<noteq> input_w s"
  shows "okr (erase s) (\<lambda>_ t. cons_inv t \<and> ready t = ready s \<and> typed t = butlast (typed s) \<and> input_w t = input_w s \<and> input_r t = input_r s)"
proof -
  note i = assms(1) [unfolded cons_inv_def]
  have l: "unat (input_w s - input_r s) < unat (input_e s - input_r s)" "unat (input_e s - 1 - input_r s) = unat (input_e s - input_r s) - 1"
    using last_index [OF assms(2)] i by simp_all
  let ?s = "s\<lparr>input_e := input_e s - 1\<rparr>"
  have "[unat (input_w s - input_r s)..<unat (input_e s - input_r s)] = [unat (input_w s - input_r s)..<unat (input_e s - input_r s) - 1] @ [unat (input_e s - input_r s) - 1]"
    using upt_Suc_append [of "unat (input_w s - input_r s)" "unat (input_e s - input_r s) - 1"] l(1) by simp
  then have v: "ready ?s = ready s" "typed ?s = butlast (typed s)"
    using l by (simp_all add: ready_def typed_def cell_def [abs_def])
  have inv: "cons_inv ?s"
    using i l v(2) in_set_butlastD [of 10 "typed s"] unfolding cons_inv_def by auto
  obtain out pos m where c: "consputc BACKSPACE ?s = Ret () (?s\<lparr>cons_out := out, cga_pos := pos, crt := m\<rparr>)" "0 \<le> pos" "pos < 1920"
    by (rule consputc_ok [of ?s BACKSPACE]) (use i in auto)
  have same: "same_input ?s (?s\<lparr>cons_out := out, cga_pos := pos, crt := m\<rparr>)"
    by (simp add: same_input_def)
  show ?thesis
    using c cons_inv_same [OF inv same] same_input_view [OF same] v by (simp add: erase_def)
qed

lemma kill_ok:
  assumes "cons_inv s"
  shows "okr (foreach [0..<kill_count INPUT_BUF (input_buf s) (input_w s) (input_e s)] (\<lambda>_. erase) s)
    (\<lambda>_ t. cons_inv t \<and> ready t = ready s \<and> typed t = [])"
proof -
  note i = assms [unfolded cons_inv_def] and n = view_length [OF assms]
  have "b \<noteq> 10" if "b \<in> set (typed s)" for b
    using i that by auto
  then have k: "kill_count INPUT_BUF (input_buf s) (input_w s) (input_e s) = length (typed s)"
    using kill_count_all [of "input_w s" "input_r s" "input_e s" "input_buf s" INPUT_BUF] i n by (auto simp: typed_def cell_def)
  have "okr (foreach [0..<length (typed s)] (\<lambda>_. erase) s)
    (\<lambda>_ t. cons_inv t \<and> ready t = ready s \<and> typed t = take (length (typed s) - length (typed s)) (typed s))"
  proof (rule foreach_upt [where I = "\<lambda>k t. cons_inv t \<and> ready t = ready s \<and> typed t = take (length (typed s) - k) (typed s)"])
    fix k t
    assume k: "k < length (typed s)" and t: "cons_inv t \<and> ready t = ready s \<and> typed t = take (length (typed s) - k) (typed s)"
    then have "typed t \<noteq> []"
      by auto
    then have "input_e t \<noteq> input_w t"
      by (auto simp: typed_def)
    then have "okr (erase t) (\<lambda>_ u. cons_inv u \<and> ready u = ready t \<and> typed u = butlast (typed t) \<and> input_w u = input_w t \<and> input_r u = input_r t)"
      using t by (intro erase_ok) auto
    then show "okr (erase t) (\<lambda>_ u. cons_inv u \<and> ready u = ready s \<and> typed u = take (length (typed s) - Suc k) (typed s))"
      using t k by (auto simp: butlast_take elim!: okr_mono)
  qed (use assms in auto)
  then show ?thesis
    by (simp add: k)
qed

text \<open>Storing a byte at the end of the line, and handing the line over.\<close>

lemma put_char_view:
  assumes "cons_inv s" "unat (input_e s - input_r s) < INPUT_BUF" and t_def: "t = s\<lparr>input_buf := (input_buf s)(unat (input_e s) mod INPUT_BUF := b), input_e := input_e s + 1\<rparr>"
  shows "ready t = ready s" "typed t = typed s @ [b]" "unat (input_e t - input_r t) = Suc (unat (input_e s - input_r s))"
proof -
  let ?E = "unat (input_e s - input_r s)"
  note i = assms(1) [unfolded cons_inv_def]
  have c: "input_e s + 1 - input_r s = (input_e s - input_r s) + 1"
    by simp
  have e: "unat (input_e s + 1 - input_r s) = Suc ?E"
    unfolding c using assms(2) unat_add_of_nat_u32 [of "input_e s - input_r s" 1] by simp
  then show "unat (input_e t - input_r t) = Suc ?E"
    by (simp add: t_def)
  have x: "unat (input_e s) mod INPUT_BUF = (unat (input_r s) + ?E) mod INPUT_BUF"
    using index_from_r [of "input_r s" "input_e s - input_r s"] by simp
  have old: "cell t j = cell s j" if "j < ?E" for j
  proof -
    have "(unat (input_r s) + j) mod INPUT_BUF \<noteq> (unat (input_r s) + ?E) mod INPUT_BUF"
      using that assms(2) by (intro slots_differ)
    then show ?thesis
      by (simp add: cell_def t_def x)
  qed
  have new: "cell t ?E = b"
    by (simp add: cell_def t_def x)
  show "ready t = ready s" "typed t = typed s @ [b]"
    using i e old new by (simp_all add: ready_def typed_def t_def)
qed

lemma commit_view:
  assumes i: "unat (input_w s - input_r s) \<le> unat (input_e s - input_r s)" "unat (input_e s - input_r s) \<le> INPUT_BUF"
    and assms: "0 \<le> cga_pos t" "cga_pos t < 1920" "input_buf t = input_buf s" "input_r t = input_r s" "input_e t = input_e s" "input_w t = input_e s"
  shows "cons_inv t" "ready t = ready s @ typed s" "typed t = []"
proof -
  show t: "typed t = []"
    by (simp add: typed_def assms)
  show "ready t = ready s @ typed s"
    using i upt_add_eq_append [of 0 "unat (input_w s - input_r s)" "unat (input_e s - input_r s) - unat (input_w s - input_r s)"]
    by (simp add: ready_def typed_def cell_def [abs_def] assms flip: map_append)
  show "cons_inv t"
    using i assms t by (simp add: cons_inv_def)
qed

text \<open>The case of a byte that is stored: \<open>d\<close> is the byte after the translation of the carriage return.\<close>

lemma store_ok:
  assumes inv: "cons_inv s" and room: "unat (input_e s - input_r s) < INPUT_BUF" and d: "0 \<le> d" "d < 256"
  defines "t \<equiv> s\<lparr>input_buf := (input_buf s)(unat (input_e s) mod INPUT_BUF := word_of_int d), input_e := input_e s + 1\<rparr>"
  shows "okr (bindr (consputc d t) (\<lambda>_ s.
      Ret () (if d = 10 \<or> d = 4 \<or> input_e s = input_r s + 128 then wakeup ChanInput (s\<lparr>input_w := input_e s\<rparr>) else s)))
    (\<lambda>_ u. cons_inv u \<and> (ready u, typed u) =
      (let l = typed s @ [word_of_int d]
       in if d = 10 \<or> d = 4 \<or> length (ready s) + length l = INPUT_BUF then (ready s @ l, []) else (ready s, l)))"
proof -
  note i = inv [unfolded cons_inv_def] and n = view_length [OF inv]
  note p = put_char_view [OF inv room meta_eq_to_obj_eq [OF t_def]]
  obtain out pos m where c: "consputc d t = Ret () (t\<lparr>cons_out := out, cga_pos := pos, crt := m\<rparr>)" "0 \<le> pos" "pos < 1920"
    by (rule consputc_ok [of t d]) (use i in \<open>auto simp: t_def\<close>)
  let ?u = "t\<lparr>cons_out := out, cga_pos := pos, crt := m\<rparr>"
  let ?v = "wakeup ChanInput (?u\<lparr>input_w := input_e ?u\<rparr>)"
  have u: "ready ?u = ready s" "typed ?u = typed s @ [word_of_int d]"
    using same_input_view [of t ?u] p by (simp_all add: same_input_def)
  have full: "input_e ?u = input_r ?u + 128 \<longleftrightarrow> length (ready s) + length (typed s @ [word_of_int d]) = INPUT_BUF"
  proof -
    have "input_e t = input_r t + 128 \<longleftrightarrow> input_e t - input_r t = 128"
      by (auto simp: algebra_simps)
    then show ?thesis
      using p(3) n(2) by (simp add: word_unat_eq_iff)
  qed
  have weak: "cons_inv ?u" if "d \<noteq> 10"
  proof -
    have "word_of_int d \<noteq> (10 :: u8)"
      using that d by (simp add: word_uint_eq_iff uint_word_of_int_eq take_bit_int_eq_self)
    then show ?thesis
      using i u p(3) room c(2,3) by (auto simp: cons_inv_def t_def)
  qed
  have v: "cons_inv ?v" "ready ?v = ready s @ typed s @ [word_of_int d]" "typed ?v = []"
    using commit_view [of ?u ?v] u i p(3) room c(2,3) by (simp_all add: t_def wakeup_def wakeup1_def)
  show ?thesis
    using u v weak full unfolding c(1) Let_def by auto
qed

lemma consoleintr_char_edits:
  assumes inv: "cons_inv s" and c: "0 \<le> c" "c < 256"
  shows "okr (consoleintr_char c s) (\<lambda>_ t. cons_inv t \<and> (ready t, typed t) = edit c (ready s, typed s))"
proof -
  note n = view_length [OF inv]
  have bs: "input_e s \<noteq> input_w s \<longleftrightarrow> typed s \<noteq> []"
    using last_index(1) [of "input_e s" "input_w s" "input_r s"] inv by (auto simp: typed_def cons_inv_def)
  have room: "input_e s - input_r s < 128 \<longleftrightarrow> length (ready s) + length (typed s) < INPUT_BUF"
    unfolding n(2) by (simp add: word_less_nat_alt)
  consider "c = 16" | "c = 21" | "c = 8 \<or> c = 127" "typed s = []" | "c = 8 \<or> c = 127" "typed s \<noteq> []"
    | "c \<noteq> 16" "c \<noteq> 21" "c \<noteq> 8" "c \<noteq> 127" "c \<noteq> 0" "length (ready s) + length (typed s) < INPUT_BUF"
    | "c \<noteq> 16" "c \<noteq> 21" "c \<noteq> 8" "c \<noteq> 127" "\<not> (c \<noteq> 0 \<and> length (ready s) + length (typed s) < INPUT_BUF)"
    by blast
  then show ?thesis
  proof cases
    case 2
    then show ?thesis
      using kill_ok [OF inv] by (auto simp: consoleintr_char_def elim!: okr_mono)
  next
    case 4
    then show ?thesis
      using erase_ok [OF inv] bs by (auto simp: consoleintr_char_def elim!: okr_mono)
  next
    case 5
    let ?d = "if c = 13 then 10 else c"
    have "okr (consoleintr_char c s) (\<lambda>_ t. cons_inv t \<and> (ready t, typed t) =
      (let l = typed s @ [word_of_int ?d]
       in if ?d = 10 \<or> ?d = 4 \<or> length (ready s) + length l = INPUT_BUF then (ready s @ l, []) else (ready s, l)))"
      using store_ok [OF inv, of ?d] 5 c n(2) room unfolding consoleintr_char_def Let_def by simp
    then show ?thesis
      using 5 by (simp add: Let_def)
  next
    case 6
    then show ?thesis
      using inv room by (simp add: consoleintr_char_def del: de_Morgan_conj)
  qed (use inv bs in \<open>auto simp: consoleintr_char_def\<close>)
qed

lemma consoleintr_edits:
  assumes "cons_inv s" "\<forall>c\<in>set cs. 0 \<le> c \<and> c < 256"
  shows "okr (consoleintr (cs @ [-1]) s) (\<lambda>_ t. cons_inv t \<and> (ready t, typed t) = fold edit cs (ready s, typed s))"
proof -
  have "takeWhile (\<lambda>c. 0 \<le> c) (cs @ [-1]) = cs"
    using assms(2) by (simp add: takeWhile_append2)
  moreover have "okr (foreach cs consoleintr_char s) (\<lambda>_ t. cons_inv t \<and> (ready t, typed t) = fold edit cs (ready s, typed s))"
    using assms
  proof (induction cs arbitrary: s)
    case (Cons c cs)
    then have "okr (consoleintr_char c s) (\<lambda>_ t. cons_inv t \<and> (ready t, typed t) = edit c (ready s, typed s))"
      by (intro consoleintr_char_edits) simp_all
    then obtain t where t: "consoleintr_char c s = Ret () t" "cons_inv t" "(ready t, typed t) = edit c (ready s, typed s)"
      by (auto simp del: edit.simps elim!: okrE)
    then show ?case
      using Cons.IH [of t] Cons.prems(2) by (simp del: edit.simps)
  qed simp
  ultimately show ?thesis
    by (simp add: consoleintr_def)
qed

text \<open>Bytes from the serial port are edited like those from the keyboard.\<close>

lemma uartintr_edits:
  assumes "cons_inv s" "uart s"
  shows "okr (uartintr ds s) (\<lambda>_ t. cons_inv t \<and> (ready t, typed t) = fold edit (map uint ds) (ready s, typed s))"
proof -
  have "\<forall>c\<in>set (map uint ds). 0 \<le> c \<and> c < 256"
    using uint_bounded [where ?'a = 8] by auto
  then show ?thesis
    using consoleintr_edits [OF assms(1), of "map uint ds"] assms(2) by (simp add: uartintr_def uartgetc_def del: fold_map)
qed

section \<open>Reading\<close>

lemma get_char_view:
  assumes inv: "cons_inv s" and ne: "input_r s \<noteq> input_w s"
  shows "ready s = cell s 0 # ready (s\<lparr>input_r := input_r s + 1\<rparr>)" "typed (s\<lparr>input_r := input_r s + 1\<rparr>) = typed s" "cons_inv (s\<lparr>input_r := input_r s + 1\<rparr>)"
proof -
  note i = inv [unfolded cons_inv_def]
  let ?s = "s\<lparr>input_r := input_r s + 1\<rparr>"
  let ?W = "unat (input_w s - input_r s)" and ?E = "unat (input_e s - input_r s)"
  have "?W \<noteq> 0"
    using ne by (auto simp: unat_eq_0)
  then have w: "0 < ?W" "0 < ?E"
    using i by auto
  have d: "x - (input_r s + 1) = (x - input_r s) - 1" for x
    by simp
  have n: "unat (input_w s - (input_r s + 1)) = ?W - 1" "unat (input_e s - (input_r s + 1)) = ?E - 1"
    unfolding d using w unat_diff_u32 [of "input_w s - input_r s" 1] unat_diff_u32 [of "input_e s - input_r s" 1] by (simp_all add: word_le_nat_alt)
  have c: "cell ?s j = cell s (Suc j)" for j
    using index_from_r [of "input_r s" 1] mod_add_left_eq [of "unat (input_r s + 1)" 128 j] mod_add_left_eq [of "unat (input_r s) + 1" 128 j]
    by (simp add: cell_def)
  have m: "map (cell ?s) [a..<b] = map (cell s) [Suc a..<Suc b]" for a b
    unfolding map_Suc_upt [symmetric] map_map by (simp add: c)
  have "ready ?s = map (cell s) [Suc 0..<?W]" "typed ?s = map (cell s) [?W..<?E]"
    using w n by (simp_all add: ready_def typed_def m)
  then show "ready s = cell s 0 # ready ?s" and t: "typed ?s = typed s"
    using w(1) by (simp_all add: ready_def typed_def upt_conv_Cons)
  show "cons_inv ?s"
    using i w n t by (auto simp: cons_inv_def)
qed

lemma consoleread_loop_takes:
  assumes "cons_inv s" "take_line n acc (ready s) = Some (bs, q)"
  shows "okr (consoleread_loop n acc s) (\<lambda>r t. r = (False, bs) \<and> cons_inv t \<and> ready t = q \<and> typed t = typed s)"
  using assms
proof (induction n arbitrary: acc s)
  case (Suc n)
  have ne: "input_r s \<noteq> input_w s"
    using Suc.prems(2) by (cases "ready s") (auto simp: ready_def)
  let ?s = "s\<lparr>input_r := input_r s + 1\<rparr>"
  note g = get_char_view [OF Suc.prems(1) ne]
  have c: "input_buf s (unat (input_r s) mod INPUT_BUF) = cell s 0"
    by (simp add: cell_def)
  show ?case
    using Suc.prems ne g Suc.IH [OF g(3)] by (auto simp: c Let_def split: if_splits)
qed simp

section \<open>Properties\<close>

text \<open>
  C24: Type safety of the keyboard driver. Whatever bytes the keyboard sends, in any order, the driver never reads outside its
  tables, yields one byte value per key code (0 for none) and the mark that the controller is empty, and never sets a bit of \<^verbatim>\<open>shift\<close> other than its seven flags.
\<close>

theorem kbd_type_safe:
  "\<exists>cs shift. kbd_chars ds 0 = Some (cs @ [-1], shift) \<and> length cs = length ds \<and> (\<forall>c\<in>set cs. 0 \<le> c \<and> c < 256) \<and> flags_ok shift"
  using kbd_chars_typed [of 0 ds] by (simp add: flags_ok_def)

theorem kbd_type_safe_witness:
  "\<exists>cs shift. kbd_chars [0x2A, 0x1E, 0xE0, 0x48] 0 = Some (cs @ [-1], shift) \<and> length cs = 4 \<and> (\<forall>c\<in>set cs. 0 \<le> c \<and> c < 256) \<and> flags_ok shift"
  using kbd_type_safe [of "[0x2A, 0x1E, 0xE0, 0x48]"] by (simp del: kbd_chars.simps add: eval_nat_numeral)

text \<open>
  C23: From the keyboard to the reader. In every state of the console that satisfies its invariant, a keyboard interrupt
  decodes the key codes and applies the line editor to the characters: the ready bytes and the line being typed become
  what \<open>edit\<close> makes of them (erase, kill line, carriage return as newline, hand-over at newline, control-D or a full buffer; no character overwrites an unread one),
  the screen never panics and the invariant is kept. A read of the console then returns what \<open>take_line\<close> takes
  off the front of the ready bytes and leaves the rest.
\<close>

theorem keyboard_line_discipline:
  assumes "cons_inv s" "flags_ok shift"
  shows "\<exists>cs shift' t. kbd_chars ds shift = Some (cs @ [-1], shift') \<and> kbdintr ds shift s = Some (Ret shift' t) \<and>
    cons_inv t \<and> (ready t, typed t) = fold edit cs (ready s, typed s) \<and>
    (\<forall>n bs q. take_line n [] (ready t) = Some (bs, q) \<longrightarrow>
      okr (consoleread_loop n [] t) (\<lambda>r u. r = (False, bs) \<and> cons_inv u \<and> ready u = q \<and> typed u = typed t))"
proof -
  obtain cs shift' where k: "kbd_chars ds shift = Some (cs @ [-1], shift')" "\<forall>c\<in>set cs. 0 \<le> c \<and> c < 256"
    using kbd_chars_typed [OF assms(2), of ds] by blast
  obtain t where t: "consoleintr (cs @ [-1]) s = Ret () t" "cons_inv t" "(ready t, typed t) = fold edit cs (ready s, typed s)"
    using consoleintr_edits [OF assms(1) k(2)] by (auto simp: okr_iff)
  have "kbdintr ds shift s = Some (Ret shift' t)"
    by (simp add: kbdintr_def k(1) t(1))
  then show ?thesis
    using k(1) t(2,3) consoleread_loop_takes [OF t(2)] by blast
qed

definition sample_console :: console_state where
  "sample_console = inode_state.extend sample_fs (console_state.fields (\<lambda>_. 0) 0 0 0 True [] 0 (\<lambda>_. 0) (\<lambda>_. False))"

theorem keyboard_line_discipline_witness:
  "\<exists>t. kbdintr [0x23, 0x2D, 0x0E, 0x17, 0x1C] 0 sample_console = Some (Ret 0 t) \<and> ready t = [104, 105, 10] \<and> typed t = [] \<and>
    okr (consoleread_loop 100 [] t) (\<lambda>r u. r = (False, [104, 105, 10]) \<and> ready u = [])"
proof -
  have s: "cons_inv sample_console" "ready sample_console = []" "typed sample_console = []" "flags_ok 0"
    by (simp_all add: cons_inv_def ready_def typed_def flags_ok_def sample_console_def console_state.defs inode_state.defs)
  have k: "kbd_chars [0x23, 0x2D, 0x0E, 0x17, 0x1C] 0 = Some ([104, 120, 8, 105, 10] @ [-1], 0)"
    by (simp add: kbdgetc_def key_down_def at_def charcode_def shiftcode_def togglecode_def normalmap_def kbd_table_def)
  have e: "fold edit [104, 120, 8, 105, 10] ([], []) = ([104, 105, 10], [])"
    by code_simp
  have l: "take_line 100 [] [104, 105, 10] = Some ([104, 105, 10], [])"
    by code_simp
  obtain t where t: "kbdintr [0x23, 0x2D, 0x0E, 0x17, 0x1C] 0 sample_console = Some (Ret 0 t)" "(ready t, typed t) = ([104, 105, 10], [])"
    "\<forall>n bs q. take_line n [] (ready t) = Some (bs, q) \<longrightarrow>
      okr (consoleread_loop n [] t) (\<lambda>r u. r = (False, bs) \<and> cons_inv u \<and> ready u = q \<and> typed u = typed t)"
    using keyboard_line_discipline [OF s(1,4), of "[0x23, 0x2D, 0x0E, 0x17, 0x1C]"] unfolding k s(2,3) by (auto simp: e simp del: fold_simps)
  have "okr (consoleread_loop 100 [] t) (\<lambda>r u. r = (False, [104, 105, 10]) \<and> ready u = [])"
    by (rule okr_mono [OF t(3) [rule_format]]) (use t(2) l in auto)
  then show ?thesis
    using t(1,2) by blast
qed

end
