(* ===== verification/Ulib.thy ===== *)
theory Ulib
  imports Prelude
begin

text \<open>
  The C library of the user programs: \<^verbatim>\<open>ulib.c\<close> and \<^verbatim>\<open>printf.c\<close>. A string is the list of its
  characters up to the terminating NUL, so the end of the list is the NUL. The standard input is the
  list of bytes still to be read; output is the list of bytes written.
\<close>

section \<open>Strings\<close>

definition strchr :: "u8 list \<Rightarrow> u8 \<Rightarrow> bool" where
  "strchr s c \<longleftrightarrow> c \<in> set s"

text \<open>The loop of \<^verbatim>\<open>atoi\<close>, on 32-bit numbers.\<close>

fun atoi_loop :: "u32 \<Rightarrow> u8 list \<Rightarrow> u32" where
  "atoi_loop n [] = n"
| "atoi_loop n (c # s) = (if 48 \<le> c \<and> c \<le> 57 then atoi_loop (n * 10 + ucast c - 48) s else n)"

definition atoi :: "u8 list \<Rightarrow> int" where
  "atoi s = sint (atoi_loop 0 s)"

text \<open>
  \<^verbatim>\<open>gets\<close> with room for \<open>n\<close> characters and the NUL: the line, with its newline if it fits, and the
  rest of the input. \<open>read\<close> returns no character at the end of the input.
\<close>

fun gets_loop :: "nat \<Rightarrow> u8 list \<Rightarrow> u8 list \<times> u8 list" where
  "gets_loop 0 inp = ([], inp)"
| "gets_loop (Suc n) [] = ([], [])"
| "gets_loop (Suc n) (c # inp) =
     (if c = 10 \<or> c = 13 then ([c], inp)
      else let (l, rest) = gets_loop n inp in (c # l, rest))"

definition gets :: "nat \<Rightarrow> u8 list \<Rightarrow> u8 list \<times> u8 list" where
  "gets sz inp = gets_loop (sz - 1) inp"

section \<open>Printing\<close>

definition digit :: "u32 \<Rightarrow> u8" where
  "digit d = (if d < 10 then 48 + ucast d else 55 + ucast d)"

lemma unat_div_less:
  fixes base x :: u32
  assumes "\<not> (base < 2 \<or> x div base = 0)"
  shows "unat (x div base) < unat x"
proof -
  have "unat (2 :: u32) \<le> unat base" "x \<noteq> 0"
    using assms by (auto simp: word_le_nat_alt word_less_nat_alt)
  then have "unat x div unat base < unat x"
    by (intro div_less_dividend) (auto simp: unat_gt_0)
  then show ?thesis
    by (simp add: unat_div_distrib)
qed

text \<open>The digits of \<open>x\<close>, least significant first; the base is 10 or 16.\<close>

function digits_rev :: "u32 \<Rightarrow> u32 \<Rightarrow> u8 list" where
  "digits_rev base x =
     (if base < 2 \<or> x div base = 0 then [digit (x mod base)]
      else digit (x mod base) # digits_rev base (x div base))"
  by pat_completeness auto
termination
  by (relation "measure (\<lambda>(base, x). unat x)") (auto intro: unat_div_less)

declare digits_rev.simps [simp del]

definition printint :: "u32 \<Rightarrow> u32 \<Rightarrow> bool \<Rightarrow> u8 list" where
  "printint xx base sg =
     (let neg = (sg \<and> sint xx < 0); x = (if neg then - xx else xx)
      in rev (digits_rev base x @ (if neg then [45] else [])))"

text \<open>
  \<^verbatim>\<open>printf\<close>: \<open>args\<close> are the words on the stack after the format, \<open>str\<close> gives the string at an address.
  \<open>pct\<close> tells whether the last character was a percent sign.
\<close>

fun printf_loop :: "(u32 \<Rightarrow> u8 list) \<Rightarrow> bool \<Rightarrow> u8 list \<Rightarrow> u32 list \<Rightarrow> u8 list" where
  "printf_loop str pct [] args = []"
| "printf_loop str False (c # fmt) args = (if c = 37 then printf_loop str True fmt args else c # printf_loop str False fmt args)"
| "printf_loop str True (c # fmt) args =
     (let a = (case args of [] \<Rightarrow> 0 | a # _ \<Rightarrow> a)
      in if c = 100 then printint a 10 True @ printf_loop str False fmt (tl args)
         else if c = 120 \<or> c = 112 then printint a 16 False @ printf_loop str False fmt (tl args)
         else if c = 115 then (if a = 0 then map of_char ''(null)'' else str a) @ printf_loop str False fmt (tl args)
         else if c = 99 then ucast a # printf_loop str False fmt (tl args)
         else if c = 37 then c # printf_loop str False fmt args
         else 37 # c # printf_loop str False fmt args)"

definition printf :: "(u32 \<Rightarrow> u8 list) \<Rightarrow> u8 list \<Rightarrow> u32 list \<Rightarrow> u8 list" where
  "printf str fmt args = printf_loop str False fmt args"

section \<open>Numbers are read back\<close>

lemma digit_decimal:
  fixes d :: u32
  assumes "d < 10"
  shows "48 \<le> digit d \<and> digit d \<le> 57 \<and> ucast (digit d) = d + 48"
proof -
  have d: "unat d < 10"
    using assms by (simp add: word_less_nat_alt)
  then have u: "unat (ucast d :: u8) = unat d" "unat (digit d) = 48 + unat d"
    using assms by (simp_all add: digit_def unsigned_ucast_eq unsigned_take_bit_eq take_bit_nat_eq_self unat_word_ariths)
  then show ?thesis
    using d by (auto simp: word_le_nat_alt word_unat_eq_iff unsigned_ucast_eq unsigned_take_bit_eq take_bit_nat_eq_self unat_word_ariths)
qed

lemma atoi_loop_append_digit:
  assumes "\<forall>c\<in>set s. 48 \<le> c \<and> c \<le> 57" "48 \<le> c" "c \<le> 57"
  shows "atoi_loop n (s @ [c]) = atoi_loop n s * 10 + ucast c - 48"
  using assms by (induction n s rule: atoi_loop.induct) simp_all

lemma digits_decimal: "\<forall>c\<in>set (digits_rev 10 x). 48 \<le> c \<and> c \<le> 57"
proof (induction "10 :: u32" x rule: digits_rev.induct)
  case (1 x)
  have "x mod 10 < 10"
    by (simp add: word_less_nat_alt unat_mod_distrib)
  then show ?case
    using 1 digit_decimal [of "x mod 10"] by (subst digits_rev.simps) auto
qed

lemma atoi_digits: "atoi_loop 0 (rev (digits_rev 10 x)) = x"
proof (induction "10 :: u32" x rule: digits_rev.induct)
  case (1 x)
  have m: "x mod 10 < 10"
    by (simp add: word_less_nat_alt unat_mod_distrib)
  note d = digit_decimal [OF m]
  show ?case
  proof (cases "x div 10 = 0")
    case True
    then have "x mod 10 = x"
      using div_mult_mod_eq [of x 10] by simp
    then show ?thesis
      using True d by (subst digits_rev.simps) (simp add: algebra_simps)
  next
    case False
    then have IH: "atoi_loop 0 (rev (digits_rev 10 (x div 10))) = x div 10"
      using 1 by simp
    have "digits_rev 10 x = digit (x mod 10) # digits_rev 10 (x div 10)"
      using False by (subst digits_rev.simps) simp
    then show ?thesis
      using IH d digits_decimal [of "x div 10"] div_mult_mod_eq [of x 10]
      by (simp add: atoi_loop_append_digit)
  qed
qed

text \<open>
  \<^verbatim>\<open>atoi\<close> reads back what \<^verbatim>\<open>printf("%d")\<close> prints of every non-negative number, as the shell does with
  the number of a system call it prints and reads.
\<close>

lemma printf_atoi_roundtrip:
  assumes "0 \<le> sint x"
  shows "atoi (printf str [37, 100] [x]) = sint x"
  using assms by (simp add: printf_def printint_def atoi_def atoi_digits)

lemma printf_atoi_roundtrip_witness: "atoi (printf (\<lambda>_. []) [37, 100] [2024]) = 2024"
  using printf_atoi_roundtrip [of 2024] by simp

end
