(* ===== verification/Cprintf.thy ===== *)
theory Cprintf
  imports Tty Ulib
begin

text \<open>
  The kernel's \<^verbatim>\<open>cprintf\<close> and its \<^verbatim>\<open>printint\<close>, \<^verbatim>\<open>console.c\<close>. \<open>args\<close> are the words on the stack after the format and \<open>str\<close> gives the
  string at an address. The routines of the kernel that print a message are modelled without it; the property here justifies that: a message touches neither the
  input nor anything but the screen and the serial port, and its digits fit their buffer.
\<close>

section \<open>Operations\<close>

definition kdigit :: "u32 \<Rightarrow> u8" where
  "kdigit d = map of_char ''0123456789abcdef'' ! unat d"

text \<open>The digits of \<open>x\<close> as the loop stores them, least significant first; the base is 10 or 16.\<close>

function kdigits :: "u32 \<Rightarrow> u32 \<Rightarrow> u8 list" where
  "kdigits base x =
     (if base < 2 \<or> x div base = 0 then [kdigit (x mod base)]
      else kdigit (x mod base) # kdigits base (x div base))"
  by pat_completeness auto
termination
  by (relation "measure (\<lambda>(base, x). unat x)") (auto intro: unat_div_less)

declare kdigits.simps [simp del]

text \<open>The contents of \<^verbatim>\<open>buf\<close> in \<^verbatim>\<open>printint\<close>; they are printed from the end.\<close>

definition printint_buf :: "u32 \<Rightarrow> u32 \<Rightarrow> bool \<Rightarrow> u8 list" where
  "printint_buf xx base sg =
     (let neg = (sg \<and> sint xx < 0); x = (if neg then - xx else xx) in kdigits base x @ (if neg then [45] else []))"

definition put_all :: "u8 list \<Rightarrow> 'a console_state_scheme \<Rightarrow> (unit, 'a console_state_scheme) kres" where
  "put_all cs s = foreach cs (\<lambda>c. consputc (uint c)) s"

definition kprintint :: "u32 \<Rightarrow> u32 \<Rightarrow> bool \<Rightarrow> 'a console_state_scheme \<Rightarrow> (unit, 'a console_state_scheme) kres" where
  "kprintint xx base sg s = put_all (rev (printint_buf xx base sg)) s"

text \<open>The case distinction after a percent sign: the words it takes off the stack, and what it prints.\<close>

definition conversion :: "(u32 \<Rightarrow> u8 list) \<Rightarrow> u8 \<Rightarrow> u32 \<Rightarrow> 'a console_state_scheme \<Rightarrow> (unit, 'a console_state_scheme) kres" where
  "conversion str c a s =
     (if c = 100 then kprintint a 10 True s
      else if c = 120 \<or> c = 112 then kprintint a 16 False s
      else if c = 115 then put_all (if a = 0 then map of_char ''(null)'' else str a) s
      else if c = 37 then put_all [37] s
      else put_all [37, c] s)"

fun cprintf :: "(u32 \<Rightarrow> u8 list) \<Rightarrow> u8 list \<Rightarrow> u32 list \<Rightarrow> 'a console_state_scheme \<Rightarrow> (unit, 'a console_state_scheme) kres" where
  "cprintf str [] args s = Ret () s"
| "cprintf str [c] args s = (if c \<noteq> 37 then put_all [c] s else Ret () s)"
| "cprintf str (c # d # fmt) args s =
     (if c \<noteq> 37 then bindr (put_all [c] s) (\<lambda>_ s. cprintf str (d # fmt) args s)
      else bindr (conversion str d (case args of [] \<Rightarrow> 0 | a # _ \<Rightarrow> a) s) (\<lambda>_ s.
             cprintf str fmt (if d \<in> {100, 120, 112, 115} then tl args else args) s))"

section \<open>The digits fit their buffer\<close>

lemma kdigits_length: "1 < unat base \<Longrightarrow> unat x < unat base ^ Suc n \<Longrightarrow> length (kdigits base x) \<le> Suc n"
proof (induction n arbitrary: x)
  case 0
  then have "x div base = 0"
    by (simp add: word_unat_eq_iff unat_div_distrib)
  then show ?case
    by (subst kdigits.simps) simp
next
  case (Suc n)
  have "unat (x div base) < unat base ^ Suc n"
    using Suc.prems by (simp add: unat_div_distrib less_mult_imp_div_less mult.commute)
  then show ?case
    using Suc.IH [of "x div base"] Suc.prems(1) by (subst kdigits.simps) simp
qed

lemma printint_fits: "length (printint_buf xx 10 sg) \<le> 11" "length (printint_buf xx 16 sg) \<le> 9"
proof -
  have "unat y < 4294967296" for y :: u32
    using unsigned_less [of y] by simp
  then have k: "length (kdigits 10 y) \<le> 10" "length (kdigits 16 y) \<le> 8" for y
    using kdigits_length [of 10 y 9] kdigits_length [of 16 y 7] order_less_trans [of "unat y" 4294967296 10000000000] by simp_all
  show "length (printint_buf xx 10 sg) \<le> 11" "length (printint_buf xx 16 sg) \<le> 9"
    using k [of xx] k [of "- xx"] by (simp_all add: printint_buf_def Let_def)
qed

section \<open>Messages leave the input alone\<close>

definition only_output :: "'a console_state_scheme \<Rightarrow> 'a console_state_scheme \<Rightarrow> bool" where
  "only_output s t \<longleftrightarrow> cons_inv t \<and> (\<exists>out pos m. t = s\<lparr>cons_out := out, cga_pos := pos, crt := m\<rparr>)"

lemma only_output_refl: "cons_inv s \<Longrightarrow> only_output s s"
  unfolding only_output_def by (intro conjI exI [of _ "cons_out s"] exI [of _ "cga_pos s"] exI [of _ "crt s"]) simp_all

lemma only_output_trans: "only_output s t \<Longrightarrow> only_output t u \<Longrightarrow> only_output s u"
  unfolding only_output_def by (elim conjE exE) (simp, blast)

lemma consputc_only:
  assumes "cons_inv s"
  shows "okr (consputc c s) (\<lambda>_ t. only_output s t)"
proof -
  obtain out pos m where c: "consputc c s = Ret () (s\<lparr>cons_out := out, cga_pos := pos, crt := m\<rparr>)" "0 \<le> pos" "pos < 1920"
    by (rule consputc_ok [of s c]) (use assms in \<open>auto simp: cons_inv_def\<close>)
  moreover have "cons_inv (s\<lparr>cons_out := out, cga_pos := pos, crt := m\<rparr>)"
    by (rule cons_inv_same [OF assms]) (use c(2,3) in \<open>simp_all add: same_input_def\<close>)
  ultimately show ?thesis
    by (auto simp: only_output_def)
qed

lemma put_all_only: "cons_inv s \<Longrightarrow> okr (put_all cs s) (\<lambda>_ t. only_output s t)"
proof (induction cs arbitrary: s)
  case Nil
  then show ?case
    by (simp add: put_all_def only_output_refl)
next
  case (Cons c cs)
  obtain t where t: "consputc (uint c) s = Ret () t" "only_output s t"
    using consputc_only [OF Cons.prems] by (auto simp: okr_iff)
  then have "okr (put_all cs t) (\<lambda>_ u. only_output t u)"
    using Cons.IH by (simp add: only_output_def)
  then show ?case
    using t by (auto simp: put_all_def intro: only_output_trans elim!: okr_mono)
qed

lemma conversion_only: "cons_inv s \<Longrightarrow> okr (conversion str c a s) (\<lambda>_ t. only_output s t)"
  by (simp add: conversion_def kprintint_def put_all_only)

lemma then_only:
  assumes "okr r (\<lambda>_ t. only_output s t)" "\<And>t. r = Ret () t \<Longrightarrow> cons_inv t \<Longrightarrow> okr (f t) (\<lambda>_ u. only_output t u)"
  shows "okr (bindr r (\<lambda>_ t. f t)) (\<lambda>_ u. only_output s u)"
proof -
  obtain a t where t: "r = Ret a t" "only_output s t"
    using assms(1) by (auto simp: okr_iff)
  then have "okr (f t) (\<lambda>_ u. only_output t u)"
    using assms(2) by (simp add: only_output_def)
  then show ?thesis
    using t by (auto intro: only_output_trans elim!: okr_mono)
qed

text \<open>
  C40: \<^verbatim>\<open>cprintf\<close> is safe. Every number it prints, with its sign, fits the sixteen bytes of the buffer in \<^verbatim>\<open>printint\<close>; and for every
  format and all arguments it returns, never leaves the screen, and changes nothing of the kernel but the screen, the cursor and the serial output.
\<close>

theorem cprintf_safe:
  assumes "cons_inv s"
  shows "length (printint_buf xx 10 sg) \<le> 16 \<and> length (printint_buf xx 16 sg) \<le> 16 \<and> okr (cprintf str fmt args s) (\<lambda>_ t. only_output s t)"
proof -
  have "okr (cprintf str fmt args s) (\<lambda>_ t. only_output s t)"
    using assms
  proof (induction str fmt args s rule: cprintf.induct)
    case (3 str c d fmt args s)
    then show ?case
      by (auto intro!: then_only put_all_only conversion_only simp del: okr_bindr)
  qed (auto simp: only_output_refl put_all_only)
  then show ?thesis
    using printint_fits [of xx sg] by simp
qed

theorem cprintf_safe_witness:
  "length (printint_buf 0x80000000 10 True) \<le> 16 \<and> okr (cprintf (\<lambda>_. []) [37, 100, 10] [0x80000000] sample_console) (\<lambda>_ t. only_output sample_console t)"
proof -
  have "cons_inv sample_console"
    by (simp add: cons_inv_def typed_def sample_console_def console_state.defs inode_state.defs)
  then show ?thesis
    using cprintf_safe [of sample_console "0x80000000" True "\<lambda>_. []" "[37, 100, 10]" "[0x80000000]"] by simp
qed

end
