(* ===== verification/Umalloc.thy ===== *)
theory Umalloc
  imports Memory
begin

text \<open>
  The user-space allocator \<^verbatim>\<open>umalloc.c\<close>: \<^verbatim>\<open>free\<close>, \<^verbatim>\<open>morecore\<close> and \<^verbatim>\<open>malloc\<close> over the byte memory of the process. A \<^verbatim>\<open>Header\<close>
  is eight bytes, the pointer and the size in units of headers. The static header \<^verbatim>\<open>base\<close> stands at \<open>ubase\<close>, below
  the heap, and \<open>brk\<close> is the end of the process's memory. The system call \<^verbatim>\<open>sbrk\<close> is a parameter \<open>grow\<close>: the new end for
  an old end and an increment, or \<open>None\<close> when it fails. The two search loops need not end on a damaged free list,
  so they are partial functions, with \<open>None\<close> for a loop that runs forever; the lemmas show that they end.
\<close>

section \<open>Operations\<close>

record uheap =
  umem :: mem
  ubase :: u32
  freep :: u32
  brk :: u32

definition hptr :: "mem \<Rightarrow> u32 \<Rightarrow> u32" where
  "hptr m p = ld32 m p"

definition hsize :: "mem \<Rightarrow> u32 \<Rightarrow> u32" where
  "hsize m p = ld32 m (p + 4)"

definition set_hptr :: "u32 \<Rightarrow> u32 \<Rightarrow> mem \<Rightarrow> mem" where
  "set_hptr p v m = st32 m p v"

definition set_hsize :: "u32 \<Rightarrow> u32 \<Rightarrow> mem \<Rightarrow> mem" where
  "set_hsize p v m = st32 m (p + 4) v"

text \<open>The loop that finds the place of block \<open>bp\<close> in the free list.\<close>

partial_function (option) free_search :: "mem \<Rightarrow> u32 \<Rightarrow> u32 \<Rightarrow> u32 option" where
  "free_search m bp p =
     (if p < bp \<and> bp < hptr m p then Some p
      else if hptr m p \<le> p \<and> (p < bp \<or> bp < hptr m p) then Some p
      else free_search m bp (hptr m p))"

definition join_up :: "u32 \<Rightarrow> u32 \<Rightarrow> mem \<Rightarrow> mem" where
  "join_up bp p m =
     (if bp + 8 * hsize m bp = hptr m p
      then let m = set_hsize bp (hsize m bp + hsize m (hptr m p)) m in set_hptr bp (hptr m (hptr m p)) m
      else set_hptr bp (hptr m p) m)"

definition join_down :: "u32 \<Rightarrow> u32 \<Rightarrow> mem \<Rightarrow> mem" where
  "join_down bp p m =
     (if p + 8 * hsize m p = bp
      then let m = set_hsize p (hsize m p + hsize m bp) m in set_hptr p (hptr m bp) m
      else set_hptr p bp m)"

definition free :: "u32 \<Rightarrow> uheap \<Rightarrow> uheap option" where
  "free ap h =
     (let bp = ap - 8
      in case free_search (umem h) bp (freep h) of
           None \<Rightarrow> None
         | Some p \<Rightarrow> Some (h\<lparr>umem := join_down bp p (join_up bp p (umem h)), freep := p\<rparr>))"

definition morecore :: "(u32 \<Rightarrow> u32 \<Rightarrow> u32 option) \<Rightarrow> u32 \<Rightarrow> uheap \<Rightarrow> (u32 \<times> uheap) option" where
  "morecore grow nu h =
     (let nu = (if nu < 4096 then 4096 else nu)
      in case grow (brk h) (nu * 8) of
           None \<Rightarrow> Some (0, h)
         | Some e \<Rightarrow>
             (let hp = brk h
              in case free (hp + 8) (h\<lparr>umem := set_hsize hp nu (umem h), brk := e\<rparr>) of
                   None \<Rightarrow> None
                 | Some h \<Rightarrow> Some (freep h, h)))"

text \<open>Taking \<open>nunits\<close> units out of the free block \<open>p\<close> after \<open>prevp\<close>.\<close>

definition take_units :: "u32 \<Rightarrow> u32 \<Rightarrow> u32 \<Rightarrow> uheap \<Rightarrow> u32 \<times> uheap" where
  "take_units nunits prevp p h =
     (let m = umem h
      in if hsize m p = nunits then (p + 8, h\<lparr>umem := set_hptr prevp (hptr m p) m, freep := prevp\<rparr>)
         else let m = set_hsize p (hsize m p - nunits) m;
                  q = p + 8 * hsize m p
              in (q + 8, h\<lparr>umem := set_hsize q nunits m, freep := prevp\<rparr>))"

partial_function (option) malloc_loop ::
    "(u32 \<Rightarrow> u32 \<Rightarrow> u32 option) \<Rightarrow> u32 \<Rightarrow> u32 \<Rightarrow> u32 \<Rightarrow> uheap \<Rightarrow> (u32 \<times> uheap) option" where
  "malloc_loop grow nunits prevp p h =
     (if nunits \<le> hsize (umem h) p then Some (take_units nunits prevp p h)
      else if p = freep h then
        (case morecore grow nunits h of
           None \<Rightarrow> None
         | Some (p, h) \<Rightarrow> if p = 0 then Some (0, h) else malloc_loop grow nunits p (hptr (umem h) p) h)
      else malloc_loop grow nunits p (hptr (umem h) p) h)"

definition nunits_of :: "u32 \<Rightarrow> u32" where
  "nunits_of nbytes = (nbytes + 8 - 1) div 8 + 1"

definition init_free :: "uheap \<Rightarrow> uheap" where
  "init_free h =
     (if freep h = 0 then h\<lparr>umem := set_hsize (ubase h) 0 (set_hptr (ubase h) (ubase h) (umem h)), freep := ubase h\<rparr> else h)"

definition malloc :: "(u32 \<Rightarrow> u32 \<Rightarrow> u32 option) \<Rightarrow> u32 \<Rightarrow> uheap \<Rightarrow> (u32 \<times> uheap) option" where
  "malloc grow nbytes h =
     (let h = init_free h in malloc_loop grow (nunits_of nbytes) (freep h) (hptr (umem h) (freep h)) h)"

section \<open>Headers\<close>

definition hdr_at :: "u32 \<Rightarrow> bool" where
  "hdr_at p \<longleftrightarrow> unat p + 8 \<le> 2147483648"

definition apart :: "u32 \<Rightarrow> u32 \<Rightarrow> bool" where
  "apart p q \<longleftrightarrow> hdr_at p \<and> hdr_at q \<and> (unat p + 8 \<le> unat q \<or> unat q + 8 \<le> unat p)"

lemma st32_outside:
  assumes "unat a + 4 \<le> 4294967296" "unat x < unat a \<or> unat a + 4 \<le> unat x"
  shows "st32 m a v x = m x"
proof -
  have "\<not> unat (x - a) < 4"
    using assms unsigned_less [of x] by (auto simp: unat_diff_u32 word_le_nat_alt)
  then show ?thesis
    by (simp add: st32_def)
qed

lemma ld32_st32_apart:
  assumes "unat a + 4 \<le> 4294967296" "unat b + 4 \<le> 4294967296" "unat b + 4 \<le> unat a \<or> unat a + 4 \<le> unat b"
  shows "ld32 (st32 m a v) b = ld32 m b"
proof (rule ld32_cong)
  fix k :: nat
  assume "k < 4"
  then have "unat (b + of_nat k) = unat b + k"
    using assms(2) by (intro unat_add_of_nat_u32) simp
  then show "st32 m a v (b + of_nat k) = m (b + of_nat k)"
    using assms \<open>k < 4\<close> by (intro st32_outside) auto
qed

lemma hdr_4: "hdr_at p \<Longrightarrow> unat (p + 4) = unat p + 4"
  using unat_add_of_nat_u32 [of p 4] by (simp add: hdr_at_def)

lemma hdr_same [simp]:
  assumes "hdr_at p"
  shows "hptr (set_hptr p v m) p = v" "hsize (set_hptr p v m) p = hsize m p" "hptr (set_hsize p v m) p = hptr m p" "hsize (set_hsize p v m) p = v"
  using assms by (simp_all add: hptr_def hsize_def set_hptr_def set_hsize_def ld32_st32_apart hdr_4, simp_all add: hdr_at_def ld32_st32_apart hdr_4)

lemma hdr_apart [simp]:
  assumes "apart p q"
  shows "hptr (set_hptr p v m) q = hptr m q" "hsize (set_hptr p v m) q = hsize m q" "hptr (set_hsize p v m) q = hptr m q" "hsize (set_hsize p v m) q = hsize m q"
  using assms hdr_4 [of p] hdr_4 [of q]
  by (auto simp: apart_def hdr_at_def hptr_def hsize_def set_hptr_def set_hsize_def intro!: ld32_st32_apart)

lemma hdr_outside:
  assumes "hdr_at p" "unat x < unat p \<or> unat p + 8 \<le> unat x"
  shows "set_hptr p v m x = m x" "set_hsize p v m x = m x"
  using assms hdr_4 [of p] by (auto simp: hdr_at_def set_hptr_def set_hsize_def intro!: st32_outside)

section \<open>The free list\<close>

text \<open>
  The abstraction of the free list: the blocks, as pairs of an address and a number of units, in ascending
  order. \<open>links m bs q\<close> says that the headers of \<open>bs\<close> form a chain that ends with a pointer to \<open>q\<close>.
\<close>

type_synonym ublock = "u32 \<times> nat"

definition bend :: "ublock \<Rightarrow> nat" where
  "bend b = unat (fst b) + 8 * max (snd b) 1"

definition next_of :: "ublock list \<Rightarrow> u32 \<Rightarrow> u32" where
  "next_of bs q = (case bs of [] \<Rightarrow> q | b # _ \<Rightarrow> fst b)"

fun links :: "mem \<Rightarrow> ublock list \<Rightarrow> u32 \<Rightarrow> bool" where
  "links m [] q \<longleftrightarrow> True"
| "links m (b # bs) q \<longleftrightarrow> hptr m (fst b) = next_of bs q \<and> unat (hsize m (fst b)) = snd b \<and> links m bs q"

definition below :: "ublock \<Rightarrow> ublock \<Rightarrow> bool" where
  "below b c \<longleftrightarrow> bend b \<le> unat (fst c)"

definition heap_inv :: "uheap \<Rightarrow> ublock list \<Rightarrow> bool" where
  "heap_inv h bs \<longleftrightarrow> (\<exists>cs. bs = (ubase h, 0) # cs \<and> (\<forall>c\<in>set cs. 1 \<le> snd c)) \<and> sorted_wrt below bs \<and>
     (\<forall>b\<in>set bs. bend b \<le> unat (brk h)) \<and> unat (brk h) \<le> 2147483648 \<and> links (umem h) bs (ubase h) \<and> freep h \<in> fst ` set bs"

definition block_bytes :: "ublock \<Rightarrow> nat set" where
  "block_bytes b = {unat (fst b)..<unat (fst b) + 8 * snd b}"

definition free_bytes :: "ublock list \<Rightarrow> nat set" where
  "free_bytes bs = (\<Union>b\<in>set bs. block_bytes b)"

lemma next_of_append [simp]: "next_of (xs @ ys) q = next_of xs (next_of ys q)"
  by (cases xs) (simp_all add: next_of_def)

lemma next_of_Cons [simp]: "next_of (b # bs) q = fst b"
  by (simp add: next_of_def)

lemma next_of_Nil [simp]: "next_of [] q = q"
  by (simp add: next_of_def)

lemma links_append [simp]: "links m (xs @ ys) q \<longleftrightarrow> links m xs (next_of ys q) \<and> links m ys q"
  by (induction xs) auto

lemma links_cong:
  assumes "\<And>b. b \<in> set bs \<Longrightarrow> hptr m' (fst b) = hptr m (fst b) \<and> hsize m' (fst b) = hsize m (fst b)"
  shows "links m' bs q = links m bs q"
  using assms by (induction bs) auto

lemma links_kept:
  assumes "\<forall>c\<in>set zs. apart p (fst c)"
  shows "links (set_hptr p x m) zs q = links m zs q" "links (set_hsize p x m) zs q = links m zs q"
  using assms by (auto intro!: links_cong)

lemma belowD: "below b c \<Longrightarrow> unat (fst b) + 8 \<le> unat (fst c)"
  by (simp add: below_def bend_def)

lemma bend_ge: "unat (fst b) + 8 \<le> bend b" "unat (fst b) + 8 * snd b \<le> bend b"
  by (simp_all add: bend_def)

lemma bend_pos: "1 \<le> snd b \<Longrightarrow> bend b = unat (fst b) + 8 * snd b"
  by (simp add: bend_def max_def)

lemma heap_invD:
  assumes "heap_inv h bs"
  shows "bs \<noteq> []" "hd bs = (ubase h, 0)" "\<And>c. c \<in> set (tl bs) \<Longrightarrow> 1 \<le> snd c" "sorted_wrt below bs" "\<And>b. b \<in> set bs \<Longrightarrow> bend b \<le> unat (brk h)"
    "unat (brk h) \<le> 2147483648" "links (umem h) bs (ubase h)" "freep h \<in> fst ` set bs" "\<And>b. b \<in> set bs \<Longrightarrow> hdr_at (fst b)"
proof -
  show brk: "\<And>b. b \<in> set bs \<Longrightarrow> bend b \<le> unat (brk h)" "unat (brk h) \<le> 2147483648"
    using assms by (simp_all add: heap_inv_def)
  show "hdr_at (fst b)" if "b \<in> set bs" for b
    using brk(1) [OF that] brk(2) bend_ge(1) [of b] by (simp add: hdr_at_def)
qed (use assms in \<open>auto simp: heap_inv_def\<close>)

lemma sorted_apart:
  assumes "sorted_wrt below (xs @ [b] @ ys)" "\<And>c. c \<in> set (xs @ [b] @ ys) \<Longrightarrow> hdr_at (fst c)" "c \<in> set xs \<union> set ys"
  shows "apart (fst b) (fst c)" "apart (fst c) (fst b)"
  using assms belowD [of b c] belowD [of c b] by (auto simp: sorted_wrt_append apart_def)

section \<open>Finding the place of a block\<close>

text \<open>A block that is not free: between or after the free blocks, and before the end of memory.\<close>

definition used_block :: "uheap \<Rightarrow> ublock list \<Rightarrow> ublock \<Rightarrow> bool" where
  "used_block h bs b \<longleftrightarrow> 1 \<le> snd b \<and> unat (hsize (umem h) (fst b)) = snd b \<and> bend b \<le> unat (brk h) \<and>
     (\<forall>c\<in>set bs. below c b \<or> below b c) \<and> below (ubase h, 0) b"

lemma used_split:
  assumes "heap_inv h bs" "used_block h bs b"
  obtains xs p ys where "bs = xs @ [p] @ ys" "\<forall>c\<in>set (xs @ [p]). below c b" "\<forall>c\<in>set ys. below b c"
proof -
  note i = heap_invD [OF assms(1)]
  let ?P = "\<lambda>c. below c b"
  have u: "\<And>c. c \<in> set bs \<Longrightarrow> below c b \<or> below b c" "below (ubase h, 0) b"
    using assms(2) by (simp_all add: used_block_def)
  have "takeWhile ?P bs \<noteq> []"
    using i(1,2) u(2) by (cases bs) simp_all
  then obtain xs p where xs: "takeWhile ?P bs = xs @ [p]"
    by (metis rev_exhaust)
  have "below b c" if c: "c \<in> set (dropWhile ?P bs)" for c
  proof -
    obtain d ds where d: "dropWhile ?P bs = d # ds"
      using c by (cases "dropWhile ?P bs") auto
    have "\<not> below d b" "d \<in> set bs"
      using d hd_dropWhile [of ?P bs] set_dropWhileD [of d ?P bs] by auto
    then have bd: "below b d"
      using u(1) by blast
    have "sorted_wrt below (takeWhile ?P bs @ dropWhile ?P bs)"
      using i(4) by simp
    then have "c = d \<or> below d c"
      using c unfolding d sorted_wrt_append by auto
    then show ?thesis
      using bd bend_ge(1) [of d] by (auto simp: below_def)
  qed
  moreover have "bs = xs @ [p] @ dropWhile ?P bs"
    using takeWhile_dropWhile_id [of ?P bs] xs by simp
  moreover have "\<forall>c\<in>set (xs @ [p]). below c b"
    using xs set_takeWhileD [of _ ?P bs] by metis
  ultimately show ?thesis
    using that by blast
qed

lemma below_less: "below b c \<Longrightarrow> fst b < fst c" "below b c \<Longrightarrow> \<not> fst c < fst b" "below b c \<Longrightarrow> \<not> fst c \<le> fst b"
  using belowD [of b c] by (simp_all add: word_less_nat_alt word_le_nat_alt)

lemma search_here:
  assumes "links m ([p] @ ys) q" "below p b" "\<forall>c\<in>set ys. below b c" "ys = [] \<Longrightarrow> q \<le> fst p"
  shows "free_search m (fst b) (fst p) = Some (fst p)"
proof -
  have p: "fst p < fst b" "hptr m (fst p) = next_of ys q"
    using assms(1) below_less(1) [OF assms(2)] by simp_all
  have "fst b < next_of ys q \<or> next_of ys q \<le> fst p"
    using assms(3,4) below_less(1) by (cases ys) simp_all
  then show ?thesis
    using p by (subst free_search.simps) auto
qed

lemma search_up:
  assumes "links m (zs @ [p] @ ys) q" "sorted_wrt below (zs @ [p] @ ys)" "\<forall>c\<in>set (zs @ [p]). below c b" "\<forall>c\<in>set ys. below b c"
    and "ys = [] \<Longrightarrow> q \<le> fst p"
  shows "free_search m (fst b) (next_of (zs @ [p]) q) = Some (fst p)"
  using assms
proof (induction zs)
  case Nil
  then show ?case
    using search_here [of m p ys q b] by simp
next
  case (Cons c zs)
  let ?n = "next_of (zs @ [p]) q"
  have n: "hptr m (fst c) = ?n" "?n \<in> fst ` set (zs @ [p])"
    using Cons.prems(1) by (cases zs; simp)+
  then obtain d where d: "?n = fst d" "d \<in> set (zs @ [p])"
    by blast
  have "below c d" "below d b"
    using Cons.prems(2,3) d(2) by auto
  then have "\<not> fst b < ?n" "\<not> ?n \<le> fst c"
    unfolding d(1) by (simp_all add: below_less)
  then have "free_search m (fst b) (fst c) = free_search m (fst b) ?n"
    by (subst free_search.simps) (simp add: n(1))
  then show ?case
    using Cons by simp
qed

lemma search_down:
  assumes "links m ws q" "sorted_wrt below ws" "\<forall>c\<in>set ws. below b c" "q < fst b"
  shows "free_search m (fst b) (next_of ws q) = free_search m (fst b) q"
  using assms
proof (induction ws)
  case (Cons c ws)
  let ?n = "next_of ws q"
  have n: "hptr m (fst c) = ?n"
    using Cons.prems(1) by simp
  have c: "fst b < fst c"
    using Cons.prems(3) below_less(1) by simp
  have "\<not> (?n \<le> fst c \<and> (fst c < fst b \<or> fst b < ?n))"
  proof (cases ws)
    case Nil
    then show ?thesis
      using c Cons.prems(4) by auto
  next
    case (Cons d ds)
    then have "below c d"
      using Cons.prems(2) by simp
    then show ?thesis
      using below_less(3) Cons by simp
  qed
  then have "free_search m (fst b) (fst c) = free_search m (fst b) ?n"
    using c by (subst free_search.simps) (auto simp: n)
  then show ?case
    using Cons by simp
qed simp

lemma free_search_finds:
  assumes "heap_inv h bs" "bs = xs @ [p] @ ys" "\<forall>c\<in>set (xs @ [p]). below c b" "\<forall>c\<in>set ys. below b c"
  shows "free_search (umem h) (fst b) (freep h) = Some (fst p)"
proof -
  note i = heap_invD [OF assms(1)]
  have hd: "ubase h = next_of (xs @ [p]) q" "(ubase h, 0) \<in> set (xs @ [p])" for q
    using i(2) unfolding assms(2) by (cases xs; simp)+
  have last: "ubase h \<le> fst p"
  proof (cases "(ubase h, 0) = p")
    case False
    then have "below (ubase h, 0) p"
      using i(4) hd(2) unfolding assms(2) sorted_wrt_append by auto
    then show ?thesis
      using below_less(1) by fastforce
  qed (auto dest: sym)
  have inv: "links (umem h) (xs @ [p] @ ys) (ubase h)" "sorted_wrt below (xs @ [p] @ ys)"
    using i(4,7) unfolding assms(2) by simp_all
  have up: "free_search (umem h) (fst b) (next_of (zs @ [p]) (ubase h)) = Some (fst p)" if "xs = ws @ zs" for zs ws
    using inv assms(3,4) last that by (intro search_up) (auto simp: sorted_wrt_append)
  obtain f where f: "f \<in> set bs" "freep h = fst f"
    using i(8) by blast
  show ?thesis
  proof (cases "f \<in> set ys")
    case True
    then obtain us vs where ys: "ys = us @ [f] @ vs"
      by (auto dest: split_list)
    have "ubase h < fst b"
      using hd(2) assms(3) below_less(1) by fastforce
    then have "free_search (umem h) (fst b) (next_of ([f] @ vs) (ubase h)) = free_search (umem h) (fst b) (ubase h)"
      using inv assms(4) by (intro search_down) (auto simp: ys sorted_wrt_append)
    then show ?thesis
      using up [of "[]" xs] hd(1) [of "ubase h"] f(2) by simp
  next
    case False
    then have "f \<in> set (xs @ [p])"
      using f(1) assms(2) by auto
    then consider "f = p" | ws zs where "xs = ws @ f # zs"
      by (auto dest: split_list)
    then show ?thesis
    proof cases
      case 1
      then show ?thesis
        using up [of xs "[]"] f(2) by simp
    next
      case (2 ws zs)
      then show ?thesis
        using up [of ws "f # zs"] f(2) by simp
    qed
  qed
qed

section \<open>Freeing\<close>

lemma unat_end:
  fixes a k :: u32
  assumes "unat a + 8 * n \<le> 2147483648" "unat k = n"
  shows "unat (a + 8 * k) = unat a + 8 * n"
proof -
  have "unat (8 * k) = 8 * n"
    using assms by (simp add: unat_word_ariths)
  then show ?thesis
    using assms by (simp add: unat_word_ariths)
qed

lemma unat_sum: "unat (a :: u32) = n \<Longrightarrow> unat b = k \<Longrightarrow> n + k \<le> 2147483648 \<Longrightarrow> unat (a + b) = n + k"
  by (simp add: unat_word_ariths)

text \<open>The block after \<open>b\<close> is absorbed if it is adjacent.\<close>

definition absorb :: "ublock \<Rightarrow> ublock list \<Rightarrow> ublock list" where
  "absorb b ys = (case ys of [] \<Rightarrow> [b] | d # ds \<Rightarrow> if bend b = unat (fst d) then (fst b, snd b + snd d) # ds else b # ys)"

lemma join_up_spec:
  assumes m: "links m ([p] @ ys) q" "unat (hsize m (fst b)) = snd b" "1 \<le> snd b" "bend b \<le> 2147483648"
    and ys: "\<forall>c\<in>set ys. below b c \<and> 1 \<le> snd c \<and> bend c \<le> 2147483648" and p: "below p b" "q < fst b"
  shows "links (join_up (fst b) (fst p) m) (absorb b ys) q" "\<And>c. apart (fst b) c \<Longrightarrow> hptr (join_up (fst b) (fst p) m) c = hptr m c"
    "\<And>c. apart (fst b) c \<Longrightarrow> hsize (join_up (fst b) (fst p) m) c = hsize m c"
    "\<And>x. unat x < unat (fst b) \<or> bend b \<le> unat x \<Longrightarrow> join_up (fst b) (fst p) m x = m x"
proof -
  let ?m = "join_up (fst b) (fst p) m"
  have hb: "hdr_at (fst b)"
    using m(4) bend_ge(1) [of b] by (simp add: hdr_at_def)
  have e: "unat (fst b + 8 * hsize m (fst b)) = bend b"
    using m(2-4) bend_pos [OF m(3)] by (intro unat_end [THEN trans]) simp_all
  have np: "hptr m (fst p) = next_of ys q"
    using m(1) by simp
  have ap: "apart (fst b) (fst c)" "hdr_at (fst c)" if "c \<in> set ys" for c
    using ys that belowD [of b c] hb bend_ge(1) [of c] by (auto simp: apart_def hdr_at_def)
  have pb: "apart (fst b) (fst p)"
    using belowD [OF p(1)] hb by (simp add: apart_def hdr_at_def)
  have adj: "fst b + 8 * hsize m (fst b) = next_of ys q \<longleftrightarrow> ys \<noteq> [] \<and> bend b = unat (fst (hd ys))"
    using e p(2) bend_ge(1) [of b] by (cases ys) (auto simp: word_unat_eq_iff word_less_nat_alt)
  show "hptr ?m c = hptr m c" "hsize ?m c = hsize m c" if "apart (fst b) c" for c
    using that by (simp_all add: join_up_def Let_def)
  show "?m x = m x" if "unat x < unat (fst b) \<or> bend b \<le> unat x" for x
  proof -
    have "unat x < unat (fst b) \<or> unat (fst b) + 8 \<le> unat x"
      using that bend_ge(1) [of b] by linarith
    then show ?thesis
      by (simp add: join_up_def Let_def hdr_outside [OF hb])
  qed
  have ly: "links ?m zs r = links m zs r" if "set zs \<subseteq> set ys" for zs r
    using that ap by (intro links_cong) (auto simp: join_up_def Let_def)
  show "links ?m (absorb b ys) q"
  proof (cases "ys \<noteq> [] \<and> bend b = unat (fst (hd ys))")
    case True
    then obtain d ds where d: "ys = d # ds" "bend b = unat (fst d)"
      by (cases ys) auto
    have eq: "?m = set_hptr (fst b) (hptr m (fst d)) (set_hsize (fst b) (hsize m (fst b) + hsize m (fst d)) m)"
      using adj True np pb ap [of d] by (simp add: join_up_def Let_def d)
    have "unat (hsize m (fst b) + hsize m (fst d)) = snd b + snd d"
      using m(1,2) ys bend_ge(2) [of d] bend_pos [OF m(3)] unfolding d by (intro unat_sum) auto
    moreover have "links ?m ds q"
      using ly [of ds] m(1) d by auto
    ultimately show ?thesis
      using m(1) d hb eq by (simp add: absorb_def)
  next
    case False
    then have eq: "?m = set_hptr (fst b) (next_of ys q) m"
      using adj np by (auto simp: join_up_def)
    have "absorb b ys = b # ys"
      using False by (auto simp: absorb_def split: list.splits)
    moreover have "links ?m ys q"
      using ly [of ys] m(1) by simp
    ultimately show ?thesis
      using hb m(2) eq by simp
  qed
qed

text \<open>The free list after the merge with the block \<open>p\<close> before.\<close>

definition settle :: "ublock \<Rightarrow> ublock list \<Rightarrow> ublock list" where
  "settle p cs = (if unat (fst p) + 8 * snd p = unat (fst (hd cs)) then (fst p, snd p + snd (hd cs)) # tl cs else p # cs)"

lemma join_down_spec:
  assumes m: "links m (xs @ [p]) r" "links m (c # cs) q" "1 \<le> snd c" "below p c" "bend c \<le> 2147483648"
    and xs: "\<forall>x\<in>set xs. apart (fst p) (fst x)" and cs: "\<forall>x\<in>set cs. apart (fst p) (fst x)"
  shows "links (join_down (fst c) (fst p) m) (xs @ settle p (c # cs)) q"
    "\<And>x. unat x < unat (fst p) \<or> bend p \<le> unat x \<Longrightarrow> join_down (fst c) (fst p) m x = m x"
proof -
  let ?m = "join_down (fst c) (fst p) m"
  have hp: "hdr_at (fst p)" "apart (fst p) (fst c)"
    using belowD [OF m(4)] m(5) bend_ge(1) [of c] by (auto simp: hdr_at_def apart_def)
  have sz: "unat (hsize m (fst p)) = snd p" "unat (hsize m (fst c)) = snd c" "hptr m (fst c) = next_of cs q" "links m xs (fst p)"
    using m(1,2) by simp_all
  have "unat (fst p + 8 * hsize m (fst p)) = unat (fst p) + 8 * snd p"
    using m(4,5) sz(1) bend_ge(2) [of p] bend_ge(1) [of c] by (intro unat_end) (auto simp: below_def)
  then have adj: "fst p + 8 * hsize m (fst p) = fst c \<longleftrightarrow> unat (fst p) + 8 * snd p = unat (fst c)"
    by (simp add: word_unat_eq_iff)
  show "?m x = m x" if "unat x < unat (fst p) \<or> bend p \<le> unat x" for x
  proof -
    have "unat x < unat (fst p) \<or> unat (fst p) + 8 \<le> unat x"
      using that bend_ge(1) [of p] by linarith
    then show ?thesis
      by (simp add: join_down_def Let_def hdr_outside [OF hp(1)])
  qed
  have keep: "links ?m zs t = links m zs t" if "\<forall>x\<in>set zs. apart (fst p) (fst x)" for zs t
    using that by (intro links_cong) (auto simp: join_down_def Let_def)
  have lk: "links ?m xs (fst p)" "links ?m cs q" "links ?m [c] (next_of cs q)"
    using keep [OF xs] keep [OF cs] keep [of "[c]"] hp(2) m(2) sz by simp_all
  show "links ?m (xs @ settle p (c # cs)) q"
  proof (cases "unat (fst p) + 8 * snd p = unat (fst c)")
    case True
    have "?m = set_hptr (fst p) (next_of cs q) (set_hsize (fst p) (hsize m (fst p) + hsize m (fst c)) m)"
      using True adj hp sz by (simp add: join_down_def Let_def)
    moreover have "unat (hsize m (fst p) + hsize m (fst c)) = snd p + snd c"
      using sz True m(5) bend_ge(2) [of c] by (intro unat_sum) auto
    ultimately show ?thesis
      using True lk hp(1) by (simp add: settle_def)
  next
    case False
    then have "?m = set_hptr (fst p) (fst c) m"
      using adj by (simp add: join_down_def)
    then show ?thesis
      using False lk hp(1) sz(1) by (simp add: settle_def)
  qed
qed

lemma free_bytes_simps [simp]:
  "free_bytes [] = {}" "free_bytes (b # bs) = block_bytes b \<union> free_bytes bs" "free_bytes (xs @ ys) = free_bytes xs \<union> free_bytes ys"
  by (auto simp: free_bytes_def)

lemma block_bytes_join:
  "unat a + 8 * n = unat b \<Longrightarrow> block_bytes (a, n + k) = block_bytes (a, n) \<union> block_bytes (b, k)"
  by (auto simp: block_bytes_def)

lemma absorb_cases:
  assumes "1 \<le> snd b" "sorted_wrt below ys" "\<forall>c\<in>set ys. below b c \<and> 1 \<le> snd c \<and> bend c \<le> B" "bend b \<le> B"
  obtains c cs where "absorb b ys = c # cs" "fst c = fst b" "snd b \<le> snd c" "bend c \<le> B" "sorted_wrt below (c # cs)" "set cs \<subseteq> set ys"
    "block_bytes c \<union> free_bytes cs = block_bytes b \<union> free_bytes ys"
proof (cases "ys \<noteq> [] \<and> bend b = unat (fst (hd ys))")
  case True
  then obtain d ds where d: "ys = d # ds" "bend b = unat (fst d)"
    by (cases ys) auto
  let ?c = "(fst b, snd b + snd d)"
  have e: "unat (fst b) + 8 * snd b = unat (fst d)"
    using d(2) bend_pos [OF assms(1)] by simp
  have d1: "1 \<le> snd d"
    using assms(3) d(1) by simp
  have ec: "bend ?c = bend d"
    using e bend_pos [OF d1] bend_pos [of ?c] assms(1) by simp
  have "sorted_wrt below (?c # ds)" "bend ?c \<le> B"
    using assms(2,3) ec by (auto simp: d(1) below_def)
  moreover have "block_bytes ?c = block_bytes b \<union> block_bytes d"
    using block_bytes_join [OF e, of "snd d"] by simp
  ultimately show ?thesis
    using that [of ?c ds] d by (auto simp: absorb_def)
next
  case False
  then have "absorb b ys = b # ys"
    by (auto simp: absorb_def split: list.splits)
  then show ?thesis
    using that [of b ys] assms by auto
qed

definition base_bytes :: "uheap \<Rightarrow> nat set" where
  "base_bytes h = {unat (ubase h)..<unat (ubase h) + 8}"

definition freed :: "uheap \<Rightarrow> ublock list \<Rightarrow> ublock \<Rightarrow> uheap \<Rightarrow> ublock list \<Rightarrow> bool" where
  "freed h bs b h' bs' \<longleftrightarrow> heap_inv h' bs' \<and> free_bytes bs' = free_bytes bs \<union> block_bytes b \<and> brk h' = brk h \<and> ubase h' = ubase h \<and>
     (\<exists>c\<in>set bs'. snd b \<le> snd c) \<and> (\<forall>x. unat x \<notin> free_bytes bs \<union> block_bytes b \<union> base_bytes h \<longrightarrow> umem h' x = umem h x)"

lemma hdr_in_free:
  assumes "heap_inv h bs" "c \<in> set bs" "unat x \<notin> free_bytes bs \<union> base_bytes h"
  shows "unat x < unat (fst c) \<or> bend c \<le> unat x"
proof (cases "snd c = 0")
  case True
  then have "c = (ubase h, 0)"
    using assms(1,2) unfolding heap_inv_def by fastforce
  then show ?thesis
    using assms(3) by (auto simp: base_bytes_def bend_def)
next
  case False
  then have "1 \<le> snd c"
    by simp
  then show ?thesis
    using assms(2,3) bend_pos [of c] by (auto simp: free_bytes_def block_bytes_def)
qed

lemma heap_invI:
  assumes "ubase h = a" "\<exists>cs. bs = (a, 0) # cs \<and> (\<forall>c\<in>set cs. 1 \<le> snd c)" "sorted_wrt below bs" "\<And>b. b \<in> set bs \<Longrightarrow> bend b \<le> unat (brk h)"
    "unat (brk h) \<le> 2147483648" "links (umem h) bs (ubase h)" "freep h \<in> fst ` set bs"
  shows "heap_inv h bs"
  using assms by (simp add: heap_inv_def)

lemma settle_props:
  assumes "sorted_wrt below (xs @ [p] @ c # cs)" "1 \<le> snd c" "(\<exists>ds. xs @ [p] = (a, 0) # ds \<and> (\<forall>d\<in>set ds. 1 \<le> snd d))" "\<forall>d\<in>set cs. 1 \<le> snd d"
  shows "sorted_wrt below (xs @ settle p (c # cs))" "\<exists>ds. xs @ settle p (c # cs) = (a, 0) # ds \<and> (\<forall>d\<in>set ds. 1 \<le> snd d)"
    "free_bytes (settle p (c # cs)) = block_bytes p \<union> block_bytes c \<union> free_bytes cs"
    "\<exists>d\<in>set (settle p (c # cs)). snd c \<le> snd d" "fst p \<in> fst ` set (settle p (c # cs))"
    "\<And>B. \<forall>d\<in>set (xs @ [p] @ c # cs). bend d \<le> B \<Longrightarrow> \<forall>d\<in>set (xs @ settle p (c # cs)). bend d \<le> B"
proof -
  let ?j = "unat (fst p) + 8 * snd p = unat (fst c)"
  let ?d = "(fst p, snd p + snd c)"
  have pc: "below p c"
    using assms(1) by (simp add: sorted_wrt_append)
  have j: "bend ?d = bend c" "1 \<le> snd p" if ?j
    using that assms(2) bend_pos [of ?d] bend_pos [of c] belowD [OF pc] by auto
  show "sorted_wrt below (xs @ settle p (c # cs))"
    using assms(1) j by (auto simp: settle_def sorted_wrt_append below_def)
  show "\<exists>ds. xs @ settle p (c # cs) = (a, 0) # ds \<and> (\<forall>d\<in>set ds. 1 \<le> snd d)"
    using assms(2-4) j(2) by (cases xs) (auto simp: settle_def)
  show "free_bytes (settle p (c # cs)) = block_bytes p \<union> block_bytes c \<union> free_bytes cs"
    using block_bytes_join [of "fst p" "snd p" "fst c" "snd c"] by (auto simp: settle_def)
  show "\<exists>d\<in>set (settle p (c # cs)). snd c \<le> snd d" "fst p \<in> fst ` set (settle p (c # cs))"
    by (simp_all add: settle_def)
  show "\<forall>d\<in>set (xs @ settle p (c # cs)). bend d \<le> B" if "\<forall>d\<in>set (xs @ [p] @ c # cs). bend d \<le> B" for B
    using that j(1) by (auto simp: settle_def)
qed

lemma free_spec:
  assumes inv: "heap_inv h bs" and used: "used_block h bs b"
  obtains h' bs' where "free (fst b + 8) h = Some h'" "freed h bs b h' bs'"
proof -
  note i = heap_invD [OF inv]
  obtain xs p ys where bs: "bs = xs @ [p] @ ys" and lo: "\<forall>c\<in>set (xs @ [p]). below c b" and hi: "\<forall>c\<in>set ys. below b c"
    by (rule used_split [OF inv used])
  have u: "1 \<le> snd b" "unat (hsize (umem h) (fst b)) = snd b" "bend b \<le> unat (brk h)" "below (ubase h, 0) b" "hdr_at (fst b)"
    using used i(6) bend_ge(1) [of b] by (auto simp: used_block_def hdr_at_def)
  have ys: "\<forall>c\<in>set ys. below b c \<and> 1 \<le> snd c \<and> bend c \<le> unat (brk h)"
    using hi i(3,5) unfolding bs by (cases xs) auto
  have hd: "\<exists>ds. xs @ [p] = (ubase h, 0) # ds \<and> (\<forall>d\<in>set ds. 1 \<le> snd d)"
    using inv unfolding bs heap_inv_def by (cases xs) auto
  have so: "sorted_wrt below (xs @ [p])" "sorted_wrt below ys" "\<forall>x\<in>set (xs @ [p]). \<forall>y\<in>set ys. below x y"
    using i(4) unfolding bs by (auto simp: sorted_wrt_append)
  obtain c cs where c: "absorb b ys = c # cs" "fst c = fst b" "snd b \<le> snd c" "bend c \<le> unat (brk h)" "sorted_wrt below (c # cs)" "set cs \<subseteq> set ys"
    "block_bytes c \<union> free_bytes cs = block_bytes b \<union> free_bytes ys"
    by (rule absorb_cases [OF u(1) so(2) ys u(3)])
  let ?m1 = "join_up (fst b) (fst p) (umem h)"
  have pb: "below p b" "ubase h < fst b"
    using lo u(4) below_less(1) [OF u(4)] by simp_all
  have lb: "\<forall>x\<in>set (xs @ [p]). below x c" "1 \<le> snd c"
    using lo c(2,3) u(1) by (auto simp: below_def)
  have all: "sorted_wrt below (xs @ [p] @ c # cs)"
    using so c(5,6) lb(1) by (auto simp: sorted_wrt_append)
  have lh: "links (umem h) ([p] @ ys) (ubase h)"
    using i(7) by (simp add: bs)
  have ys': "\<forall>c\<in>set ys. below b c \<and> 1 \<le> snd c \<and> bend c \<le> 2147483648" "bend b \<le> 2147483648" "bend c \<le> 2147483648"
    using ys u(3) c(4) i(6) by force+
  note up = join_up_spec [OF lh u(2,1) ys'(2,1) pb]
  have bx: "apart (fst b) (fst x)" if "x \<in> set (xs @ [p])" for x
    using belowD [of x b] lo that u(5) by (auto simp: apart_def hdr_at_def)
  have l1: "links ?m1 (xs @ [p]) (next_of ys (ubase h))"
    using i(7) bx up(2,3) by (subst links_cong [where m = "umem h"]) (auto simp: bs)
  have l2: "links ?m1 (c # cs) (ubase h)"
    using up(1) c(1) by simp
  have cy: "\<And>x. x \<in> set cs \<Longrightarrow> x \<in> set ys"
    using c(6) by blast
  have px: "\<forall>x\<in>set xs. apart (fst p) (fst x)" "\<forall>x\<in>set cs. apart (fst p) (fst x)"
    using sorted_apart(1) [of xs p ys] i(4,9) cy unfolding bs by simp_all
  have pc: "below p c" "\<forall>d\<in>set cs. 1 \<le> snd d" "\<forall>d\<in>set (xs @ [p] @ c # cs). bend d \<le> unat (brk h)"
    using lb(1) ys cy c(4) i(5) unfolding bs by auto
  let ?h = "h\<lparr>umem := join_down (fst b) (fst p) ?m1, freep := fst p\<rparr>"
  let ?bs = "xs @ settle p (c # cs)"
  note down = join_down_spec [OF l1 l2 lb(2) pc(1) ys'(3) px, unfolded c(2)]
  note st = settle_props [OF all lb(2) hd pc(2)]
  show ?thesis
  proof (rule that [of ?h ?bs])
    show "free (fst b + 8) h = Some ?h"
      using free_search_finds [OF inv bs lo hi] by (simp add: free_def Let_def)
    have inv': "heap_inv ?h ?bs"
      using st(1,2,5) st(6) [OF pc(3)] i(6) down(1)
      by (intro heap_invI [of _ "ubase h"]) auto
    have fb: "free_bytes ?bs = free_bytes bs \<union> block_bytes b"
      using st(3) c(7) by (auto simp: bs)
    have "umem ?h x = umem h x" if "unat x \<notin> free_bytes bs \<union> block_bytes b \<union> base_bytes h" for x
      using that hdr_in_free [OF inv, of p x] up(4) [of x] down(2) [of x] bend_pos [OF u(1)]
      by (auto simp: bs block_bytes_def)
    moreover have st4: "\<exists>d\<in>set ?bs. snd b \<le> snd d"
      using st(4) c(3) order_trans by (metis UnCI set_append)
    ultimately show "freed h bs b ?h ?bs"
      using inv' fb unfolding freed_def by simp
  qed
qed

section \<open>Taking a block\<close>

lemma block_bytes_split: "k \<le> n \<Longrightarrow> unat b = unat a + 8 * (n - k) \<Longrightarrow> block_bytes (a, n) = block_bytes (a, n - k) \<union> block_bytes (b, k)"
  using block_bytes_join [of a "n - k" b k] by simp

definition taken :: "uheap \<Rightarrow> ublock list \<Rightarrow> ublock \<Rightarrow> uheap \<Rightarrow> ublock list \<Rightarrow> bool" where
  "taken h bs b h' bs' \<longleftrightarrow> heap_inv h' bs' \<and> used_block h' bs' b \<and> free_bytes bs = free_bytes bs' \<union> block_bytes b \<and> free_bytes bs' \<inter> block_bytes b = {} \<and>
     brk h' = brk h \<and> ubase h' = ubase h \<and> (\<forall>x. unat x \<notin> free_bytes bs \<union> base_bytes h \<longrightarrow> umem h' x = umem h x)"

lemma used_disjoint:
  assumes "used_block h bs b"
  shows "free_bytes bs \<inter> block_bytes b = {}"
proof -
  have "block_bytes c \<inter> block_bytes b = {}" if "c \<in> set bs" for c
  proof -
    have "bend c \<le> unat (fst b) \<or> bend b \<le> unat (fst c)"
      using assms that by (auto simp: used_block_def below_def)
    then show ?thesis
      using bend_ge(2) [of b] bend_ge(2) [of c] by (auto simp: block_bytes_def)
  qed
  then show ?thesis
    by (auto simp: free_bytes_def)
qed

lemma take_exact:
  assumes inv: "heap_inv h bs" and bs: "bs = xs @ [v, w] @ ys" and n: "unat n = snd w"
  shows "\<exists>h'. take_units n (fst v) (fst w) h = (fst w + 8, h') \<and> taken h bs w h' (xs @ [v] @ ys)"
proof -
  note i = heap_invD [OF inv]
  let ?h = "h\<lparr>umem := set_hptr (fst v) (hptr (umem h) (fst w)) (umem h), freep := fst v\<rparr>"
  let ?bs = "xs @ [v] @ ys"
  have lk: "links (umem h) xs (fst v)" "unat (hsize (umem h) (fst v)) = snd v" "hptr (umem h) (fst w) = next_of ys (ubase h)" "unat (hsize (umem h) (fst w)) = snd w" "links (umem h) ys (ubase h)"
    using i(7) unfolding bs by simp_all
  have vx: "apart (fst v) (fst c)" if "c \<in> set (xs @ [w] @ ys)" for c
    using sorted_apart(1) [of xs v "w # ys" c] i(4,9) that unfolding bs by auto
  have hv: "hdr_at (fst v)"
    using i(9) [of v] bs by simp
  have lk': "links (umem ?h) xs (fst v)" "links (umem ?h) ys (ubase h)"
    using lk(1,5) vx by (simp_all add: links_kept)
  have w1: "1 \<le> snd w"
    using i(3) [of w] unfolding bs by (cases xs) simp_all
  have inv': "heap_inv ?h ?bs"
  proof (rule heap_invI [of _ "ubase h"])
    show "\<exists>cs. ?bs = (ubase h, 0) # cs \<and> (\<forall>c\<in>set cs. 1 \<le> snd c)"
      using inv unfolding bs heap_inv_def by (cases xs) auto
    show "links (umem ?h) ?bs (ubase ?h)"
      using lk lk' hv by simp
  qed (use i(4,5,6) in \<open>auto simp: bs sorted_wrt_append\<close>)
  have so: "\<forall>c\<in>set ?bs. below c w \<or> below w c"
    using i(4) by (auto simp: bs sorted_wrt_append)
  have "below (ubase h, 0) w"
    using i(1,2,4) unfolding bs by (cases xs) auto
  then have used: "used_block ?h ?bs w"
    using so w1 i(5) [of w] lk(4) vx [of w] by (simp add: used_block_def bs)
  have "umem ?h x = umem h x" if "unat x \<notin> free_bytes bs \<union> base_bytes h" for x
    using hdr_in_free [OF inv _ that, of v] bend_ge(1) [of v] hdr_outside(1) [OF hv, of x] by (auto simp: bs)
  moreover have "hsize (umem h) (fst w) = n"
    using n lk(4) by (simp add: word_unat_eq_iff)
  ultimately show ?thesis
    using inv' used used_disjoint [OF used] by (auto simp: take_units_def taken_def bs Let_def)
qed

lemma split_heap:
  assumes inv: "heap_inv h bs" and bs: "bs = xs @ [v, w] @ ys" and n: "1 \<le> unat n" "unat n < snd w"
    and k: "unat k = snd w - unat n" and q: "unat q = unat (fst w) + 8 * (snd w - unat n)"
  shows "taken h bs (q, unat n) (h\<lparr>umem := set_hsize q n (set_hsize (fst w) k (umem h)), freep := fst v\<rparr>) (xs @ [v, (fst w, snd w - unat n)] @ ys)"
    (is "taken h bs ?b ?h ?bs")
proof -
  note i = heap_invD [OF inv]
  let ?w = "(fst w, snd w - unat n)"
  have lk: "links (umem h) xs (fst v)" "links (umem h) [v] (fst w)" "hptr (umem h) (fst w) = next_of ys (ubase h)" "links (umem h) ys (ubase h)"
    using i(7) unfolding bs by simp_all
  have ew: "bend w = unat (fst w) + 8 * snd w" "bend w \<le> unat (brk h)" "hdr_at (fst w)"
    using n(2) bend_pos [of w] i(5,9) [of w] by (simp_all add: bs)
  have e: "bend ?w = unat q" "bend ?b = bend w" "unat (fst w) + 8 \<le> unat q" "unat q + 8 \<le> bend w"
    using n q ew(1) by (auto simp: bend_def)
  have hq: "hdr_at q" "apart q (fst w)"
    using e ew i(6) by (auto simp: hdr_at_def apart_def)
  have wx: "below c w \<or> below w c" "apart (fst w) (fst c)" "apart q (fst c)" if "c \<in> set (xs @ [v] @ ys)" for c
  proof -
    show bl: "below c w \<or> below w c"
      using i(4) that unfolding bs by (auto simp: sorted_wrt_append)
    have "hdr_at (fst c)"
      using i(9) [of c] that by (auto simp: bs)
    then show "apart (fst w) (fst c)" "apart q (fst c)"
      using bl belowD [of c w] belowD [of w c] ew(3) hq(1) e(3,4) by (auto simp: apart_def below_def)
  qed
  have kp: "links (umem ?h) zs r = links (umem h) zs r" if "set zs \<subseteq> set (xs @ [v] @ ys)" for zs r
  proof -
    have "\<forall>c\<in>set zs. apart (fst w) (fst c)" "\<forall>c\<in>set zs. apart q (fst c)"
      using that wx(2,3) by blast+
    then show ?thesis
      by (simp add: links_kept)
  qed
  have "links (umem ?h) xs (fst v)" "links (umem ?h) [v] (fst w)" "links (umem ?h) ys (ubase h)"
    using lk kp [of xs] kp [of "[v]"] kp [of ys] by auto
  moreover have "links (umem ?h) [?w] (next_of ys (ubase h))"
    using lk(3) hq ew(3) k by simp
  ultimately have ls: "links (umem ?h) ?bs (ubase h)"
    by simp
  have inv': "heap_inv ?h ?bs"
  proof (rule heap_invI [of _ "ubase h"])
    show "\<exists>cs. ?bs = (ubase h, 0) # cs \<and> (\<forall>c\<in>set cs. 1 \<le> snd c)"
      using inv n unfolding bs heap_inv_def by (cases xs) auto
    show "sorted_wrt below ?bs"
      using i(4) e by (auto simp: bs sorted_wrt_append below_def)
    show "bend c \<le> unat (brk ?h)" if "c \<in> set ?bs" for c
      using that i(5) [of c] e ew by (auto simp: bs)
  qed (use i(6) ls in auto)
  have "below c ?b \<or> below ?b c" if "c \<in> set ?bs" for c
    using that wx(1) [of c] e bend_ge(1) [of w] by (auto simp: below_def)
  moreover have "below (ubase h, 0) w"
    using i(1,2,4) unfolding bs by (cases xs) auto
  ultimately have used: "used_block ?h ?bs ?b"
    using n(1) hq(1) e(2,3) ew(2) by (simp add: used_block_def below_def)
  have "umem ?h x = umem h x" if "unat x \<notin> free_bytes bs \<union> base_bytes h" for x
  proof -
    have "unat x < unat (fst w) \<or> bend w \<le> unat x"
      using hdr_in_free [OF inv _ that, of w] by (simp add: bs)
    then show ?thesis
      using e(3,4) by (auto simp: hdr_outside [OF hq(1)] hdr_outside [OF ew(3)])
  qed
  then show ?thesis
    using inv' used used_disjoint [OF used] block_bytes_split [of "unat n" "snd w" q "fst w"] n(2) q by (auto simp: taken_def bs)
qed

lemma take_units_spec:
  assumes inv: "heap_inv h bs" and bs: "bs = xs @ [v, w] @ ys" and n: "1 \<le> unat n" "unat n \<le> snd w"
  obtains a h' bs' where "take_units n (fst v) (fst w) h = (a + 8, h')" "taken h bs (a, unat n) h' bs'"
proof (cases "unat n = snd w")
  case True
  then show ?thesis
    using take_exact [OF inv bs True] that by (metis prod.collapse)
next
  case False
  note i = heap_invD [OF inv]
  let ?k = "hsize (umem h) (fst w) - n"
  have s: "unat (hsize (umem h) (fst w)) = snd w"
    using i(7) unfolding bs by simp
  have k: "unat ?k = snd w - unat n"
    using n(2) s by (simp add: unat_diff_u32 word_le_nat_alt)
  have q: "unat (fst w + 8 * ?k) = unat (fst w) + 8 * (snd w - unat n)"
    using i(5) [of w] i(6,9) bend_ge(2) [of w] n(2) unfolding bs by (intro unat_end k) simp
  have "take_units n (fst v) (fst w) h = (fst w + 8 * ?k + 8, h\<lparr>umem := set_hsize (fst w + 8 * ?k) n (set_hsize (fst w) ?k (umem h)), freep := fst v\<rparr>)"
    using s False i(9) [of w] by (auto simp: take_units_def Let_def bs)
  then show ?thesis
    using False n by (intro that [OF _ split_heap [OF inv bs n(1) _ k q]]) simp_all
qed

section \<open>Walking around the ring\<close>

text \<open>\<open>chain m a ws\<close>: following the pointers from the header \<open>a\<close> one meets the blocks \<open>ws\<close>.\<close>

fun chain :: "mem \<Rightarrow> u32 \<Rightarrow> ublock list \<Rightarrow> bool" where
  "chain m a [] \<longleftrightarrow> True"
| "chain m a (w # ws) \<longleftrightarrow> hptr m a = fst w \<and> unat (hsize m (fst w)) = snd w \<and> chain m (fst w) ws"

lemma chain_append [simp]: "chain m a (us @ ws) \<longleftrightarrow> chain m a us \<and> chain m (if us = [] then a else fst (last us)) ws"
  by (induction us arbitrary: a) auto

lemma links_chain: "links m (a # ws) q \<Longrightarrow> chain m (fst a) ws \<and> hptr m (fst (last (a # ws))) = q"
  by (induction ws arbitrary: a) auto

text \<open>The ring as the loop of \<^verbatim>\<open>malloc\<close> meets it, from the block after \<open>f\<close> back to \<open>f\<close>.\<close>

lemma ring_chain:
  assumes "heap_inv h (xs @ [f] @ ys)"
  shows "chain (umem h) (fst f) (ys @ xs @ [f])"
proof -
  note i = heap_invD [OF assms]
  have ys: "chain (umem h) (fst f) ys" "hptr (umem h) (fst (last (f # ys))) = ubase h"
    using i(7) links_chain [of "umem h" f ys "ubase h"] by simp_all
  obtain z zs where z: "xs @ [f] = z # zs" "fst z = ubase h"
    using i(2) by (cases xs) auto
  have "links (umem h) (z # zs) (next_of ys (ubase h))"
    using i(7) unfolding z(1) [symmetric] by simp
  then have "chain (umem h) (fst z) zs" "unat (hsize (umem h) (fst z)) = snd z"
    using links_chain by (blast, simp)
  then show ?thesis
    using ys z by (auto split: if_splits)
qed

lemma malloc_pass:
  assumes "chain (umem h) a ws" "\<forall>w\<in>set ws. fst w \<noteq> freep h \<and> snd w < unat n"
  shows "malloc_loop grow n a (hptr (umem h) a) h =
    malloc_loop grow n (if ws = [] then a else fst (last ws)) (hptr (umem h) (if ws = [] then a else fst (last ws))) h"
  using assms
proof (induction ws arbitrary: a)
  case (Cons w ws)
  have "hptr (umem h) a = fst w" "\<not> n \<le> hsize (umem h) (fst w)" "fst w \<noteq> freep h"
    using Cons.prems by (simp_all add: word_le_nat_alt)
  then have step: "malloc_loop grow n a (hptr (umem h) a) h = malloc_loop grow n (fst w) (hptr (umem h) (fst w)) h"
    by (subst malloc_loop.simps) simp
  have "chain (umem h) (fst w) ws" "\<forall>w\<in>set ws. fst w \<noteq> freep h \<and> snd w < unat n"
    using Cons.prems by simp_all
  note ih = Cons.IH [OF this]
  show ?case
    by (rule trans [OF step trans [OF ih]]) (cases ws, simp_all)
qed simp

lemma malloc_fit:
  assumes "chain (umem h) a (us @ [w])" "\<forall>w\<in>set us. fst w \<noteq> freep h \<and> snd w < unat n" "unat n \<le> snd w"
  shows "malloc_loop grow n a (hptr (umem h) a) h = Some (take_units n (if us = [] then a else fst (last us)) (fst w) h)"
proof -
  let ?a = "if us = [] then a else fst (last us)"
  have "hptr (umem h) ?a = fst w" "n \<le> hsize (umem h) (fst w)"
    using assms(1,3) by (simp_all add: word_le_nat_alt)
  then have "malloc_loop grow n ?a (hptr (umem h) ?a) h = Some (take_units n ?a (fst w) h)"
    by (subst malloc_loop.simps) simp
  then show ?thesis
    using malloc_pass [of h a us n grow] assms by simp
qed

lemma malloc_more:
  assumes "chain (umem h) a (us @ [f])" "\<forall>w\<in>set us. fst w \<noteq> freep h \<and> snd w < unat n" "snd f < unat n" "fst f = freep h"
  shows "malloc_loop grow n a (hptr (umem h) a) h =
    (case morecore grow n h of None \<Rightarrow> None
     | Some (p, h) \<Rightarrow> if p = 0 then Some (0, h) else malloc_loop grow n p (hptr (umem h) p) h)"
proof -
  let ?a = "if us = [] then a else fst (last us)"
  have "hptr (umem h) ?a = freep h" "\<not> n \<le> hsize (umem h) (freep h)"
    using assms(1,3,4) by (simp_all add: word_le_nat_alt)
  then have "malloc_loop grow n ?a (hptr (umem h) ?a) h =
    (case morecore grow n h of None \<Rightarrow> None
     | Some (p, h) \<Rightarrow> if p = 0 then Some (0, h) else malloc_loop grow n p (hptr (umem h) p) h)"
    by (subst malloc_loop.simps) simp
  then show ?thesis
    using malloc_pass [of h a us n grow] assms by simp
qed

text \<open>The ring after the block that \<open>freep\<close> points to.\<close>

lemma ring_at_freep:
  assumes "heap_inv h bs"
  obtains xs f ys where "bs = xs @ [f] @ ys" "fst f = freep h" "\<forall>w\<in>set (ys @ xs). fst w \<noteq> freep h" "chain (umem h) (freep h) (ys @ xs @ [f])"
proof -
  note i = heap_invD [OF assms]
  obtain xs f ys where bs: "bs = xs @ [f] @ ys" "fst f = freep h"
    using i(8) split_list by fastforce
  have "fst w \<noteq> fst f" if "w \<in> set (ys @ xs)" for w
    using i(4) that below_less(1) [of w f] below_less(1) [of f w] by (auto simp: bs sorted_wrt_append)
  then show ?thesis
    using that [OF bs] bs(2) ring_chain [of h xs f ys] assms bs(1) by simp
qed

lemma ring_pred:
  assumes "ys @ xs @ [f] = us @ w # vs" "hd (xs @ [f]) \<noteq> w"
  shows "\<exists>zs rs. xs @ [f] @ ys = zs @ [last (f # us), w] @ rs"
proof -
  have "(f # ys) @ xs @ [f] = (f # us) @ w # vs"
    using assms(1) by simp
  then consider zs where "f # ys = (f # us) @ zs" "zs @ xs @ [f] = w # vs" | zs where "(f # ys) @ zs = f # us" "xs @ [f] = zs @ w # vs"
    unfolding append_eq_append_conv2 by blast
  then show ?thesis
  proof cases
    case (1 zs)
    then obtain rs where "zs = w # rs"
      using assms(2) by (cases zs) auto
    then have "xs @ [f] @ ys = (xs @ butlast (f # us)) @ [last (f # us), w] @ rs"
      using 1(1) append_butlast_last_id [of "f # us"] by (simp del: last.simps butlast.simps)
    then show ?thesis
      by blast
  next
    case (2 zs)
    then obtain ts c where "zs = ts @ [c]"
      using assms(2) by (cases zs rule: rev_cases) auto
    then show ?thesis
      using 2 by (intro exI [of _ ts] exI [of _ "vs @ ys"]) auto
  qed
qed

text \<open>A large enough free block is found, and its predecessor in the ring is its predecessor in the list.\<close>

lemma malloc_loop_fits:
  assumes inv: "heap_inv h bs" and n: "1 \<le> unat n" and fit: "\<exists>w\<in>set bs. unat n \<le> snd w"
  obtains a h' bs' where "malloc_loop grow n (freep h) (hptr (umem h) (freep h)) h = Some (a + 8, h')" "taken h bs (a, unat n) h' bs'"
proof -
  obtain xs f ys where bs: "bs = xs @ [f] @ ys" "fst f = freep h" "\<forall>w\<in>set (ys @ xs). fst w \<noteq> freep h" "chain (umem h) (freep h) (ys @ xs @ [f])"
    by (rule ring_at_freep [OF inv])
  have "\<exists>w\<in>set (ys @ xs @ [f]). unat n \<le> snd w"
    using fit bs(1) by auto
  then obtain us w vs where w: "ys @ xs @ [f] = us @ w # vs" "unat n \<le> snd w" "\<forall>c\<in>set us. \<not> unat n \<le> snd c"
    using split_list_first_prop [of "ys @ xs @ [f]" "\<lambda>w. unat n \<le> snd w"] by blast
  have us: "set us \<subseteq> set (ys @ xs)"
    using w(1) by (cases vs rule: rev_cases) (auto simp flip: append_assoc append_Cons)
  have loop: "malloc_loop grow n (freep h) (hptr (umem h) (freep h)) h = Some (take_units n (if us = [] then freep h else fst (last us)) (fst w) h)"
    using bs(3,4) us w(2,3) unfolding w(1) by (intro malloc_fit) (auto simp: not_le)
  have "hd (xs @ [f]) \<noteq> w"
    using heap_invD(2) [OF inv] n w(2) unfolding bs(1) by (cases xs) auto
  then obtain zs rs where v: "bs = zs @ [last (f # us), w] @ rs"
    using ring_pred [OF w(1)] bs(1) by blast
  obtain a h' bs' where "take_units n (fst (last (f # us))) (fst w) h = (a + 8, h')" "taken h bs (a, unat n) h' bs'"
    by (rule take_units_spec [OF inv v n w(2)])
  then show ?thesis
    using that loop bs(2) by (cases "us = []") simp_all
qed

section \<open>Growing and allocating\<close>

text \<open>What \<^verbatim>\<open>sbrk\<close> promises for a positive increment: it fails, or the memory grows by that much and stays below the kernel.\<close>

definition sbrk_ok :: "(u32 \<Rightarrow> u32 \<Rightarrow> u32 option) \<Rightarrow> bool" where
  "sbrk_ok grow \<longleftrightarrow> (\<forall>b n e. 0 < unat n \<and> unat n < 2147483648 \<and> grow b n = Some e \<longrightarrow> unat e = unat b + unat n \<and> unat e \<le> 2147483648)"

definition grown :: "uheap \<Rightarrow> ublock list \<Rightarrow> uheap \<Rightarrow> ublock list \<Rightarrow> bool" where
  "grown h bs h' bs' \<longleftrightarrow> heap_inv h' bs' \<and> free_bytes bs' = free_bytes bs \<union> {unat (brk h)..<unat (brk h')} \<and> brk h \<le> brk h' \<and> ubase h' = ubase h \<and>
     (\<forall>x. unat x \<notin> free_bytes bs' \<union> base_bytes h \<longrightarrow> umem h' x = umem h x)"

lemma freep_nonzero:
  assumes "heap_inv h bs" "ubase h \<noteq> 0"
  shows "freep h \<noteq> 0"
proof -
  note i = heap_invD [OF assms(1)]
  obtain f where f: "f \<in> set bs" "fst f = freep h"
    using i(8) by force
  have "f = (ubase h, 0) \<or> below (ubase h, 0) f"
    using i(1,2,4) f(1) by (cases bs) auto
  then show ?thesis
    using assms(2) f(2) belowD [of "(ubase h, 0)" f] by auto
qed

lemma grow_heap:
  assumes inv: "heap_inv h bs" and u: "1 \<le> unat u" and e: "unat e = unat (brk h) + 8 * unat u" "unat e \<le> 2147483648"
  shows "\<exists>h' bs'. free (brk h + 8) (h\<lparr>umem := set_hsize (brk h) u (umem h), brk := e\<rparr>) = Some h' \<and> grown h bs h' bs' \<and> (\<exists>c\<in>set bs'. unat u \<le> snd c)"
    (is "\<exists>h' bs'. free _ ?h = _ \<and> _ h' bs' \<and> _ h' bs'")
proof -
  note i = heap_invD [OF inv]
  let ?b = "(brk h, unat u)"
  have hb: "hdr_at (brk h)" "apart (brk h) (fst c)" "below c ?b" "bend c \<le> unat e" if "c \<in> set bs" for c
    using e u i(5,9) [OF that] bend_ge(1) [of c] by (simp_all add: hdr_at_def apart_def below_def)
  have b0: "(ubase h, 0) \<in> set bs"
    using i(1,2) hd_in_set [of bs] by simp
  have inv1: "heap_inv ?h bs"
    using inv e hb(2,4) by (simp add: heap_inv_def links_kept)
  have "used_block ?h bs ?b"
    using u hb(3) hb(1) [OF b0] b0 e bend_pos [of ?b] by (simp add: used_block_def)
  from free_spec [OF inv1 this] obtain h' bs' where f: "free (brk h + 8) ?h = Some h'" "freed ?h bs ?b h' bs'"
    by auto
  have fb: "block_bytes ?b = {unat (brk h)..<unat (brk h')}" "brk h \<le> brk h'"
    using f(2) e by (simp_all add: freed_def block_bytes_def word_le_nat_alt)
  have "umem h' x = umem h x" if "unat x \<notin> free_bytes bs' \<union> base_bytes h" for x
  proof -
    have "unat x < unat (brk h) \<or> unat (brk h) + 8 \<le> unat x"
      using that f(2) u by (auto simp: freed_def block_bytes_def)
    then have "umem ?h x = umem h x"
      by (simp add: hdr_outside(2) [OF hb(1) [OF b0]])
    then show ?thesis
      using f(2) that by (simp add: freed_def base_bytes_def)
  qed
  then have "grown h bs h' bs'"
    using f(2) fb by (simp add: grown_def freed_def)
  then show ?thesis
    using f by (auto simp: freed_def)
qed

lemma morecore_spec:
  assumes inv: "heap_inv h bs" and grow: "sbrk_ok grow" and n: "unat n * 8 < 2147483648" and base: "ubase h \<noteq> 0"
  shows "morecore grow n h = Some (0, h) \<or>
    (\<exists>h' bs'. morecore grow n h = Some (freep h', h') \<and> freep h' \<noteq> 0 \<and> grown h bs h' bs' \<and> (\<exists>c\<in>set bs'. unat n \<le> snd c))"
proof -
  define u where "u = (if n < 4096 then 4096 else n)"
  have u: "4096 \<le> unat u" "unat u * 8 < 2147483648" "unat n \<le> unat u"
    using n by (auto simp: u_def word_less_nat_alt)
  have mc: "morecore grow n h = (case grow (brk h) (u * 8) of None \<Rightarrow> Some (0, h)
    | Some e \<Rightarrow> (case free (brk h + 8) (h\<lparr>umem := set_hsize (brk h) u (umem h), brk := e\<rparr>) of None \<Rightarrow> None | Some h \<Rightarrow> Some (freep h, h)))"
    unfolding morecore_def Let_def u_def by (rule refl)
  show ?thesis
  proof (cases "grow (brk h) (u * 8)")
    case (Some e)
    have "unat (u * 8) = unat u * 8"
      using u(2) by (simp add: unat_word_ariths)
    then have e: "unat e = unat (brk h) + 8 * unat u" "unat e \<le> 2147483648"
      using grow [unfolded sbrk_ok_def, rule_format, of "u * 8" "brk h" e] Some u by simp_all
    have "1 \<le> unat u"
      using u(1) by linarith
    then obtain h' bs' where h': "free (brk h + 8) (h\<lparr>umem := set_hsize (brk h) u (umem h), brk := e\<rparr>) = Some h'" "grown h bs h' bs'" "\<exists>c\<in>set bs'. unat u \<le> snd c"
      using grow_heap [OF inv _ e] by blast
    moreover have "freep h' \<noteq> 0"
      using freep_nonzero [of h' bs'] h'(2) base by (simp add: grown_def)
    ultimately show ?thesis
      using Some mc u(3) order_trans by fastforce
  qed (simp add: mc)
qed

text \<open>The units for a request: enough for the bytes and one for the header.\<close>

lemma nunits_bounds:
  assumes "unat nbytes < 2147483632"
  shows "unat (nunits_of nbytes) = (unat nbytes + 7) div 8 + 1" "1 \<le> unat (nunits_of nbytes)" "unat (nunits_of nbytes) * 8 < 2147483648"
    "unat nbytes \<le> 8 * (unat (nunits_of nbytes) - 1)"
proof -
  have "unat (nbytes + 8 - 1) = unat nbytes + 7"
    using assms unat_add_of_nat_u32 [of nbytes 7] by (simp add: add.commute [of 7])
  then have d: "unat ((nbytes + 8 - 1) div 8) = (unat nbytes + 7) div 8"
    by (simp add: unat_div)
  have q: "(unat nbytes + 7) div 8 < 268435455" "unat nbytes \<le> 8 * ((unat nbytes + 7) div 8)"
    using assms by linarith+
  then show u: "unat (nunits_of nbytes) = (unat nbytes + 7) div 8 + 1"
    unfolding nunits_of_def using d unat_sum [of "(nbytes + 8 - 1) div 8" _ 1 1] by simp
  show "1 \<le> unat (nunits_of nbytes)" "unat (nunits_of nbytes) * 8 < 2147483648" "unat nbytes \<le> 8 * (unat (nunits_of nbytes) - 1)"
    using q by (simp_all add: u)
qed

definition allocated :: "uheap \<Rightarrow> ublock list \<Rightarrow> ublock \<Rightarrow> uheap \<Rightarrow> ublock list \<Rightarrow> bool" where
  "allocated h bs b h' bs' \<longleftrightarrow> heap_inv h' bs' \<and> used_block h' bs' b \<and> brk h \<le> brk h' \<and> ubase h' = ubase h \<and>
     free_bytes bs' \<union> block_bytes b = free_bytes bs \<union> {unat (brk h)..<unat (brk h')} \<and> free_bytes bs' \<inter> block_bytes b = {} \<and>
     (\<forall>x. unat x \<notin> free_bytes bs' \<union> block_bytes b \<union> base_bytes h \<longrightarrow> umem h' x = umem h x)"

lemma malloc_loop_spec:
  assumes inv: "heap_inv h bs" and grow: "sbrk_ok grow" and n: "1 \<le> unat n" "unat n * 8 < 2147483648" and base: "ubase h \<noteq> 0"
  shows "malloc_loop grow n (freep h) (hptr (umem h) (freep h)) h = Some (0, h) \<or>
    (\<exists>a h' bs'. malloc_loop grow n (freep h) (hptr (umem h) (freep h)) h = Some (a + 8, h') \<and> allocated h bs (a, unat n) h' bs')"
proof (cases "\<exists>w\<in>set bs. unat n \<le> snd w")
  case True
  then obtain a h' bs' where "malloc_loop grow n (freep h) (hptr (umem h) (freep h)) h = Some (a + 8, h')" "taken h bs (a, unat n) h' bs'"
    using malloc_loop_fits [OF inv n(1)] by blast
  then show ?thesis
    by (fastforce simp: taken_def allocated_def)
next
  case False
  obtain xs f ys where bs: "bs = xs @ [f] @ ys" "fst f = freep h" "\<forall>w\<in>set (ys @ xs). fst w \<noteq> freep h" "chain (umem h) (freep h) (ys @ xs @ [f])"
    by (rule ring_at_freep [OF inv])
  have small: "\<forall>w\<in>set (ys @ xs). snd w < unat n" "snd f < unat n"
    using False bs(1) by (simp_all add: Ball_def not_le)
  have loop: "malloc_loop grow n (freep h) (hptr (umem h) (freep h)) h =
    (case morecore grow n h of None \<Rightarrow> None
     | Some (p, h) \<Rightarrow> if p = 0 then Some (0, h) else malloc_loop grow n p (hptr (umem h) p) h)"
    using bs(2-4) small by (intro malloc_more [of h _ "ys @ xs" f]) simp_all
  consider "morecore grow n h = Some (0, h)"
    | h1 bs1 where "morecore grow n h = Some (freep h1, h1)" "freep h1 \<noteq> 0" "grown h bs h1 bs1" "\<exists>c\<in>set bs1. unat n \<le> snd c"
    using morecore_spec [OF inv grow n(2) base] by blast
  then show ?thesis
  proof cases
    case 1
    then show ?thesis
      by (simp add: loop)
  next
    case (2 h1 bs1)
    have "heap_inv h1 bs1"
      using 2(3) by (simp add: grown_def)
    then obtain a h' bs' where t: "malloc_loop grow n (freep h1) (hptr (umem h1) (freep h1)) h1 = Some (a + 8, h')" "taken h1 bs1 (a, unat n) h' bs'"
      using malloc_loop_fits [OF _ n(1) 2(4)] by blast
    have "allocated h bs (a, unat n) h' bs'"
    proof -
      have m: "free_bytes bs1 = free_bytes bs' \<union> block_bytes (a, unat n)" "base_bytes h1 = base_bytes h"
        using 2(3) t(2) by (simp_all add: taken_def grown_def base_bytes_def)
      have "umem h' x = umem h x" if "unat x \<notin> free_bytes bs' \<union> block_bytes (a, unat n) \<union> base_bytes h" for x
        using 2(3) t(2) that unfolding taken_def grown_def m by metis
      then show ?thesis
        using 2(3) t(2) by (simp add: allocated_def taken_def grown_def)
    qed
    then show ?thesis
      using t(1) 2(1,2) by (auto simp: loop)
  qed
qed

text \<open>Before the first call the list is empty and \<^verbatim>\<open>freep\<close> is null; afterwards the list is well formed.\<close>

definition heap_ok :: "uheap \<Rightarrow> ublock list \<Rightarrow> bool" where
  "heap_ok h bs \<longleftrightarrow> ubase h \<noteq> 0 \<and>
     (if freep h = 0 then bs = [(ubase h, 0)] \<and> unat (ubase h) + 8 \<le> unat (brk h) \<and> unat (brk h) \<le> 2147483648 else heap_inv h bs)"

lemma init_free_inv:
  assumes "heap_ok h bs"
  shows "heap_inv (init_free h) bs" "brk (init_free h) = brk h" "ubase (init_free h) = ubase h" "ubase h \<noteq> 0"
    "\<And>x. unat x \<notin> base_bytes h \<Longrightarrow> umem (init_free h) x = umem h x"
proof -
  have hb: "hdr_at (ubase h)" if "freep h = 0"
    using assms that by (simp add: heap_ok_def hdr_at_def)
  show "heap_inv (init_free h) bs"
  proof (cases "freep h = 0")
    case True
    then show ?thesis
      using assms hb by (auto simp: heap_ok_def init_free_def heap_inv_def bend_def)
  next
    case False
    then show ?thesis
      using assms by (simp add: heap_ok_def init_free_def)
  qed
  show "umem (init_free h) x = umem h x" if "unat x \<notin> base_bytes h" for x
  proof (cases "freep h = 0")
    case True
    have "unat x < unat (ubase h) \<or> unat (ubase h) + 8 \<le> unat x"
      using that by (auto simp: base_bytes_def)
    then show ?thesis
      using True by (simp add: init_free_def hdr_outside [OF hb])
  qed (simp add: init_free_def)
qed (use assms in \<open>simp_all add: init_free_def heap_ok_def\<close>)

lemma malloc_spec:
  assumes "heap_ok h bs" "sbrk_ok grow" "unat nbytes < 2147483632"
  shows "\<exists>r h' bs'. malloc grow nbytes h = Some (r, h') \<and> heap_ok h' bs' \<and>
    (r = 0 \<and> bs' = bs \<and> h' = init_free h \<or> allocated h bs (r - 8, unat (nunits_of nbytes)) h' bs')"
proof -
  note i = init_free_inv [OF assms(1)]
  note n = nunits_bounds [OF assms(3)]
  have b: "ubase (init_free h) \<noteq> 0" "base_bytes (init_free h) = base_bytes h"
    using i(3,4) by (simp_all add: base_bytes_def)
  have ok: "heap_ok h' bs'" if "heap_inv h' bs'" "ubase h' = ubase h" for h' bs'
    using that i(4) freep_nonzero [of h' bs'] by (simp add: heap_ok_def)
  have m: "malloc grow nbytes h = malloc_loop grow (nunits_of nbytes) (freep (init_free h)) (hptr (umem (init_free h)) (freep (init_free h))) (init_free h)"
    by (simp add: malloc_def Let_def)
  consider "malloc grow nbytes h = Some (0, init_free h)"
    | a h' bs' where "malloc grow nbytes h = Some (a + 8, h')" "allocated (init_free h) bs (a, unat (nunits_of nbytes)) h' bs'"
    using malloc_loop_spec [OF i(1) assms(2) n(2,3) b(1)] unfolding m by blast
  then show ?thesis
  proof cases
    case 1
    then show ?thesis
      using ok [OF i(1,3)] by blast
  next
    case (2 a h' bs')
    have "umem h' x = umem h x" if "unat x \<notin> free_bytes bs' \<union> block_bytes (a, unat (nunits_of nbytes)) \<union> base_bytes h" for x
    proof -
      have "umem h' x = umem (init_free h) x"
        using 2(2) that unfolding allocated_def b(2) by blast
      then show ?thesis
        using that i(5) [of x] by simp
    qed
    then have al: "allocated h bs (a, unat (nunits_of nbytes)) h' bs'"
      using 2(2) unfolding allocated_def i(2,3) b(2) by blast
    then have "heap_ok h' bs'"
      by (intro ok) (simp_all add: allocated_def)
    then show ?thesis
      using 2(1) al by (intro exI [of _ "a + 8"] exI [of _ h'] exI [of _ bs']) simp
  qed
qed

section \<open>Programs that use the heap\<close>

text \<open>
  A program allocates, frees and writes to its blocks in any order. To it the heap is a list of independent
  objects, each with its address, its size and the bytes written to it so far; the allocator is right if it
  answers every request and keeps all these bytes.
\<close>

datatype heap_op = Malloc u32 | Free nat | Store nat nat u8

type_synonym uobject = "u32 \<times> u32 \<times> (nat \<rightharpoonup> u8)"

definition store_byte :: "u32 \<Rightarrow> u8 \<Rightarrow> uheap \<Rightarrow> uheap" where
  "store_byte a v h = h\<lparr>umem := (umem h)(a := v)\<rparr>"

fun run_heap ::
    "(u32 \<Rightarrow> 'h \<Rightarrow> (u32 \<times> 'h) option) \<Rightarrow> (u32 \<Rightarrow> 'h \<Rightarrow> 'h option) \<Rightarrow> (u32 \<Rightarrow> u8 \<Rightarrow> 'h \<Rightarrow> 'h) \<Rightarrow> heap_op list \<Rightarrow> 'h \<Rightarrow> uobject list \<Rightarrow>
       ('h \<times> uobject list) option" where
  "run_heap al fr st [] h L = Some (h, L)"
| "run_heap al fr st (Malloc n # ops) h L =
     (case al n h of
        None \<Rightarrow> None
      | Some (r, h) \<Rightarrow> run_heap al fr st ops h (if r = 0 then L else (r, n, Map.empty) # L))"
| "run_heap al fr st (Free i # ops) h L =
     (if i < length L then (case fr (fst (L ! i)) h of None \<Rightarrow> None | Some h \<Rightarrow> run_heap al fr st ops h (take i L @ drop (Suc i) L))
      else run_heap al fr st ops h L)"
| "run_heap al fr st (Store i k v # ops) h L =
     (if i < length L \<and> k < unat (fst (snd (L ! i)))
      then run_heap al fr st ops (st (fst (L ! i) + of_nat k) v h) (L[i := (fst (L ! i), fst (snd (L ! i)), (snd (snd (L ! i)))(k \<mapsto> v))])
      else run_heap al fr st ops h L)"

definition small_request :: "heap_op \<Rightarrow> bool" where
  "small_request q \<longleftrightarrow> (case q of Malloc n \<Rightarrow> unat n < 2147483632 | _ \<Rightarrow> True)"

text \<open>What an allocator promises to the program, in terms of the objects that are alive.\<close>

locale object_heap =
  fixes alloc :: "u32 \<Rightarrow> 'h \<Rightarrow> (u32 \<times> 'h) option"
    and release :: "u32 \<Rightarrow> 'h \<Rightarrow> 'h option"
    and store :: "u32 \<Rightarrow> u8 \<Rightarrow> 'h \<Rightarrow> 'h"
    and inv :: "'h \<Rightarrow> uobject list \<Rightarrow> bool"
  assumes alloc_law: "inv h L \<Longrightarrow> unat n < 2147483632 \<Longrightarrow> \<exists>r h'. alloc n h = Some (r, h') \<and> inv h' (if r = 0 then L else (r, n, Map.empty) # L)"
    and release_law: "inv h (xs @ (r, n, f) # ys) \<Longrightarrow> \<exists>h'. release r h = Some h' \<and> inv h' (xs @ ys)"
    and store_law: "inv h (xs @ (r, n, f) # ys) \<Longrightarrow> k < unat n \<Longrightarrow> inv (store (r + of_nat k) v h) (xs @ (r, n, f(k \<mapsto> v)) # ys)"
begin

lemma run_answers:
  "inv h L \<Longrightarrow> \<forall>q\<in>set ops. small_request q \<Longrightarrow> \<exists>h' L'. run_heap alloc release store ops h L = Some (h', L') \<and> inv h' L'"
proof (induction ops arbitrary: h L)
  case (Cons q ops)
  note ih = Cons.IH
  have ops: "\<forall>q\<in>set ops. small_request q"
    using Cons.prems(2) by simp
  show ?case
  proof (cases q)
    case (Malloc n)
    then obtain r h' where "alloc n h = Some (r, h')" "inv h' (if r = 0 then L else (r, n, Map.empty) # L)"
      using alloc_law [OF Cons.prems(1), of n] Cons.prems(2) by (auto simp: small_request_def)
    then show ?thesis
      using ih [OF _ ops] Malloc by simp
  next
    case (Free i)
    show ?thesis
    proof (cases "i < length L")
      case True
      obtain r n f where o: "L ! i = (r, n, f)"
        by (cases "L ! i") auto
      then obtain h' where "release r h = Some h'" "inv h' (take i L @ drop (Suc i) L)"
        using release_law [of h "take i L" r n f "drop (Suc i) L"] Cons.prems(1) id_take_nth_drop [OF True] by auto
      then show ?thesis
        using ih [OF _ ops] Free True o by simp
    qed (use Free ih [OF Cons.prems(1) ops] in simp)
  next
    case (Store i k v)
    show ?thesis
    proof (cases "i < length L \<and> k < unat (fst (snd (L ! i)))")
      case True
      obtain r n f where o: "L ! i = (r, n, f)"
        by (cases "L ! i") auto
      then have "inv (store (r + of_nat k) v h) (L[i := (r, n, f(k \<mapsto> v))])"
        using store_law [of h "take i L" r n f "drop (Suc i) L" k v] Cons.prems(1) id_take_nth_drop [of i L] True by (simp add: upd_conv_take_nth_drop)
      then show ?thesis
        using ih [OF _ ops] Store True o by simp
    qed (use Store ih [OF Cons.prems(1) ops] in auto)
  qed
qed simp

end

section \<open>The allocator serves every program\<close>

lemma hdr_cong:
  assumes "hdr_at p" "\<And>x. unat p \<le> unat x \<Longrightarrow> unat x < unat p + 8 \<Longrightarrow> m' x = m x"
  shows "hptr m' p = hptr m p" "hsize m' p = hsize m p"
proof -
  have k: "unat (p + of_nat k) = unat p + k" if "k < 8" for k
    using assms(1) that by (intro unat_add_of_nat_u32) (simp add: hdr_at_def)
  show "hptr m' p = hptr m p"
    unfolding hptr_def using k assms(2) by (intro ld32_cong) simp
  have "p + 4 + of_nat j = p + of_nat (4 + j)" for j
    by simp
  then show "hsize m' p = hsize m p"
    unfolding hsize_def using k assms(2) by (intro ld32_cong) (metis add_less_cancel_left le_add1 less_numeral_simps numeral_Bit0 nat_add_left_cancel_less)
qed

lemma used_iff:
  assumes "heap_inv h bs"
  shows "used_block h bs b \<longleftrightarrow> 1 \<le> snd b \<and> unat (hsize (umem h) (fst b)) = snd b \<and> bend b \<le> unat (brk h) \<and>
    free_bytes bs \<inter> block_bytes b = {} \<and> below (ubase h, 0) b"
proof -
  have "below c b \<or> below b c" if c: "c \<in> set bs" and d: "free_bytes bs \<inter> block_bytes b = {}" and b: "1 \<le> snd b" "below (ubase h, 0) b" for c
  proof (cases "snd c = 0")
    case True
    then have "c = (ubase h, 0)"
      using assms c unfolding heap_inv_def by fastforce
    then show ?thesis
      using b(2) by simp
  next
    case False
    then have "block_bytes c \<inter> block_bytes b = {}"
      using c d by (auto simp: free_bytes_def)
    then have "max (unat (fst c)) (unat (fst b)) \<notin> block_bytes c \<inter> block_bytes b"
      by simp
    then show ?thesis
      using False b(1) bend_pos [of c] bend_pos [of b] by (auto simp: block_bytes_def below_def max_def split: if_splits)
  qed
  then show ?thesis
    using used_disjoint [of h bs b] by (auto simp: used_block_def)
qed

definition ublock_of :: "uobject \<Rightarrow> ublock" where
  "ublock_of x = (fst x - 8, unat (nunits_of (fst (snd x))))"

definition object_ok :: "uheap \<Rightarrow> ublock list \<Rightarrow> uobject \<Rightarrow> bool" where
  "object_ok h bs x \<longleftrightarrow> used_block h bs (ublock_of x) \<and> unat (fst (snd x)) < 2147483632 \<and>
     (\<forall>k v. snd (snd x) k = Some v \<longrightarrow> k < unat (fst (snd x)) \<and> umem h (fst x + of_nat k) = v)"

definition live_ok :: "(u32 \<Rightarrow> u32 \<Rightarrow> u32 option) \<Rightarrow> uheap \<Rightarrow> uobject list \<Rightarrow> bool" where
  "live_ok grow h L \<longleftrightarrow> sbrk_ok grow \<and> (\<exists>bs. heap_ok h bs \<and> (freep h = 0 \<longrightarrow> L = []) \<and> (\<forall>x\<in>set L. object_ok h bs x)) \<and>
     sorted_wrt (\<lambda>x y. block_bytes (ublock_of x) \<inter> block_bytes (ublock_of y) = {}) L"

lemma used_bounds:
  assumes "heap_inv h bs" "used_block h bs b"
  shows "hdr_at (fst b)" "bend b = unat (fst b) + 8 * snd b" "bend b \<le> 2147483648" "unat (fst b + 8) = unat (fst b) + 8" "block_bytes b \<inter> base_bytes h = {}"
proof -
  note u = assms(2) [unfolded used_iff [OF assms(1)]]
  show b: "bend b = unat (fst b) + 8 * snd b" "bend b \<le> 2147483648"
    using u bend_pos [of b] heap_invD(6) [OF assms(1)] by auto
  show hb: "hdr_at (fst b)"
    using b bend_ge(1) [of b] by (simp add: hdr_at_def)
  show "unat (fst b + 8) = unat (fst b) + 8"
    using unat_add_of_nat_u32 [of "fst b" 8] hb by (simp add: hdr_at_def)
  show "block_bytes b \<inter> base_bytes h = {}"
    using u by (auto simp: below_def bend_def block_bytes_def base_bytes_def)
qed

lemma payload:
  assumes "heap_inv h bs" "object_ok h bs x" "k < unat (fst (snd x))"
  shows "unat (fst x + of_nat k) = unat (fst (ublock_of x)) + 8 + k" "unat (fst x + of_nat k) < bend (ublock_of x)" "unat (fst x + of_nat k) \<in> block_bytes (ublock_of x)"
proof -
  let ?b = "ublock_of x"
  have o: "used_block h bs ?b" "unat (fst (snd x)) < 2147483632"
    using assms(2) by (simp_all add: object_ok_def)
  note u = used_bounds [OF assms(1) o(1)]
  have n: "8 + k < 8 * snd ?b"
    using nunits_bounds [OF o(2)] assms(3) by (simp add: ublock_of_def)
  have "fst x + of_nat k = fst ?b + of_nat (8 + k)"
    by (simp add: ublock_of_def)
  then show a: "unat (fst x + of_nat k) = unat (fst ?b) + 8 + k"
    using unat_add_of_nat_u32 [of "fst ?b" "8 + k"] u(2,3) n by (simp add: add.assoc)
  show "unat (fst x + of_nat k) < bend ?b" "unat (fst x + of_nat k) \<in> block_bytes ?b"
    using a n u(2) by (simp_all add: block_bytes_def)
qed

lemma object_kept:
  assumes inv: "heap_inv h bs" "heap_inv h' bs'" and x: "object_ok h bs x" and same: "unat (brk h) \<le> unat (brk h')" "ubase h' = ubase h"
    and disj: "free_bytes bs' \<inter> block_bytes (ublock_of x) = {}" and m: "\<And>a. unat a \<in> block_bytes (ublock_of x) \<Longrightarrow> umem h' a = umem h a"
  shows "object_ok h' bs' x"
proof -
  let ?b = "ublock_of x"
  have o: "used_block h bs ?b"
    using x by (simp add: object_ok_def)
  note u = used_bounds [OF inv(1) o]
  note i = o [unfolded used_iff [OF inv(1)]]
  have "hsize (umem h') (fst ?b) = hsize (umem h) (fst ?b)"
    using i u(2) bend_ge(1) [of ?b] by (intro hdr_cong(2) u(1) m) (auto simp: block_bytes_def)
  then have "used_block h' bs' ?b"
    unfolding used_iff [OF inv(2)] using i same disj by simp
  then show ?thesis
    using x m payload(3) [OF inv(1) x] by (simp add: object_ok_def)
qed

lemma live_malloc:
  assumes "live_ok grow h L" "unat n < 2147483632"
  shows "\<exists>r h'. malloc grow n h = Some (r, h') \<and> live_ok grow h' (if r = 0 then L else (r, n, Map.empty) # L)"
proof -
  obtain bs where L: "sbrk_ok grow" "heap_ok h bs" "freep h = 0 \<longrightarrow> L = []" "\<forall>x\<in>set L. object_ok h bs x"
    "sorted_wrt (\<lambda>x y. block_bytes (ublock_of x) \<inter> block_bytes (ublock_of y) = {}) L"
    using assms(1) by (auto simp: live_ok_def)
  obtain r h' bs' where m: "malloc grow n h = Some (r, h')" "heap_ok h' bs'"
    "r = 0 \<and> bs' = bs \<and> h' = init_free h \<or> allocated h bs (r - 8, unat (nunits_of n)) h' bs'"
    using malloc_spec [OF L(2,1) assms(2)] by blast
  let ?b = "(r - 8, unat (nunits_of n))"
  consider "r = 0" "bs' = bs" "h' = init_free h" | "allocated h bs ?b h' bs'"
    using m(3) by blast
  then show ?thesis
  proof cases
    case 1
    have "L = [] \<or> h' = h" "freep h' \<noteq> 0"
      using 1(3) L(3) freep_nonzero [OF init_free_inv(1) [OF L(2)]] init_free_inv(3,4) [OF L(2)] by (auto simp: init_free_def)
    then show ?thesis
      using m(1,2) 1(1,2) L by (auto simp: live_ok_def)
  next
    case 2
    note a = 2 [unfolded allocated_def]
    have inv': "heap_inv h' bs'" and u: "used_block h' bs' ?b"
      using a by simp_all
    have r: "r \<noteq> 0" "freep h' \<noteq> 0"
      using used_bounds(4) [OF inv' u] freep_nonzero [OF inv'] a L(2) by (auto simp: heap_ok_def)
    have keep: "object_ok h' bs' x" "block_bytes ?b \<inter> block_bytes (ublock_of x) = {}" if x: "x \<in> set L" for x
    proof -
      have inv: "heap_inv h bs" and o: "object_ok h bs x" "used_block h bs (ublock_of x)"
        using L(2-4) x by (auto simp: heap_ok_def object_ok_def split: if_splits)
      note i = o(2) [unfolded used_iff [OF inv]]
      have "(free_bytes bs' \<union> block_bytes ?b) \<inter> block_bytes (ublock_of x) = {}"
        using a i used_bounds(2) [OF inv o(2)] by (auto simp: block_bytes_def)
      then have d: "free_bytes bs' \<inter> block_bytes (ublock_of x) = {}" "block_bytes ?b \<inter> block_bytes (ublock_of x) = {}"
        by blast+
      have "umem h' y = umem h y" if "unat y \<in> block_bytes (ublock_of x)" for y
        using a that d used_bounds(5) [OF inv o(2)] by blast
      then show "object_ok h' bs' x"
        using a d(1) by (intro object_kept [OF inv inv' o(1)]) (simp_all add: word_le_nat_alt)
      show "block_bytes ?b \<inter> block_bytes (ublock_of x) = {}"
        by (rule d(2))
    qed
    have "object_ok h' bs' (r, n, Map.empty)"
      using u assms(2) by (simp add: object_ok_def ublock_of_def)
    then have "live_ok grow h' ((r, n, Map.empty) # L)"
      using L(1,5) m(2) r(2) keep by (auto simp: live_ok_def ublock_of_def)
    then show ?thesis
      using m(1) r(1) by simp
  qed
qed

lemma live_inv:
  assumes "live_ok grow h (xs @ x # ys)"
  obtains bs where "sbrk_ok grow" "heap_inv h bs" "ubase h \<noteq> 0" "object_ok h bs x" "used_block h bs (ublock_of x)"
    "\<forall>y\<in>set (xs @ ys). object_ok h bs y \<and> used_block h bs (ublock_of y) \<and> block_bytes (ublock_of x) \<inter> block_bytes (ublock_of y) = {}"
    "sorted_wrt (\<lambda>x y. block_bytes (ublock_of x) \<inter> block_bytes (ublock_of y) = {}) (xs @ ys)"
proof -
  obtain bs where L: "sbrk_ok grow" "heap_ok h bs" "freep h \<noteq> 0" "\<forall>y\<in>set (xs @ x # ys). object_ok h bs y"
    "sorted_wrt (\<lambda>x y. block_bytes (ublock_of x) \<inter> block_bytes (ublock_of y) = {}) (xs @ x # ys)"
    using assms by (auto simp: live_ok_def)
  have "\<forall>y\<in>set (xs @ ys). block_bytes (ublock_of x) \<inter> block_bytes (ublock_of y) = {}"
    using L(5) by (auto simp: sorted_wrt_append)
  moreover have "sorted_wrt (\<lambda>x y. block_bytes (ublock_of x) \<inter> block_bytes (ublock_of y) = {}) (xs @ ys)"
    using L(5) by (simp add: sorted_wrt_append)
  moreover have "\<forall>y\<in>set (xs @ x # ys). used_block h bs (ublock_of y)"
    using L(4) by (simp add: object_ok_def)
  ultimately show ?thesis
    using L by (intro that [of bs]) (simp_all add: heap_ok_def)
qed

lemma live_free:
  assumes "live_ok grow h (xs @ (r, n, f) # ys)"
  shows "\<exists>h'. free r h = Some h' \<and> live_ok grow h' (xs @ ys)"
proof -
  let ?x = "(r, n, f)"
  obtain bs where L: "sbrk_ok grow" "heap_inv h bs" "ubase h \<noteq> 0" "object_ok h bs ?x" "used_block h bs (ublock_of ?x)"
    "\<forall>y\<in>set (xs @ ys). object_ok h bs y \<and> used_block h bs (ublock_of y) \<and> block_bytes (ublock_of ?x) \<inter> block_bytes (ublock_of y) = {}"
    "sorted_wrt (\<lambda>x y. block_bytes (ublock_of x) \<inter> block_bytes (ublock_of y) = {}) (xs @ ys)"
    by (rule live_inv [OF assms])
  obtain h' bs' where f: "free (fst (ublock_of ?x) + 8) h = Some h'" "freed h bs (ublock_of ?x) h' bs'"
    by (rule free_spec [OF L(2,5)])
  note a = f(2) [unfolded freed_def]
  have inv': "heap_inv h' bs'"
    using a by simp
  have "object_ok h' bs' y" if y: "y \<in> set (xs @ ys)" for y
  proof -
    have o: "object_ok h bs y" "used_block h bs (ublock_of y)" "block_bytes (ublock_of ?x) \<inter> block_bytes (ublock_of y) = {}"
      using L(6) y by simp_all
    have d: "free_bytes bs' \<inter> block_bytes (ublock_of y) = {}"
      using a o(3) used_disjoint [OF o(2)] by blast
    have "umem h' z = umem h z" if "unat z \<in> block_bytes (ublock_of y)" for z
      using a that d used_bounds(5) [OF L(2) o(2)] by blast
    then show ?thesis
      using a d by (intro object_kept [OF L(2) inv' o(1)]) simp_all
  qed
  moreover have "heap_ok h' bs'" "freep h' \<noteq> 0"
    using inv' freep_nonzero [OF inv'] a L(3) by (simp_all add: heap_ok_def)
  ultimately have "live_ok grow h' (xs @ ys)"
    using L(1,7) unfolding live_ok_def by blast
  then show ?thesis
    using f(1) by (simp add: ublock_of_def)
qed

lemma store_heap:
  assumes inv: "heap_inv h bs" and x: "object_ok h bs x" and k: "k < unat (fst (snd x))"
  shows "heap_inv (store_byte (fst x + of_nat k) v h) bs" (is "heap_inv ?h bs") "object_ok (store_byte (fst x + of_nat k) v h) bs (fst x, fst (snd x), (snd (snd x))(k \<mapsto> v))"
proof -
  let ?b = "ublock_of x"
  let ?a = "fst x + of_nat k"
  note i = heap_invD [OF inv] and p = payload [OF inv x k]
  have u: "used_block h bs ?b"
    using x by (simp add: object_ok_def)
  have out: "unat ?a < unat (fst c) \<or> unat (fst c) + 8 \<le> unat ?a" if "c \<in> set bs" for c
    using u that p bend_ge(1) [of c] by (auto simp: used_block_def below_def)
  have same: "hptr (umem ?h) q = hptr (umem h) q" "hsize (umem ?h) q = hsize (umem h) q" if "hdr_at q" "unat ?a < unat q \<or> unat q + 8 \<le> unat ?a" for q
    using that by (intro hdr_cong; auto simp: store_byte_def)+
  have "links (umem ?h) bs (ubase h) = links (umem h) bs (ubase h)"
    using i(9) out same by (intro links_cong) simp
  then show inv': "heap_inv ?h bs"
    using inv by (simp add: heap_inv_def store_byte_def)
  have "used_block ?h bs ?b"
    using u p(1) used_bounds(1) [OF inv u] same(2) [of "fst ?b"] by (simp add: used_block_def store_byte_def)
  moreover have "umem ?h (fst x + of_nat j) = umem h (fst x + of_nat j)" if "j < unat (fst (snd x))" "j \<noteq> k" for j
  proof -
    have "unat (fst x + of_nat j) \<noteq> unat ?a"
      using payload(1) [OF inv x that(1)] p(1) that(2) by simp
    then show ?thesis
      by (auto simp: store_byte_def)
  qed
  ultimately show "object_ok ?h bs (fst x, fst (snd x), (snd (snd x))(k \<mapsto> v))"
    using x k by (auto simp: object_ok_def ublock_of_def store_byte_def)
qed

lemma live_store:
  assumes "live_ok grow h (xs @ (r, n, f) # ys)" "k < unat n"
  shows "live_ok grow (store_byte (r + of_nat k) v h) (xs @ (r, n, f(k \<mapsto> v)) # ys)"
proof -
  let ?x = "(r, n, f)"
  let ?h = "store_byte (r + of_nat k) v h"
  obtain bs where L: "sbrk_ok grow" "heap_inv h bs" "ubase h \<noteq> 0" "object_ok h bs ?x" "used_block h bs (ublock_of ?x)"
    "\<forall>y\<in>set (xs @ ys). object_ok h bs y \<and> used_block h bs (ublock_of y) \<and> block_bytes (ublock_of ?x) \<inter> block_bytes (ublock_of y) = {}"
    "sorted_wrt (\<lambda>x y. block_bytes (ublock_of x) \<inter> block_bytes (ublock_of y) = {}) (xs @ ys)"
    by (rule live_inv [OF assms(1)])
  have s: "heap_inv ?h bs" "object_ok ?h bs (r, n, f(k \<mapsto> v))" "unat (r + of_nat k) \<in> block_bytes (ublock_of ?x)"
    using store_heap [OF L(2,4), of k v] payload(3) [OF L(2,4), of k] assms(2) by simp_all
  have "object_ok ?h bs y" if "y \<in> set (xs @ ys)" for y
  proof -
    have o: "object_ok h bs y" "free_bytes bs \<inter> block_bytes (ublock_of y) = {}" "block_bytes (ublock_of ?x) \<inter> block_bytes (ublock_of y) = {}"
      using L(6) that used_disjoint by blast+
    then show ?thesis
      using s(3) by (intro object_kept [OF L(2) s(1) o(1)]) (auto simp: store_byte_def)
  qed
  moreover have "heap_ok ?h bs" "freep ?h \<noteq> 0"
    using s(1) freep_nonzero [OF s(1)] L(3) by (simp_all add: heap_ok_def store_byte_def)
  moreover have "sorted_wrt (\<lambda>x y. block_bytes (ublock_of x) \<inter> block_bytes (ublock_of y) = {}) (xs @ (r, n, f(k \<mapsto> v)) # ys)"
    using assms(1) by (simp add: live_ok_def sorted_wrt_append ublock_of_def)
  ultimately show ?thesis
    using L(1) s(2) unfolding live_ok_def by (intro conjI exI [of _ bs]) auto
qed

interpretation uh: object_heap "malloc grow" free store_byte "live_ok grow" for grow
  by unfold_locales (fact live_malloc live_free live_store)+

lemma live_objects:
  assumes "live_ok grow h L"
  shows "\<forall>x\<in>set L. unat (ubase h) + 8 \<le> unat (fst x) \<and> unat (fst x) + unat (fst (snd x)) \<le> unat (brk h) \<and>
      (\<forall>k v. snd (snd x) k = Some v \<longrightarrow> umem h (fst x + of_nat k) = v)"
    "sorted_wrt (\<lambda>x y. {unat (fst x)..<unat (fst x) + unat (fst (snd x))} \<inter> {unat (fst y)..<unat (fst y) + unat (fst (snd y))} = {}) L"
proof -
  have ob: "unat (ubase h) + 8 \<le> unat (fst x) \<and> unat (fst x) + unat (fst (snd x)) \<le> unat (brk h)"
      "{unat (fst x)..<unat (fst x) + unat (fst (snd x))} \<subseteq> block_bytes (ublock_of x)" if x: "x \<in> set L" for x
  proof -
    let ?b = "ublock_of x"
    obtain bs where o: "heap_inv h bs" "object_ok h bs x" "used_block h bs ?b" "unat (fst (snd x)) < 2147483632"
      using assms x by (auto simp: live_ok_def heap_ok_def object_ok_def split: if_splits)
    note u = used_bounds [OF o(1,3)]
    have r: "unat (fst x) = unat (fst ?b) + 8" "8 + unat (fst (snd x)) \<le> 8 * snd ?b"
      using u(4) nunits_bounds(2,4) [OF o(4)] by (simp_all add: ublock_of_def)
    show "unat (ubase h) + 8 \<le> unat (fst x) \<and> unat (fst x) + unat (fst (snd x)) \<le> unat (brk h)"
      using o(3) r u(2) by (auto simp: used_block_def below_def bend_def)
    show "{unat (fst x)..<unat (fst x) + unat (fst (snd x))} \<subseteq> block_bytes ?b"
      using r by (auto simp: block_bytes_def)
  qed
  show "\<forall>x\<in>set L. unat (ubase h) + 8 \<le> unat (fst x) \<and> unat (fst x) + unat (fst (snd x)) \<le> unat (brk h) \<and>
      (\<forall>k v. snd (snd x) k = Some v \<longrightarrow> umem h (fst x + of_nat k) = v)"
    using ob(1) assms by (auto simp: live_ok_def object_ok_def)
  have "sorted_wrt (\<lambda>x y. block_bytes (ublock_of x) \<inter> block_bytes (ublock_of y) = {}) L"
    using assms by (simp add: live_ok_def)
  then show "sorted_wrt (\<lambda>x y. {unat (fst x)..<unat (fst x) + unat (fst (snd x))} \<inter> {unat (fst y)..<unat (fst y) + unat (fst (snd y))} = {}) L"
    by (rule sorted_wrt_mono_rel [rotated]) (use ob(2) in blast)
qed

section \<open>Properties\<close>

text \<open>
  \<^verbatim>\<open>malloc\<close> always returns when \<^verbatim>\<open>sbrk\<close> does, for every request below 2 GB less two headers. It keeps the
  free list a sorted ring of disjoint blocks, and either returns null with the free list as it was and the memory
  unchanged outside the static header, or returns the address after the header of a block of enough units. That block
  is made of bytes that were free or that \<^verbatim>\<open>sbrk\<close> has added, no byte of it is free any more, no free byte is lost, and all memory that was in use
  is unchanged.
\<close>

lemma malloc_allocates:
  assumes "heap_ok h bs" "sbrk_ok grow" "unat nbytes < 2147483632"
  shows "\<exists>r h' bs'. malloc grow nbytes h = Some (r, h') \<and> heap_ok h' bs' \<and>
    (r = 0 \<and> bs' = bs \<and> brk h' = brk h \<and> (\<forall>x. unat x \<notin> base_bytes h \<longrightarrow> umem h' x = umem h x) \<or>
     (\<exists>n. unat nbytes \<le> 8 * (n - 1) \<and> allocated h bs (r - 8, n) h' bs'))"
  using malloc_spec [OF assms] nunits_bounds(4) [OF assms(3)] init_free_inv(2,5) [OF assms(1)] by metis

definition sample_grow :: "u32 \<Rightarrow> u32 \<Rightarrow> u32 option" where
  "sample_grow b n = (if unat b + unat n \<le> 2147483648 then Some (b + n) else None)"

definition sample_heap :: uheap where
  "sample_heap = \<lparr>umem = (\<lambda>_. 0), ubase = 0x100, freep = 0, brk = 0x1000\<rparr>"

lemma sample_grow_ok: "sbrk_ok sample_grow"
  by (auto simp: sbrk_ok_def sample_grow_def unat_sum split: if_splits)

lemma malloc_allocates_witness:
  "\<exists>r h' bs'. malloc sample_grow 100 sample_heap = Some (r, h') \<and> heap_ok h' bs' \<and>
    (r = 0 \<and> bs' = [(0x100, 0)] \<and> brk h' = 0x1000 \<and> (\<forall>x. unat x \<notin> base_bytes sample_heap \<longrightarrow> umem h' x = 0) \<or>
     (\<exists>n. 100 \<le> 8 * (n - 1) \<and> allocated sample_heap [(0x100, 0)] (r - 8, n) h' bs'))"
  using malloc_allocates [of sample_heap "[(0x100, 0)]" sample_grow 100] sample_grow_ok by (simp add: heap_ok_def sample_heap_def)



text \<open>A request of more than \<open>2\<^sup>3\<^sup>2 - 8\<close> bytes wraps around in the computation of the units, and is served like a request of none.\<close>

lemma malloc_wraps:
  assumes "4294967289 \<le> unat nbytes"
  shows "malloc grow nbytes h = malloc grow 0 h"
proof -
  define x where "x = nbytes + 8 - 1"
  have "x = nbytes + 7"
    by (simp add: x_def)
  then have "unat x = (unat nbytes + 7) mod 4294967296"
    by (simp add: unat_word_ariths)
  moreover have "unat nbytes < 4294967296"
    using unsigned_less [of nbytes] by simp
  moreover from this assms have "(unat nbytes + 7) mod 4294967296 = unat nbytes + 7 - 4294967296"
    by (subst le_mod_geq) simp_all
  ultimately have "unat x < 8"
    by linarith
  then have "unat (x div 8) = 0"
    by (simp add: unat_div)
  then have "nunits_of nbytes = 1"
    unfolding nunits_of_def x_def [symmetric] by (simp add: unat_eq_0)
  moreover have "nunits_of 0 = 1"
    by (simp add: nunits_of_def)
  ultimately show ?thesis
    by (simp add: malloc_def)
qed

end
