(* ===== verification/Grep.thy ===== *)
theory Grep
  imports Ulib
begin

text \<open>
  The pattern matcher and the line loop of \<^verbatim>\<open>grep.c\<close>, and the meaning of a pattern that the matcher
  implements. Patterns and texts are strings without their NUL. The line loop takes the results of
  the successive \<^verbatim>\<open>read\<close> calls as a list of chunks; a chunk longer than the room in the buffer is
  delivered in several reads.
\<close>

section \<open>The matcher\<close>

abbreviation (input) STAR :: u8 where "STAR \<equiv> 42"
abbreviation (input) DOLLAR :: u8 where "DOLLAR \<equiv> 36"
abbreviation (input) DOT :: u8 where "DOT \<equiv> 46"
abbreviation (input) CARET :: u8 where "CARET \<equiv> 94"
abbreviation (input) NL :: u8 where "NL \<equiv> 10"

function matchhere :: "u8 list \<Rightarrow> u8 list \<Rightarrow> bool"
  and matchstar :: "u8 \<Rightarrow> u8 list \<Rightarrow> u8 list \<Rightarrow> bool" where
  "matchhere re s =
     (case re of
        [] \<Rightarrow> True
      | c # r \<Rightarrow>
          if r \<noteq> [] \<and> hd r = STAR then matchstar c (tl r) s
          else if c = DOLLAR \<and> r = [] then s = []
          else (case s of
                  [] \<Rightarrow> False
                | t # ts \<Rightarrow> if c = DOT \<or> c = t then matchhere r ts else False))"
| "matchstar c re s =
     (if matchhere re s then True
      else (case s of [] \<Rightarrow> False | t # ts \<Rightarrow> if t = c \<or> c = DOT then matchstar c re ts else False))"
  by pat_completeness auto
termination
  by (relation "measure (\<lambda>x. case x of Inl (re, s) \<Rightarrow> 2 * (length re + length s)
        | Inr (c, re, s) \<Rightarrow> 2 * (length re + length s) + 1)") (auto simp: neq_Nil_conv)

declare matchhere.simps [simp del] matchstar.simps [simp del]

text \<open>The loop of \<^verbatim>\<open>match\<close> over the positions of the text, the one after its end included.\<close>

fun match_from :: "u8 list \<Rightarrow> u8 list \<Rightarrow> bool" where
  "match_from re s =
     (if matchhere re s then True else (case s of [] \<Rightarrow> False | t # ts \<Rightarrow> match_from re ts))"

declare match_from.simps [simp del]

definition match :: "u8 list \<Rightarrow> u8 list \<Rightarrow> bool" where
  "match re s = (if re \<noteq> [] \<and> hd re = CARET then matchhere (tl re) s else match_from re s)"

section \<open>The line loop\<close>

text \<open>The inner loop of \<^verbatim>\<open>grep\<close> on the bytes from \<open>p\<close> on: what it prints, and what is left at \<open>p\<close>.\<close>

function grep_lines :: "u8 list \<Rightarrow> u8 list \<Rightarrow> u8 list \<times> u8 list" where
  "grep_lines pattern p =
     (if NL \<in> set (takeWhile (\<lambda>c. c \<noteq> 0) p) then
        (let l = takeWhile (\<lambda>c. c \<noteq> NL) p;
             (out, rest) = grep_lines pattern (drop (length l + 1) p)
         in ((if match pattern l then l @ [NL] else []) @ out, rest))
      else ([], p))"
  by pat_completeness auto
termination
proof (relation "measure (\<lambda>(pattern, p). length p)")
  fix pattern p l
  assume "NL \<in> set (takeWhile (\<lambda>c. c \<noteq> 0) p)"
  then have "p \<noteq> []"
    by auto
  then show "((pattern, drop (length l + 1) p), pattern, p) \<in> measure (\<lambda>(pattern, p). length p)"
    by simp
qed simp

declare grep_lines.simps [simp del]

definition read_chunk :: "nat \<Rightarrow> u8 list list \<Rightarrow> u8 list \<times> u8 list list" where
  "read_chunk k chunks =
     (case chunks of
        [] \<Rightarrow> ([], [])
      | c # cs \<Rightarrow> (take k c, if k < length c then drop k c # cs else cs))"

text \<open>
  \<^verbatim>\<open>grep\<close> with the bytes \<open>buf\<close> kept from earlier reads. When no line ended in the buffer, \<^verbatim>\<open>p == buf\<close>
  and the bytes are thrown away.
\<close>

function grep_loop :: "u8 list \<Rightarrow> u8 list \<Rightarrow> u8 list list \<Rightarrow> u8 list" where
  "grep_loop pattern buf chunks =
     (let (cs, chunks') = read_chunk (1023 - length buf) chunks
      in if cs = [] then []
         else let data = buf @ cs;
                  (out, rest) = grep_lines pattern data
              in out @ grep_loop pattern (if length rest = length data then [] else rest) chunks')"
  by pat_completeness auto
termination
proof (relation "measure (\<lambda>(pattern, buf, chunks). sum_list (map length chunks))")
  fix pattern buf cs data out rest :: "u8 list" and chunks chunks' :: "u8 list list" and r x y
  assume "r = read_chunk (1023 - length buf) chunks" "(cs, chunks') = r" "cs \<noteq> []"
  then have "sum_list (map length chunks') < sum_list (map length chunks)"
    by (auto simp: read_chunk_def split: list.splits if_splits)
  then show "((pattern, if length rest = length data then [] else rest, chunks'), pattern, buf, chunks)
      \<in> measure (\<lambda>(pattern, buf, chunks). sum_list (map length chunks))"
    by simp
qed simp

declare grep_loop.simps [simp del]

definition grep :: "u8 list \<Rightarrow> u8 list list \<Rightarrow> u8 list" where
  "grep pattern chunks = grep_loop pattern [] chunks"

section \<open>The meaning of a pattern\<close>

text \<open>
  A pattern is a sequence of items, each one character or any number of the same character, and may be
  anchored at the end. A dot stands for any character.
\<close>

datatype item = One u8 | Many u8

fun items :: "u8 list \<Rightarrow> item list \<times> bool" where
  "items [] = ([], False)"
| "items [c] = (if c = DOLLAR then ([], True) else ([One c], False))"
| "items (c # d # r) =
     (if d = STAR then apfst (Cons (Many c)) (items r) else apfst (Cons (One c)) (items (d # r)))"

definition hits :: "u8 \<Rightarrow> u8 \<Rightarrow> bool" where
  "hits c t \<longleftrightarrow> c = DOT \<or> c = t"

fun lang :: "item list \<Rightarrow> u8 list \<Rightarrow> bool" where
  "lang [] w \<longleftrightarrow> w = []"
| "lang (One c # is) w \<longleftrightarrow> (\<exists>t v. w = t # v \<and> hits c t \<and> lang is v)"
| "lang (Many c # is) w \<longleftrightarrow> (\<exists>u v. w = u @ v \<and> list_all (hits c) u \<and> lang is v)"

text \<open>A prefix of the text is in the language; all of it if the pattern is anchored at the end.\<close>

definition matches_here :: "item list \<times> bool \<Rightarrow> u8 list \<Rightarrow> bool" where
  "matches_here p s \<longleftrightarrow> (\<exists>w v. s = w @ v \<and> lang (fst p) w \<and> (snd p \<longrightarrow> v = []))"

section \<open>Correctness of the matcher\<close>

lemma matches_one:
  "matches_here (apfst (Cons (One c)) p) s \<longleftrightarrow> (\<exists>t ts. s = t # ts \<and> hits c t \<and> matches_here p ts)"
proof
  assume "matches_here (apfst (Cons (One c)) p) s"
  then obtain w v where "s = w @ v" "lang (One c # fst p) w" "snd p \<longrightarrow> v = []"
    by (auto simp: matches_here_def simp del: lang.simps)
  then obtain t u where "s = (t # u) @ v" "hits c t" "lang (fst p) u" "snd p \<longrightarrow> v = []"
    by auto
  then show "\<exists>t ts. s = t # ts \<and> hits c t \<and> matches_here p ts"
    by (auto simp: matches_here_def)
next
  assume "\<exists>t ts. s = t # ts \<and> hits c t \<and> matches_here p ts"
  then obtain t u v where "s = t # u @ v" "hits c t" "lang (fst p) u" "snd p \<longrightarrow> v = []"
    by (auto simp: matches_here_def)
  then show "matches_here (apfst (Cons (One c)) p) s"
    unfolding matches_here_def by (intro exI [of _ "t # u"] exI [of _ v]) simp
qed

lemma matches_many_split:
  "matches_here (apfst (Cons (Many c)) p) s \<longleftrightarrow>
     (\<exists>u v. s = u @ v \<and> list_all (hits c) u \<and> matches_here p v)"
proof
  assume "matches_here (apfst (Cons (Many c)) p) s"
  then obtain x w where "s = x @ w" "lang (Many c # fst p) x" "snd p \<longrightarrow> w = []"
    by (auto simp: matches_here_def simp del: lang.simps)
  then obtain u v where "s = (u @ v) @ w" "list_all (hits c) u" "lang (fst p) v" "snd p \<longrightarrow> w = []"
    by auto
  then show "\<exists>u v. s = u @ v \<and> list_all (hits c) u \<and> matches_here p v"
    by (intro exI [of _ u] exI [of _ "v @ w"]) (auto simp: matches_here_def)
next
  assume "\<exists>u v. s = u @ v \<and> list_all (hits c) u \<and> matches_here p v"
  then obtain u v w where "s = u @ v @ w" "list_all (hits c) u" "lang (fst p) v" "snd p \<longrightarrow> w = []"
    by (auto simp: matches_here_def)
  then show "matches_here (apfst (Cons (Many c)) p) s"
    unfolding matches_here_def by (intro exI [of _ "u @ v"] exI [of _ w]) auto
qed

lemma matches_many:
  "matches_here (apfst (Cons (Many c)) p) s \<longleftrightarrow>
     matches_here p s \<or> (\<exists>t ts. s = t # ts \<and> hits c t \<and> matches_here (apfst (Cons (Many c)) p) ts)"
proof
  assume "matches_here (apfst (Cons (Many c)) p) s"
  then obtain u v where u: "s = u @ v" "list_all (hits c) u" "matches_here p v"
    by (auto simp: matches_many_split)
  show "matches_here p s \<or> (\<exists>t ts. s = t # ts \<and> hits c t \<and> matches_here (apfst (Cons (Many c)) p) ts)"
    using u by (cases u) (auto simp: matches_many_split)
next
  assume a: "matches_here p s \<or> (\<exists>t ts. s = t # ts \<and> hits c t \<and> matches_here (apfst (Cons (Many c)) p) ts)"
  show "matches_here (apfst (Cons (Many c)) p) s"
  proof (cases "matches_here p s")
    case True
    then show ?thesis
      unfolding matches_many_split by (intro exI [of _ "[]"] exI [of _ s]) simp
  next
    case False
    then obtain t u v where "s = t # u @ v" "hits c t" "list_all (hits c) u" "matches_here p v"
      using a by (auto simp: matches_many_split)
    then show ?thesis
      unfolding matches_many_split by (intro exI [of _ "t # u"] exI [of _ v]) simp
  qed
qed

lemma matchhere_matches:
  "matchhere re s \<longleftrightarrow> matches_here (items re) s"
  "matchstar c re s \<longleftrightarrow> matches_here (apfst (Cons (Many c)) (items re)) s"
proof (induction re s and c re s rule: matchhere_matchstar.induct)
  case (1 re s)
  show ?case
  proof (cases re rule: items.cases)
    case 1
    then show ?thesis
      by (simp add: matchhere.simps [of "[]"] matches_here_def)
  next
    case (2 c)
    then show ?thesis
      using matches_one [of c "([], False)" s]
      by (cases s) (auto simp: matchhere.simps [of "[c]"] matchhere.simps [of "[]"] matches_here_def hits_def)
  next
    case (3 c d r)
    then show ?thesis
      using 1 by (cases s) (simp_all add: matchhere.simps [of "c # d # r"] matches_one hits_def)
  qed
next
  case (2 c re s)
  then show ?case
    by (subst matchstar.simps, subst matches_many) (auto simp: hits_def split: list.splits)
qed

lemma match_from_matches: "match_from re s \<longleftrightarrow> (\<exists>u v. s = u @ v \<and> matches_here (items re) v)"
proof (induction re s rule: match_from.induct)
  case (1 re s)
  show ?case
  proof (cases s)
    case Nil
    then show ?thesis
      by (subst match_from.simps) (simp add: matchhere_matches)
  next
    case (Cons t ts)
    then show ?thesis
      using 1 by (subst match_from.simps) (auto simp: matchhere_matches Cons_eq_append_conv)
  qed
qed

section \<open>Correctness of the line loop\<close>

text \<open>The complete lines of a file, without their newlines, and what follows the last of them.\<close>

function lines_of :: "u8 list \<Rightarrow> u8 list list" where
  "lines_of f = (if NL \<in> set f then takeWhile (\<lambda>c. c \<noteq> NL) f # lines_of (drop (length (takeWhile (\<lambda>c. c \<noteq> NL) f) + 1) f)
     else [])"
  by pat_completeness auto
termination
proof (relation "measure length")
  fix f :: "u8 list"
  assume "NL \<in> set f"
  then have "f \<noteq> []"
    by auto
  then show "(drop (length (takeWhile (\<lambda>c. c \<noteq> NL) f) + 1) f, f) \<in> measure length"
    by simp
qed simp

declare lines_of.simps [simp del]

lemma takeWhile_line:
  "NL \<notin> set l \<Longrightarrow> takeWhile (\<lambda>c. c \<noteq> NL) (l @ NL # f) = l"
  "0 \<notin> set l \<Longrightarrow> NL \<in> set (takeWhile (\<lambda>c. c \<noteq> 0) (l @ NL # f))"
  by (induction l) auto

lemma lines_of_simps [simp]:
  "lines_of [] = []"
  "NL \<notin> set l \<Longrightarrow> lines_of (l @ NL # f) = l # lines_of f"
  "NL \<notin> set l \<Longrightarrow> lines_of l = []"
  by (simp_all add: lines_of.simps [of "[]"] lines_of.simps [of "l @ NL # f"] lines_of.simps [of l] takeWhile_line)

lemma grep_lines_simps [simp]:
  "NL \<notin> set l \<Longrightarrow> 0 \<notin> set l \<Longrightarrow> grep_lines pat (l @ NL # f) =
     (let (out, rest) = grep_lines pat f in ((if match pat l then l @ [NL] else []) @ out, rest))"
  "NL \<notin> set l \<Longrightarrow> grep_lines pat l = ([], l)"
  by (auto simp: grep_lines.simps [of pat "l @ NL # f"] grep_lines.simps [of pat l] takeWhile_line dest: set_takeWhileD)

lemma lines_induct:
  assumes "\<And>l. NL \<notin> set l \<Longrightarrow> P l" "\<And>l f. NL \<notin> set l \<Longrightarrow> P f \<Longrightarrow> P (l @ NL # f)"
  shows "P f"
proof (induction f rule: length_induct)
  case (1 f)
  show ?case
  proof (cases "NL \<in> set f")
    case True
    then obtain l g where "f = l @ NL # g" "NL \<notin> set l"
      by (auto dest: split_list_first)
    then show ?thesis
      using 1 assms(2) [of l g] by simp
  qed (rule assms(1))
qed

definition matching :: "u8 list \<Rightarrow> u8 list list \<Rightarrow> u8 list" where
  "matching pat ls = concat (map (\<lambda>l. l @ [NL]) (filter (match pat) ls))"

lemma grep_lines_output:
  "0 \<notin> set p \<Longrightarrow> \<exists>l. p = concat (map (\<lambda>l. l @ [NL]) (lines_of p)) @ l \<and> NL \<notin> set l \<and> grep_lines pat p = (matching pat (lines_of p), l)"
proof (induction p rule: lines_induct)
  case (1 l)
  then show ?case
    by (simp add: matching_def)
next
  case (2 l f)
  then show ?case
    by (auto simp: matching_def)
qed

lemma lines_of_append:
  "NL \<notin> set l \<Longrightarrow> lines_of ((concat (map (\<lambda>l. l @ [NL]) (lines_of p)) @ l) @ g) = lines_of p @ lines_of (l @ g)"
proof (induction p rule: lines_induct)
  case (2 k f)
  then show ?case
    using lines_of_simps(2) [of k "(concat (map (\<lambda>l. l @ [NL]) (lines_of f)) @ l) @ g"] by simp
qed simp

lemma line_too_long: "NL \<notin> set l \<Longrightarrow> lines_of (l @ g) = [] \<or> (\<exists>m\<in>set (lines_of (l @ g)). length l \<le> length m)"
proof (cases "NL \<in> set g")
  case True
  assume l: "NL \<notin> set l"
  from True obtain k h where g: "g = k @ NL # h" "NL \<notin> set k"
    by (auto dest: split_list_first)
  then show ?thesis
    using lines_of_simps(2) [of "l @ k" h] l by simp
qed simp

text \<open>
  A file is read in full buffers, so a buffer without a newline either holds a line that is too long
  or is the end of the file.
\<close>

lemma grep_loop_file:
  assumes "0 \<notin> set (buf @ f)" "\<forall>l\<in>set (lines_of (buf @ f)). length l \<le> 1022" "NL \<notin> set buf" "length buf \<le> 1022"
  shows "grep_loop pat buf [f] = matching pat (lines_of (buf @ f))"
  using assms
proof (induction "length f" arbitrary: buf f rule: less_induct)
  case less
  let ?k = "1023 - length buf"
  let ?data = "buf @ take ?k f"
  show ?case
  proof (cases "f = []")
    case True
    then show ?thesis
      using less.prems by (simp add: grep_loop.simps read_chunk_def matching_def)
  next
    case False
    then have cs: "take ?k f \<noteq> []"
      using less.prems(4) by simp
    have "0 \<notin> set ?data"
      using less.prems(1) by (auto dest: in_set_takeD)
    then obtain l where l: "?data = concat (map (\<lambda>l. l @ [NL]) (lines_of ?data)) @ l" "NL \<notin> set l"
        "grep_lines pat ?data = (matching pat (lines_of ?data), l)"
      using grep_lines_output [of ?data pat] by blast
    have all: "lines_of (buf @ f) = lines_of ?data @ lines_of (l @ drop ?k f)"
      using lines_of_append [OF l(2), of ?data "drop ?k f"] by (simp flip: l(1))
    define buf' where "buf' = (if length l = length ?data then [] else l)"
    define more where "more = (if ?k < length f then [drop ?k f] else [])"
    have step: "grep_loop pat buf [f] = matching pat (lines_of ?data) @ grep_loop pat buf' more"
      using cs l(3) by (subst grep_loop.simps) (simp add: read_chunk_def buf'_def more_def)
    have "grep_loop pat buf' more = matching pat (lines_of (l @ drop ?k f))"
    proof (cases "?k < length f")
      case True
      let ?g = "drop ?k f"
      have g: "length ?g < length f" "more = [?g]" "0 \<notin> set (l @ ?g)" "0 \<notin> set ?g"
        using True less.prems(1,4) l(1) by (auto simp: more_def dest: in_set_dropD)
          (metis Un_iff \<open>0 \<notin> set ?data\<close> set_append)
      have short: "\<forall>m\<in>set (lines_of (l @ ?g)). length m \<le> 1022"
        using less.prems(2) all by simp
      show ?thesis
      proof (cases "length l = length ?data")
        case full: True
        then have "lines_of (l @ ?g) = []"
          using short line_too_long [OF l(2), of ?g] True less.prems(4) by auto
        then have "NL \<notin> set ?g"
          by (metis Un_iff set_append lines_of.simps list.distinct(1))
        then show ?thesis
          using less.hyps [OF g(1), of "[]"] g full \<open>lines_of (l @ ?g) = []\<close> by (simp add: buf'_def)
      next
        case False
        then have "buf' = l" "length l \<le> 1022"
          using arg_cong [OF l(1), of length] True less.prems(4) by (auto simp: buf'_def)
        then show ?thesis
          using less.hyps [OF g(1), of l] g short l(2) by simp
      qed
    next
      case False
      then show ?thesis
        using l(2) by (simp add: more_def grep_loop.simps read_chunk_def matching_def)
    qed
    then show ?thesis
      by (simp add: step all matching_def)
  qed
qed

text \<open>
  C36: \<^verbatim>\<open>match\<close> implements the meaning of patterns: the text contains a word of the language of the
  pattern, at its beginning if the pattern starts with a caret and at its end if it ends with a dollar
  sign. A star applies to the character before it; a caret, dollar sign or star elsewhere stands for
  itself.
\<close>

theorem match_correct:
  "match re s \<longleftrightarrow>
     (let bol = (re \<noteq> [] \<and> hd re = CARET); (is, eol) = items (if bol then tl re else re)
      in \<exists>u w v. s = u @ w @ v \<and> lang is w \<and> (bol \<longrightarrow> u = []) \<and> (eol \<longrightarrow> v = []))"
proof (cases "re \<noteq> [] \<and> hd re = CARET")
  case True
  obtain "is" eol where i: "items (tl re) = (is, eol)"
    by (cases "items (tl re)")
  show ?thesis
    using True by (auto simp: match_def matchhere_matches(1) matches_here_def i)
next
  case False
  obtain "is" eol where i: "items re = (is, eol)"
    by (cases "items re")
  show ?thesis
    using False by (auto simp: match_def match_from_matches matches_here_def i)
qed

theorem match_correct_witness: "match [CARET, 97, STAR, 98, DOLLAR] [97, 97, 98]"
proof -
  have "items [97, STAR, 98, DOLLAR] = ([Many 97, One 98], True)"
    by simp
  moreover have "\<exists>u v. [97, 97, 98 :: u8] = u @ v \<and> list_all (hits 97) u \<and> v = [98]"
    by (rule exI [of _ "[97, 97]"]) (simp add: hits_def)
  ultimately show ?thesis
    using match_correct [of "[CARET, 97, STAR, 98, DOLLAR]" "[97, 97, 98]"] by (simp add: hits_def)
qed

text \<open>
  C37: on a file without NUL bytes whose lines have at most 1022 characters, \<^verbatim>\<open>grep\<close> prints exactly the
  complete lines that match, in order.
\<close>

theorem grep_prints_matching_lines:
  assumes "0 \<notin> set f" "\<forall>l\<in>set (lines_of f). length l \<le> 1022"
  shows "grep pat [f] = concat (map (\<lambda>l. l @ [NL]) (filter (match pat) (lines_of f)))"
  using grep_loop_file [of "[]" f pat] assms by (simp add: grep_def matching_def)

theorem grep_prints_matching_lines_witness: "grep [98] [[97, 98, 10, 99, 10]] = [97, 98, 10]"
proof -
  have l: "lines_of [97, 98, 10, 99, 10] = [[97, 98], [99]]" "match [98] [97, 98]" "\<not> match [98] [99]"
    by code_simp+
  show ?thesis
    using grep_prints_matching_lines [of "[97, 98, 10, 99, 10]" "[98]"] l by simp
qed

text \<open>A line that arrives in two reads, as from a pipe, is lost: its beginning is thrown away.\<close>

lemma grep_loses_split_line: "grep [97, 98] [[97], [98, 10]] = [] \<and> grep [97, 98] [[97, 98, 10]] = [97, 98, 10]"
  by code_simp

end
