(* ===== verification/Login.thy ===== *)
theory Login
  imports Ulib "HOL-Library.Sublist"
begin

text \<open>
  The login of \<^verbatim>\<open>init.c\<close>. The console input is the list of bytes still to come; a \<^verbatim>\<open>read\<close> of it
  returns a line with its newline, or as much of it as there is room for, and nothing at the end of
  the input. The user name and the password are given to the compiler and are parameters here, as
  strings. The messages printed are not modelled.
\<close>

section \<open>Reading a line\<close>

definition read_line :: "nat \<Rightarrow> u8 list \<Rightarrow> u8 list \<times> u8 list" where
  "read_line n inp =
     (let l = takeWhile (\<lambda>c. c \<noteq> 10) inp;
          k = (if length l < length inp then length l + 1 else length l)
      in (take (min n k) inp, drop (min n k) inp))"

text \<open>The loop that reads up to and including the next newline.\<close>

definition flush_line :: "u8 list \<Rightarrow> u8 list" where
  "flush_line inp = tl (dropWhile (\<lambda>c. c \<noteq> 10) inp)"

text \<open>\<^verbatim>\<open>get_input\<close>: the string in the buffer, which ends at the first NUL.\<close>

definition get_input :: "nat \<Rightarrow> u8 list \<Rightarrow> u8 list \<times> u8 list" where
  "get_input sz inp =
     (let (cs, inp) = read_line (sz - 1) inp;
          inp = (if length cs = sz - 1 then flush_line inp else inp);
          cs = (if cs \<noteq> [] \<and> last cs = 10 then butlast cs else cs)
      in (takeWhile (\<lambda>c. c \<noteq> 0) cs, inp))"

definition is_valid_input :: "u8 list \<Rightarrow> bool" where
  "is_valid_input s \<longleftrightarrow> (\<forall>c\<in>set s. 65 \<le> c \<and> c \<le> 90 \<or> 97 \<le> c \<and> c \<le> 122 \<or> 48 \<le> c \<and> c \<le> 57)"

section \<open>The login loop\<close>

abbreviation (input) MAX_ATTEMPTS :: nat where "MAX_ATTEMPTS \<equiv> 3"

text \<open>
  The loop of \<^verbatim>\<open>main\<close> with \<open>n\<close> attempts left: whether the shell is started, and the rest of the input.
  With no attempt left, \<^verbatim>\<open>init\<close> sleeps for ever.
\<close>

fun login :: "u8 list \<Rightarrow> u8 list \<Rightarrow> nat \<Rightarrow> u8 list \<Rightarrow> bool \<times> u8 list" where
  "login USERNAME PASSWORD 0 inp = (False, inp)"
| "login USERNAME PASSWORD (Suc n) inp =
     (let (username, inp) = get_input 33 inp
      in if \<not> is_valid_input username \<or> username \<noteq> USERNAME then login USERNAME PASSWORD n inp
         else let (password, inp) = get_input 33 inp
              in if \<not> is_valid_input password \<or> password \<noteq> PASSWORD then login USERNAME PASSWORD n inp
                 else (True, inp))"

definition starts_shell :: "u8 list \<Rightarrow> u8 list \<Rightarrow> u8 list \<Rightarrow> bool" where
  "starts_shell USERNAME PASSWORD inp = fst (login USERNAME PASSWORD MAX_ATTEMPTS inp)"

section \<open>Properties\<close>

lemma suffix_flush: "suffix (flush_line xs) xs"
  unfolding flush_line_def by (rule suffix_order.trans [OF suffix_tl suffix_dropWhile])

lemma get_input_suffix: "get_input n inp = (s, rest) \<Longrightarrow> suffix rest inp"
  using suffix_order.trans [OF suffix_flush suffix_drop]
  by (auto simp: get_input_def read_line_def Let_def suffix_drop split: if_splits)

lemma login_credentials:
  assumes "login u p n inp = (True, rest)"
  shows "\<exists>s t. suffix s inp \<and> get_input 33 s = (u, t) \<and> get_input 33 t = (p, rest) \<and> is_valid_input u \<and> is_valid_input p"
  using assms
proof (induction n arbitrary: inp)
  case (Suc n)
  obtain a t where a: "get_input 33 inp = (a, t)"
    by (cases "get_input 33 inp")
  obtain b r where b: "get_input 33 t = (b, r)"
    by (cases "get_input 33 t")
  show ?case
  proof (cases "is_valid_input a \<and> a = u")
    case True
    then show ?thesis
      using Suc a b get_input_suffix [OF a] get_input_suffix [OF b]
      by (auto split: if_splits) (meson suffix_order.trans)+
  next
    case False
    then show ?thesis
      using Suc a get_input_suffix [OF a] by (auto split: if_splits) (meson suffix_order.trans)+
  qed
qed simp



text \<open>
  A line of 31 characters fills the buffer together with its newline; \<^verbatim>\<open>get_input\<close> takes it for a line
  that is cut off and throws the next line away.
\<close>

lemma get_input_swallows_line: "get_input 33 (replicate 31 97 @ [10] @ [98, 10]) = (replicate 31 97, [])"
  by code_simp

end
