(* ===== verification/Shell.thy ===== *)
theory Shell
  imports Ulib
begin

text \<open>
  The shell, \<^verbatim>\<open>sh.c\<close>: the parser, the commands the shell executes itself, and the system calls made to
  run a parsed command. A position \<^verbatim>\<open>*ps\<close> in the line is the list of characters from there to the
  end \<^verbatim>\<open>es\<close>. A counted string, such as \<^verbatim>\<open>argv[i]\<close> to \<^verbatim>\<open>eargv[i]\<close>, is the list of its characters, so
  \<^verbatim>\<open>nulterminate\<close> has nothing to do. \<^verbatim>\<open>malloc\<close> is taken to succeed. \<^verbatim>\<open>panic\<close> of the shell prints a
  message and exits.

  The parsing functions call each other in a cycle and take a fuel argument; \<open>PFuel\<close> is the outcome
  when it is used up, and \<open>parsecmd\<close> starts with enough for this not to happen.
\<close>

section \<open>Commands and tokens\<close>

datatype cmd =
    Exec "u8 list list"
  | Redir cmd "u8 list" u32 nat
  | Pipe cmd cmd
  | List cmd cmd
  | Back cmd

abbreviation (input) MAXARGS :: nat where "MAXARGS \<equiv> 10"

definition whitespace :: "u8 list" where "whitespace = [32, 9, 13, 10, 11]"
definition symbols :: "u8 list" where "symbols = [60, 124, 62, 38, 59, 40, 41]"

definition skip_ws :: "u8 list \<Rightarrow> u8 list" where
  "skip_ws s = dropWhile (strchr whitespace) s"

definition plain :: "u8 \<Rightarrow> bool" where
  "plain c \<longleftrightarrow> \<not> strchr whitespace c \<and> \<not> strchr symbols c"

text \<open>
  \<^verbatim>\<open>gettoken\<close>: the kind of token (0 at the end, \<^verbatim>\<open>'a'\<close> for a word, \<^verbatim>\<open>'+'\<close> for \<^verbatim>\<open>>>\<close>, else the
  character), its text, and the position after it.
\<close>

definition gettoken :: "u8 list \<Rightarrow> u8 \<times> u8 list \<times> u8 list" where
  "gettoken s =
     (case skip_ws s of
        [] \<Rightarrow> (0, [], [])
      | c # r \<Rightarrow>
          if c \<in> {124, 40, 41, 59, 38, 60} then (c, [c], skip_ws r)
          else if c = 62 then
            (if r \<noteq> [] \<and> hd r = 62 then (43, [c, c], skip_ws (tl r)) else (c, [c], skip_ws r))
          else (97, takeWhile plain (c # r), skip_ws (dropWhile plain (c # r))))"

text \<open>\<^verbatim>\<open>peek\<close>, without the update of the position, which becomes \<open>skip_ws s\<close>.\<close>

definition peek :: "u8 list \<Rightarrow> u8 list \<Rightarrow> bool" where
  "peek s toks \<longleftrightarrow> skip_ws s \<noteq> [] \<and> strchr toks (hd (skip_ws s))"

section \<open>The parser\<close>

datatype 'a pres = POk 'a "u8 list" | PPanic string | PFuel

definition bindp :: "'a pres \<Rightarrow> ('a \<Rightarrow> u8 list \<Rightarrow> 'b pres) \<Rightarrow> 'b pres" where
  "bindp m f = (case m of POk a s \<Rightarrow> f a s | PPanic e \<Rightarrow> PPanic e | PFuel \<Rightarrow> PFuel)"

lemma bindp_simps [simp]:
  "bindp (POk a s) f = f a s" "bindp (PPanic e) f = PPanic e" "bindp PFuel f = PFuel"
  by (simp_all add: bindp_def)

lemma bindp_eq_POk: "bindp m f = POk b t \<longleftrightarrow> (\<exists>a s. m = POk a s \<and> f a s = POk b t)"
  by (cases m) simp_all

lemma skip_ws_length: "length (skip_ws s) \<le> length s"
  by (simp add: skip_ws_def length_dropWhile_le)

lemma skip_ws_hd: "skip_ws s = c # t \<Longrightarrow> \<not> strchr whitespace c"
  by (auto simp: skip_ws_def dropWhile_eq_Cons_conv)

lemma gettoken_shorter: "gettoken s = (k, q, r) \<Longrightarrow> k \<noteq> 0 \<Longrightarrow> length r < length s"
proof -
  assume a: "gettoken s = (k, q, r)" "k \<noteq> 0"
  then obtain c t where s: "skip_ws s = c # t"
    by (cases "skip_ws s") (auto simp: gettoken_def)
  have "length (skip_ws (dropWhile plain t)) \<le> length t" "length (skip_ws t) \<le> length t" "length (skip_ws (tl t)) \<le> length t"
    using skip_ws_length [of "dropWhile plain t"] length_dropWhile_le [of plain t] skip_ws_length [of t] skip_ws_length [of "tl t"]
    by auto
  moreover have "plain c" if "c \<notin> {124, 40, 41, 59, 38, 60, 62}"
    using skip_ws_hd [OF s] that by (simp add: plain_def strchr_def symbols_def)
  ultimately have "length r \<le> length t"
    using a s by (auto simp: gettoken_def split: if_splits)
  then show ?thesis
    using skip_ws_length [of s] s by simp
qed

text \<open>
  \<^verbatim>\<open>parseredirs\<close> returns the redirections it has found, in order, each the file, the mode and the
  descriptor; the caller wraps them around its command with \<open>wrap\<close>, the first innermost.
\<close>

type_synonym redir = "u8 list \<times> u32 \<times> nat"

definition wrap :: "cmd \<Rightarrow> redir list \<Rightarrow> cmd" where
  "wrap c rs = foldl (\<lambda>c (file, mode, fd). Redir c file mode fd) c rs"

abbreviation (input) O_RDONLY :: u32 where "O_RDONLY \<equiv> 0"
abbreviation (input) O_WRONLY_CREATE :: u32 where "O_WRONLY_CREATE \<equiv> 0x201"

function parseredirs :: "u8 list \<Rightarrow> redir list pres" where
  "parseredirs s =
     (if peek s [60, 62] then
        (let (tok, _, s1) = gettoken s; (k, q, s2) = gettoken s1
         in if k \<noteq> 97 then PPanic ''missing file for redirection''
            else bindp (parseredirs s2) (\<lambda>rs s.
                   POk ((q, if tok = 60 then O_RDONLY else O_WRONLY_CREATE, if tok = 60 then 0 else 1) # rs) s))
      else POk [] (skip_ws s))"
  by pat_completeness auto
termination
proof (relation "measure length")
  fix s r1 tok r2 x s1 r3 k r4 q s2
  assume "peek s [60, 62]" "r1 = gettoken s" "(tok, r2) = r1" "(x, s1) = r2" "r3 = gettoken s1" "(k, r4) = r3" "(q, s2) = r4"
    "\<not> k \<noteq> 97"
  then have "gettoken s = (tok, x, s1)" "gettoken s1 = (97, q, s2)"
    by auto
  then have "length s2 < length s1" "tok \<noteq> 0 \<Longrightarrow> length s1 < length s" "tok = 0 \<Longrightarrow> s1 = []"
    using gettoken_shorter [of s1 97 q s2] gettoken_shorter [of s tok x s1]
    by (auto simp: gettoken_def split: list.splits if_splits)
  then show "(s2, s) \<in> measure length"
    by (cases "tok = 0") auto
qed simp

declare parseredirs.simps [simp del]

lemma parseredirs_length: "parseredirs s = POk rs r \<Longrightarrow> length r \<le> length s"
proof (induction s arbitrary: rs r rule: parseredirs.induct)
  case (1 s)
  obtain tok x s1 where t: "gettoken s = (tok, x, s1)"
    by (cases "gettoken s")
  obtain k q s2 where u: "gettoken s1 = (k, q, s2)"
    by (cases "gettoken s1")
  show ?case
  proof (cases "peek s [60, 62]")
    case True
    then have k: "k = 97"
      using 1(2) t u by (subst (asm) parseredirs.simps) (simp split: if_splits)
    then obtain rs' where "parseredirs s2 = POk rs' r"
      using 1(2) t u True by (subst (asm) parseredirs.simps) (auto simp: bindp_eq_POk)
    then have "length r \<le> length s2"
      using 1(1) [OF True t [symmetric] refl refl u [symmetric] refl refl] k by simp
    moreover have "length s2 < length s1" "length s1 \<le> length s"
      using gettoken_shorter [OF u] k gettoken_shorter [OF t] t by (auto simp: gettoken_def split: list.splits if_splits)
    ultimately show ?thesis
      by simp
  next
    case False
    then show ?thesis
      using 1(2) skip_ws_length [of s] by (subst (asm) parseredirs.simps) auto
  qed
qed

text \<open>The loop of \<^verbatim>\<open>parseexec\<close> with the arguments and redirections found so far.\<close>

function parseexec_args :: "u8 list list \<Rightarrow> redir list \<Rightarrow> u8 list \<Rightarrow> cmd pres" where
  "parseexec_args argv rs s =
     (if peek s [124, 41, 38, 59] then POk (wrap (Exec argv) rs) (skip_ws s)
      else let (tok, q, s1) = gettoken s
           in if tok = 0 then POk (wrap (Exec argv) rs) s1
              else if tok \<noteq> 97 then PPanic ''syntax''
              else if length argv + 1 \<ge> MAXARGS then PPanic ''too many args''
              else (case parseredirs s1 of
                      POk rs1 s2 \<Rightarrow> parseexec_args (argv @ [q]) (rs @ rs1) s2
                    | PPanic e \<Rightarrow> PPanic e
                    | PFuel \<Rightarrow> PFuel))"
  by pat_completeness auto
termination
proof (relation "measure (\<lambda>(argv, rs, s). length s)")
  fix argv :: "u8 list list" and rs rs1 :: "redir list" and s r1 tok r2 q s1 s2
  assume "r1 = gettoken s" "(tok, r2) = r1" "(q, s1) = r2" "tok \<noteq> 0" "parseredirs s1 = POk rs1 s2"
  then show "((argv @ [q], rs @ rs1, s2), argv, rs, s) \<in> measure (\<lambda>(argv, rs, s). length s)"
    using gettoken_shorter [of s tok q s1] parseredirs_length [of s1 rs1 s2] by simp
qed simp

declare parseexec_args.simps [simp del]

text \<open>The loop of \<^verbatim>\<open>parseline\<close> over ampersands.\<close>

function parsebacks :: "cmd \<Rightarrow> u8 list \<Rightarrow> cmd \<times> u8 list" where
  "parsebacks c s = (if peek s [38] then parsebacks (Back c) (snd (snd (gettoken s))) else (c, skip_ws s))"
  by pat_completeness auto
termination
proof (relation "measure (\<lambda>(c, s). length s)")
  fix c s
  assume "peek s [38]"
  then have "fst (gettoken s) = 38"
    by (auto simp: peek_def strchr_def gettoken_def split: list.split)
  then show "((Back c, snd (snd (gettoken s))), c, s) \<in> measure (\<lambda>(c, s). length s)"
    using gettoken_shorter [of s] by (cases "gettoken s") simp
qed simp

declare parsebacks.simps [simp del]

text \<open>The position after the next token.\<close>

definition next_tok :: "u8 list \<Rightarrow> u8 list" where
  "next_tok s = snd (snd (gettoken s))"

fun parseline :: "nat \<Rightarrow> u8 list \<Rightarrow> cmd pres"
  and parsepipe :: "nat \<Rightarrow> u8 list \<Rightarrow> cmd pres"
  and parseexec :: "nat \<Rightarrow> u8 list \<Rightarrow> cmd pres"
  and parseblock :: "nat \<Rightarrow> u8 list \<Rightarrow> cmd pres" where
  "parseline 0 s = PFuel"
| "parseline (Suc n) s =
     bindp (parsepipe n s) (\<lambda>c s.
       let (c, s) = parsebacks c s
       in if peek s [59] then bindp (parseline n (next_tok s)) (\<lambda>d s. POk (List c d) s) else POk c (skip_ws s))"
| "parsepipe 0 s = PFuel"
| "parsepipe (Suc n) s =
     bindp (parseexec n s) (\<lambda>c s.
       if peek s [124] then bindp (parsepipe n (next_tok s)) (\<lambda>d s. POk (Pipe c d) s) else POk c (skip_ws s))"
| "parseexec 0 s = PFuel"
| "parseexec (Suc n) s =
     (if peek s [40] then parseblock n s else bindp (parseredirs s) (\<lambda>rs s. parseexec_args [] rs s))"
| "parseblock 0 s = PFuel"
| "parseblock (Suc n) s =
     (if \<not> peek s [40] then PPanic ''parseblock''
      else bindp (parseline n (next_tok s)) (\<lambda>c s.
        if \<not> peek s [41] then PPanic ''syntax - missing )''
        else bindp (parseredirs (next_tok s)) (\<lambda>rs s. POk (wrap c rs) s)))"

definition parsecmd :: "u8 list \<Rightarrow> cmd pres" where
  "parsecmd s =
     bindp (parseline (4 * length s + 4) s) (\<lambda>c s. if skip_ws s \<noteq> [] then PPanic ''syntax'' else POk c [])"

section \<open>The shell itself\<close>

text \<open>What the shell does with a line: one of its own commands, or a process that runs the parsed line.\<close>

datatype shell_action =
    DoHistory
  | DoBlock int
  | DoUnblock int
  | DoChmod "u8 list" int
  | BadMode
  | ChmodUsage
  | DoNothing
  | RunChild "cmd pres"

definition block_command :: "u8 list \<Rightarrow> shell_action" where
  "block_command arg = (if atoi arg \<le> 0 then DoNothing else DoBlock (atoi arg))"

definition unblock_command :: "u8 list \<Rightarrow> shell_action" where
  "unblock_command arg = (if atoi arg \<le> 0 then DoNothing else DoUnblock (atoi arg))"

definition chmod_command :: "u8 list \<Rightarrow> u8 list \<Rightarrow> shell_action" where
  "chmod_command f mode_str =
     (let mode = atoi mode_str in if mode < 0 \<or> mode > 7 then BadMode else DoChmod f mode)"

definition chmod_line :: "u8 list \<Rightarrow> shell_action" where
  "chmod_line s =
     (let s = dropWhile (\<lambda>c. c = 32) s;
          f = takeWhile (\<lambda>c. c \<noteq> 32) s;
          m = dropWhile (\<lambda>c. c = 32) (drop (length f + 1) s)
      in if f \<noteq> [] \<and> m \<noteq> [] then chmod_command f m else ChmodUsage)"

definition starts_with :: "string \<Rightarrow> u8 list \<Rightarrow> bool" where
  "starts_with w s \<longleftrightarrow> take (length w) s = map of_char w"

text \<open>One turn of the loop of \<^verbatim>\<open>main\<close> on the line \<open>buf\<close>, newline included.\<close>

definition shell_line :: "u8 list \<Rightarrow> shell_action" where
  "shell_line buf =
     (if starts_with ''history'' buf then DoHistory
      else if starts_with ''block '' buf then block_command (drop 6 buf)
      else if starts_with ''unblock '' buf then unblock_command (drop 8 buf)
      else let buf = butlast buf
           in if starts_with ''chmod '' buf then chmod_line (drop 6 buf) else RunChild (parsecmd buf))"

text \<open>\<^verbatim>\<open>getcmd\<close>: a line, or \<open>None\<close> at the end of the input.\<close>

definition getcmd :: "nat \<Rightarrow> u8 list \<Rightarrow> (u8 list \<times> u8 list) option" where
  "getcmd nbuf inp = (let (l, rest) = gets nbuf inp in if l = [] \<or> hd l = 0 then None else Some (l, rest))"

section \<open>Running a command\<close>

text \<open>
  The system calls a process makes to run a command. A call that branches on its result has a
  continuation for each outcome; \<open>Fork\<close> has one for the child and one for the parent, and a failed
  fork aborts.
\<close>

datatype prog =
    Exit
  | Abort string
  | ExecFile "u8 list" "u8 list list"
  | Unblock int prog
  | Close nat prog
  | Dup nat prog
  | Open "u8 list" u32 prog prog
  | Fork prog prog
  | Wait prog
  | MakePipe "nat \<Rightarrow> nat \<Rightarrow> prog" prog

fun runcmd :: "cmd \<Rightarrow> prog" where
  "runcmd (Exec argv) =
     (if argv = [] then Exit
      else if hd argv = map of_char ''unblock'' then Unblock 7 (ExecFile (hd argv) argv)
      else ExecFile (hd argv) argv)"
| "runcmd (Redir c file mode fd) = Close fd (Open file mode (runcmd c) Exit)"
| "runcmd (List l r) = Fork (runcmd l) (Wait (runcmd r))"
| "runcmd (Pipe l r) =
     MakePipe (\<lambda>p0 p1.
       Fork (Close 1 (Dup p1 (Close p0 (Close p1 (runcmd l)))))
      (Fork (Close 0 (Dup p0 (Close p0 (Close p1 (runcmd r)))))
            (Close p0 (Close p1 (Wait (Wait Exit)))))) (Abort ''pipe'')"
| "runcmd (Back c) = Fork (runcmd c) Exit"

section \<open>The fuel is enough\<close>

lemma next_tok_length: "length (next_tok s) \<le> length s"
  by (cases "gettoken s"; cases "fst (gettoken s) = 0")
     (use gettoken_shorter [of s] in \<open>auto simp: next_tok_def gettoken_def split: list.splits if_splits\<close>)

lemma peek_kind: "peek s toks \<Longrightarrow> set toks \<subseteq> {124, 40, 41, 59, 38, 60} \<Longrightarrow> fst (gettoken s) \<in> set toks"
  by (auto simp: peek_def strchr_def gettoken_def split: list.split)

lemma next_tok_shorter: "peek s toks \<Longrightarrow> set toks \<subseteq> {124, 40, 41, 59, 38, 60} \<Longrightarrow> length (next_tok s) < length s"
  using peek_kind [of s toks] gettoken_shorter [of s] by (cases "gettoken s") (auto simp: next_tok_def)

lemma parsebacks_length: "length (snd (parsebacks c s)) \<le> length s"
proof (induction c s rule: parsebacks.induct)
  case (1 c s)
  then show ?case
    using skip_ws_length [of s] next_tok_length [of s]
    by (subst parsebacks.simps) (auto simp: next_tok_def intro: order_trans)
qed

lemma parseredirs_fuel: "parseredirs s \<noteq> PFuel"
proof (induction s rule: parseredirs.induct)
  case (1 s)
  obtain tok x s1 where t: "gettoken s = (tok, x, s1)"
    by (cases "gettoken s")
  obtain k q s2 where u: "gettoken s1 = (k, q, s2)"
    by (cases "gettoken s1")
  show ?case
    using 1 [OF _ t [symmetric] refl refl u [symmetric] refl refl] t u
    by (subst parseredirs.simps) (cases "parseredirs s2", auto)
qed

lemma parseexec_args_total:
  "parseexec_args argv rs s \<noteq> PFuel \<and> (\<forall>c r. parseexec_args argv rs s = POk c r \<longrightarrow> length r \<le> length s)"
proof (induction argv rs s rule: parseexec_args.induct)
  case (1 argv rs s)
  obtain tok q s1 where t: "gettoken s = (tok, q, s1)"
    by (cases "gettoken s")
  show ?case
  proof (cases "peek s [124, 41, 38, 59] \<or> tok = 0 \<or> tok \<noteq> 97 \<or> length argv + 1 \<ge> MAXARGS")
    case True
    then show ?thesis
      using skip_ws_length [of s] next_tok_length [of s] t
      by (subst (1 2) parseexec_args.simps) (auto simp: next_tok_def)
  next
    case False
    show ?thesis
    proof (cases "parseredirs s1")
      case (POk rs1 s2)
      then have e: "parseexec_args argv rs s = parseexec_args (argv @ [q]) (rs @ rs1) s2"
        using False t by (subst parseexec_args.simps) simp
      have "length s2 \<le> length s1" "length s1 < length s"
        using parseredirs_length [OF POk] gettoken_shorter [OF t] False by auto
      then show ?thesis
        using 1 [OF _ t [symmetric] refl refl, of rs1 s2] False POk unfolding e by fastforce
    next
      case (PPanic e)
      then show ?thesis
        using False t by (subst (1 2) parseexec_args.simps) simp
    qed (use parseredirs_fuel in simp)
  qed
qed

definition total_on :: "'a pres \<Rightarrow> u8 list \<Rightarrow> bool" where
  "total_on m s \<longleftrightarrow> m \<noteq> PFuel \<and> (\<forall>c r. m = POk c r \<longrightarrow> length r \<le> length s)"

lemma total_on_bindp:
  assumes "total_on m s" "\<And>c r. length r \<le> length s \<Longrightarrow> total_on (f c r) s"
  shows "total_on (bindp m f) s"
  using assms by (cases m) (auto simp: total_on_def)

lemma total_on_mono: "total_on m r \<Longrightarrow> length r \<le> length s \<Longrightarrow> total_on m s"
  by (auto simp: total_on_def)

lemma total_on_POk: "length r \<le> length s \<Longrightarrow> total_on (POk c r) s"
  by (simp add: total_on_def)

lemma total_on_redirs: "total_on (parseredirs s) s"
  by (auto simp: total_on_def parseredirs_fuel dest: parseredirs_length)

lemma total_on_args: "total_on (parseexec_args argv rs s) s"
  using parseexec_args_total [of argv rs s] by (simp add: total_on_def)

lemma parse_total:
  "(4 * length s + 4 \<le> n \<longrightarrow> total_on (parseline n s) s) \<and>
   (4 * length s + 3 \<le> n \<longrightarrow> total_on (parsepipe n s) s) \<and>
   (4 * length s + 2 \<le> n \<longrightarrow> total_on (parseexec n s) s) \<and>
   (4 * length s + 1 \<le> n \<longrightarrow> total_on (parseblock n s) s)"
proof (induction n arbitrary: s)
  case (Suc n)
  have line: "total_on (parseline n r) s" if "length r < length s" "4 * length s \<le> n" for r s
    using Suc [of r] that by (auto intro: total_on_mono)
  have "total_on (parseline (Suc n) s) s" if n: "4 * length s + 3 \<le> n"
    unfolding parseline.simps
  proof (rule total_on_bindp)
    show "total_on (parsepipe n s) s"
      using Suc n by simp
    fix c r
    assume r: "length (r :: u8 list) \<le> length s"
    obtain d q where d: "parsebacks c r = (d, q)"
      by (cases "parsebacks c r")
    then have q: "length q \<le> length s"
      using parsebacks_length [of c r] r by simp
    show "total_on (let (c, s) = parsebacks c r in if peek s [59] then bindp (parseline n (next_tok s)) (\<lambda>d s. POk (List c d) s)
        else POk c (skip_ws s)) s"
      using q skip_ws_length [of q] next_tok_shorter [of q "[59]"] n
      by (auto simp: d intro!: total_on_bindp total_on_POk line)
  qed
  moreover have "total_on (parsepipe (Suc n) s) s" if n: "4 * length s + 2 \<le> n"
    unfolding parsepipe.simps
  proof (rule total_on_bindp)
    show "total_on (parseexec n s) s"
      using Suc n by simp
    fix c r
    assume r: "length (r :: u8 list) \<le> length s"
    have "total_on (parsepipe n (next_tok r)) s" if "peek r [124]"
      using Suc [of "next_tok r"] next_tok_shorter [OF that] n r by (auto intro: total_on_mono)
    then show "total_on (if peek r [124] then bindp (parsepipe n (next_tok r)) (\<lambda>d s. POk (Pipe c d) s) else POk c (skip_ws r)) s"
      using r skip_ws_length [of r] by (auto intro!: total_on_bindp total_on_POk)
  qed
  moreover have "total_on (parseexec (Suc n) s) s" if n: "4 * length s + 1 \<le> n"
    using Suc [of s] n by (auto intro!: total_on_bindp total_on_redirs intro: total_on_mono [OF total_on_args])
  moreover have "total_on (parseblock (Suc n) s) s" if n: "4 * length s \<le> n"
  proof (cases "peek s [40]")
    case True
    have "total_on (bindp (parseline n (next_tok s)) (\<lambda>c s.
        if \<not> peek s [41] then PPanic ''syntax - missing )''
        else bindp (parseredirs (next_tok s)) (\<lambda>rs s. POk (wrap c rs) s))) s"
    proof (rule total_on_bindp)
      show "total_on (parseline n (next_tok s)) s"
        using next_tok_shorter [OF True] n by (intro line) auto
      fix c r
      assume r: "length (r :: u8 list) \<le> length s"
      then show "total_on (if \<not> peek r [41] then PPanic ''syntax - missing )''
          else bindp (parseredirs (next_tok r)) (\<lambda>rs s. POk (wrap c rs) s)) s"
        using next_tok_length [of r]
        by (auto simp: total_on_def [of "PPanic _"] intro!: total_on_bindp total_on_POk intro: total_on_mono [OF total_on_redirs])
    qed
    then show ?thesis
      using True by simp
  qed (simp add: total_on_def)
  ultimately show ?case
    by auto
qed simp

section \<open>Printing and parsing\<close>

text \<open>
  A command as a line. The level says where it stands: 0 on its own, 1 before an ampersand, 2 after a
  pipe sign, 3 where only a simple command or a block can stand.
\<close>

definition paren :: "bool \<Rightarrow> u8 list \<Rightarrow> u8 list" where
  "paren b s = (if b then [40] @ s @ [41] else s)"

definition words :: "u8 list list \<Rightarrow> u8 list" where
  "words ws = concat (map (\<lambda>w. w @ [32]) ws)"

definition show_redir :: "redir \<Rightarrow> u8 list" where
  "show_redir r = (case r of (f, _, fd) \<Rightarrow> [if fd = 0 then 60 else 62] @ f @ [32])"

primrec show_cmd :: "nat \<Rightarrow> cmd \<Rightarrow> u8 list" where
  "show_cmd l (Exec ws) = words ws"
| "show_cmd l (Redir c f m fd) = show_cmd 3 c @ show_redir (f, m, fd)"
| "show_cmd l (Pipe a b) = paren (2 < l) (show_cmd 3 a @ [124] @ show_cmd 2 b)"
| "show_cmd l (Back c) = paren (1 < l) (show_cmd 1 c @ [38])"
| "show_cmd l (List a b) = paren (0 < l) (show_cmd 1 a @ [59] @ show_cmd 0 b)"

text \<open>Words are made of plain characters; there are fewer than \<open>MAXARGS\<close> of them.\<close>

definition word_ok :: "u8 list \<Rightarrow> bool" where
  "word_ok w \<longleftrightarrow> w \<noteq> [] \<and> (\<forall>c\<in>set w. plain c)"

primrec cmd_ok :: "cmd \<Rightarrow> bool" where
  "cmd_ok (Exec ws) \<longleftrightarrow> length ws < MAXARGS \<and> (\<forall>w\<in>set ws. word_ok w)"
| "cmd_ok (Redir c f m fd) \<longleftrightarrow> cmd_ok c \<and> word_ok f \<and> (m, fd) \<in> {(O_RDONLY, 0), (O_WRONLY_CREATE, 1)}"
| "cmd_ok (Pipe a b) \<longleftrightarrow> cmd_ok a \<and> cmd_ok b"
| "cmd_ok (Back c) \<longleftrightarrow> cmd_ok c"
| "cmd_ok (List a b) \<longleftrightarrow> cmd_ok a \<and> cmd_ok b"

subsection \<open>Tokens\<close>

lemma plain_not: "plain c \<Longrightarrow> c \<notin> {32, 9, 13, 10, 11, 60, 124, 62, 38, 59, 40, 41}"
  by (auto simp: plain_def strchr_def whitespace_def symbols_def)

lemma skip_ws_idem [simp]: "skip_ws (skip_ws s) = skip_ws s"
  by (simp add: skip_ws_def)

lemma skip_ws_Cons [simp]: "skip_ws (32 # s) = skip_ws s" "\<not> strchr whitespace c \<Longrightarrow> skip_ws (c # s) = c # s"
  by (simp_all add: skip_ws_def strchr_def whitespace_def)

lemma not_ws [simp]:
  "\<not> strchr whitespace 124" "\<not> strchr whitespace 38" "\<not> strchr whitespace 59" "\<not> strchr whitespace 40"
  "\<not> strchr whitespace 41" "\<not> strchr whitespace 60" "\<not> strchr whitespace 62" "plain c \<Longrightarrow> \<not> strchr whitespace c"
  by (simp_all add: strchr_def whitespace_def plain_def)

lemma skip_ws_word: "word_ok w \<Longrightarrow> skip_ws (w @ s) = w @ s"
  by (cases w) (simp_all add: word_ok_def)

lemma gettoken_skip [simp]: "gettoken (skip_ws s) = gettoken s"
  by (simp add: gettoken_def)

lemma peek_skip [simp]: "peek (skip_ws s) toks = peek s toks"
  by (simp add: peek_def)

lemma parseredirs_skip: "parseredirs (skip_ws s) = parseredirs s"
  by (subst (1 2) parseredirs.simps) simp

lemma parseexec_args_skip: "parseexec_args argv rs (skip_ws s) = parseexec_args argv rs s"
  by (subst (1 2) parseexec_args.simps) simp

lemma parsebacks_skip: "parsebacks c (skip_ws s) = parsebacks c s"
  by (subst (1 2) parsebacks.simps) simp

lemma takeWhile_plain:
  assumes "\<forall>c\<in>set w. plain c"
  shows "takeWhile plain (w @ 32 # s) = w" "dropWhile plain (w @ 32 # s) = 32 # s"
proof -
  have "\<not> plain 32"
    by (simp add: plain_def strchr_def whitespace_def)
  then show "takeWhile plain (w @ 32 # s) = w" "dropWhile plain (w @ 32 # s) = 32 # s"
    using assms by (simp_all add: takeWhile_append dropWhile_append)
qed

lemma gettoken_word: "word_ok w \<Longrightarrow> gettoken (w @ 32 # s) = (97, w, skip_ws s)"
proof -
  assume w: "word_ok w"
  then obtain c v where c: "w = c # v" "plain c"
    by (cases w) (auto simp: word_ok_def)
  then have "skip_ws (w @ 32 # s) = c # v @ 32 # s"
    by simp
  then show ?thesis
    using plain_not [OF c(2)] takeWhile_plain [of w s] w c(1) by (simp add: gettoken_def word_ok_def)
qed

lemma gettoken_symbol: "c \<in> {124, 40, 41, 59, 38, 60} \<Longrightarrow> gettoken (c # s) = (c, [c], skip_ws s)"
  by (auto simp: gettoken_def)

lemma next_tok_symbol: "c \<in> {124, 40, 41, 59, 38, 60} \<Longrightarrow> next_tok (c # s) = skip_ws s"
  by (simp add: next_tok_def gettoken_symbol)

lemma peek_word: "word_ok w \<Longrightarrow> set toks \<subseteq> set symbols \<Longrightarrow> \<not> peek (w @ s) toks"
  by (cases w) (auto simp: peek_def strchr_def word_ok_def plain_def)

lemma parseredirs_none: "\<not> peek s [60, 62] \<Longrightarrow> parseredirs s = POk [] (skip_ws s)"
  by (subst parseredirs.simps) simp

lemma parseredirs_show:
  assumes "word_ok f" "(m, fd) \<in> {(O_RDONLY, 0), (O_WRONLY_CREATE, 1)}"
  shows "parseredirs (show_redir (f, m, fd) @ s) = bindp (parseredirs s) (\<lambda>rs s. POk ((f, m, fd) # rs) s)"
proof -
  have "hd f \<noteq> 62" "f \<noteq> []"
    using assms(1) plain_not [of "hd f"] by (auto simp: word_ok_def)
  then have "gettoken (show_redir (f, m, fd) @ s) = (if fd = 0 then 60 else 62, [if fd = 0 then 60 else 62], f @ 32 # s)"
    using skip_ws_word [OF assms(1), of "32 # s"] by (simp add: show_redir_def gettoken_def)
  moreover have "peek (show_redir (f, m, fd) @ s) [60, 62]"
    by (simp add: show_redir_def peek_def) (simp add: strchr_def)
  ultimately show ?thesis
    using assms(2) by (subst parseredirs.simps) (auto simp: gettoken_word [OF assms(1)] parseredirs_skip)
qed

subsection \<open>The levels\<close>

definition stops :: "u8 list \<Rightarrow> u8 list \<Rightarrow> bool" where
  "stops toks s \<longleftrightarrow> skip_ws s = [] \<or> hd (skip_ws s) \<in> set toks"

lemma stops_skip [simp]: "stops toks (skip_ws s) = stops toks s"
  by (simp add: stops_def)

lemma stops_peek: "stops toks s \<Longrightarrow> set toks \<inter> set toks' = {} \<Longrightarrow> \<not> peek s toks'"
  by (auto simp: stops_def peek_def strchr_def)

lemma wrap_simps [simp]: "wrap c [] = c" "wrap c ((f, m, fd) # rs) = wrap (Redir c f m fd) rs"
  by (simp_all add: wrap_def)

lemma args_stop: "stops [124, 41, 38, 59] s \<Longrightarrow> parseexec_args argv rs s = POk (wrap (Exec argv) rs) (skip_ws s)"
  by (cases "skip_ws s = []")
     (subst parseexec_args.simps, auto simp: stops_def peek_def strchr_def gettoken_def)+

lemma args_words:
  assumes "parseredirs r = POk rs r'" "stops [124, 41, 38, 59] r'" "\<forall>w\<in>set ws. word_ok w" "length argv + length ws < MAXARGS"
  shows "bindp (parseredirs (words ws @ r)) (\<lambda>x s. parseexec_args argv (rs0 @ x) s) =
    POk (wrap (Exec (argv @ ws)) (rs0 @ rs)) (skip_ws r')"
  using assms
proof (induction ws arbitrary: argv rs0)
  case Nil
  then show ?case
    by (simp add: words_def args_stop)
next
  case (Cons w ws)
  then have w: "word_ok w"
    by simp
  let ?s = "words ws @ r"
  have s: "words (w # ws) @ r = w @ 32 # ?s"
    by (simp add: words_def)
  have p: "\<not> peek (w @ 32 # ?s) [60, 62]" "\<not> peek (w @ 32 # ?s) [124, 41, 38, 59]"
    using peek_word [OF w] by (auto simp: symbols_def)
  have IH: "bindp (parseredirs ?s) (\<lambda>x s. parseexec_args (argv @ [w]) (rs0 @ x) s) = POk (wrap (Exec ((argv @ [w]) @ ws)) (rs0 @ rs)) (skip_ws r')"
    using Cons.prems by (intro Cons.IH) simp_all
  then obtain x q where x: "parseredirs ?s = POk x q" "parseexec_args (argv @ [w]) (rs0 @ x) q = POk (wrap (Exec (argv @ w # ws)) (rs0 @ rs)) (skip_ws r')"
    by (auto simp: bindp_eq_POk)
  have "parseexec_args argv rs0 (w @ 32 # ?s) = parseexec_args (argv @ [w]) (rs0 @ x) q"
    using p(2) Cons.prems(4) gettoken_word [OF w, of ?s] x(1)
    by (subst parseexec_args.simps) (simp add: parseredirs_skip)
  then show ?case
    unfolding s parseredirs_none [OF p(1)] skip_ws_word [OF w] using x(2) by simp
qed

lemma next_tok_skip [simp]: "next_tok (skip_ws s) = next_tok s"
  by (simp add: next_tok_def)

lemma parseexec_skip: "parseexec n (skip_ws s) = parseexec n s"
  by (cases n; cases "n - 1") (simp_all add: parseredirs_skip)

lemma parsepipe_skip: "parsepipe n (skip_ws s) = parsepipe n s"
  by (cases n) (simp_all add: parseexec_skip)

lemma parseline_skip: "parseline n (skip_ws s) = parseline n s"
  by (cases n) (simp_all add: parsepipe_skip)

lemma parseredirs_skipped: "parseredirs s = POk rs r \<Longrightarrow> skip_ws r = r"
proof (induction s arbitrary: rs r rule: parseredirs.induct)
  case (1 s)
  obtain tok x s1 where t: "gettoken s = (tok, x, s1)"
    by (cases "gettoken s")
  obtain k q s2 where u: "gettoken s1 = (k, q, s2)"
    by (cases "gettoken s1")
  show ?case
  proof (cases "peek s [60, 62] \<and> k = 97")
    case True
    then obtain rs' where "parseredirs s2 = POk rs' r"
      using 1(2) t u by (subst (asm) parseredirs.simps) (auto simp: bindp_eq_POk)
    then show ?thesis
      using 1(1) [OF _ t [symmetric] refl refl u [symmetric] refl refl] True by simp
  qed (use 1(2) t u in \<open>subst (asm) parseredirs.simps, auto split: if_splits\<close>)
qed

definition claim_exec :: "cmd \<Rightarrow> bool" where
  "claim_exec c \<longleftrightarrow> (\<forall>n r rs r'. 4 * length (show_cmd 3 c @ r) + 2 \<le> n \<longrightarrow> parseredirs r = POk rs r' \<longrightarrow>
     stops [124, 41, 38, 59] r' \<longrightarrow> parseexec n (show_cmd 3 c @ r) = POk (wrap c rs) (skip_ws r'))"

definition claim_pipe :: "cmd \<Rightarrow> bool" where
  "claim_pipe c \<longleftrightarrow> (\<forall>n r. 4 * length (show_cmd 2 c @ r) + 3 \<le> n \<longrightarrow> stops [38, 59, 41] r \<longrightarrow>
     parsepipe n (show_cmd 2 c @ r) = POk c (skip_ws r))"

definition claim_back :: "cmd \<Rightarrow> bool" where
  "claim_back c \<longleftrightarrow> (\<forall>n r. 4 * length (show_cmd 1 c @ r) + 3 \<le> n \<longrightarrow> stops [38, 59, 41] r \<longrightarrow>
     (\<exists>d s. parsepipe n (show_cmd 1 c @ r) = POk d s \<and> parsebacks d s = parsebacks c r))"

definition claim_line :: "cmd \<Rightarrow> bool" where
  "claim_line c \<longleftrightarrow> (\<forall>n r. 4 * length (show_cmd 0 c @ r) + 4 \<le> n \<longrightarrow> stops [41] r \<longrightarrow>
     parseline n (show_cmd 0 c @ r) = POk c (skip_ws r))"

lemma pipe_of_exec:
  assumes "claim_exec c" "show_cmd 2 c = show_cmd 3 c"
  shows "claim_pipe c"
  unfolding claim_pipe_def
proof (intro allI impI)
  fix n r
  assume n: "4 * length (show_cmd 2 c @ r) + 3 \<le> n" and r: "stops [38, 59, 41] r"
  obtain k where k: "n = Suc k"
    using n by (cases n) auto
  have "parseredirs r = POk [] (skip_ws r)"
    using stops_peek [OF r, of "[60, 62]"] by (simp add: parseredirs_none)
  moreover have "stops [124, 41, 38, 59] r"
    using r by (auto simp: stops_def)
  ultimately have "parseexec k (show_cmd 2 c @ r) = POk c (skip_ws r)"
    using assms n k by (simp add: claim_exec_def)
  then show "parsepipe n (show_cmd 2 c @ r) = POk c (skip_ws r)"
    using stops_peek [OF r, of "[124]"] k by simp
qed

lemma back_of_pipe:
  assumes "claim_pipe c" "show_cmd 1 c = show_cmd 2 c"
  shows "claim_back c"
  using assms by (simp add: claim_pipe_def claim_back_def parsebacks_skip)

lemma line_of_back:
  assumes "claim_back c" "show_cmd 0 c = show_cmd 1 c"
  shows "claim_line c"
  unfolding claim_line_def
proof (intro allI impI)
  fix n r
  assume n: "4 * length (show_cmd 0 c @ r) + 4 \<le> n" and r: "stops [41] r"
  obtain k where k: "n = Suc k"
    using n by (cases n) auto
  have "stops [38, 59, 41] r"
    using r by (auto simp: stops_def)
  then obtain d s where d: "parsepipe k (show_cmd 0 c @ r) = POk d s" "parsebacks d s = parsebacks c r"
    using assms(1) [unfolded claim_back_def, rule_format, of r k] assms(2) n k by auto
  have "parsebacks c r = (c, skip_ws r)"
    using stops_peek [OF r, of "[38]"] by (subst parsebacks.simps) simp
  then show "parseline n (show_cmd 0 c @ r) = POk c (skip_ws r)"
    using d k stops_peek [OF r, of "[59]"] by simp
qed

lemma exec_of_line:
  assumes "claim_line c" "show_cmd 3 c = [40] @ show_cmd 0 c @ [41]"
  shows "claim_exec c"
  unfolding claim_exec_def
proof (intro allI impI)
  fix n r rs r'
  assume n: "4 * length (show_cmd 3 c @ r) + 2 \<le> n" and r: "parseredirs r = POk rs r'" "stops [124, 41, 38, 59] r'"
  obtain k where k: "n = Suc (Suc k)"
    using n by (cases n; cases "n - 1") auto
  let ?s = "show_cmd 0 c @ 41 # r"
  have "stops [41] (41 # r)"
    by (simp add: stops_def)
  then have l: "parseline k (skip_ws ?s) = POk c (41 # r)"
    using assms n k by (simp add: claim_line_def parseline_skip)
  have s: "show_cmd 3 c @ r = 40 # ?s"
    by (simp add: assms(2))
  have "peek (40 # ?s) [40]" "peek (41 # r) [41]"
    by (simp_all add: peek_def) (simp_all add: strchr_def)
  then show "parseexec n (show_cmd 3 c @ r) = POk (wrap c rs) (skip_ws r')"
    unfolding s k using l r(1) by (simp add: next_tok_symbol parseredirs_skip parseredirs_skipped)
qed

lemma exec_words:
  assumes "cmd_ok (Exec ws)"
  shows "claim_exec (Exec ws)"
  unfolding claim_exec_def
proof (intro allI impI)
  fix n r rs r'
  assume n: "4 * length (show_cmd 3 (Exec ws) @ r) + 2 \<le> n" and r: "parseredirs r = POk rs r'" "stops [124, 41, 38, 59] r'"
  have "\<not> peek (words ws @ r) [40]"
  proof (cases ws)
    case Nil
    show ?thesis
    proof
      assume "peek (words ws @ r) [40]"
      then have "skip_ws r \<noteq> []" "hd (skip_ws r) = 40"
        using Nil by (auto simp: peek_def words_def strchr_def)
      moreover then have "parseredirs r = POk [] (skip_ws r)"
        by (intro parseredirs_none) (simp add: peek_def strchr_def)
      ultimately show False
        using r by (simp add: stops_def)
    qed
  next
    case (Cons w v)
    then show ?thesis
      using assms peek_word [of w "[40]" "32 # words v @ r"] by (simp add: words_def symbols_def)
  qed
  then show "parseexec n (show_cmd 3 (Exec ws) @ r) = POk (wrap (Exec ws) rs) (skip_ws r')"
    using args_words [OF r, of ws "[]" "[]"] assms n by (cases n) simp_all
qed

lemma exec_redir:
  assumes "claim_exec c" "cmd_ok (Redir c f m fd)"
  shows "claim_exec (Redir c f m fd)"
  unfolding claim_exec_def
proof (intro allI impI)
  fix n r rs r'
  assume n: "4 * length (show_cmd 3 (Redir c f m fd) @ r) + 2 \<le> n" and r: "parseredirs r = POk rs r'" "stops [124, 41, 38, 59] r'"
  have "parseredirs (show_redir (f, m, fd) @ r) = POk ((f, m, fd) # rs) r'"
    using parseredirs_show [of f m fd r] assms(2) r(1) by simp
  then show "parseexec n (show_cmd 3 (Redir c f m fd) @ r) = POk (wrap (Redir c f m fd) rs) (skip_ws r')"
    using assms(1) [unfolded claim_exec_def, rule_format, of "show_redir (f, m, fd) @ r" n "(f, m, fd) # rs" r'] n r(2) by simp
qed

lemma parseredirs_symbol: "c \<in> {124, 41, 38, 59} \<Longrightarrow> parseredirs (c # s) = POk [] (c # s)"
  by (elim insertE; simp; subst parseredirs_none, simp add: peek_def, simp add: strchr_def, simp)

lemma pipe_pipe:
  assumes "claim_exec a" "claim_pipe b"
  shows "claim_pipe (Pipe a b)"
  unfolding claim_pipe_def
proof (intro allI impI)
  fix n r
  assume n: "4 * length (show_cmd 2 (Pipe a b) @ r) + 3 \<le> n" and r: "stops [38, 59, 41] r"
  obtain k where k: "n = Suc k"
    using n by (cases n) auto
  let ?r = "show_cmd 2 b @ r"
  have s: "show_cmd 2 (Pipe a b) @ r = show_cmd 3 a @ 124 # ?r"
    by (simp add: paren_def)
  have "parseexec k (show_cmd 3 a @ 124 # ?r) = POk a (124 # ?r)"
    using assms(1) [unfolded claim_exec_def, rule_format, of "124 # ?r" k "[]" "124 # ?r"] n k s
    by (simp add: parseredirs_symbol stops_def)
  moreover have "parsepipe k ?r = POk b (skip_ws r)"
    using assms(2) [unfolded claim_pipe_def, rule_format, of r k] r n k s by simp
  moreover have "peek (124 # ?r) [124]"
    by (simp add: peek_def) (simp add: strchr_def)
  ultimately show "parsepipe n (show_cmd 2 (Pipe a b) @ r) = POk (Pipe a b) (skip_ws r)"
    unfolding s k by (simp add: next_tok_symbol parsepipe_skip)
qed

lemma back_back:
  assumes "claim_back c"
  shows "claim_back (Back c)"
  unfolding claim_back_def
proof (intro allI impI)
  fix n r
  assume n: "4 * length (show_cmd 1 (Back c) @ r) + 3 \<le> n" and r: "stops [38, 59, 41] r"
  have "stops [38, 59, 41] (38 # r)"
    by (simp add: stops_def)
  then obtain d s where d: "parsepipe n (show_cmd 1 c @ 38 # r) = POk d s" "parsebacks d s = parsebacks c (38 # r)"
    using assms [unfolded claim_back_def, rule_format, of "38 # r" n] n by (auto simp: paren_def)
  have "peek (38 # r) [38]"
    by (simp add: peek_def) (simp add: strchr_def)
  then have "parsebacks c (38 # r) = parsebacks (Back c) r"
    by (subst parsebacks.simps) (simp add: gettoken_symbol parsebacks_skip)
  then show "\<exists>d s. parsepipe n (show_cmd 1 (Back c) @ r) = POk d s \<and> parsebacks d s = parsebacks (Back c) r"
    using d by (simp add: paren_def)
qed

lemma line_list:
  assumes "claim_back a" "claim_line b"
  shows "claim_line (List a b)"
  unfolding claim_line_def
proof (intro allI impI)
  fix n r
  assume n: "4 * length (show_cmd 0 (List a b) @ r) + 4 \<le> n" and r: "stops [41] r"
  obtain k where k: "n = Suc k"
    using n by (cases n) auto
  let ?r = "show_cmd 0 b @ r"
  have s: "show_cmd 0 (List a b) @ r = show_cmd 1 a @ 59 # ?r"
    by (simp add: paren_def)
  have "stops [38, 59, 41] (59 # ?r)"
    by (simp add: stops_def)
  then obtain d q where d: "parsepipe k (show_cmd 1 a @ 59 # ?r) = POk d q" "parsebacks d q = parsebacks a (59 # ?r)"
    using assms(1) [unfolded claim_back_def, rule_format, of "59 # ?r" k] n k s by auto
  have "parsebacks a (59 # ?r) = (a, 59 # ?r)" "peek (59 # ?r) [59]"
    by (subst parsebacks.simps, simp add: peek_def, simp add: strchr_def) (simp add: peek_def, simp add: strchr_def)
  moreover have "parseline k ?r = POk b (skip_ws r)"
    using assms(2) [unfolded claim_line_def, rule_format, of r k] r n k s by simp
  ultimately show "parseline n (show_cmd 0 (List a b) @ r) = POk (List a b) (skip_ws r)"
    unfolding s k using d by (simp add: next_tok_symbol parseline_skip)
qed

lemma claims:
  "cmd_ok c \<Longrightarrow> claim_exec c \<and> claim_pipe c \<and> claim_back c \<and> claim_line c"
proof (induction c)
  case (Exec ws)
  then show ?case
    using exec_words pipe_of_exec back_of_pipe line_of_back by simp
next
  case (Redir c f m fd)
  then show ?case
    using exec_redir pipe_of_exec back_of_pipe line_of_back by simp
next
  case (Pipe a b)
  then have "claim_pipe (Pipe a b)"
    by (simp add: pipe_pipe)
  then show ?case
    using back_of_pipe line_of_back exec_of_line by (simp add: paren_def)
next
  case (List a b)
  then have "claim_line (List a b)"
    by (simp add: line_list)
  then show ?case
    using exec_of_line pipe_of_exec back_of_pipe by (simp add: paren_def)
next
  case (Back c)
  then have "claim_back (Back c)"
    by (simp add: back_back)
  then show ?case
    using line_of_back exec_of_line pipe_of_exec by (simp add: paren_def)
qed

section \<open>Properties\<close>

text \<open>
  C34: The parser of the shell inverts the printing of command trees: every command made of programs
  with fewer than ten plain words, redirections, pipes, lists, background marks and parentheses where
  the grammar needs them is read back as the same tree with nothing left over.
\<close>

theorem parse_show_roundtrip:
  assumes "cmd_ok c"
  shows "parsecmd (show_cmd 0 c) = POk c []"
proof -
  have "parseline (4 * length (show_cmd 0 c) + 4) (show_cmd 0 c @ []) = POk c (skip_ws [])"
    using claims [OF assms, unfolded claim_line_def, THEN conjunct2, THEN conjunct2, THEN conjunct2, rule_format, of "[]"]
    by (simp add: stops_def skip_ws_def)
  then show ?thesis
    by (simp add: parsecmd_def skip_ws_def)
qed

theorem parse_show_roundtrip_witness:
  "cmd_ok (List (Back (Pipe (Exec [[108, 115]]) (Redir (Exec [[119, 99]]) [111] O_WRONLY_CREATE 1))) (Exec [[101]])) \<and>
   parsecmd [108, 115, 32, 124, 119, 99, 32, 62, 111, 32, 38, 59, 101, 32] =
     POk (List (Back (Pipe (Exec [[108, 115]]) (Redir (Exec [[119, 99]]) [111] O_WRONLY_CREATE 1))) (Exec [[101]])) []"
proof -
  let ?c = "List (Back (Pipe (Exec [[108, 115]]) (Redir (Exec [[119, 99]]) [111] O_WRONLY_CREATE 1))) (Exec [[101]])"
  have "cmd_ok ?c"
    by (simp add: word_ok_def plain_def strchr_def whitespace_def symbols_def)
  moreover have "show_cmd 0 ?c = [108, 115, 32, 124, 119, 99, 32, 62, 111, 32, 38, 59, 101, 32]"
    by (simp add: words_def paren_def show_redir_def)
  ultimately show ?thesis
    using parse_show_roundtrip [of ?c] by simp
qed

text \<open>
  C35: The parser answers every line: the recursion of the grammar always ends, with a command or with
  one of the parser's panics, within a depth of four calls for each character of the line.
\<close>

theorem parsecmd_total: "\<exists>c. parsecmd s = POk c [] \<or> (\<exists>e. parsecmd s = PPanic e)"
  using parse_total [of s "4 * length s + 4"]
  by (cases "parseline (4 * length s + 4) s") (auto simp: parsecmd_def total_on_def)

end
