(* ===== verification/Utils.thy ===== *)
theory Utils
  imports Ulib
begin

text \<open>
  The file utilities: \<^verbatim>\<open>cat\<close>, \<^verbatim>\<open>wc\<close>, \<^verbatim>\<open>echo\<close>, the name formatting of \<^verbatim>\<open>ls\<close>, the argument loops of \<^verbatim>\<open>rm\<close> and \<^verbatim>\<open>mkdir\<close>
  and the listing of \<^verbatim>\<open>history\<close>. A file is what its reads return one after the other: \<open>Some\<close> bytes, at the end \<open>Some []\<close> or
  nothing more, or \<open>None\<close> for an error. System calls whose results the programs test are arguments.
\<close>

section \<open>cat\<close>

text \<open>The bytes written and the error message, if any; \<open>wr\<close> is what \<^verbatim>\<open>write\<close> returns.\<close>

fun cat :: "(u8 list \<Rightarrow> int) \<Rightarrow> u8 list option list \<Rightarrow> u8 list list \<times> string option" where
  "cat wr [] = ([], None)"
| "cat wr (None # rs) = ([], Some ''cat: read error'')"
| "cat wr (Some c # rs) =
     (if c = [] then ([], None)
      else if wr c \<noteq> int (length c) then ([c], Some ''cat: write error'')
      else let (out, e) = cat wr rs in (c # out, e))"

section \<open>wc\<close>

record wc_state =
  wc_l :: nat
  wc_w :: nat
  wc_c :: nat
  inword :: bool

definition wc_char :: "u8 \<Rightarrow> wc_state \<Rightarrow> wc_state" where
  "wc_char b s =
     (let s = s\<lparr>wc_c := wc_c s + 1\<rparr>;
          s = (if b = 10 then s\<lparr>wc_l := wc_l s + 1\<rparr> else s)
      in if strchr [32, 13, 9, 10, 11] b then s\<lparr>inword := False\<rparr>
         else if \<not> inword s then s\<lparr>wc_w := wc_w s + 1, inword := True\<rparr>
         else s)"

fun wc_loop :: "u8 list option list \<Rightarrow> wc_state \<Rightarrow> wc_state option" where
  "wc_loop [] s = Some s"
| "wc_loop (None # rs) s = None"
| "wc_loop (Some c # rs) s = (if c = [] then Some s else wc_loop rs (fold wc_char c s))"

text \<open>The numbers that \<^verbatim>\<open>wc\<close> prints, or \<open>None\<close> for the read error.\<close>

definition wc :: "u8 list option list \<Rightarrow> (nat \<times> nat \<times> nat) option" where
  "wc rs = map_option (\<lambda>s. (wc_l s, wc_w s, wc_c s)) (wc_loop rs \<lparr>wc_l = 0, wc_w = 0, wc_c = 0, inword = False\<rparr>)"

section \<open>echo, ls, rm, mkdir and history\<close>

fun echo :: "u8 list list \<Rightarrow> u8 list" where
  "echo [] = []"
| "echo (a # as) = a @ (if as \<noteq> [] then [32] else [10]) @ echo as"

text \<open>The loop runs down from the NUL to the last slash or to the position before the path.\<close>

fun last_slash :: "u8 list \<Rightarrow> nat \<Rightarrow> nat" where
  "last_slash path 0 = 0"
| "last_slash path (Suc i) = (if path ! i \<noteq> 47 then last_slash path i else Suc i)"

definition fmtname :: "u8 list \<Rightarrow> u8 list" where
  "fmtname path =
     (let p = drop (last_slash path (length path)) path
      in if 14 \<le> length p then p else p @ replicate (14 - length p) 32)"

text \<open>\<^verbatim>\<open>rm\<close> and \<^verbatim>\<open>mkdir\<close> stop at the first file for which the system call fails; the result is the arguments that were handled.\<close>

fun each_file :: "(u8 list \<Rightarrow> int) \<Rightarrow> u8 list list \<Rightarrow> u8 list list" where
  "each_file call [] = []"
| "each_file call (a # as) = (if call a < 0 then [] else a # each_file call as)"

definition history_lines :: "(int \<times> u8 list \<times> int) list \<Rightarrow> (int \<times> u8 list \<times> int) list" where
  "history_lines hist = filter (\<lambda>(pid, name, mem). name \<noteq> [115, 104]) hist"

section \<open>Properties\<close>

definition is_space :: "u8 \<Rightarrow> bool" where
  "is_space b \<longleftrightarrow> b \<in> {32, 13, 9, 10, 11}"

text \<open>A word begins at a byte that is not a space, at the start or after a space.\<close>

definition word_starts :: "u8 list \<Rightarrow> nat set" where
  "word_starts d = {i. i < length d \<and> \<not> is_space (d ! i) \<and> (i = 0 \<or> is_space (d ! (i - 1)))}"

lemma cat_copies:
  assumes "\<forall>c\<in>set cs. c \<noteq> [] \<and> wr c = int (length c)"
  shows "cat wr (map Some cs) = (cs, None)"
  using assms by (induction cs) simp_all

lemma word_starts_snoc:
  "word_starts (d @ [b]) = word_starts d \<union> (if \<not> is_space b \<and> (d = [] \<or> is_space (last d)) then {length d} else {})"
  by (cases d rule: rev_cases) (auto simp: word_starts_def nth_append less_Suc_eq)

lemma word_starts_finite: "finite (word_starts d)" "length d \<notin> word_starts d"
  by (simp_all add: word_starts_def)

text \<open>The state of the counting loop after the bytes \<open>d\<close>, wherever the reads have cut them.\<close>

definition counted :: "u8 list \<Rightarrow> wc_state" where
  "counted d = \<lparr>wc_l = count_list d 10, wc_w = card (word_starts d), wc_c = length d, inword = (d \<noteq> [] \<and> \<not> is_space (last d))\<rparr>"

lemma wc_char_counted: "wc_char b (counted d) = counted (d @ [b])"
  using word_starts_finite [of d]
  by (auto simp: wc_char_def counted_def Let_def word_starts_snoc strchr_def is_space_def)

lemma fold_wc_char: "fold wc_char c (counted d) = counted (d @ c)"
  by (induction c arbitrary: d) (simp_all add: wc_char_counted)

lemma wc_loop_counted:
  "\<forall>c\<in>set cs. c \<noteq> [] \<Longrightarrow> wc_loop (map Some cs) (counted d) = Some (counted (d @ concat cs))"
  by (induction cs arbitrary: d) (simp_all add: fold_wc_char)

text \<open>
  \<^verbatim>\<open>wc\<close> prints the number of newlines, of words and of bytes of the file, however the reads have cut it into pieces: a
  word that is split over two reads is counted once.
\<close>

lemma wc_counts:
  assumes "\<forall>c\<in>set cs. c \<noteq> []"
  shows "wc (map Some cs) = Some (count_list (concat cs) 10, card (word_starts (concat cs)), length (concat cs))"
proof -
  have "counted [] = \<lparr>wc_l = 0, wc_w = 0, wc_c = 0, inword = False\<rparr>"
    by (simp add: counted_def word_starts_def)
  then show ?thesis
    using wc_loop_counted [OF assms, of "[]"] by (simp add: wc_def counted_def)
qed

lemma wc_counts_witness: "wc [Some [104, 105, 32, 120], Some [121, 10]] = Some (1, 2, 6)"
proof -
  have "word_starts [104, 105, 32, 120, 121, 10] = {0, 3}"
    by (auto simp: word_starts_def is_space_def nth_Cons' less_Suc_eq split: if_splits)
  then show ?thesis
    using wc_counts [of "[[104, 105, 32, 120], [121, 10]]"] by simp
qed

text \<open>The name that \<^verbatim>\<open>ls\<close> prints has no slash and fills its column.\<close>

lemma last_slash_le: "last_slash path i \<le> i"
  by (induction i) auto

lemma last_slash_after: "last_slash path n \<le> i \<Longrightarrow> i < n \<Longrightarrow> path ! i \<noteq> 47"
  by (induction n) (auto simp: less_Suc_eq split: if_splits)

lemma fmtname_spec: "14 \<le> length (fmtname path) \<and> 47 \<notin> set (fmtname path)"
proof -
  have "path ! i \<noteq> 47" if "last_slash path (length path) \<le> i" "i < length path" for i
    using last_slash_after that by blast
  then have "47 \<notin> set (drop (last_slash path (length path)) path)"
    by (auto simp: in_set_conv_nth)
  then show ?thesis
    by (auto simp: fmtname_def Let_def)
qed

end
