(* ===== verification/Spec2Isabelle.thy ===== *)
theory Spec2Isabelle
  imports Syscall Lifecycle Spinlock Address_Space Directory Ide Mp Cprintf Umalloc Grep Login Shell Utils
begin

text \<open>
  A verification of the operating system of this repository: the xv6 kernel for the x86, with its additions (process history, blocked system calls,
  permission bits, login), and its user programs.

  \<^bold>\<open>The program and its parts.\<close> The kernel is a set of C modules over one shared state. At the bottom are
  physical memory and its page allocator (\<^verbatim>\<open>kalloc.c\<close>, \<^verbatim>\<open>string.c\<close>), the spin locks (\<^verbatim>\<open>spinlock.c\<close>) and the
  process table with sleeping and waking (\<^verbatim>\<open>proc.c\<close>, \<^verbatim>\<open>sleeplock.c\<close>). The file system is a stack on top of them: disk (\<^verbatim>\<open>memide.c\<close> or \<^verbatim>\<open>ide.c\<close>),
  buffer cache (\<^verbatim>\<open>bio.c\<close>), write-ahead log (\<^verbatim>\<open>log.c\<close>), inodes, file contents, directories and paths (\<^verbatim>\<open>fs.c\<close>), open files and pipes
  (\<^verbatim>\<open>file.c\<close>, \<^verbatim>\<open>pipe.c\<close>), beside the console (\<^verbatim>\<open>console.c\<close>, \<^verbatim>\<open>kbd.c\<close>, \<^verbatim>\<open>uart.c\<close>). Page tables (\<^verbatim>\<open>vm.c\<close>), the
  process life cycle (\<^verbatim>\<open>proc.c\<close>) and \<^verbatim>\<open>exec.c\<close> make up processes, and the system calls (\<^verbatim>\<open>sysproc.c\<close>, \<^verbatim>\<open>sysfile.c\<close>, \<^verbatim>\<open>syscall.c\<close>, \<^verbatim>\<open>trap.c\<close>) tie
  all of it together. User programs (\<^verbatim>\<open>init.c\<close>, \<^verbatim>\<open>sh.c\<close>, \<^verbatim>\<open>grep.c\<close>, the utilities) run on the
  library \<^verbatim>\<open>ulib.c\<close>, \<^verbatim>\<open>printf.c\<close>, \<^verbatim>\<open>umalloc.c\<close>.

  \<^bold>\<open>The form of the model.\<close> A kernel routine is a function from the state to an outcome \<open>kres\<close>: it returns a value and a new
  state, it has gone to sleep on a channel, the process has exited, or the kernel panicked with a message. \<open>bindr\<close> is sequencing, \<open>foreach\<close> and \<open>firstr\<close>
  are the bounded loops, and \<open>okr r P\<close> says that the outcome \<open>r\<close> is a return satisfying \<open>P\<close>, so that a theorem with it excludes panics. The state is a chain
  of records, each component extending the one below: \<open>kmem_state\<close>, \<open>ptable_state\<close>, \<open>bio_state\<close>,
  \<open>log_state\<close>, \<open>inode_state\<close>, \<open>console_state\<close>, then files, up to \<open>kstate\<close>; an operation is polymorphic in the
  extension, so it works on every larger state. 32-bit integers are words and wrap around; loops whose bounds are checked before run on natural
  numbers. Constants keep the names of the headers.

  \<^bold>\<open>Theories and sources.\<close>
  \<^item> \<open>Prelude\<close>: outcomes, loops, little-endian fields. \<open>Layout\<close>: \<^verbatim>\<open>param.h\<close>, \<^verbatim>\<open>memlayout.h\<close>, \<^verbatim>\<open>mmu.h\<close>. \<open>Memory\<close>, \<open>CString\<close>: memory and \<^verbatim>\<open>string.c\<close>; each
    routine equals a one-line description, and \<^verbatim>\<open>memmove\<close> is right for overlapping ranges.
  \<^item> \<open>Kalloc\<close>: \<^verbatim>\<open>kalloc.c\<close>. The free list threaded through the pages; every page is handed out once. Its contract is the locale \<open>page_allocator\<close>.
  \<^item> \<open>Spinlock\<close>: \<^verbatim>\<open>spinlock.c\<close>, one step per memory access, all CPUs interleaved: mutual exclusion with interrupts off. This is why
    the other theories take a critical section as one step.
  \<^item> \<open>Ptable\<close>: the table of \<^verbatim>\<open>proc.c\<close>, sleep locks, the history ring. \<open>Proc\<close>: fork, exit, wait, the scheduler. \<open>Lifecycle\<close>: the critical sections as a transition
    system on all CPUs: no process on two CPUs, no exit is missed.
  \<^item> \<open>Bio\<close>: \<^verbatim>\<open>bio.c\<close> over \<^verbatim>\<open>memide.c\<close>, with the locale \<open>block_cache\<close>. \<open>Ide\<close>: \<^verbatim>\<open>ide.c\<close>, the queue of requests and the port writes; requests
    are served in order and each interrupt completes one. \<open>Log\<close>: \<^verbatim>\<open>log.c\<close>, with crashes between any two disk writes: a transaction is
    installed completely or not at all, and recovery can be repeated; the locale \<open>logged_blocks\<close> is what the inode layer uses.
  \<^item> \<open>Inode\<close>, \<open>Fs\<close>: \<^verbatim>\<open>fs.c\<close>. \<open>Filedata\<close>: a file is a list of bytes; \<^verbatim>\<open>readi\<close> returns a part of it and \<^verbatim>\<open>writei\<close> overwrites a part, allocating
    blocks, and no other file changes. \<open>Directory\<close>: a directory is a map from names to inode numbers, which \<^verbatim>\<open>dirlookup\<close> reads and \<^verbatim>\<open>dirlink\<close> extends.
  \<^item> \<open>Pipe\<close>: \<^verbatim>\<open>pipe.c\<close> as a queue of bytes (locale \<open>byte_queue\<close>) and its wake-ups. \<open>File\<close>: \<^verbatim>\<open>file.c\<close>.
  \<^item> \<open>Console\<close>: the screen and the input ring of \<^verbatim>\<open>console.c\<close>. \<open>Kbd\<close>: \<^verbatim>\<open>kbd.c\<close>, \<^verbatim>\<open>kbd.h\<close> and the input side of \<^verbatim>\<open>uart.c\<close>. \<open>Tty\<close>: both together are a line editor.
    \<open>Cprintf\<close>: \<^verbatim>\<open>cprintf\<close>, which only writes to the screen and the serial port.
  \<^item> \<open>Vm\<close>: \<^verbatim>\<open>vm.c\<close> on page tables in memory. \<open>Paging\<close>: \<^verbatim>\<open>mappages\<close> updates the translation. \<open>Uvm\<close>, \<open>Uvm_Grow\<close>, \<open>Uvm_Copy\<close>, \<open>Fork_Memory\<close>, \<open>Address_Space\<close>: growing, releasing,
    writing and copying an address space; a failure restores it, and no page is lost or shared.
  \<^item> \<open>Exec\<close>: \<^verbatim>\<open>exec.c\<close>. \<open>Sysproc\<close>, \<open>Sysfile\<close>, \<open>Syscall\<close>: all system calls, argument fetching, the dispatcher with the blocked calls, the trap handler; the theorems are on the
    repository's additions: history, blocking and permissions.
  \<^item> \<open>Mp\<close>: \<^verbatim>\<open>mp.c\<close>, the search for the processors in the tables of the BIOS.
  \<^item> \<open>Ulib\<close>: \<^verbatim>\<open>ulib.c\<close>, \<^verbatim>\<open>printf.c\<close>. \<open>Umalloc\<close>: \<^verbatim>\<open>umalloc.c\<close>; for every sequence of requests of a program the live objects are
    disjoint and keep their bytes (locale \<open>object_heap\<close>). \<open>Grep\<close>: the matcher decides the language of the pattern. \<open>Login\<close>: \<^verbatim>\<open>init.c\<close>. \<open>Shell\<close>: the parser of \<^verbatim>\<open>sh.c\<close> reads back what
    a printer of command trees writes. \<open>Utils\<close>: \<^verbatim>\<open>wc\<close>, \<^verbatim>\<open>cat\<close>, \<^verbatim>\<open>echo\<close>, and parts of \<^verbatim>\<open>ls\<close>, \<^verbatim>\<open>rm\<close>, \<^verbatim>\<open>mkdir\<close>, \<^verbatim>\<open>history\<close>.

  \<^bold>\<open>Parameters and hypotheses.\<close> What is not in the sources is an argument: the bytes a device returns, the status
  bytes that a polling loop sees, the linker symbols, the credentials compiled into \<^verbatim>\<open>init\<close>. In \<open>Umalloc\<close> the system call \<^verbatim>\<open>sbrk\<close> is one, with the hypothesis \<open>sbrk_ok\<close> that it fails or
  extends the memory below the kernel. Each property with hypotheses has a witness on a concrete state.

  \<^bold>\<open>Termination, bounds and fuel.\<close> Loops of the kernel are bounded and total. The searches of \<^verbatim>\<open>free\<close> and
  \<^verbatim>\<open>malloc\<close>, the walk of the disk queue and the loop of \<^verbatim>\<open>mpinit\<close> are partial functions with \<open>None\<close> for a loop that never ends; the theorems prove that they return, and for \<^verbatim>\<open>mpinit\<close>
  where it does not. The mutually recursive parser of the shell takes fuel, \<open>4 * length + 4\<close>, of which each call uses one and four calls consume at least one character; \<open>parsecmd_total\<close> shows that it never runs
  out. The kill-line loop of the console has 128 turns of fuel, the size of the buffer.

  \<^bold>\<open>Idealisations.\<close> Process identifiers are unbounded integers. A sleeping outcome ends a routine: what it does after waking up is a further call, and interleavings of sleeping kernel threads are
  modelled for the process table, the pipes, the spin locks and the disk queue only. The contents of files are related to the disk inside a transaction. The spin lock inside the page of a pipe is
  not stored there. Messages on the console are left out of the kernel routines. The shell takes \<^verbatim>\<open>malloc\<close> to succeed, and its counted strings make \<^verbatim>\<open>nulterminate\<close> the
  identity. A null pointer that the kernel dereferences is a fault, which panics.

  \<^bold>\<open>Not modelled.\<close> Assembly code and the switch of stacks (\<^verbatim>\<open>swtch.S\<close>, \<^verbatim>\<open>trapasm.S\<close>, \<^verbatim>\<open>entry.S\<close>, \<^verbatim>\<open>initcode.S\<close>): below the C semantics used here. \<^verbatim>\<open>lapic.c\<close>, \<^verbatim>\<open>ioapic.c\<close>, \<^verbatim>\<open>picirq.c\<close>,
  \<^verbatim>\<open>uartinit\<close>, segment and interrupt descriptors: writes to hardware registers with no effect on the modelled state. \<^verbatim>\<open>main.c\<close> and \<^verbatim>\<open>bootmain.c\<close>: start-up
  order and the boot loader. \<^verbatim>\<open>mkfs.c\<close>: a program of the build host. \<^verbatim>\<open>procdump\<close>, \<^verbatim>\<open>getcallerpcs\<close>: debugging output. \<^verbatim>\<open>usertests.c\<close>, \<^verbatim>\<open>forktest.c\<close>, \<^verbatim>\<open>stressfs.c\<close>, \<^verbatim>\<open>zombie.c\<close>: tests. \<^verbatim>\<open>kill.c\<close>, \<^verbatim>\<open>ln.c\<close>, \<^verbatim>\<open>block.c\<close>,
  \<^verbatim>\<open>unblock.c\<close>: one system call each.
\<close>

end
